(* ===== verification/Prelude.thy ===== *)
theory Prelude
  imports Main
begin

text \<open>
  Shared vocabulary of the development: the Python exceptions the modelled code can raise and the
  result type that carries them, Python's integer ceiling division and list slicing, insertion
  ordered dictionaries, and the generic facts about lists and maps that the component theories use.

  Python integers are modelled by \<open>int\<close>, list positions and object addresses by \<open>nat\<close>.
\<close>

named_theorems py_simps \<open>unfolding rules for the result monad\<close>
named_theorems frame_simps \<open>what an operation leaves unchanged\<close>

section \<open>Results and exceptions\<close>

datatype py_error =
    ValueError
  | AssertionError
  | KeyError
  | IndexError
  | RuntimeError
  | NotImplementedError
  | OSError
  | AttributeError
  | ZeroDivisionError
  | TypeError

type_synonym 'a py = "py_error + 'a"

definition py_bind :: "'a py \<Rightarrow> ('a \<Rightarrow> 'b py) \<Rightarrow> 'b py" where
  "py_bind m f = (case m of Inl e \<Rightarrow> Inl e | Inr x \<Rightarrow> f x)"

definition py_assert :: "bool \<Rightarrow> 'a py \<Rightarrow> 'a py" where
  "py_assert b m = (if b then m else Inl AssertionError)"

lemma py_bind_simps [simp, py_simps]:
  "py_bind (Inr x) f = f x"
  "py_bind (Inl e) f = Inl e"
  by (simp_all add: py_bind_def)

lemma py_bind_eq_Inr [simp]: "py_bind m f = Inr y \<longleftrightarrow> (\<exists>x. m = Inr x \<and> f x = Inr y)"
  by (auto simp: py_bind_def split: sum.splits)

lemma py_bind_eq_Inl: "py_bind m f = Inl e \<longleftrightarrow> m = Inl e \<or> (\<exists>x. m = Inr x \<and> f x = Inl e)"
  by (auto simp: py_bind_def split: sum.splits)

lemma py_assert_True [simp]: "py_assert True m = m"
  by (simp add: py_assert_def)

lemma py_assert_False [simp]: "py_assert False m = Inl AssertionError"
  by (simp add: py_assert_def)

lemma py_assert_eq_Inr [simp]: "py_assert b m = Inr y \<longleftrightarrow> b \<and> m = Inr y"
  by (simp add: py_assert_def)

section \<open>Integers\<close>

text \<open>\<open>vllm.utils.cdiv\<close>: \<open>-(a // -b)\<close>, with Python's floor division.\<close>

definition cdiv :: "int \<Rightarrow> int \<Rightarrow> int" where
  "cdiv a b = - (a div (- b))"

lemma int_le_div_iff: "0 < (b::int) \<Longrightarrow> x \<le> y div b \<longleftrightarrow> x * b \<le> y"
proof
  assume b: "0 < b" and "x \<le> y div b"
  then have "x * b \<le> y div b * b" by simp
  also have "\<dots> \<le> y" using b by (simp add: minus_mod_eq_div_mult [symmetric])
  finally show "x * b \<le> y" .
next
  assume b: "0 < b" and "x * b \<le> y"
  then have "x * b div b \<le> y div b" by (intro zdiv_mono1)
  then show "x \<le> y div b" using b by simp
qed

lemma cdiv_le_iff: "0 < b \<Longrightarrow> cdiv a b \<le> k \<longleftrightarrow> a \<le> k * b"
proof -
  assume b: "0 < b"
  have "cdiv a b = - ((- a) div b)"
    by (simp add: cdiv_def div_minus_right)
  moreover have "- ((- a) div b) \<le> k \<longleftrightarrow> - k \<le> (- a) div b"
    by linarith
  moreover have "- k \<le> (- a) div b \<longleftrightarrow> (- k) * b \<le> - a"
    using b by (rule int_le_div_iff)
  ultimately show ?thesis by auto
qed

lemma cdiv_mult_ge: "0 < b \<Longrightarrow> a \<le> cdiv a b * b"
  using cdiv_le_iff [of b a "cdiv a b"] by simp

lemma cdiv_mono: "0 < b \<Longrightarrow> a \<le> a' \<Longrightarrow> cdiv a b \<le> cdiv a' b"
  using cdiv_mult_ge [of b a'] by (simp add: cdiv_le_iff)

lemma cdiv_nonneg: "0 < b \<Longrightarrow> 0 \<le> a \<Longrightarrow> 0 \<le> cdiv a b"
proof -
  assume b: "0 < b" and a: "0 \<le> a"
  have "\<not> cdiv a b \<le> - 1"
    using a b cdiv_le_iff [of b a "-1"] by auto
  then show ?thesis by simp
qed

lemma cdiv_pos: "0 < b \<Longrightarrow> 0 < a \<Longrightarrow> 0 < cdiv a b"
proof -
  assume b: "0 < b" and a: "0 < a"
  have "\<not> cdiv a b \<le> 0"
    using a b cdiv_le_iff [of b a 0] by auto
  then show ?thesis by simp
qed

section \<open>Python list slices\<close>

text \<open>
  \<open>xs[a:b]\<close>: a negative bound counts from the end, and bounds are clipped to the list.
\<close>

definition py_clip :: "int \<Rightarrow> int \<Rightarrow> nat" where
  "py_clip n i = nat (if i < 0 then max 0 (n + i) else min n i)"

definition py_slice :: "'a list \<Rightarrow> int \<Rightarrow> int \<Rightarrow> 'a list" where
  "py_slice xs a b =
     (let lo = py_clip (int (length xs)) a; hi = py_clip (int (length xs)) b
      in take (hi - lo) (drop lo xs))"

lemma py_slice_nat:
  "py_slice xs (int a) (int b) = take (b - a) (drop a xs)"
proof -
  have "py_clip (int (length xs)) (int k) = min (length xs) k" for k
    by (auto simp: py_clip_def min_def nat_int)
  then have "py_slice xs (int a) (int b) =
      take (min (length xs) b - min (length xs) a) (drop (min (length xs) a) xs)"
    by (simp add: py_slice_def Let_def)
  also have "\<dots> = take (b - a) (drop a xs)"
    by (cases "a \<le> length xs"; cases "b \<le> length xs") (auto simp: min_def)
  finally show ?thesis .
qed

lemma py_slice_nonneg:
  "0 \<le> a \<Longrightarrow> 0 \<le> b \<Longrightarrow> py_slice xs a b = take (nat b - nat a) (drop (nat a) xs)"
  using py_slice_nat [of xs "nat a" "nat b"] by simp

lemma set_py_slice_subset: "set (py_slice xs a b) \<subseteq> set xs"
  by (auto simp: py_slice_def Let_def dest: in_set_takeD in_set_dropD)

section \<open>Lists and maps\<close>

lemma nth_list_update_cases:
  "xs[i := x] ! j = (if i = j \<and> j < length xs then x else xs ! j)"
  by (cases "i < length xs") (auto simp: nth_list_update list_update_beyond)

text \<open>How often \<open>b\<close> occurs in the lists stored in a map with finite domain.\<close>

definition total_count :: "('k \<rightharpoonup> 'a list) \<Rightarrow> 'a \<Rightarrow> nat" where
  "total_count M b = (\<Sum>k\<in>dom M. count_list (the (M k)) b)"

lemma total_count_empty [simp]: "total_count Map.empty b = 0"
  by (simp add: total_count_def)

lemma total_count_remove:
  assumes "finite (dom M)" and "M k = Some xs"
  shows "total_count M b = total_count (M(k := None)) b + count_list xs b"
proof -
  have "dom M = insert k (dom M - {k})" using assms(2) by auto
  then have "total_count M b = count_list xs b +
      (\<Sum>j\<in>dom M - {k}. count_list (the (M j)) b)"
    using assms sum.insert_remove [of "dom M" "\<lambda>j. count_list (the (M j)) b" k]
    by (simp add: total_count_def)
  also have "(\<Sum>j\<in>dom M - {k}. count_list (the (M j)) b) = total_count (M(k := None)) b"
    by (auto simp: total_count_def intro!: sum.cong)
  finally show ?thesis by simp
qed

lemma total_count_upd_fresh:
  assumes "finite (dom M)" and "M k = None"
  shows "total_count (M(k \<mapsto> xs)) b = total_count M b + count_list xs b"
  using total_count_remove [of "M(k \<mapsto> xs)" k xs b] assms
  by (simp add: fun_upd_idem)

lemma total_count_upd:
  assumes "finite (dom M)" and "M k = Some xs"
  shows "total_count (M(k \<mapsto> ys)) b + count_list xs b = total_count M b + count_list ys b"
proof -
  have "total_count ((M(k := None))(k \<mapsto> ys)) b = total_count (M(k := None)) b + count_list ys b"
    using assms by (intro total_count_upd_fresh) auto
  moreover have "(M(k := None))(k \<mapsto> ys) = M(k \<mapsto> ys)" by simp
  ultimately show ?thesis
    using total_count_remove [OF assms, of b] by simp
qed

lemma count_list_total_count_le:
  assumes "finite (dom M)" and "M k = Some xs"
  shows "count_list xs b \<le> total_count M b"
  using total_count_remove [OF assms] by simp

lemma total_count_0_iff:
  "finite (dom M) \<Longrightarrow> total_count M b = 0 \<longleftrightarrow> (\<forall>k xs. M k = Some xs \<longrightarrow> b \<notin> set xs)"
  by (force simp: total_count_def dom_def count_list_0_iff)

end
