(* ===== verification/SamplingParams.thy ===== *)
theory SamplingParams
  imports Prelude Complex_Main
begin

text \<open>
  The sampling parameters of a request (\<open>vllm/sampling_params.py\<close>): the validation and normalisation
  done in \<open>__post_init__\<close>, the merge with the generation configuration of the model, and the sampling
  type.

  A \<open>float\<close> is the rational number it denotes (no \<open>nan\<close>; the constants \<open>1e-5\<close> and \<open>1e-2\<close> are exact).
  Python's \<open>True\<close> is the number 1, so \<open>1 if x is True else x\<close> is the identity on numbers.  The type
  checks by \<open>isinstance\<close> hold by typing.  Logits processors, logit bias and guided decoding, which
  only the V0 engine uses, are left out.
\<close>

section \<open>Data\<close>

datatype SamplingType = GREEDY | RANDOM | RANDOM_SEED

datatype RequestOutputKind = CUMULATIVE | DELTA | FINAL_ONLY

text \<open>\<open>stop\<close> may be given as one string or as a list of strings.\<close>

datatype stop_arg = StopOne string | StopMany "string list"

record SamplingParams =
  sp_n :: int
  sp_best_of :: "int option"
  sp_real_n :: "int option"
  sp_presence_penalty :: rat
  sp_frequency_penalty :: rat
  sp_repetition_penalty :: rat
  sp_temperature :: rat
  sp_top_p :: rat
  sp_top_k :: int
  sp_min_p :: rat
  sp_seed :: "int option"
  sp_stop :: "stop_arg option"
  sp_stop_token_ids :: "int list option"
  sp_bad_words :: "string list option"
  sp_ignore_eos :: bool
  sp_max_tokens :: "int option"
  sp_min_tokens :: int
  sp_logprobs :: "int option"
  sp_prompt_logprobs :: "int option"
  sp_detokenize :: bool
  sp_skip_special_tokens :: bool
  sp_spaces_between_special_tokens :: bool
  sp_include_stop_str_in_output :: bool
  sp_truncate_prompt_tokens :: "int option"
  sp_output_kind :: RequestOutputKind
  sp_output_text_buffer_length :: int
  sp_all_stop_token_ids :: "int set"

text \<open>The default values of the fields.\<close>

definition default_params :: SamplingParams where
  "default_params =
     \<lparr>sp_n = 1, sp_best_of = None, sp_real_n = None, sp_presence_penalty = 0, sp_frequency_penalty = 0,
      sp_repetition_penalty = 1, sp_temperature = 1, sp_top_p = 1, sp_top_k = -1, sp_min_p = 0,
      sp_seed = None, sp_stop = None, sp_stop_token_ids = None, sp_bad_words = None,
      sp_ignore_eos = False, sp_max_tokens = Some 16, sp_min_tokens = 0, sp_logprobs = None,
      sp_prompt_logprobs = None, sp_detokenize = True, sp_skip_special_tokens = True,
      sp_spaces_between_special_tokens = True, sp_include_stop_str_in_output = False,
      sp_truncate_prompt_tokens = None, sp_output_kind = CUMULATIVE, sp_output_text_buffer_length = 0,
      sp_all_stop_token_ids = {}\<rparr>"

definition SAMPLING_EPS :: rat where
  "SAMPLING_EPS = 1 / 100000"

definition MAX_TEMP :: rat where
  "MAX_TEMP = 1 / 100"

section \<open>Validation\<close>

text \<open>An optional number as a condition: \<open>None\<close> and 0 are false.\<close>

definition truthy :: "int option \<Rightarrow> bool" where
  "truthy x \<longleftrightarrow> x \<noteq> None \<and> x \<noteq> Some 0"

definition stop_list :: "stop_arg option \<Rightarrow> string list" where
  "stop_list s = (case s of None \<Rightarrow> [] | Some (StopOne x) \<Rightarrow> [x] | Some (StopMany xs) \<Rightarrow> xs)"

definition some_less :: "int option \<Rightarrow> int \<Rightarrow> bool" where
  "some_less x k \<longleftrightarrow> (case x of None \<Rightarrow> False | Some v \<Rightarrow> v < k)"

definition verify_args :: "SamplingParams \<Rightarrow> unit py" where
  "verify_args p =
     (if sp_n p < 1 then Inl ValueError
      else if \<not> (- 2 \<le> sp_presence_penalty p \<and> sp_presence_penalty p \<le> 2) then Inl ValueError
      else if \<not> (- 2 \<le> sp_frequency_penalty p \<and> sp_frequency_penalty p \<le> 2) then Inl ValueError
      else if \<not> (0 < sp_repetition_penalty p \<and> sp_repetition_penalty p \<le> 2) then Inl ValueError
      else if sp_temperature p < 0 then Inl ValueError
      else if \<not> (0 < sp_top_p p \<and> sp_top_p p \<le> 1) then Inl ValueError
      else if sp_top_k p < - 1 \<or> sp_top_k p = 0 then Inl ValueError
      else if \<not> (0 \<le> sp_min_p p \<and> sp_min_p p \<le> 1) then Inl ValueError
      else if some_less (sp_max_tokens p) 1 then Inl ValueError
      else if sp_min_tokens p < 0 then Inl ValueError
      else if some_less (sp_max_tokens p) (sp_min_tokens p) then Inl ValueError
      else if some_less (sp_logprobs p) 0 then Inl ValueError
      else if some_less (sp_prompt_logprobs p) 0 then Inl ValueError
      else if some_less (sp_truncate_prompt_tokens p) 1 then Inl ValueError
      else if [] \<in> set (stop_list (sp_stop p)) then Inl ValueError
      else if stop_list (sp_stop p) \<noteq> [] \<and> \<not> sp_detokenize p then Inl ValueError
      else if sp_best_of p \<noteq> sp_real_n p \<and> sp_output_kind p = DELTA then Inl ValueError
      else Inr ())"

definition verify_greedy_sampling :: "SamplingParams \<Rightarrow> unit py" where
  "verify_greedy_sampling p = (if sp_n p > 1 then Inl ValueError else Inr ())"

text \<open>The first part of \<open>__post_init__\<close>: \<open>best_of\<close> and \<open>n\<close>.\<close>

definition set_best_of :: "SamplingParams \<Rightarrow> SamplingParams py" where
  "set_best_of p =
     (if truthy (sp_best_of p) then
        if the (sp_best_of p) < sp_n p then Inl ValueError
        else if \<not> truthy (sp_real_n p) then
          Inr (p\<lparr>sp_real_n := Some (sp_n p), sp_n := the (sp_best_of p)\<rparr>)
        else Inr p
      else Inr p)"

text \<open>The normalisation of the other fields, up to the call of \<open>_verify_args\<close>.\<close>

definition normalize_params :: "SamplingParams \<Rightarrow> SamplingParams" where
  "normalize_params p =
     (let stops = stop_list (sp_stop p) in
      p\<lparr>sp_temperature := (if 0 < sp_temperature p \<and> sp_temperature p < MAX_TEMP
                          then max (sp_temperature p) MAX_TEMP else sp_temperature p),
        sp_seed := (if sp_seed p = Some (- 1) then None else sp_seed p),
        sp_stop := Some (StopMany stops),
        sp_stop_token_ids := Some (case sp_stop_token_ids p of None \<Rightarrow> [] | Some xs \<Rightarrow> xs),
        sp_bad_words := Some (case sp_bad_words p of None \<Rightarrow> [] | Some xs \<Rightarrow> xs),
        sp_output_text_buffer_length :=
          (if stops \<noteq> [] \<and> \<not> sp_include_stop_str_in_output p
           then int (Max (length ` set stops)) - 1 else sp_output_text_buffer_length p)\<rparr>)"

definition post_init :: "SamplingParams \<Rightarrow> SamplingParams py" where
  "post_init p =
     py_bind (set_best_of p) (\<lambda>p1.
       let p2 = normalize_params p1 in
       py_bind (verify_args p2) (\<lambda>_.
         py_bind
           (if sp_temperature p2 < SAMPLING_EPS then
              let p3 = p2\<lparr>sp_top_p := 1, sp_top_k := - 1, sp_min_p := 0\<rparr> in
              py_bind (verify_greedy_sampling p3) (\<lambda>_. Inr p3)
            else Inr p2)
           (\<lambda>p3. Inr (p3\<lparr>sp_all_stop_token_ids := set (the (sp_stop_token_ids p3))\<rparr>))))"

section \<open>Use by the engine\<close>

text \<open>The \<open>eos_token_id\<close> entry of a generation configuration: one id or several.\<close>

datatype eos_entry = EosOne int | EosMany "int list"

definition eos_set :: "eos_entry \<Rightarrow> int set" where
  "eos_set e = (case e of EosOne x \<Rightarrow> {x} | EosMany xs \<Rightarrow> set xs)"

text \<open>\<open>lst\<close> is the order in which Python lists a set.\<close>

definition update_from_generation_config ::
  "(int set \<Rightarrow> int list) \<Rightarrow> SamplingParams \<Rightarrow> eos_entry option \<Rightarrow> int option \<Rightarrow> SamplingParams" where
  "update_from_generation_config lst p gen_eos model_eos =
     (let p1 = (case model_eos of
                  None \<Rightarrow> p
                | Some t \<Rightarrow> p\<lparr>sp_all_stop_token_ids := insert t (sp_all_stop_token_ids p)\<rparr>)
      in case gen_eos of
           None \<Rightarrow> p1
         | Some e \<Rightarrow>
             let ids = (case model_eos of None \<Rightarrow> eos_set e | Some t \<Rightarrow> eos_set e - {t}) in
             if ids = {} then p1
             else
               let p2 = p1\<lparr>sp_all_stop_token_ids := sp_all_stop_token_ids p1 \<union> ids\<rparr> in
               if sp_ignore_eos p2 then p2
               else p2\<lparr>sp_stop_token_ids := Some (lst (ids \<union> set (the (sp_stop_token_ids p2))))\<rparr>)"

definition sampling_type :: "SamplingParams \<Rightarrow> SamplingType" where
  "sampling_type p =
     (if sp_temperature p < SAMPLING_EPS then GREEDY
      else if sp_seed p \<noteq> None then RANDOM_SEED
      else RANDOM)"

section \<open>Properties\<close>

lemma stop_list_StopMany [simp]: "stop_list (Some (StopMany xs)) = xs"
  by (simp add: stop_list_def)

lemma normalize_params_idem: "normalize_params (normalize_params p) = normalize_params p"
  by (simp add: normalize_params_def Let_def MAX_TEMP_def)

lemma normalize_frame [simp, frame_simps]:
  "sp_n (normalize_params p) = sp_n p" "sp_best_of (normalize_params p) = sp_best_of p"
  "sp_real_n (normalize_params p) = sp_real_n p"
  by (simp_all add: normalize_params_def Let_def)

lemma normalize_greedy_iff:
  "sp_temperature (normalize_params p) < SAMPLING_EPS \<longleftrightarrow> sp_temperature p \<le> 0"
  by (auto simp: normalize_params_def Let_def MAX_TEMP_def SAMPLING_EPS_def max_def)

text \<open>Setting the fields of greedy sampling commutes with the rest of the construction.\<close>

lemma normalize_greedy_upd:
  "normalize_params (p\<lparr>sp_top_p := a, sp_top_k := k, sp_min_p := b, sp_all_stop_token_ids := S\<rparr>) =
   normalize_params p\<lparr>sp_top_p := a, sp_top_k := k, sp_min_p := b, sp_all_stop_token_ids := S\<rparr>"
  by (simp add: normalize_params_def Let_def)

lemma verify_args_upd:
  "verify_args p = Inr () \<Longrightarrow>
   verify_args (p\<lparr>sp_top_p := 1, sp_top_k := - 1, sp_min_p := 0, sp_all_stop_token_ids := S\<rparr>) = Inr ()"
  by (auto simp: verify_args_def split: if_splits)

lemma verify_args_stops [simp]: "verify_args (p\<lparr>sp_all_stop_token_ids := S\<rparr>) = verify_args p"
  by (simp add: verify_args_def)

lemma set_best_of_idem:
  assumes "set_best_of p = Inr q" and "1 \<le> sp_n p"
  shows "set_best_of q = Inr q"
  using assms by (auto simp: set_best_of_def truthy_def split: if_splits)


lemma verify_args_nonneg: "verify_args p = Inr () \<Longrightarrow> 0 \<le> sp_temperature p"
  by (simp add: verify_args_def split: if_splits)

text \<open>What a successful construction returns, for greedy and for random sampling.\<close>

lemma post_init_cases:
  assumes "post_init p = Inr q"
  obtains p1 where "set_best_of p = Inr p1" "verify_args (normalize_params p1) = Inr ()"
    "sp_temperature (normalize_params p1) < SAMPLING_EPS" "sp_n p1 \<le> 1"
    "q = normalize_params p1\<lparr>sp_top_p := 1, sp_top_k := - 1, sp_min_p := 0,
           sp_all_stop_token_ids := set (the (sp_stop_token_ids (normalize_params p1)))\<rparr>"
  | p1 where "set_best_of p = Inr p1" "verify_args (normalize_params p1) = Inr ()"
    "\<not> sp_temperature (normalize_params p1) < SAMPLING_EPS"
    "q = normalize_params p1\<lparr>sp_all_stop_token_ids := set (the (sp_stop_token_ids (normalize_params p1)))\<rparr>"
proof -
  from assms obtain p1 where p1: "set_best_of p = Inr p1" "verify_args (normalize_params p1) = Inr ()"
    by (auto simp: post_init_def Let_def)
  with assms show thesis
    by (cases "sp_temperature (normalize_params p1) < SAMPLING_EPS")
       (simp_all add: post_init_def Let_def verify_greedy_sampling_def that split: if_splits)
qed

lemma set_best_of_fixed:
  "set_best_of q = Inr q \<longleftrightarrow> \<not> truthy (sp_best_of q) \<or> \<not> the (sp_best_of q) < sp_n q \<and> truthy (sp_real_n q)"
proof -
  have "truthy (sp_real_n q)"
    if e: "q\<lparr>sp_real_n := Some (sp_n q), sp_n := the (sp_best_of q)\<rparr> = q" and b: "truthy (sp_best_of q)"
  proof -
    have "sp_real_n q = Some (sp_n q)" "sp_n q = the (sp_best_of q)"
      using arg_cong [OF e, of sp_real_n] arg_cong [OF e, of sp_n] by simp_all
    with b show ?thesis by (auto simp: truthy_def)
  qed
  then show ?thesis by (auto simp: set_best_of_def)
qed

lemma set_best_of_upd:
  assumes "set_best_of r = Inr r" and "sp_n q = sp_n r" and "sp_best_of q = sp_best_of r" and "sp_real_n q = sp_real_n r"
  shows "set_best_of q = Inr q"
  using assms by (simp add: set_best_of_fixed)

lemma set_best_of_temperature: "set_best_of p = Inr q \<Longrightarrow> sp_temperature q = sp_temperature p"
  by (auto simp: set_best_of_def split: if_splits)

lemma normalize_temperature:
  "0 \<le> sp_temperature p \<Longrightarrow>
   sp_temperature (normalize_params p) = (if sp_temperature p = 0 then 0 else max (sp_temperature p) MAX_TEMP)"
  by (auto simp: normalize_params_def Let_def max_def MAX_TEMP_def)

lemma normalize_nonneg_iff: "0 \<le> sp_temperature (normalize_params p) \<longleftrightarrow> 0 \<le> sp_temperature p"
  by (auto simp: normalize_params_def Let_def MAX_TEMP_def max_def)

text \<open>Constructing sampling parameters is idempotent for \<open>n\<close> at least 1, so that the copies decoded in
  other processes are the same.  The result passes the validation, is greedy exactly for temperature 0, and
  any other temperature is at least \<open>1e-2\<close>.\<close>

lemma sampling_params_idempotent:
  assumes "post_init p = Inr q" and "1 \<le> sp_n p"
  shows "post_init q = Inr q \<and> verify_args q = Inr () \<and>
      (sampling_type q = GREEDY \<longleftrightarrow> sp_temperature p = 0) \<and>
      (sp_temperature q = 0 \<or> 1 / 100 \<le> sp_temperature q) \<and>
      (sampling_type q = GREEDY \<longrightarrow> sp_n q = 1 \<and> sp_top_p q = 1 \<and> sp_top_k q = - 1 \<and> sp_min_p q = 0)"
  using assms(1)
proof (cases rule: post_init_cases)
    case (1 p1)
    have b: "set_best_of q = Inr q"
      by (rule set_best_of_upd [OF set_best_of_idem [OF 1(1) assms(2)]]) (simp_all add: 1(5))
    have t: "0 \<le> sp_temperature p1"
      using verify_args_nonneg [OF 1(2)] by (simp add: normalize_nonneg_iff)
    have z: "sp_temperature p1 = 0"
      using 1(3) t by (simp add: normalize_greedy_iff)
    have n: "normalize_params q = q"
      by (simp add: 1(5) normalize_greedy_upd normalize_params_idem)
    have v: "verify_args q = Inr ()"
      using verify_args_upd [OF 1(2)] by (simp add: 1(5))
    have n1: "sp_n q = 1"
      using 1(4) v by (auto simp: 1(5) verify_args_def split: if_splits)
    have "post_init q = Inr q"
      using 1(3) n1 by (simp add: post_init_def b n v Let_def verify_greedy_sampling_def) (simp add: 1(5))
    then show ?thesis
      using v n1 z set_best_of_temperature [OF 1(1)] 1(3) normalize_temperature [OF t]
      by (simp add: sampling_type_def 1(5))
  next
    case (2 p1)
    have b: "set_best_of q = Inr q"
      by (rule set_best_of_upd [OF set_best_of_idem [OF 2(1) assms(2)]]) (simp_all add: 2(4))
    have t: "0 \<le> sp_temperature p1"
      using verify_args_nonneg [OF 2(2)] by (simp add: normalize_nonneg_iff)
    have n: "normalize_params q = q"
      using normalize_params_idem [of p1] by (simp add: 2(4) normalize_params_def Let_def)
    have v: "verify_args q = Inr ()"
      using 2(2) by (simp add: 2(4))
    have "post_init q = Inr q"
      using 2(3) by (simp add: post_init_def b n v Let_def) (simp add: 2(4))
    then show ?thesis
      using v 2(3) t set_best_of_temperature [OF 2(1)] normalize_temperature [OF t]
      by (auto simp: sampling_type_def 2(4) normalize_greedy_iff MAX_TEMP_def SAMPLING_EPS_def split: if_splits)
qed

lemma sampling_params_idempotent_witness:
  "post_init (default_params\<lparr>sp_temperature := 1 / 1000, sp_best_of := Some 2, sp_stop := Some (StopOne ''end'')\<rparr>) =
     Inr (default_params\<lparr>sp_temperature := 1 / 100, sp_best_of := Some 2, sp_n := 2, sp_real_n := Some 1,
          sp_stop := Some (StopMany [''end'']), sp_stop_token_ids := Some [], sp_bad_words := Some [],
          sp_output_text_buffer_length := 2\<rparr>) \<and>
   post_init (default_params\<lparr>sp_temperature := 1 / 100, sp_best_of := Some 2, sp_n := 2, sp_real_n := Some 1,
          sp_stop := Some (StopMany [''end'']), sp_stop_token_ids := Some [], sp_bad_words := Some [],
          sp_output_text_buffer_length := 2\<rparr>) =
     Inr (default_params\<lparr>sp_temperature := 1 / 100, sp_best_of := Some 2, sp_n := 2, sp_real_n := Some 1,
          sp_stop := Some (StopMany [''end'']), sp_stop_token_ids := Some [], sp_bad_words := Some [],
          sp_output_text_buffer_length := 2\<rparr>)"
  (is "?a = Inr ?q \<and> ?b")
proof -
  have a: "?a = Inr ?q"
    by (simp add: post_init_def set_best_of_def normalize_params_def verify_args_def default_params_def truthy_def
        stop_list_def some_less_def MAX_TEMP_def SAMPLING_EPS_def Let_def)
  show ?thesis
    using sampling_params_idempotent [OF a] a by (simp add: default_params_def)
qed

text \<open>
  \<open>n\<close> is checked only after it has been replaced by \<open>best_of\<close>: an invalid \<open>n\<close> passes, and a second
  construction from the result differs from the first.
\<close>

lemma best_of_hides_invalid_n:
  "map_sum id sp_real_n (post_init (default_params\<lparr>sp_n := 0, sp_best_of := Some 2\<rparr>)) = Inr (Some 0)"
  "map_sum id sp_real_n
     (py_bind (post_init (default_params\<lparr>sp_n := 0, sp_best_of := Some 2\<rparr>)) post_init) = Inr (Some 2)"
  by code_simp+

end
