(* ===== verification/Request.thy ===== *)
theory Request
  imports SamplingParams
begin

text \<open>
  The request object of the engine (\<open>vllm/v1/request.py\<close>) and the message types it is built from
  (\<open>vllm/v1/engine/__init__.py\<close>).  A request carries its prompt, the tokens generated so far, how
  many tokens already have their KV entries computed, the placeholder ranges of its multi-modal
  inputs and the cached hashes of its full KV blocks.

  Not modelled: request metrics (wall-clock times) and the LoRA request, which the V1 schedulers
  refuse.  The pixel data of a multi-modal input is an opaque handle.
\<close>

section \<open>Data\<close>

type_synonym mm_kwargs = nat

text \<open>\<open>BlockHashType\<close>: hash value, token ids and extra keys of a full KV block.\<close>

record BlockHashType =
  hash_value :: int
  token_ids :: "int list"
  extra_keys :: "string list option"

record PlaceholderRange =
  pr_offset :: int
  pr_length :: int

datatype FinishReason = STOP | LENGTH | ABORT

definition FINISH_REASON_STRINGS :: "string list" where
  "FINISH_REASON_STRINGS = [''stop'', ''length'', ''abort'']"

fun finish_reason_value :: "FinishReason \<Rightarrow> nat" where
  "finish_reason_value STOP = 0"
| "finish_reason_value LENGTH = 1"
| "finish_reason_value ABORT = 2"

definition finish_reason_str :: "FinishReason \<Rightarrow> string" where
  "finish_reason_str f = FINISH_REASON_STRINGS ! finish_reason_value f"

datatype RequestStatus =
    WAITING
  | RUNNING
  | PREEMPTED
  | FINISHED_STOPPED
  | FINISHED_LENGTH_CAPPED
  | FINISHED_ABORTED
  | FINISHED_IGNORED

fun status_value :: "RequestStatus \<Rightarrow> nat" where
  "status_value WAITING = 0"
| "status_value RUNNING = 1"
| "status_value PREEMPTED = 2"
| "status_value FINISHED_STOPPED = 3"
| "status_value FINISHED_LENGTH_CAPPED = 4"
| "status_value FINISHED_ABORTED = 5"
| "status_value FINISHED_IGNORED = 6"

lemma status_value_inject [simp]: "status_value s = status_value t \<longleftrightarrow> s = t"
  by (cases s; cases t) simp_all

text \<open>\<open>RequestStatus\<close> is an \<open>IntEnum\<close>: its members are ordered by their values.\<close>

instantiation RequestStatus :: linorder
begin

definition less_eq_RequestStatus :: "RequestStatus \<Rightarrow> RequestStatus \<Rightarrow> bool" where
  "less_eq_RequestStatus s t \<longleftrightarrow> status_value s \<le> status_value t"

definition less_RequestStatus :: "RequestStatus \<Rightarrow> RequestStatus \<Rightarrow> bool" where
  "less_RequestStatus s t \<longleftrightarrow> status_value s < status_value t"

instance
  by standard (auto simp: less_eq_RequestStatus_def less_RequestStatus_def)

end

datatype StopReason = StopToken int | StopString string

record Request =
  request_id :: string
  prompt :: "string option"
  prompt_token_ids :: "int list"
  sampling_params :: SamplingParams
  eos_token_id :: "int option"
  status :: RequestStatus
  stop_reason :: "StopReason option"
  max_tokens :: int
  num_prompt_tokens :: int
  output_token_ids :: "int list"
  all_token_ids :: "int list"
  num_computed_tokens :: int
  mm_positions :: "PlaceholderRange list"
  mm_inputs :: "mm_kwargs option list"
  mm_hashes :: "string list"
  kv_block_hashes :: "BlockHashType list"

record EngineCoreRequest =
  ecr_request_id :: string
  ecr_prompt :: "string option"
  ecr_prompt_token_ids :: "int list"
  ecr_mm_inputs :: "mm_kwargs option list option"
  ecr_mm_hashes :: "string list option"
  ecr_mm_placeholders :: "PlaceholderRange list option"
  ecr_sampling_params :: SamplingParams
  ecr_eos_token_id :: "int option"

section \<open>Operations\<close>

text \<open>\<open>x or []\<close> for an optional list.\<close>

definition or_empty :: "'a list option \<Rightarrow> 'a list" where
  "or_empty x = (case x of None \<Rightarrow> [] | Some xs \<Rightarrow> xs)"

definition request_init ::
  "string \<Rightarrow> string option \<Rightarrow> int list \<Rightarrow> mm_kwargs option list option \<Rightarrow> string list option \<Rightarrow>
   PlaceholderRange list option \<Rightarrow> SamplingParams \<Rightarrow> int option \<Rightarrow> Request py" where
  "request_init rid p ptoks inputs hashes positions sp eos =
     (case sp_max_tokens sp of
        None \<Rightarrow> Inl AssertionError
      | Some mt \<Rightarrow>
          py_assert (length (or_empty inputs) = length (or_empty positions))
          (py_assert (or_empty hashes \<noteq> [] \<longrightarrow> length (or_empty inputs) = length (or_empty hashes))
          (Inr \<lparr>request_id = rid, prompt = p, prompt_token_ids = ptoks, sampling_params = sp,
                eos_token_id = eos, status = WAITING, stop_reason = None, max_tokens = mt,
                num_prompt_tokens = int (length ptoks), output_token_ids = [],
                all_token_ids = ptoks, num_computed_tokens = 0,
                mm_positions = or_empty positions, mm_inputs = or_empty inputs,
                mm_hashes = or_empty hashes, kv_block_hashes = []\<rparr>)))"

definition from_engine_core_request :: "EngineCoreRequest \<Rightarrow> Request py" where
  "from_engine_core_request e =
     request_init (ecr_request_id e) (ecr_prompt e) (ecr_prompt_token_ids e) (ecr_mm_inputs e)
       (ecr_mm_hashes e) (ecr_mm_placeholders e) (ecr_sampling_params e) (ecr_eos_token_id e)"

definition append_output_token_ids :: "Request \<Rightarrow> int list \<Rightarrow> Request" where
  "append_output_token_ids r toks =
     r\<lparr>output_token_ids := output_token_ids r @ toks, all_token_ids := all_token_ids r @ toks\<rparr>"

definition num_tokens :: "Request \<Rightarrow> int" where
  "num_tokens r = int (length (all_token_ids r))"

definition num_output_tokens :: "Request \<Rightarrow> int" where
  "num_output_tokens r = int (length (output_token_ids r))"

definition status_is_finished :: "RequestStatus \<Rightarrow> bool" where
  "status_is_finished s \<longleftrightarrow> s > PREEMPTED"

fun status_get_finished_reason :: "RequestStatus \<Rightarrow> FinishReason option" where
  "status_get_finished_reason FINISHED_STOPPED = Some STOP"
| "status_get_finished_reason FINISHED_LENGTH_CAPPED = Some LENGTH"
| "status_get_finished_reason FINISHED_ABORTED = Some ABORT"
| "status_get_finished_reason FINISHED_IGNORED = Some LENGTH"
| "status_get_finished_reason _ = None"

definition is_finished :: "Request \<Rightarrow> bool" where
  "is_finished r = status_is_finished (status r)"

definition get_finished_reason :: "Request \<Rightarrow> FinishReason option" where
  "get_finished_reason r = status_get_finished_reason (status r)"

definition has_encoder_inputs :: "Request \<Rightarrow> bool" where
  "has_encoder_inputs r \<longleftrightarrow> length (mm_inputs r) > 0"

definition num_encoder_inputs :: "Request \<Rightarrow> nat" where
  "num_encoder_inputs r = length (mm_positions r)"

definition get_num_encoder_tokens :: "Request \<Rightarrow> nat \<Rightarrow> int py" where
  "get_num_encoder_tokens r i =
     py_assert (i < length (mm_positions r)) (Inr (pr_length (mm_positions r ! i)))"

definition set_kv_block_hashes :: "Request \<Rightarrow> BlockHashType list \<Rightarrow> Request" where
  "set_kv_block_hashes r hs = r\<lparr>kv_block_hashes := hs\<rparr>"

definition append_kv_block_hashes :: "Request \<Rightarrow> BlockHashType \<Rightarrow> Request" where
  "append_kv_block_hashes r h = r\<lparr>kv_block_hashes := kv_block_hashes r @ [h]\<rparr>"

section \<open>Well-formed requests\<close>

definition request_wf :: "Request \<Rightarrow> bool" where
  "request_wf r \<longleftrightarrow>
     all_token_ids r = prompt_token_ids r @ output_token_ids r \<and>
     num_prompt_tokens r = int (length (prompt_token_ids r)) \<and>
     length (mm_inputs r) = length (mm_positions r) \<and>
     (mm_hashes r \<noteq> [] \<longrightarrow> length (mm_hashes r) = length (mm_positions r))"

lemma request_wf_num_tokens: "request_wf r \<Longrightarrow> num_tokens r = num_prompt_tokens r + num_output_tokens r"
  by (simp add: request_wf_def num_tokens_def num_output_tokens_def)

lemma request_init_wf: "request_init rid p ptoks ins hs ps sp eos = Inr r \<Longrightarrow> request_wf r"
  by (auto simp: request_init_def request_wf_def split: option.splits)

lemma request_init_fields:
  "request_init rid p ptoks ins hs ps sp eos = Inr r \<Longrightarrow>
     request_id r = rid \<and> status r = WAITING \<and> num_computed_tokens r = 0 \<and>
     all_token_ids r = ptoks \<and> kv_block_hashes r = []"
  by (auto simp: request_init_def split: option.splits)

lemma append_output_wf: "request_wf r \<Longrightarrow> request_wf (append_output_token_ids r toks)"
  by (simp add: request_wf_def append_output_token_ids_def)

lemma num_tokens_append [simp]:
  "num_tokens (append_output_token_ids r toks) = num_tokens r + int (length toks)"
  by (simp add: num_tokens_def append_output_token_ids_def)

lemma append_output_frame [simp, frame_simps]:
  "request_id (append_output_token_ids r toks) = request_id r"
  "status (append_output_token_ids r toks) = status r"
  "num_computed_tokens (append_output_token_ids r toks) = num_computed_tokens r"
  "mm_positions (append_output_token_ids r toks) = mm_positions r"
  "mm_inputs (append_output_token_ids r toks) = mm_inputs r"
  "mm_hashes (append_output_token_ids r toks) = mm_hashes r"
  "kv_block_hashes (append_output_token_ids r toks) = kv_block_hashes r"
  by (simp_all add: append_output_token_ids_def)

lemma status_is_finished_simps [simp]:
  "\<not> status_is_finished WAITING" "\<not> status_is_finished RUNNING" "\<not> status_is_finished PREEMPTED"
  "status_is_finished FINISHED_STOPPED" "status_is_finished FINISHED_LENGTH_CAPPED"
  "status_is_finished FINISHED_ABORTED" "status_is_finished FINISHED_IGNORED"
  by (simp_all add: status_is_finished_def less_RequestStatus_def)

lemma finished_iff_has_reason: "is_finished r \<longleftrightarrow> get_finished_reason r \<noteq> None"
  by (cases "status r") (simp_all add: is_finished_def get_finished_reason_def)

end
