(* ===== verification/FreeBlockQueue.thy ===== *)
theory FreeBlockQueue
  imports Request
begin

text \<open>
  KV-cache block metadata and the queue of free blocks (\<open>vllm/v1/core/kv_cache_utils.py\<close>, classes
  \<open>KVCacheBlock\<close> and \<open>FreeKVCacheBlockQueue\<close>).  The queue is a doubly linked list threaded through
  the block objects; the block pool is the heap and a block's address is its position in the pool.
  Blocks are compared by object identity: \<open>KVCacheBlock\<close> is a dataclass whose first compared field
  \<open>block_id\<close> is unique within the pool.

  The theory proves that the linked list implements a sequence: the interface is the locale
  \<open>block_queue\<close>, stated over an abstraction to lists, and it is interpreted on the linked list.
\<close>

section \<open>Blocks and the queue\<close>

record KVCacheBlock =
  block_id :: nat
  ref_cnt :: int
  block_hash :: "BlockHashType option"
  prev_free_block :: "nat option"
  next_free_block :: "nat option"

definition new_block :: "nat \<Rightarrow> KVCacheBlock" where
  "new_block i = \<lparr>block_id = i, ref_cnt = 0, block_hash = None,
                  prev_free_block = None, next_free_block = None\<rparr>"

definition incr_ref :: "KVCacheBlock \<Rightarrow> KVCacheBlock" where
  "incr_ref b = b\<lparr>ref_cnt := ref_cnt b + 1\<rparr>"

definition decr_ref :: "KVCacheBlock \<Rightarrow> KVCacheBlock" where
  "decr_ref b = b\<lparr>ref_cnt := ref_cnt b - 1\<rparr>"

definition set_block_hash :: "KVCacheBlock \<Rightarrow> BlockHashType \<Rightarrow> KVCacheBlock py" where
  "set_block_hash b h = py_assert (block_hash b = None) (Inr (b\<lparr>block_hash := Some h\<rparr>))"

definition reset_hash :: "KVCacheBlock \<Rightarrow> KVCacheBlock" where
  "reset_hash b = b\<lparr>block_hash := None\<rparr>"

type_synonym pool = "KVCacheBlock list"

record FreeKVCacheBlockQueue =
  free_list_head :: "nat option"
  free_list_tail :: "nat option"
  num_free_blocks :: int

text \<open>The body of the constructor's loop over \<open>range(num_free_blocks)\<close>.\<close>

definition link_block :: "nat \<Rightarrow> nat \<Rightarrow> pool \<Rightarrow> pool" where
  "link_block n i p =
     (let p1 = (if i > 0 then p[i := (p ! i)\<lparr>prev_free_block := Some (i - 1)\<rparr>] else p)
      in if i < n - 1 then p1[i := (p1 ! i)\<lparr>next_free_block := Some (i + 1)\<rparr>] else p1)"

definition queue_init :: "pool \<Rightarrow> (pool \<times> FreeKVCacheBlockQueue) py" where
  "queue_init blocks =
     (if blocks = [] then Inl IndexError
      else Inr (fold (link_block (length blocks)) [0..<length blocks] blocks,
                \<lparr>free_list_head = Some 0, free_list_tail = Some (length blocks - 1),
                 num_free_blocks = int (length blocks)\<rparr>))"

type_synonym qstate = "pool \<times> FreeKVCacheBlockQueue"

definition remove_block :: "qstate \<Rightarrow> nat \<Rightarrow> qstate" where
  "remove_block s b =
     (let p = fst s; q = snd s;
          prv = prev_free_block (p ! b); nxt = next_free_block (p ! b);
          p1 = (case prv of None \<Rightarrow> p | Some x \<Rightarrow> p[x := (p ! x)\<lparr>next_free_block := nxt\<rparr>]);
          p2 = (case nxt of None \<Rightarrow> p1 | Some y \<Rightarrow> p1[y := (p1 ! y)\<lparr>prev_free_block := prv\<rparr>]);
          q1 = (if free_list_head q = Some b then q\<lparr>free_list_head := nxt\<rparr> else q);
          q2 = (if free_list_tail q1 = Some b then q1\<lparr>free_list_tail := prv\<rparr> else q1);
          p3 = p2[b := (p2 ! b)\<lparr>prev_free_block := None, next_free_block := None\<rparr>]
      in (p3, q2\<lparr>num_free_blocks := num_free_blocks q2 - 1\<rparr>))"

definition popleft :: "qstate \<Rightarrow> (nat \<times> qstate) py" where
  "popleft s =
     (case free_list_head (snd s) of
        None \<Rightarrow> Inl ValueError
      | Some b \<Rightarrow> Inr (b, remove_block s b))"

definition append_block :: "qstate \<Rightarrow> nat \<Rightarrow> qstate py" where
  "append_block s b =
     (let p = fst s; q = snd s in
      case free_list_tail q of
        Some t \<Rightarrow>
          (let p1 = p[t := (p ! t)\<lparr>next_free_block := Some b\<rparr>];
               p2 = p1[b := (p1 ! b)\<lparr>prev_free_block := Some t\<rparr>];
               p3 = p2[b := (p2 ! b)\<lparr>next_free_block := None\<rparr>]
           in Inr (p3, q\<lparr>free_list_tail := Some b, num_free_blocks := num_free_blocks q + 1\<rparr>))
      | None \<Rightarrow>
          py_assert (free_list_head q = None)
            (Inr (p[b := (p ! b)\<lparr>next_free_block := None\<rparr>],
                  q\<lparr>free_list_head := Some b, free_list_tail := Some b,
                    num_free_blocks := num_free_blocks q + 1\<rparr>)))"

partial_function (option) collect_free :: "pool \<Rightarrow> nat option \<Rightarrow> nat list \<Rightarrow> nat list option" where
  "collect_free p cur acc =
     (case cur of
        None \<Rightarrow> Some acc
      | Some b \<Rightarrow> collect_free p (next_free_block (p ! b)) (acc @ [b]))"

declare collect_free.simps [code]

definition get_all_free_blocks :: "qstate \<Rightarrow> nat list option" where
  "get_all_free_blocks s = collect_free (fst s) (free_list_head (snd s)) []"

section \<open>The interface\<close>

text \<open>
  What a client may rely on: \<open>repr s xs\<close> says that the state \<open>s\<close> holds the free blocks \<open>xs\<close>, oldest
  first; \<open>meta s b\<close> is what the queue never touches of block \<open>b\<close>.
\<close>

locale block_queue =
  fixes repr :: "'s \<Rightarrow> nat list \<Rightarrow> bool"
    and valid :: "'s \<Rightarrow> nat \<Rightarrow> bool"
    and meta :: "'s \<Rightarrow> nat \<Rightarrow> 'm"
    and pop :: "'s \<Rightarrow> (nat \<times> 's) py"
    and del :: "'s \<Rightarrow> nat \<Rightarrow> 's"
    and push :: "'s \<Rightarrow> nat \<Rightarrow> 's py"
  assumes repr_distinct: "repr s xs \<Longrightarrow> distinct xs"
    and repr_valid: "repr s xs \<Longrightarrow> b \<in> set xs \<Longrightarrow> valid s b"
    and repr_del: "repr s (xs @ b # ys) \<Longrightarrow> repr (del s b) (xs @ ys)"
    and meta_del: "meta (del s b) = meta s"
    and valid_del: "valid (del s b) = valid s"
    and repr_push: "repr s xs \<Longrightarrow> valid s b \<Longrightarrow> b \<notin> set xs \<Longrightarrow>
           \<exists>s'. push s b = Inr s' \<and> repr s' (xs @ [b]) \<and> meta s' = meta s \<and> valid s' = valid s"
    and pop_Nil: "repr s [] \<Longrightarrow> pop s = Inl ValueError"
    and pop_Cons: "repr s (b # xs) \<Longrightarrow> pop s = Inr (b, del s b)"
begin

fun push_all :: "'s \<Rightarrow> nat list \<Rightarrow> 's py" where
  "push_all s [] = Inr s"
| "push_all s (b # bs) = py_bind (push s b) (\<lambda>s'. push_all s' bs)"

fun pop_n :: "nat \<Rightarrow> 's \<Rightarrow> (nat list \<times> 's) py" where
  "pop_n 0 s = Inr ([], s)"
| "pop_n (Suc n) s =
     py_bind (pop s) (\<lambda>(b, s'). py_bind (pop_n n s') (\<lambda>(bs, s''). Inr (b # bs, s'')))"

lemma repr_pop:
  "repr s (b # xs) \<Longrightarrow> \<exists>s'. pop s = Inr (b, s') \<and> repr s' xs \<and> meta s' = meta s \<and> valid s' = valid s"
  using pop_Cons repr_del [of s "[]" b xs] by (auto simp: meta_del valid_del)

lemma push_all_repr:
  "repr s xs \<Longrightarrow> distinct (xs @ bs) \<Longrightarrow> \<forall>b\<in>set bs. valid s b \<Longrightarrow>
     \<exists>s'. push_all s bs = Inr s' \<and> repr s' (xs @ bs) \<and> meta s' = meta s"
proof (induction bs arbitrary: s xs)
  case Nil
  then show ?case by simp
next
  case (Cons b bs)
  from Cons.prems obtain s1 where s1: "push s b = Inr s1" "repr s1 (xs @ [b])"
      "meta s1 = meta s" "valid s1 = valid s"
    using repr_push [of s xs b] by auto
  from Cons.IH [OF s1(2)] Cons.prems s1(4)
  obtain s2 where "push_all s1 bs = Inr s2" "repr s2 ((xs @ [b]) @ bs)" "meta s2 = meta s1"
    by auto
  with s1 show ?case by auto
qed

lemma pop_n_repr:
  "repr s (bs @ xs) \<Longrightarrow>
     \<exists>s'. pop_n (length bs) s = Inr (bs, s') \<and> repr s' xs \<and> meta s' = meta s"
proof (induction bs arbitrary: s)
  case Nil
  then show ?case by simp
next
  case (Cons b bs)
  from Cons.prems obtain s1 where s1: "pop s = Inr (b, s1)" "repr s1 (bs @ xs)" "meta s1 = meta s"
    using repr_pop [of s b "bs @ xs"] by auto
  from Cons.IH [OF s1(2)] obtain s2 where "pop_n (length bs) s1 = Inr (bs, s2)"
      "repr s2 xs" "meta s2 = meta s1" by auto
  with s1 show ?case by simp
qed

text \<open>Blocks come back out in the order in which they were put in, behind everything older.\<close>

lemma fifo:
  assumes "repr s xs" and "distinct (xs @ bs)" and "\<forall>b\<in>set bs. valid s b"
  shows "\<exists>s1 s2. push_all s bs = Inr s1 \<and> pop_n (length xs + length bs) s1 = Inr (xs @ bs, s2) \<and>
           repr s2 [] \<and> meta s2 = meta s"
proof -
  from push_all_repr [OF assms] obtain s1 where s1: "push_all s bs = Inr s1"
      "repr s1 (xs @ bs)" "meta s1 = meta s" by auto
  from s1(2) have "repr s1 ((xs @ bs) @ [])" by simp
  from pop_n_repr [OF this] s1 show ?thesis by auto
qed

end

section \<open>The linked list represents a sequence\<close>

definition hd_or :: "'a option \<Rightarrow> 'a list \<Rightarrow> 'a option" where
  "hd_or d xs = (case xs of [] \<Rightarrow> d | x # _ \<Rightarrow> Some x)"

definition last_or :: "'a option \<Rightarrow> 'a list \<Rightarrow> 'a option" where
  "last_or d xs = (if xs = [] then d else Some (last xs))"

lemma hd_or_simps [simp]: "hd_or d [] = d" "hd_or d (x # xs) = Some x"
  by (simp_all add: hd_or_def)

lemma last_or_simps [simp]:
  "last_or d [] = d" "last_or d (x # xs) = last_or (Some x) xs" "last_or d (xs @ [x]) = Some x"
  by (simp_all add: last_or_def)

lemma hd_or_append [simp]: "hd_or d (xs @ ys) = hd_or (hd_or d ys) xs"
  by (cases xs) simp_all

lemma last_or_append [simp]: "last_or d (xs @ ys) = last_or (last_or d xs) ys"
  by (simp add: last_or_def)

lemma hd_or_None_iff [simp]: "hd_or None xs = None \<longleftrightarrow> xs = []"
  by (cases xs) simp_all

lemma last_or_None_iff [simp]: "last_or None xs = None \<longleftrightarrow> xs = []"
  by (simp add: last_or_def)

lemma hd_or_nonempty: "xs \<noteq> [] \<Longrightarrow> hd_or d xs = Some (hd xs)"
  by (cases xs) simp_all

lemma last_or_nonempty: "xs \<noteq> [] \<Longrightarrow> last_or d xs = Some (last xs)"
  by (simp add: last_or_def)

lemma hd_or_Some_mem: "hd_or None xs = Some b \<Longrightarrow> b \<in> set xs"
  by (cases xs) simp_all

lemma last_or_Some_mem: "last_or None xs = Some b \<Longrightarrow> b \<in> set xs"
  by (auto simp: last_or_def split: if_splits)

text \<open>
  \<open>dll_seg p prv xs nxt\<close>: the blocks \<open>xs\<close> are linked in this order in both directions, \<open>prv\<close> is
  what the first one points back to and \<open>nxt\<close> what the last one points forward to.
\<close>

fun dll_seg :: "pool \<Rightarrow> nat option \<Rightarrow> nat list \<Rightarrow> nat option \<Rightarrow> bool" where
  "dll_seg p prv [] nxt \<longleftrightarrow> True"
| "dll_seg p prv (x # xs) nxt \<longleftrightarrow>
     x < length p \<and> prev_free_block (p ! x) = prv \<and> next_free_block (p ! x) = hd_or nxt xs \<and>
     dll_seg p (Some x) xs nxt"

definition queue_repr :: "qstate \<Rightarrow> nat list \<Rightarrow> bool" where
  "queue_repr s xs \<longleftrightarrow>
     dll_seg (fst s) None xs None \<and> distinct xs \<and>
     free_list_head (snd s) = hd_or None xs \<and> free_list_tail (snd s) = last_or None xs \<and>
     num_free_blocks (snd s) = int (length xs) \<and>
     (\<forall>b < length (fst s). b \<notin> set xs \<longrightarrow>
        prev_free_block (fst s ! b) = None \<and> next_free_block (fst s ! b) = None)"

definition queue_valid :: "qstate \<Rightarrow> nat \<Rightarrow> bool" where
  "queue_valid s b \<longleftrightarrow> b < length (fst s)"

text \<open>What the queue operations never change of a block.\<close>

definition block_meta :: "pool \<Rightarrow> nat \<Rightarrow> nat \<times> int \<times> BlockHashType option" where
  "block_meta p b = (block_id (p ! b), ref_cnt (p ! b), block_hash (p ! b))"

definition queue_meta :: "qstate \<Rightarrow> nat \<Rightarrow> nat \<times> int \<times> BlockHashType option" where
  "queue_meta s = block_meta (fst s)"

lemma dll_seg_append [simp]:
  "dll_seg p prv (xs @ ys) nxt \<longleftrightarrow>
     dll_seg p prv xs (hd_or nxt ys) \<and> dll_seg p (last_or prv xs) ys nxt"
  by (induction xs arbitrary: prv) auto

lemma dll_seg_bound: "dll_seg p prv xs nxt \<Longrightarrow> x \<in> set xs \<Longrightarrow> x < length p"
  by (induction xs arbitrary: prv) auto

lemma dll_seg_frame: "i \<notin> set xs \<Longrightarrow> dll_seg (p[i := b]) prv xs nxt \<longleftrightarrow> dll_seg p prv xs nxt"
  by (induction xs arbitrary: prv) auto

lemma dll_seg_cong:
  assumes "length p' = length p"
    and "\<And>i. i \<in> set xs \<Longrightarrow> prev_free_block (p' ! i) = prev_free_block (p ! i)"
    and "\<And>i. i \<in> set xs \<Longrightarrow> next_free_block (p' ! i) = next_free_block (p ! i)"
  shows "dll_seg p' prv xs nxt \<longleftrightarrow> dll_seg p prv xs nxt"
  using assms(2,3) by (induction xs arbitrary: prv) (auto simp: assms(1))

text \<open>Redirecting the forward link of the last block, or the back link of the first.\<close>

lemma dll_seg_set_next:
  assumes "dll_seg p prv (xs @ [x]) nxt" and "distinct (xs @ [x])"
  shows "dll_seg (p[x := (p ! x)\<lparr>next_free_block := nxt'\<rparr>]) prv (xs @ [x]) nxt'"
  using assms by (auto simp: dll_seg_frame)

lemma dll_seg_set_prev:
  assumes "dll_seg p prv (y # ys) nxt" and "distinct (y # ys)"
  shows "dll_seg (p[y := (p ! y)\<lparr>prev_free_block := prv'\<rparr>]) prv' (y # ys) nxt"
  using assms by (auto simp: dll_seg_frame)

definition set_next :: "pool \<Rightarrow> nat option \<Rightarrow> nat option \<Rightarrow> pool" where
  "set_next p prv nxt = (case prv of None \<Rightarrow> p | Some x \<Rightarrow> p[x := (p ! x)\<lparr>next_free_block := nxt\<rparr>])"

definition set_prev :: "pool \<Rightarrow> nat option \<Rightarrow> nat option \<Rightarrow> pool" where
  "set_prev p nxt prv = (case nxt of None \<Rightarrow> p | Some y \<Rightarrow> p[y := (p ! y)\<lparr>prev_free_block := prv\<rparr>])"

lemma length_set_next [simp]: "length (set_next p prv nxt) = length p"
  and length_set_prev [simp]: "length (set_prev p nxt prv) = length p"
  by (simp_all add: set_next_def set_prev_def split: option.split)

lemma block_meta_set_links [simp]:
  "block_meta (set_next p prv nxt) = block_meta p"
  "block_meta (set_prev p nxt prv) = block_meta p"
  "block_meta (p[i := (p ! i)\<lparr>next_free_block := n\<rparr>]) = block_meta p"
  "block_meta (p[i := (p ! i)\<lparr>prev_free_block := n\<rparr>]) = block_meta p"
  "block_meta (p[i := (p ! i)\<lparr>prev_free_block := m, next_free_block := n\<rparr>]) = block_meta p"
  by (auto simp: fun_eq_iff block_meta_def set_next_def set_prev_def nth_list_update_cases
      split: option.split)

lemma dll_seg_set_next_last:
  "dll_seg p None xs n \<Longrightarrow> distinct xs \<Longrightarrow> dll_seg (set_next p (last_or None xs) n') None xs n'"
  by (cases xs rule: rev_cases) (auto simp: set_next_def dll_seg_frame)

lemma dll_seg_set_prev_hd:
  "dll_seg p v ys None \<Longrightarrow> distinct ys \<Longrightarrow> dll_seg (set_prev p (hd_or None ys) v') v' ys None"
  by (cases ys) (auto simp: set_prev_def dll_seg_frame)

lemma dll_seg_set_next_frame:
  "set xs \<inter> set ys = {} \<Longrightarrow> dll_seg (set_next p (last_or None xs) n) v ys m \<longleftrightarrow> dll_seg p v ys m"
  by (cases xs rule: rev_cases) (auto simp: set_next_def dll_seg_frame)

lemma dll_seg_set_prev_frame:
  "set xs \<inter> set ys = {} \<Longrightarrow> dll_seg (set_prev p (hd_or None ys) n) v xs m \<longleftrightarrow> dll_seg p v xs m"
  by (cases ys) (auto simp: set_prev_def dll_seg_frame)

lemma remove_block_alt:
  "remove_block s b =
     (let p = fst s; q = snd s; prv = prev_free_block (p ! b); nxt = next_free_block (p ! b);
          p2 = set_prev (set_next p prv nxt) nxt prv;
          hd' = (if free_list_head q = Some b then nxt else free_list_head q);
          tl' = (if free_list_tail q = Some b then prv else free_list_tail q)
      in (p2[b := (p2 ! b)\<lparr>prev_free_block := None, next_free_block := None\<rparr>],
          \<lparr>free_list_head = hd', free_list_tail = tl', num_free_blocks = num_free_blocks q - 1,
           \<dots> = FreeKVCacheBlockQueue.more q\<rparr>))"
  by (simp add: remove_block_def set_next_def set_prev_def Let_def)

lemma remove_block_pool:
  assumes "dll_seg p None (xs @ b # ys) None" and "distinct (xs @ b # ys)"
    and "p2 = set_prev (set_next p (last_or None xs) (hd_or None ys)) (hd_or None ys) (last_or None xs)"
  shows "dll_seg (p2[b := v]) None (xs @ ys) None"
proof -
  let ?p1 = "set_next p (last_or None xs) (hd_or None ys)"
  have xs: "dll_seg ?p1 None xs (hd_or None ys)" and ys: "dll_seg ?p1 (Some b) ys None"
    using assms(1,2) by (auto intro: dll_seg_set_next_last simp: dll_seg_set_next_frame)
  have "dll_seg p2 None xs (hd_or None ys)"
    using xs assms(2) by (simp add: assms(3) dll_seg_set_prev_frame)
  moreover have "dll_seg p2 (last_or None xs) ys None"
    using ys assms(2) by (auto simp: assms(3) intro: dll_seg_set_prev_hd)
  ultimately show ?thesis
    using assms(2) by (simp add: dll_seg_frame)
qed

lemma remove_block_others:
  assumes "distinct (xs @ b # ys)" and "i \<noteq> b" and "i \<notin> set xs" and "i \<notin> set ys"
    and "p2 = set_prev (set_next p (last_or None xs) (hd_or None ys)) (hd_or None ys) (last_or None xs)"
  shows "p2[b := v] ! i = p ! i"
  using assms by (cases xs rule: rev_cases; cases ys) (auto simp: set_next_def set_prev_def)

lemma remove_block_repr:
  assumes "queue_repr s (xs @ b # ys)"
  shows "queue_repr (remove_block s b) (xs @ ys)"
proof -
  let ?p2 = "set_prev (set_next (fst s) (last_or None xs) (hd_or None ys))
               (hd_or None ys) (last_or None xs)"
  let ?b = "(?p2 ! b)\<lparr>prev_free_block := None, next_free_block := None\<rparr>"
  have seg: "dll_seg (fst s) None (xs @ b # ys) None" and dist: "distinct (xs @ b # ys)"
    using assms by (simp_all add: queue_repr_def)
  have "prev_free_block (fst s ! b) = last_or None xs"
    and "next_free_block (fst s ! b) = hd_or None ys"
    using seg by simp_all
  moreover have "(free_list_head (snd s) = Some b) = (xs = [])"
      "xs \<noteq> [] \<Longrightarrow> free_list_head (snd s) = hd_or None (xs @ ys)"
    using assms by (cases xs; auto simp: queue_repr_def)+
  moreover have "(free_list_tail (snd s) = Some b) = (ys = [])"
      "ys \<noteq> [] \<Longrightarrow> free_list_tail (snd s) = last_or None (xs @ ys)"
    using assms by (cases ys rule: rev_cases; auto simp: queue_repr_def)+
  moreover have "\<forall>i < length (fst s). i \<notin> set (xs @ ys) \<longrightarrow>
      prev_free_block (?p2[b := ?b] ! i) = None \<and> next_free_block (?p2[b := ?b] ! i) = None"
    using assms remove_block_others [OF dist _ _ _ refl]
    by (auto simp: queue_repr_def nth_list_update_cases)
  ultimately show ?thesis
    using assms dist remove_block_pool [OF seg dist refl, of ?b]
    by (auto simp: remove_block_alt Let_def queue_repr_def)
qed

lemma remove_block_meta [simp]: "queue_meta (remove_block s b) = queue_meta s"
  by (simp add: remove_block_alt Let_def queue_meta_def)

lemma length_remove_block [simp]: "length (fst (remove_block s b)) = length (fst s)"
  by (simp add: remove_block_alt Let_def)

lemma remove_block_valid [simp]: "queue_valid (remove_block s b) = queue_valid s"
  by (simp add: remove_block_alt Let_def queue_valid_def fun_eq_iff)

lemma append_block_repr:
  assumes "queue_repr s xs" and "queue_valid s b" and "b \<notin> set xs"
  shows "\<exists>s'. append_block s b = Inr s' \<and> queue_repr s' (xs @ [b]) \<and> queue_meta s' = queue_meta s \<and>
           queue_valid s' = queue_valid s"
proof (cases xs rule: rev_cases)
  case Nil
  then show ?thesis
    using assms by (auto simp: append_block_def queue_repr_def queue_valid_def queue_meta_def
        fun_eq_iff Let_def)
next
  case (snoc zs t)
  let ?p = "fst s"
  let ?p1 = "?p[t := (?p ! t)\<lparr>next_free_block := Some b\<rparr>]"
  have t: "t < length ?p" "t \<noteq> b" and b: "b < length ?p" and zs: "b \<notin> set zs" "t \<notin> set zs"
    using assms snoc by (auto simp: queue_repr_def queue_valid_def)
  have "dll_seg ?p1 None (zs @ [t]) (Some b)"
    using assms(1) snoc dll_seg_set_next [of ?p None zs t None "Some b"]
    by (simp add: queue_repr_def)
  then show ?thesis
    using assms snoc t b zs
    by (auto simp: append_block_def queue_repr_def queue_valid_def queue_meta_def fun_eq_iff
        Let_def dll_seg_frame block_meta_def nth_list_update_cases)
qed

lemma queue_repr_distinct: "queue_repr s xs \<Longrightarrow> distinct xs"
  by (simp add: queue_repr_def)

lemma popleft_Nil: "queue_repr s [] \<Longrightarrow> popleft s = Inl ValueError"
  by (simp add: popleft_def queue_repr_def)

lemma popleft_Cons: "queue_repr s (b # xs) \<Longrightarrow> popleft s = Inr (b, remove_block s b)"
  by (simp add: popleft_def queue_repr_def)

interpretation fq: block_queue queue_repr queue_valid queue_meta popleft remove_block append_block
proof
  fix s xs b
  assume "queue_repr s xs" and "b \<in> set xs"
  then show "queue_valid s b"
    by (auto simp: queue_repr_def queue_valid_def dest: dll_seg_bound)
qed (use append_block_repr in \<open>auto simp: remove_block_repr popleft_Nil popleft_Cons
      intro: queue_repr_distinct\<close>)

section \<open>Construction and traversal\<close>

lemma length_link_block [simp]: "length (link_block n i p) = length p"
  by (simp add: link_block_def Let_def)

lemma length_fold_link [simp]: "length (fold (link_block n) is p) = length p"
  by (induction "is" arbitrary: p) simp_all

lemma block_meta_fold_link [simp]: "block_meta (fold (link_block n) is p) = block_meta p"
  by (induction "is" arbitrary: p) (simp_all add: link_block_def Let_def)

lemma link_block_nth:
  "i < length p \<Longrightarrow> link_block n i p ! j =
     (if j = i then (p ! i)\<lparr>prev_free_block := (if i > 0 then Some (i - 1) else prev_free_block (p ! i)),
                           next_free_block := (if i < n - 1 then Some (i + 1) else next_free_block (p ! i))\<rparr>
      else p ! j)"
  by (auto simp: link_block_def Let_def)

lemma fold_link_nth:
  "k \<le> length p \<Longrightarrow> j < length p \<Longrightarrow> fold (link_block n) [0..<k] p ! j =
     (if j < k then
        (p ! j)\<lparr>prev_free_block := (if j > 0 then Some (j - 1) else prev_free_block (p ! j)),
                next_free_block := (if j < n - 1 then Some (j + 1) else next_free_block (p ! j))\<rparr>
      else p ! j)"
  by (induction k) (auto simp: link_block_nth less_Suc_eq)

lemma hd_or_upt: "hd_or d [i..<n] = (if i < n then Some i else d)"
  by (simp add: upt_rec)

lemma dll_seg_upt:
  assumes "length p = n" and "\<And>j. j < n \<Longrightarrow> prev_free_block (p ! j) = (if j > 0 then Some (j - 1) else None)"
    and "\<And>j. j < n \<Longrightarrow> next_free_block (p ! j) = (if j < n - 1 then Some (j + 1) else None)"
  shows "dll_seg p (if i > 0 then Some (i - 1) else None) [i..<n] None"
proof (induction "n - i" arbitrary: i)
  case 0
  then show ?case by simp
next
  case (Suc k)
  then have i: "[i..<n] = i # [Suc i..<n]" "i < n" by (simp_all add: upt_conv_Cons)
  have "dll_seg p (Some i) [Suc i..<n] None"
    using Suc.hyps(1) [of "Suc i"] Suc.hyps(2) by simp
  with i show ?case by (auto simp: assms hd_or_upt)
qed

lemma queue_init_repr:
  assumes "blocks \<noteq> []"
    and "\<forall>b\<in>set blocks. prev_free_block b = None \<and> next_free_block b = None"
  shows "\<exists>s. queue_init blocks = Inr s \<and> queue_repr s [0..<length blocks] \<and>
           queue_meta s = block_meta blocks \<and> length (fst s) = length blocks"
proof -
  let ?n = "length blocks"
  let ?p = "fold (link_block ?n) [0..<?n] blocks"
  have links: "prev_free_block (?p ! j) = (if j > 0 then Some (j - 1) else None)"
      "next_free_block (?p ! j) = (if j < ?n - 1 then Some (j + 1) else None)" if "j < ?n" for j
    using that assms(2) nth_mem [OF that] by (auto simp: fold_link_nth)
  have "dll_seg ?p None [0..<?n] None"
    using dll_seg_upt [of ?p ?n 0] links by simp
  then show ?thesis
    using assms(1) by (auto simp: queue_init_def queue_repr_def queue_meta_def hd_or_upt last_or_def)
qed

lemma collect_free_seg:
  "dll_seg p prv xs None \<Longrightarrow> collect_free p (hd_or None xs) acc = Some (acc @ xs)"
proof (induction xs arbitrary: prv acc)
  case Nil
  then show ?case by (simp add: collect_free.simps)
next
  case (Cons x xs)
  from Cons.prems have "next_free_block (p ! x) = hd_or None xs" and "dll_seg p (Some x) xs None"
    by simp_all
  with Cons.IH [of "Some x" "acc @ [x]"] show ?case
    by (simp add: collect_free.simps [of p "Some x"])
qed

lemma get_all_free_blocks_repr: "queue_repr s xs \<Longrightarrow> get_all_free_blocks s = Some xs"
  using collect_free_seg [of "fst s" None xs "[]"]
  by (simp add: get_all_free_blocks_def queue_repr_def)

end
