(* ===== verification/BlockHashing.thy ===== *)
theory BlockHashing
  imports Request
begin

text \<open>
  Hashing of full KV blocks for prefix caching (\<open>vllm/v1/core/kv_cache_utils.py\<close>):
  \<open>generate_block_hash_extra_keys\<close>, \<open>hash_block_tokens\<close> and \<open>hash_request_tokens\<close>.

  Python's built-in \<open>hash\<close> has no specified values, so it is a parameter: \<open>hash_tuple\<close> is \<open>hash\<close> on
  the triple of parent hash, token ids and extra keys, \<open>hash_none_str\<close> is \<open>hash('None')\<close>.  Nothing is
  assumed of it; where a property needs that two keys do not collide, a collision between the very
  keys that were hashed is an explicit alternative of the conclusion.
\<close>

record py_hash =
  hash_tuple :: "int \<times> int list \<times> string list option \<Rightarrow> int"
  hash_none_str :: int

section \<open>Operations\<close>

text \<open>The \<open>while\<close> loop over the multi-modal inputs that remain from index \<open>i\<close> on.\<close>

fun extra_keys_loop ::
  "(PlaceholderRange \<times> string) list \<Rightarrow> int \<Rightarrow> int \<Rightarrow> nat \<Rightarrow> string list \<times> nat" where
  "extra_keys_loop [] s e i = ([], i)"
| "extra_keys_loop ((p, h) # ps) s e i =
     (if e > pr_offset p then
        if s > pr_offset p + pr_length p then extra_keys_loop ps s e (i + 1)
        else if e \<ge> pr_offset p + pr_length p then
          (let (ks, j) = extra_keys_loop ps s e (i + 1) in (h # ks, j))
        else ([h], i)
      else ([], i))"

definition generate_block_hash_extra_keys ::
  "Request \<Rightarrow> int \<Rightarrow> int \<Rightarrow> int \<Rightarrow> (string list option \<times> int) py" where
  "generate_block_hash_extra_keys r s e mi =
     (let ps = mm_positions r; hs = mm_hashes r in
      if ps = [] then Inr (None, mi)
      else if length ps \<noteq> length hs then Inl ValueError
      else if pr_offset (last ps) + pr_length (last ps) < s then Inr (None, mi)
      else py_bind
        (if mi < 0 then py_assert (- mi \<le> int (length ps)) (Inr (int (length ps) + mi)) else Inr mi)
        (\<lambda>mi'. let (ks, j) = extra_keys_loop (drop (nat mi') (zip ps hs)) s e (nat mi')
               in Inr (Some ks, int j)))"

text \<open>A missing parent, and a parent hash of \<open>0\<close>, which is falsy, are replaced by \<open>hash('None')\<close>.\<close>

definition parent_value :: "py_hash \<Rightarrow> int option \<Rightarrow> int" where
  "parent_value hf parent =
     (case parent of None \<Rightarrow> hash_none_str hf
      | Some v \<Rightarrow> if v = 0 then hash_none_str hf else v)"

definition hash_block_tokens ::
  "py_hash \<Rightarrow> int option \<Rightarrow> int list \<Rightarrow> string list option \<Rightarrow> BlockHashType" where
  "hash_block_tokens hf parent toks ek =
     (let pv = parent_value hf parent
      in \<lparr>hash_value = hash_tuple hf (pv, toks, ek), token_ids = toks, extra_keys = ek\<rparr>)"

function hash_blocks_from ::
  "py_hash \<Rightarrow> nat \<Rightarrow> Request \<Rightarrow> nat \<Rightarrow> int option \<Rightarrow> string list option \<Rightarrow> int \<Rightarrow> BlockHashType list py" where
  "hash_blocks_from hf bs r start parent ek mi =
     (if 0 < bs \<and> start < length (all_token_ids r) then
        let toks = take bs (drop start (all_token_ids r)) in
        if length toks < bs then Inr []
        else py_bind
          (if mm_positions r \<noteq> [] then generate_block_hash_extra_keys r (int start) (int (start + bs)) mi
           else Inr (ek, mi))
          (\<lambda>(ek', mi').
             let bh = hash_block_tokens hf parent toks ek' in
             py_bind (hash_blocks_from hf bs r (start + bs) (Some (hash_value bh)) ek' mi')
               (\<lambda>rest. Inr (bh # rest)))
      else Inr [])"
  by pat_completeness auto
termination
  by (relation "measure (\<lambda>(hf, bs, r, start, _). length (all_token_ids r) - start)") auto

declare hash_blocks_from.simps [simp del]

text \<open>\<open>range(0, n, 0)\<close> raises, \<open>range(0, n, b)\<close> with negative \<open>b\<close> is empty.\<close>

definition hash_request_tokens :: "py_hash \<Rightarrow> int \<Rightarrow> Request \<Rightarrow> BlockHashType list py" where
  "hash_request_tokens hf block_size r =
     (if mm_positions r \<noteq> [] \<and> length (mm_positions r) \<noteq> length (mm_hashes r) then Inl ValueError
      else if block_size = 0 then Inl ValueError
      else hash_blocks_from hf (nat block_size) r 0 None None 0)"

section \<open>Extra keys\<close>

text \<open>
  Placeholder ranges in prompt order: disjoint, non-empty, sorted by offset, as the preprocessor
  produces them.
\<close>

fun positions_sorted :: "PlaceholderRange list \<Rightarrow> bool" where
  "positions_sorted [] = True"
| "positions_sorted (p # ps) =
     (0 \<le> pr_offset p \<and> 0 < pr_length p \<and>
      (\<forall>q\<in>set ps. pr_offset p + pr_length p \<le> pr_offset q) \<and> positions_sorted ps)"

lemma positions_sorted_mem:
  "positions_sorted ps \<Longrightarrow> p \<in> set ps \<Longrightarrow> 0 \<le> pr_offset p \<and> 0 < pr_length p"
  by (induction ps) auto

lemma positions_sorted_append:
  "positions_sorted (ps @ qs) \<longleftrightarrow> positions_sorted ps \<and> positions_sorted qs \<and>
     (\<forall>p\<in>set ps. \<forall>q\<in>set qs. pr_offset p + pr_length p \<le> pr_offset q)"
  by (induction ps) auto

lemma positions_sorted_nth:
  assumes "positions_sorted ps" "i < j" "j < length ps"
  shows "pr_offset (ps ! i) + pr_length (ps ! i) \<le> pr_offset (ps ! j)"
proof -
  have "ps = take (Suc i) ps @ drop (Suc i) ps" by simp
  then have "\<forall>p\<in>set (take (Suc i) ps). \<forall>q\<in>set (drop (Suc i) ps).
      pr_offset p + pr_length p \<le> pr_offset q"
    using assms(1) positions_sorted_append by metis
  moreover have "ps ! i \<in> set (take (Suc i) ps)"
    using assms(2,3) by (auto simp: in_set_conv_nth intro!: exI [of _ i])
  moreover have "ps ! j \<in> set (drop (Suc i) ps)"
    using assms(2,3) by (auto simp: in_set_conv_nth intro!: exI [of _ "j - Suc i"])
  ultimately show ?thesis by blast
qed

lemma extra_keys_loop_spec:
  "positions_sorted (map fst ps) \<Longrightarrow>
   fst (extra_keys_loop ps s e i) =
     map snd (filter (\<lambda>(p, h). pr_offset p < e \<and> s \<le> pr_offset p + pr_length p) ps)"
proof (induction ps s e i rule: extra_keys_loop.induct)
  case (1 s e i)
  then show ?case by simp
next
  case (2 p h ps s e i)
  have tail: "filter (\<lambda>(q, h). pr_offset q < e \<and> s \<le> pr_offset q + pr_length q) ps = []"
    if "e \<le> pr_offset p + pr_length p"
    using "2.prems" that by (force simp: filter_empty_conv)
  show ?case
    using "2.IH" "2.prems" tail positions_sorted_mem [OF "2.prems", of p]
    by (auto split: prod.splits)
qed

section \<open>The chain of block hashes\<close>

definition block_tokens_at :: "nat \<Rightarrow> int list \<Rightarrow> nat \<Rightarrow> int list" where
  "block_tokens_at bs toks i = take bs (drop (i * bs) toks)"

text \<open>What ties hash \<open>i\<close> of a chain to hash \<open>i - 1\<close>.\<close>

definition chain_at :: "py_hash \<Rightarrow> int option \<Rightarrow> BlockHashType list \<Rightarrow> nat \<Rightarrow> bool" where
  "chain_at hf parent hs i \<longleftrightarrow>
     hs ! i = hash_block_tokens hf (if i = 0 then parent else Some (hash_value (hs ! (i - 1))))
                (token_ids (hs ! i)) (extra_keys (hs ! i))"

lemma hash_block_tokens_sel [simp]:
  "token_ids (hash_block_tokens hf parent toks ek) = toks"
  "extra_keys (hash_block_tokens hf parent toks ek) = ek"
  by (simp_all add: hash_block_tokens_def Let_def)

lemma hash_blocks_from_chain:
  "hash_blocks_from hf bs r start parent ek mi = Inr hs \<Longrightarrow> i < length hs \<Longrightarrow>
     chain_at hf parent hs i \<and> token_ids (hs ! i) = take bs (drop (start + i * bs) (all_token_ids r))"
proof (induction hf bs r start parent ek mi arbitrary: hs i rule: hash_blocks_from.induct)
  case (1 hf bs r start parent ek mi)
  let ?toks = "take bs (drop start (all_token_ids r))"
  from "1.prems" obtain ek' mi' rest where c: "0 < bs" "start < length (all_token_ids r)"
      "\<not> length ?toks < bs"
    and g: "(if mm_positions r \<noteq> [] then generate_block_hash_extra_keys r (int start) (int (start + bs)) mi
             else Inr (ek, mi)) = Inr (ek', mi')"
    and rest: "hash_blocks_from hf bs r (start + bs)
                 (Some (hash_value (hash_block_tokens hf parent ?toks ek'))) ek' mi' = Inr rest"
    and hs: "hs = hash_block_tokens hf parent ?toks ek' # rest"
    by (subst (asm) (1) hash_blocks_from.simps) (auto simp: Let_def split: if_splits)
  show ?case
  proof (cases i)
    case 0
    then show ?thesis by (simp add: hs chain_at_def)
  next
    case (Suc j)
    with "1.prems"(2) hs have j: "j < length rest" by simp
    from "1.IH" [OF _ refl c(3) refl rest j] c
    have IH: "chain_at hf (Some (hash_value (hash_block_tokens hf parent ?toks ek'))) rest j"
        "token_ids (rest ! j) = take bs (drop (start + bs + j * bs) (all_token_ids r))"
      by auto
    then show ?thesis
      by (cases j) (auto simp: Suc hs chain_at_def algebra_simps)
  qed
qed

lemma hash_blocks_from_length:
  "hash_blocks_from hf bs r start parent ek mi = Inr hs \<Longrightarrow> 0 < bs \<Longrightarrow>
     length hs = (length (all_token_ids r) - start) div bs"
proof (induction hf bs r start parent ek mi arbitrary: hs rule: hash_blocks_from.induct)
  case (1 hf bs r start parent ek mi)
  let ?toks = "take bs (drop start (all_token_ids r))"
  show ?case
  proof (cases "start < length (all_token_ids r) \<and> \<not> length ?toks < bs")
    case False
    with "1.prems" have "hs = []"
      by (subst (asm) (1) hash_blocks_from.simps) (auto simp: Let_def split: if_splits)
    with False "1.prems" show ?thesis by auto
  next
    case True
    with "1.prems" obtain ek' mi' rest where
      g: "(if mm_positions r \<noteq> [] then generate_block_hash_extra_keys r (int start) (int (start + bs)) mi
             else Inr (ek, mi)) = Inr (ek', mi')"
      and rest: "hash_blocks_from hf bs r (start + bs)
                 (Some (hash_value (hash_block_tokens hf parent ?toks ek'))) ek' mi' = Inr rest"
      and hs: "hs = hash_block_tokens hf parent ?toks ek' # rest"
      by (subst (asm) (1) hash_blocks_from.simps) (auto simp: Let_def split: if_splits)
    from "1.IH" [OF _ refl _ refl rest] True "1.prems"
    have "length rest = (length (all_token_ids r) - (start + bs)) div bs" by simp
    moreover have "bs \<le> length (all_token_ids r) - start" using True by auto
    ultimately show ?thesis
      using "1.prems"(2) by (simp add: hs le_div_geq)
  qed
qed

text \<open>
  The key that is hashed for block \<open>i\<close> of a chain, and a collision between two chains up to block
  \<open>i\<close>: at some index two different keys got one value, or a parent hash is \<open>0\<close>, which the code takes
  for a missing parent.
\<close>

definition chain_key :: "py_hash \<Rightarrow> BlockHashType list \<Rightarrow> nat \<Rightarrow> int \<times> int list \<times> string list option" where
  "chain_key hf hs i =
     (parent_value hf (if i = 0 then None else Some (hash_value (hs ! (i - 1)))),
      token_ids (hs ! i), extra_keys (hs ! i))"

definition chain_collision :: "py_hash \<Rightarrow> BlockHashType list \<Rightarrow> BlockHashType list \<Rightarrow> nat \<Rightarrow> bool" where
  "chain_collision hf hs hs' i \<longleftrightarrow>
     (\<exists>j \<le> i. chain_key hf hs j \<noteq> chain_key hf hs' j \<and>
              hash_tuple hf (chain_key hf hs j) = hash_tuple hf (chain_key hf hs' j)) \<or>
     (\<exists>j < i. hash_value (hs ! j) = 0 \<or> hash_value (hs' ! j) = 0)"

lemma chain_at_value: "chain_at hf None hs i \<Longrightarrow> hash_value (hs ! i) = hash_tuple hf (chain_key hf hs i)"
  unfolding chain_at_def chain_key_def
  by (metis BlockHashType.select_convs(1) hash_block_tokens_def)

text \<open>Without a collision, equal hashes at one index force equal keys at every earlier index.\<close>

lemma chain_agree:
  assumes c1: "\<And>i. i < length hs \<Longrightarrow> chain_at hf None hs i"
    and c2: "\<And>i. i < length hs' \<Longrightarrow> chain_at hf None hs' i"
  shows "\<not> chain_collision hf hs hs' i \<Longrightarrow> i < length hs \<Longrightarrow> i < length hs' \<Longrightarrow>
     hash_value (hs ! i) = hash_value (hs' ! i) \<Longrightarrow> j \<le> i \<Longrightarrow> chain_key hf hs j = chain_key hf hs' j"
proof (induction i arbitrary: j)
  case 0
  then show ?case
    using chain_at_value [OF c1, of 0] chain_at_value [OF c2, of 0] by (auto simp: chain_collision_def)
next
  case (Suc i)
  have "hash_tuple hf (chain_key hf hs (Suc i)) = hash_tuple hf (chain_key hf hs' (Suc i))"
    using chain_at_value [OF c1, of "Suc i"] chain_at_value [OF c2, of "Suc i"] Suc.prems by simp
  then have eq: "chain_key hf hs (Suc i) = chain_key hf hs' (Suc i)"
    using Suc.prems(1) by (auto simp: chain_collision_def)
  have "hash_value (hs ! i) \<noteq> 0" "hash_value (hs' ! i) \<noteq> 0"
    using Suc.prems(1) by (auto simp: chain_collision_def)
  with eq have "hash_value (hs ! i) = hash_value (hs' ! i)"
    by (simp add: chain_key_def parent_value_def)
  moreover have "\<not> chain_collision hf hs hs' i"
    using Suc.prems(1) unfolding chain_collision_def by (meson le_SucI less_SucI)
  ultimately show ?case
    using eq Suc.IH [of j] Suc.prems by (cases "j = Suc i") simp_all
qed

lemma take_eq_blocks:
  assumes "\<And>j. j < n \<Longrightarrow> take bs (drop (j * bs) xs) = take bs (drop (j * bs) ys)"
  shows "take (n * bs) xs = take (n * bs) ys"
  using assms
proof (induction n)
  case (Suc n)
  have "take (Suc n * bs) zs = take (n * bs) zs @ take bs (drop (n * bs) zs)" for zs :: "'a list"
    by (simp add: take_add add.commute [of bs])
  with Suc show ?case by simp
qed simp

section \<open>Requests without multi-modal inputs\<close>

text \<open>The chain of the first \<open>n\<close> full blocks of a token list, without extra keys.\<close>

primrec text_chain :: "py_hash \<Rightarrow> nat \<Rightarrow> int list \<Rightarrow> nat \<Rightarrow> BlockHashType list" where
  "text_chain hf bs toks 0 = []"
| "text_chain hf bs toks (Suc n) =
     (let hs = text_chain hf bs toks n in
      hs @ [hash_block_tokens hf (if n = 0 then None else Some (hash_value (last hs)))
              (take bs (drop (n * bs) toks)) None])"

lemma length_text_chain [simp]: "length (text_chain hf bs toks n) = n"
  by (induction n) (simp_all add: Let_def)

lemma text_chain_take: "m \<le> n \<Longrightarrow> take m (text_chain hf bs toks n) = text_chain hf bs toks m"
  by (induction n) (auto simp: Let_def le_Suc_eq)

lemma text_chain_nth:
  assumes "i < n"
  shows "text_chain hf bs toks n ! i =
     hash_block_tokens hf (if i = 0 then None else Some (hash_value (text_chain hf bs toks n ! (i - 1))))
       (take bs (drop (i * bs) toks)) None"
proof -
  have nth: "text_chain hf bs toks n ! j = text_chain hf bs toks (Suc i) ! j" if "j < Suc i" for j
    using text_chain_take [of "Suc i" n hf bs toks] assms that by (metis Suc_leI nth_take)
  have "last (text_chain hf bs toks i) = text_chain hf bs toks i ! (i - 1)" if "i \<noteq> 0"
    using that last_conv_nth [of "text_chain hf bs toks i"] length_text_chain [of hf bs toks i] by fastforce
  then have "text_chain hf bs toks (Suc i) ! i =
      hash_block_tokens hf (if i = 0 then None else Some (hash_value (text_chain hf bs toks (Suc i) ! (i - 1))))
        (take bs (drop (i * bs) toks)) None"
    by (simp add: Let_def nth_append)
  with nth [of i] nth [of "i - 1"] show ?thesis by simp
qed

text \<open>Appending tokens does not change the hashes of the blocks that were full.\<close>

lemma text_chain_append: "n * bs \<le> length toks \<Longrightarrow> text_chain hf bs (toks @ ys) n = text_chain hf bs toks n"
proof (induction n)
  case (Suc n)
  then have "take bs (drop (n * bs) (toks @ ys)) = take bs (drop (n * bs) toks)" by simp
  with Suc show ?case by (simp add: Let_def)
qed simp

lemma hash_blocks_from_text:
  fixes bs :: nat and hf :: py_hash
  defines "C \<equiv> \<lambda>r. text_chain hf bs (all_token_ids r) (length (all_token_ids r) div bs)"
  assumes bs: "0 < bs" and mm: "mm_positions r = []"
  shows "k \<le> length (C r) \<Longrightarrow>
    hash_blocks_from hf bs r (k * bs) (if k = 0 then None else Some (hash_value (C r ! (k - 1)))) None mi =
      Inr (drop k (C r))"
proof (induction "length (C r) - k" arbitrary: k)
  case 0
  then have k: "k = length (all_token_ids r) div bs" by (simp add: C_def)
  have "length (all_token_ids r) - k * bs < bs"
    using bs by (simp add: k minus_div_mult_eq_mod)
  then show ?case
    using 0 by (subst hash_blocks_from.simps) (simp add: C_def k)
next
  case (Suc d)
  then have k: "k < length (all_token_ids r) div bs" by (simp add: C_def)
  then have le: "k * bs + bs \<le> length (all_token_ids r)"
    using bs by (metis Suc_leI add.commute less_eq_div_iff_mult_less_eq mult_Suc)
  have hd: "C r ! k = hash_block_tokens hf (if k = 0 then None else Some (hash_value (C r ! (k - 1))))
      (take bs (drop (k * bs) (all_token_ids r))) None"
    using text_chain_nth [OF k] by (simp add: C_def)
  have "drop k (C r) = C r ! k # drop (Suc k) (C r)"
    using k by (simp add: C_def Cons_nth_drop_Suc)
  moreover have "hash_blocks_from hf bs r (Suc k * bs) (Some (hash_value (C r ! k))) None mi =
      Inr (drop (Suc k) (C r))"
    using Suc.hyps(1) [of "Suc k"] Suc.hyps(2) k by (simp add: C_def)
  ultimately show ?case
    using bs mm le by (subst hash_blocks_from.simps) (simp add: Let_def hd [symmetric] add.commute)
qed

lemma hash_request_tokens_text:
  assumes "0 < bs" and "mm_positions r = []"
  shows "hash_request_tokens hf bs r =
     Inr (text_chain hf (nat bs) (all_token_ids r) (length (all_token_ids r) div nat bs))"
  using hash_blocks_from_text [of "nat bs" r 0 hf 0] assms by (simp add: hash_request_tokens_def)

lemma hash_request_tokens_chain:
  assumes "0 < bs" and "hash_request_tokens hf bs r = Inr hs" and "j < length hs"
  shows "chain_at hf None hs j \<and> token_ids (hs ! j) = take (nat bs) (drop (j * nat bs) (all_token_ids r))"
  using assms hash_blocks_from_chain [of hf "nat bs" r 0]
  by (auto simp: hash_request_tokens_def split: if_splits)

end
