(* ===== verification/KVCacheManager.thy ===== *)
theory KVCacheManager
  imports Complex_Main FreeBlockQueue BlockHashing
begin

text \<open>
  The KV cache manager (\<open>vllm/v1/core/kv_cache_manager.py\<close>): block allocation with prefix caching,
  reference counts, eviction in the order of the free queue, and freeing.

  State: the block pool (the objects), the free queue threaded through it, the map from block hashes
  to the cached blocks with that hash (inner dictionaries keep insertion order, and a value is
  determined by its key, so they are lists of block ids), and the map from request ids to the blocks
  of the request.  Operations that also update the request (its cached block hashes) return it.
\<close>

section \<open>State\<close>

record KVCacheManager =
  block_size :: int
  num_gpu_blocks :: nat
  max_model_len :: int
  max_num_blocks_per_req :: int
  sliding_window :: "int option"
  enable_caching :: bool
  num_preallocate_tokens :: int
  num_preallocate_blocks :: int
  block_pool :: pool
  free_block_queue :: FreeKVCacheBlockQueue
  cached_block_hash_to_block :: "BlockHashType \<Rightarrow> nat list option"
  req_to_blocks :: "string \<Rightarrow> nat list option"

abbreviation qst :: "KVCacheManager \<Rightarrow> qstate" where
  "qst m \<equiv> (block_pool m, free_block_queue m)"

definition set_qst :: "KVCacheManager \<Rightarrow> qstate \<Rightarrow> KVCacheManager" where
  "set_qst m s = m\<lparr>block_pool := fst s, free_block_queue := snd s\<rparr>"

definition upd_block :: "KVCacheManager \<Rightarrow> nat \<Rightarrow> (KVCacheBlock \<Rightarrow> KVCacheBlock) \<Rightarrow> KVCacheManager" where
  "upd_block m b f = m\<lparr>block_pool := (block_pool m)[b := f (block_pool m ! b)]\<rparr>"

definition blocks_of :: "KVCacheManager \<Rightarrow> string \<Rightarrow> nat list" where
  "blocks_of m rid = (case req_to_blocks m rid of None \<Rightarrow> [] | Some bs \<Rightarrow> bs)"

definition free_blocks_num :: "KVCacheManager \<Rightarrow> int" where
  "free_blocks_num m = num_free_blocks (free_block_queue m)"

section \<open>Operations\<close>

definition usage :: "KVCacheManager \<Rightarrow> rat py" where
  "usage m =
     (if num_gpu_blocks m = 0 then Inl ZeroDivisionError
      else Inr (1 - of_int (free_blocks_num m) / of_nat (num_gpu_blocks m)))"

text \<open>\<open>cdiv\<close> by zero and \<open>blocks[0]\<close> of an empty pool are the errors of the constructor.\<close>

definition kv_cache_manager_init ::
  "int \<Rightarrow> nat \<Rightarrow> int \<Rightarrow> int option \<Rightarrow> bool \<Rightarrow> int \<Rightarrow> KVCacheManager py" where
  "kv_cache_manager_init bs n mml sw caching prealloc =
     (if bs = 0 then Inl ZeroDivisionError
      else py_bind (queue_init (map new_block [0..<n]))
        (\<lambda>(p, q). Inr
          \<lparr>block_size = bs, num_gpu_blocks = n, max_model_len = mml,
           max_num_blocks_per_req = cdiv mml bs, sliding_window = sw, enable_caching = caching,
           num_preallocate_tokens = prealloc, num_preallocate_blocks = cdiv prealloc bs,
           block_pool = p, free_block_queue = q,
           cached_block_hash_to_block = Map.empty, req_to_blocks = Map.empty\<rparr>))"

text \<open>A truthy dictionary lookup: an entry's first key.\<close>

definition get_cached_block :: "KVCacheManager \<Rightarrow> BlockHashType \<Rightarrow> nat option py" where
  "get_cached_block m h =
     (case cached_block_hash_to_block m h of
        None \<Rightarrow> Inr None
      | Some [] \<Rightarrow> Inl IndexError
      | Some (b # _) \<Rightarrow> Inr (Some b))"

fun computed_blocks_loop :: "KVCacheManager \<Rightarrow> BlockHashType list \<Rightarrow> nat list py" where
  "computed_blocks_loop m [] = Inr []"
| "computed_blocks_loop m (h # hs) =
     py_bind (get_cached_block m h)
       (\<lambda>c. case c of None \<Rightarrow> Inr []
            | Some b \<Rightarrow> py_bind (computed_blocks_loop m hs) (\<lambda>bs. Inr (b # bs)))"

definition get_computed_blocks ::
  "py_hash \<Rightarrow> KVCacheManager \<Rightarrow> Request \<Rightarrow> ((nat list \<times> int) \<times> Request) py" where
  "get_computed_blocks hf m r =
     (if \<not> enable_caching m then Inr (([], 0), r)
      else py_bind
        (if kv_block_hashes r = [] then
           py_bind (hash_request_tokens hf (block_size m) r) (\<lambda>hs. Inr (set_kv_block_hashes r hs))
         else Inr r)
        (\<lambda>r'. py_bind (computed_blocks_loop m (kv_block_hashes r'))
           (\<lambda>bs. Inr ((bs, int (length bs) * block_size m), r'))))"

fun touch :: "KVCacheManager \<Rightarrow> nat list \<Rightarrow> KVCacheManager" where
  "touch m [] = m"
| "touch m (b # bs) =
     (let m1 = (if ref_cnt (block_pool m ! b) = 0 then set_qst m (remove_block (qst m) b) else m)
      in touch (upd_block m1 b incr_ref) bs)"

text \<open>
  \<open>_maybe_evict_cached_block\<close>: a block hash is a non-empty tuple, hence truthy when present.
\<close>

definition maybe_evict_cached_block :: "KVCacheManager \<Rightarrow> nat \<Rightarrow> (bool \<times> KVCacheManager) py" where
  "maybe_evict_cached_block m b =
     (case block_hash (block_pool m ! b) of
        None \<Rightarrow> Inr (False, m)
      | Some h \<Rightarrow>
          (case cached_block_hash_to_block m h of
             None \<Rightarrow> Inr (False, m)
           | Some ids \<Rightarrow>
               (let m1 = upd_block m b reset_hash in
                if b \<notin> set ids then Inl KeyError
                else let ids' = remove1 b ids in
                  Inr (True, m1\<lparr>cached_block_hash_to_block :=
                    (cached_block_hash_to_block m1)(h := (if ids' = [] then None else Some ids'))\<rparr>))))"

fun new_blocks_loop :: "KVCacheManager \<Rightarrow> nat \<Rightarrow> (nat list \<times> KVCacheManager) py" where
  "new_blocks_loop m 0 = Inr ([], m)"
| "new_blocks_loop m (Suc k) =
     py_bind (popleft (qst m)) (\<lambda>(b, s).
       let m1 = set_qst m s in
       py_assert (ref_cnt (block_pool m1 ! b) = 0)
         (py_bind (if enable_caching m1 then maybe_evict_cached_block m1 b else Inr (False, m1))
           (\<lambda>(_, m2). py_bind (new_blocks_loop (upd_block m2 b incr_ref) k)
              (\<lambda>(bs, m3). Inr (b # bs, m3)))))"

definition get_new_blocks :: "KVCacheManager \<Rightarrow> int \<Rightarrow> (nat list \<times> KVCacheManager) py" where
  "get_new_blocks m n =
     (if n > free_blocks_num m then Inl ValueError else new_blocks_loop m (nat n))"

text \<open>The leading blocks that already have a hash, and the hash value of the last one of them.\<close>

fun cached_offset :: "KVCacheManager \<Rightarrow> nat list \<Rightarrow> int option \<Rightarrow> nat \<times> int option" where
  "cached_offset m [] prev = (0, prev)"
| "cached_offset m (b # bs) prev =
     (case block_hash (block_pool m ! b) of
        None \<Rightarrow> (0, prev)
      | Some h \<Rightarrow> (let (k, p) = cached_offset m bs (Some (hash_value h)) in (Suc k, p)))"

definition block_hash_for ::
  "py_hash \<Rightarrow> int \<Rightarrow> Request \<Rightarrow> nat \<Rightarrow> nat \<Rightarrow> int option \<Rightarrow> (BlockHashType \<times> Request) py" where
  "block_hash_for hf bs r num_cached idx prev =
     (if idx < num_cached then Inr (kv_block_hashes r ! idx, r)
      else
        let s = int idx * bs; e = (int idx + 1) * bs; toks = py_slice (all_token_ids r) s e in
        py_assert (int (length toks) = bs)
          (py_bind (generate_block_hash_extra_keys r s e (- 1))
            (\<lambda>(ek, _). let bh = hash_block_tokens hf prev toks ek
                        in Inr (bh, append_kv_block_hashes r bh))))"

definition cache_insert :: "KVCacheManager \<Rightarrow> BlockHashType \<Rightarrow> nat \<Rightarrow> KVCacheManager" where
  "cache_insert m h b =
     m\<lparr>cached_block_hash_to_block := (cached_block_hash_to_block m)(h \<mapsto>
        (case cached_block_hash_to_block m h of
           None \<Rightarrow> [b] | Some ids \<Rightarrow> if b \<in> set ids then ids else ids @ [b]))\<rparr>"

fun cache_blocks_loop ::
  "py_hash \<Rightarrow> KVCacheManager \<Rightarrow> Request \<Rightarrow> nat \<Rightarrow> nat \<Rightarrow> nat list \<Rightarrow> int option \<Rightarrow>
   (KVCacheManager \<times> Request) py" where
  "cache_blocks_loop hf m r num_cached idx [] prev = Inr (m, r)"
| "cache_blocks_loop hf m r num_cached idx (b # bs) prev =
     py_assert (block_hash (block_pool m ! b) = None)
       (py_bind (block_hash_for hf (block_size m) r num_cached idx prev) (\<lambda>(h, r').
          py_bind (set_block_hash (block_pool m ! b) h) (\<lambda>blk.
            cache_blocks_loop hf (cache_insert (upd_block m b (\<lambda>_. blk)) h b) r' num_cached (Suc idx)
              bs (Some (hash_value h)))))"

definition cache_full_blocks ::
  "py_hash \<Rightarrow> KVCacheManager \<Rightarrow> Request \<Rightarrow> nat \<Rightarrow> nat list \<Rightarrow> nat option \<Rightarrow> (KVCacheManager \<times> Request) py" where
  "cache_full_blocks hf m r start full prev_block =
     py_bind
       (case prev_block of
          None \<Rightarrow> Inr None
        | Some b \<Rightarrow> (case block_hash (block_pool m ! b) of
                       None \<Rightarrow> Inl AssertionError
                     | Some h \<Rightarrow> Inr (Some (hash_value h))))
       (\<lambda>prev0.
          let (offset, prev) = cached_offset m full prev0 in
          if offset = length full then Inr (m, r)
          else cache_blocks_loop hf m r (length (kv_block_hashes r)) (start + offset)
                 (drop offset full) prev)"

text \<open>
  The part of \<open>allocate_slots\<close> after the free-block test: touch the hits, take new blocks, cache the
  blocks that become full.  \<open>nct\<close> is the number of computed tokens including the new hits.
\<close>

definition allocate_new_blocks ::
  "KVCacheManager \<Rightarrow> string \<Rightarrow> int \<Rightarrow> (nat list \<times> KVCacheManager) py" where
  "allocate_new_blocks m rid num_new =
     (if num_new \<le> 0 then Inr ([], m)
      else
        let n = min (min (num_new + num_preallocate_blocks m) (free_blocks_num m))
                  (max_num_blocks_per_req m - int (length (blocks_of m rid)))
        in py_assert (n > 0)
             (py_bind (get_new_blocks m n) (\<lambda>(nb, m').
                Inr (nb, m'\<lparr>req_to_blocks := (req_to_blocks m')(rid \<mapsto> blocks_of m' rid @ nb)\<rparr>))))"

definition cache_new_full ::
  "py_hash \<Rightarrow> KVCacheManager \<Rightarrow> Request \<Rightarrow> int \<Rightarrow> int \<Rightarrow> (KVCacheManager \<times> Request) py" where
  "cache_new_full hf m r nct n_tok =
     (let req_blocks = blocks_of m (request_id r);
          num_full = (nct + n_tok) div block_size m;
          num_computed_full = nct div block_size m;
          new_full = py_slice req_blocks num_computed_full num_full
      in if new_full = [] then Inr (m, r)
         else cache_full_blocks hf m r (nat num_computed_full) new_full
                (if num_computed_full > 0 then Some (req_blocks ! nat (num_computed_full - 1)) else None))"

definition allocate_slots ::
  "py_hash \<Rightarrow> KVCacheManager \<Rightarrow> Request \<Rightarrow> int \<Rightarrow> nat list \<Rightarrow>
   (nat list option \<times> KVCacheManager \<times> Request) py" where
  "allocate_slots hf m r n_tok new_computed =
     (if n_tok = 0 then Inl ValueError
      else
        let rid = request_id r;
            nct = num_computed_tokens r + int (length new_computed) * block_size m;
            required = cdiv (nct + n_tok) (block_size m);
            req_blocks = blocks_of m rid;
            m0 = m\<lparr>req_to_blocks := (req_to_blocks m)(rid \<mapsto> req_blocks)\<rparr>;
            num_new = required - int (length req_blocks) - int (length new_computed);
            evictable = int (length (filter (\<lambda>b. ref_cnt (block_pool m ! b) = 0) new_computed))
        in if num_new > free_blocks_num m0 - evictable then Inr (None, m0, r)
           else py_bind
             (if enable_caching m0 then Inr (touch m0 new_computed)
              else py_assert (new_computed = []) (Inr m0))
             (\<lambda>m1.
                let m2 = m1\<lparr>req_to_blocks := (req_to_blocks m1)(rid \<mapsto> req_blocks @ new_computed)\<rparr> in
                py_bind (allocate_new_blocks m2 rid num_new) (\<lambda>(nb, m3).
                  if \<not> enable_caching m3 then Inr (Some nb, m3, r)
                  else py_bind (cache_new_full hf m3 r nct n_tok)
                         (\<lambda>(m4, r'). Inr (Some nb, m4, r')))))"

fun free_loop :: "KVCacheManager \<Rightarrow> nat list \<Rightarrow> KVCacheManager py" where
  "free_loop m [] = Inr m"
| "free_loop m (b # bs) =
     (let m1 = upd_block m b decr_ref in
      if ref_cnt (block_pool m1 ! b) = 0
      then py_bind (append_block (qst m1) b) (\<lambda>s. free_loop (set_qst m1 s) bs)
      else free_loop m1 bs)"

definition free :: "KVCacheManager \<Rightarrow> string \<Rightarrow> KVCacheManager py" where
  "free m rid =
     (let bs = blocks_of m rid;
          m1 = m\<lparr>req_to_blocks := (req_to_blocks m)(rid := None)\<rparr>
      in free_loop m1 (if enable_caching m then rev bs else bs))"

definition reset_prefix_cache :: "KVCacheManager \<Rightarrow> bool \<times> KVCacheManager" where
  "reset_prefix_cache m =
     (if int (num_gpu_blocks m) - free_blocks_num m > 0 then (False, m)
      else (True, m\<lparr>cached_block_hash_to_block := Map.empty,
                    block_pool := map reset_hash (block_pool m)\<rparr>))"

fun common_prefix_loop :: "KVCacheManager \<Rightarrow> nat list \<Rightarrow> int \<Rightarrow> nat" where
  "common_prefix_loop m [] n = 0"
| "common_prefix_loop m (b # bs) n =
     (if ref_cnt (block_pool m ! b) = n then Suc (common_prefix_loop m bs n) else 0)"

definition get_num_common_prefix_blocks ::
  "KVCacheManager \<Rightarrow> Request \<Rightarrow> nat \<Rightarrow> (nat \<times> KVCacheManager) py" where
  "get_num_common_prefix_blocks m r num_running =
     py_assert (status r = RUNNING)
       (let bs = blocks_of m (request_id r) in
        Inr (common_prefix_loop m bs (int num_running),
             m\<lparr>req_to_blocks := (req_to_blocks m)(request_id r \<mapsto> bs)\<rparr>))"

section \<open>Invariant\<close>

definition refc :: "KVCacheManager \<Rightarrow> nat \<Rightarrow> int" where
  "refc m b = ref_cnt (block_pool m ! b)"

definition bhash :: "KVCacheManager \<Rightarrow> nat \<Rightarrow> BlockHashType option" where
  "bhash m b = block_hash (block_pool m ! b)"

definition bid :: "KVCacheManager \<Rightarrow> nat \<Rightarrow> nat" where
  "bid m b = block_id (block_pool m ! b)"

text \<open>
  The cache map and the hashes stored in the blocks say the same: a hash maps to the non-empty,
  duplicate-free list of the blocks that carry it.
\<close>

definition cache_ok :: "(BlockHashType \<Rightarrow> nat list option) \<Rightarrow> (nat \<Rightarrow> BlockHashType option) \<Rightarrow> nat \<Rightarrow> bool" where
  "cache_ok c g n \<longleftrightarrow>
     (\<forall>h ids. c h = Some ids \<longrightarrow> ids \<noteq> [] \<and> distinct ids \<and> (\<forall>b\<in>set ids. b < n \<and> g b = Some h)) \<and>
     (\<forall>b h. b < n \<longrightarrow> g b = Some h \<longrightarrow> (\<exists>ids. c h = Some ids \<and> b \<in> set ids))"

text \<open>
  \<open>kvm_rep m fl pend\<close>: the free queue holds \<open>fl\<close>, and every reference count is the number of times
  its block is held by a request, plus the references in \<open>pend\<close> that an operation has taken or not
  yet dropped.  A block is free exactly when its count is zero.
\<close>

definition kvm_rep :: "KVCacheManager \<Rightarrow> nat list \<Rightarrow> nat list \<Rightarrow> bool" where
  "kvm_rep m fl pend \<longleftrightarrow>
     queue_repr (qst m) fl \<and>
     length (block_pool m) = num_gpu_blocks m \<and>
     (\<forall>b < num_gpu_blocks m. bid m b = b) \<and>
     finite (dom (req_to_blocks m)) \<and>
     (\<forall>rid bs. req_to_blocks m rid = Some bs \<longrightarrow> set bs \<subseteq> {..<num_gpu_blocks m}) \<and>
     set pend \<subseteq> {..<num_gpu_blocks m} \<and>
     (\<forall>b < num_gpu_blocks m. refc m b = int (total_count (req_to_blocks m) b + count_list pend b)) \<and>
     (\<forall>b < num_gpu_blocks m. b \<in> set fl \<longleftrightarrow> refc m b = 0) \<and>
     cache_ok (cached_block_hash_to_block m) (bhash m) (num_gpu_blocks m)"

definition kvm_inv :: "KVCacheManager \<Rightarrow> bool" where
  "kvm_inv m \<longleftrightarrow> (\<exists>fl. kvm_rep m fl [])"

text \<open>The configuration, which no operation changes.\<close>

definition same_conf :: "KVCacheManager \<Rightarrow> KVCacheManager \<Rightarrow> bool" where
  "same_conf m m' \<longleftrightarrow>
     block_size m' = block_size m \<and> num_gpu_blocks m' = num_gpu_blocks m \<and>
     max_model_len m' = max_model_len m \<and> max_num_blocks_per_req m' = max_num_blocks_per_req m \<and>
     sliding_window m' = sliding_window m \<and> enable_caching m' = enable_caching m \<and>
     num_preallocate_tokens m' = num_preallocate_tokens m \<and>
     num_preallocate_blocks m' = num_preallocate_blocks m"

lemma same_conf_refl [simp]: "same_conf m m"
  by (simp add: same_conf_def)

lemma same_conf_trans: "same_conf a b \<Longrightarrow> same_conf b c \<Longrightarrow> same_conf a c"
  by (simp add: same_conf_def)

subsection \<open>Effect of the primitive updates\<close>

lemma set_qst_sel [simp, frame_simps]:
  "block_size (set_qst m s) = block_size m" "num_gpu_blocks (set_qst m s) = num_gpu_blocks m"
  "max_model_len (set_qst m s) = max_model_len m"
  "max_num_blocks_per_req (set_qst m s) = max_num_blocks_per_req m"
  "sliding_window (set_qst m s) = sliding_window m"
  "enable_caching (set_qst m s) = enable_caching m"
  "num_preallocate_tokens (set_qst m s) = num_preallocate_tokens m"
  "num_preallocate_blocks (set_qst m s) = num_preallocate_blocks m"
  "cached_block_hash_to_block (set_qst m s) = cached_block_hash_to_block m"
  "req_to_blocks (set_qst m s) = req_to_blocks m"
  "block_pool (set_qst m s) = fst s" "free_block_queue (set_qst m s) = snd s"
  by (simp_all add: set_qst_def)

lemma upd_block_sel [simp, frame_simps]:
  "block_size (upd_block m b f) = block_size m" "num_gpu_blocks (upd_block m b f) = num_gpu_blocks m"
  "max_model_len (upd_block m b f) = max_model_len m"
  "max_num_blocks_per_req (upd_block m b f) = max_num_blocks_per_req m"
  "sliding_window (upd_block m b f) = sliding_window m"
  "enable_caching (upd_block m b f) = enable_caching m"
  "num_preallocate_tokens (upd_block m b f) = num_preallocate_tokens m"
  "num_preallocate_blocks (upd_block m b f) = num_preallocate_blocks m"
  "cached_block_hash_to_block (upd_block m b f) = cached_block_hash_to_block m"
  "req_to_blocks (upd_block m b f) = req_to_blocks m"
  "length (block_pool (upd_block m b f)) = length (block_pool m)"
  "free_block_queue (upd_block m b f) = free_block_queue m"
  by (simp_all add: upd_block_def)

lemma meta_eqD:
  assumes "block_meta p = block_meta p'"
  shows "ref_cnt (p ! b) = ref_cnt (p' ! b)" "block_hash (p ! b) = block_hash (p' ! b)"
    "block_id (p ! b) = block_id (p' ! b)"
  using fun_cong [OF assms, of b] by (simp_all add: block_meta_def)

lemma set_qst_meta:
  assumes "queue_meta s = queue_meta (qst m)"
  shows "refc (set_qst m s) = refc m" "bhash (set_qst m s) = bhash m" "bid (set_qst m s) = bid m"
  using meta_eqD [of "fst s" "block_pool m"] assms
  by (auto simp: queue_meta_def refc_def bhash_def bid_def fun_eq_iff)

lemma set_qst_remove [simp]:
  "refc (set_qst m (remove_block (qst m) b)) = refc m"
  "bhash (set_qst m (remove_block (qst m) b)) = bhash m"
  "bid (set_qst m (remove_block (qst m) b)) = bid m"
  by (simp_all add: set_qst_meta)

lemma upd_block_refc:
  "b < length (block_pool m) \<Longrightarrow> refc (upd_block m b f) = (refc m)(b := ref_cnt (f (block_pool m ! b)))"
  "b < length (block_pool m) \<Longrightarrow> bhash (upd_block m b f) = (bhash m)(b := block_hash (f (block_pool m ! b)))"
  "b < length (block_pool m) \<Longrightarrow> bid (upd_block m b f) = (bid m)(b := block_id (f (block_pool m ! b)))"
  by (auto simp: refc_def bhash_def bid_def upd_block_def fun_eq_iff)

lemma block_field_ops [simp]:
  "ref_cnt (incr_ref k) = ref_cnt k + 1" "ref_cnt (decr_ref k) = ref_cnt k - 1"
  "ref_cnt (reset_hash k) = ref_cnt k" "block_hash (reset_hash k) = None"
  "block_hash (incr_ref k) = block_hash k" "block_hash (decr_ref k) = block_hash k"
  "block_id (incr_ref k) = block_id k" "block_id (decr_ref k) = block_id k"
  "block_id (reset_hash k) = block_id k"
  "prev_free_block (incr_ref k) = prev_free_block k" "prev_free_block (decr_ref k) = prev_free_block k"
  "prev_free_block (reset_hash k) = prev_free_block k"
  "next_free_block (incr_ref k) = next_free_block k" "next_free_block (decr_ref k) = next_free_block k"
  "next_free_block (reset_hash k) = next_free_block k"
  by (simp_all add: incr_ref_def decr_ref_def reset_hash_def)

lemma queue_repr_cong:
  assumes "length p' = length p"
    and "\<And>i. i < length p \<Longrightarrow> prev_free_block (p' ! i) = prev_free_block (p ! i)"
    and "\<And>i. i < length p \<Longrightarrow> next_free_block (p' ! i) = next_free_block (p ! i)"
  shows "queue_repr (p', q) xs \<longleftrightarrow> queue_repr (p, q) xs"
proof -
  have "dll_seg p' None xs None \<longleftrightarrow> dll_seg p None xs None"
  proof (cases "\<forall>x\<in>set xs. x < length p")
    case True
    with assms show ?thesis by (intro dll_seg_cong) auto
  next
    case False
    with assms(1) show ?thesis by (metis dll_seg_bound)
  qed
  with assms show ?thesis by (auto simp: queue_repr_def)
qed

lemma queue_repr_upd_block:
  assumes "prev_free_block (f (block_pool m ! b)) = prev_free_block (block_pool m ! b)"
    and "next_free_block (f (block_pool m ! b)) = next_free_block (block_pool m ! b)"
  shows "queue_repr (block_pool (upd_block m b f), q) xs \<longleftrightarrow> queue_repr (block_pool m, q) xs"
  unfolding upd_block_def
  by (simp, rule queue_repr_cong) (auto simp: nth_list_update_cases assms)

lemma kvm_rep_free_iff: "kvm_rep m fl pend \<Longrightarrow> b < num_gpu_blocks m \<Longrightarrow> b \<in> set fl \<longleftrightarrow> refc m b = 0"
  and kvm_rep_queue: "kvm_rep m fl pend \<Longrightarrow> queue_repr (qst m) fl"
  and kvm_rep_length: "kvm_rep m fl pend \<Longrightarrow> length (block_pool m) = num_gpu_blocks m"
  and kvm_rep_cache: "kvm_rep m fl pend \<Longrightarrow>
         cache_ok (cached_block_hash_to_block m) (bhash m) (num_gpu_blocks m)"
  and kvm_rep_finite: "kvm_rep m fl pend \<Longrightarrow> finite (dom (req_to_blocks m))"
  by (simp_all add: kvm_rep_def)

lemma kvm_rep_distinct: "kvm_rep m fl pend \<Longrightarrow> distinct fl"
  using kvm_rep_queue queue_repr_distinct by blast

lemma kvm_rep_bound: "kvm_rep m fl pend \<Longrightarrow> b \<in> set fl \<Longrightarrow> b < num_gpu_blocks m"
  using fq.repr_valid [OF kvm_rep_queue] kvm_rep_length by (fastforce simp: queue_valid_def)

lemma kvm_rep_num_free: "kvm_rep m fl pend \<Longrightarrow> free_blocks_num m = int (length fl)"
  using kvm_rep_queue [of m fl pend] by (simp add: queue_repr_def free_blocks_num_def)

lemma kvm_rep_pend_cong:
  "kvm_rep m fl pend \<Longrightarrow> (\<And>b. count_list pend' b = count_list pend b) \<Longrightarrow> kvm_rep m fl pend'"
proof -
  assume c: "\<And>b. count_list pend' b = count_list pend b"
  have "b \<in> set pend' \<longleftrightarrow> b \<in> set pend" for b
    using c [of b] by (metis count_list_0_iff)
  then have "set pend' = set pend" by blast
  then show "kvm_rep m fl pend \<Longrightarrow> kvm_rep m fl pend'"
    by (simp add: kvm_rep_def c)
qed

lemma count_list_rev_append: "count_list (pend @ rev bs) b = count_list (pend @ bs) b"
  by (simp add: count_list_append count_list_rev)

lemma removeAll_middle: "distinct (xs @ b # ys) \<Longrightarrow> removeAll b (xs @ b # ys) = xs @ ys"
  by (simp add: removeAll_id)

subsection \<open>Touching and taking blocks\<close>

text \<open>Taking one reference on a block, removing it from the free queue when it was free.\<close>

definition take_ref :: "KVCacheManager \<Rightarrow> nat \<Rightarrow> KVCacheManager" where
  "take_ref m b =
     upd_block (if refc m b = 0 then set_qst m (remove_block (qst m) b) else m) b incr_ref"

lemma touch_Cons: "touch m (b # bs) = touch (take_ref m b) bs"
  by (simp add: take_ref_def refc_def Let_def)

lemma take_ref_sel [simp, frame_simps]:
  "same_conf m (take_ref m b)" "num_gpu_blocks (take_ref m b) = num_gpu_blocks m"
  "enable_caching (take_ref m b) = enable_caching m"
  "cached_block_hash_to_block (take_ref m b) = cached_block_hash_to_block m"
  "req_to_blocks (take_ref m b) = req_to_blocks m"
  by (simp_all add: take_ref_def same_conf_def)

lemma take_ref_meta:
  assumes "length (block_pool m) = num_gpu_blocks m" and "b < num_gpu_blocks m"
  shows "refc (take_ref m b) = (refc m)(b := refc m b + 1)" "bhash (take_ref m b) = bhash m"
    "bid (take_ref m b) = bid m" "length (block_pool (take_ref m b)) = num_gpu_blocks m"
proof -
  let ?m1 = "if refc m b = 0 then set_qst m (remove_block (qst m) b) else m"
  have l: "length (block_pool ?m1) = num_gpu_blocks m"
    using assms by simp
  have "refc ?m1 = refc m" "bhash ?m1 = bhash m" "bid ?m1 = bid m" by simp_all
  then show "refc (take_ref m b) = (refc m)(b := refc m b + 1)" "bhash (take_ref m b) = bhash m"
      "bid (take_ref m b) = bid m" "length (block_pool (take_ref m b)) = num_gpu_blocks m"
    using l assms(2) unfolding take_ref_def
    by (simp_all add: upd_block_refc fun_eq_iff refc_def bhash_def bid_def)
qed

lemma take_ref_rep:
  assumes rep: "kvm_rep m fl pend" and b: "b < num_gpu_blocks m"
  shows "kvm_rep (take_ref m b) (removeAll b fl) (pend @ [b])"
proof -
  have q: "queue_repr (qst (take_ref m b)) (removeAll b fl)"
  proof (cases "refc m b = 0")
    case True
    then have "b \<in> set fl" using rep b by (simp add: kvm_rep_free_iff)
    then obtain xs ys where fl: "fl = xs @ b # ys" by (meson split_list)
    have "queue_repr (remove_block (qst m) b) (xs @ ys)"
      using kvm_rep_queue [OF rep] by (simp add: fl remove_block_repr)
    moreover have "removeAll b fl = xs @ ys"
      using kvm_rep_distinct [OF rep] by (simp add: fl removeAll_middle)
    ultimately show ?thesis
      by (simp add: take_ref_def True queue_repr_upd_block)
  next
    case False
    then have "b \<notin> set fl" using rep b by (simp add: kvm_rep_free_iff)
    with False kvm_rep_queue [OF rep] show ?thesis
      by (simp add: take_ref_def queue_repr_upd_block removeAll_id)
  qed
  have refs: "\<forall>c < num_gpu_blocks m. 0 \<le> refc m c"
    using rep by (simp add: kvm_rep_def)
  show ?thesis
    using rep q b refs take_ref_meta [OF kvm_rep_length [OF rep] b]
    by (auto simp: kvm_rep_def)
qed

lemma touch_rep:
  "kvm_rep m fl pend \<Longrightarrow> set bs \<subseteq> {..<num_gpu_blocks m} \<Longrightarrow>
     kvm_rep (touch m bs) (filter (\<lambda>b. b \<notin> set bs) fl) (pend @ bs) \<and> same_conf m (touch m bs) \<and>
     bhash (touch m bs) = bhash m \<and> req_to_blocks (touch m bs) = req_to_blocks m \<and>
     cached_block_hash_to_block (touch m bs) = cached_block_hash_to_block m"
proof (induction bs arbitrary: m fl pend)
  case Nil
  then show ?case by simp
next
  case (Cons b bs)
  then have b: "b < num_gpu_blocks m" by simp
  have "kvm_rep (take_ref m b) (removeAll b fl) (pend @ [b])"
    using take_ref_rep [OF Cons.prems(1) b] .
  from Cons.IH [OF this] Cons.prems(2)
  have "kvm_rep (touch (take_ref m b) bs) (filter (\<lambda>c. c \<notin> set bs) (removeAll b fl)) (pend @ [b] @ bs)"
      "same_conf (take_ref m b) (touch (take_ref m b) bs)"
      "bhash (touch (take_ref m b) bs) = bhash (take_ref m b)"
      "req_to_blocks (touch (take_ref m b) bs) = req_to_blocks m"
      "cached_block_hash_to_block (touch (take_ref m b) bs) = cached_block_hash_to_block m"
    by simp_all
  moreover have "filter (\<lambda>c. c \<notin> set bs) (removeAll b fl) = filter (\<lambda>c. c \<notin> set (b # bs)) fl"
    by (auto simp: removeAll_filter_not_eq conj_commute intro!: filter_cong)
  ultimately show ?case
    using take_ref_meta [OF kvm_rep_length [OF Cons.prems(1)] b]
    by (auto simp del: touch.simps simp: touch_Cons intro: same_conf_trans [OF take_ref_sel(1)])
qed

lemma cache_okE:
  assumes "cache_ok c g n" and "b < n" and "g b = Some h"
  obtains ids where "c h = Some ids" and "b \<in> set ids"
  using assms unfolding cache_ok_def by blast

lemma cache_okD:
  assumes "cache_ok c g n" and "c h = Some ids"
  shows "ids \<noteq> []" "distinct ids" "x \<in> set ids \<Longrightarrow> x < n \<and> g x = Some h"
  using assms unfolding cache_ok_def by blast+

text \<open>Evicting never fails on a consistent cache, and keeps it consistent.\<close>

lemma cache_ok_evict:
  assumes ok: "cache_ok c g n" and h: "g b = Some h" and b: "b < n" and ids: "c h = Some ids"
  shows "b \<in> set ids"
    "cache_ok (c(h := (if remove1 b ids = [] then None else Some (remove1 b ids)))) (g(b := None)) n"
proof -
  have d: "distinct ids" "\<forall>x\<in>set ids. x < n \<and> g x = Some h" and other:
    "\<And>h' ids'. c h' = Some ids' \<Longrightarrow> ids' \<noteq> [] \<and> distinct ids' \<and> (\<forall>x\<in>set ids'. x < n \<and> g x = Some h')"
    using ok ids by (auto simp: cache_ok_def)
  show "b \<in> set ids" using ok h b ids by (fastforce simp: cache_ok_def)
  show "cache_ok (c(h := (if remove1 b ids = [] then None else Some (remove1 b ids)))) (g(b := None)) n"
    unfolding cache_ok_def
  proof (intro conjI allI impI)
    fix h' ids'
    assume a: "(c(h := (if remove1 b ids = [] then None else Some (remove1 b ids)))) h' = Some ids'"
    show "ids' \<noteq> []" "distinct ids'"
      using a d other by (auto split: if_splits)
    show "\<forall>x\<in>set ids'. x < n \<and> (g(b := None)) x = Some h'"
      using a d other h by (fastforce split: if_splits)
  next
    fix x h'
    assume x: "x < n" "(g(b := None)) x = Some h'"
    then have "x \<noteq> b" "g x = Some h'" by (auto split: if_splits)
    with ok x(1) obtain ids' where "c h' = Some ids'" "x \<in> set ids'" by (blast elim: cache_okE)
    moreover have "x \<in> set ids \<Longrightarrow> x \<in> set (remove1 b ids)"
      using in_set_remove1 [OF \<open>x \<noteq> b\<close>, of ids] by simp
    ultimately show "\<exists>ids'. (c(h := (if remove1 b ids = [] then None else Some (remove1 b ids)))) h' = Some ids' \<and>
            x \<in> set ids'"
      using ids by (cases "h' = h") auto
  qed
qed

lemma maybe_evict_ok:
  assumes ok: "cache_ok (cached_block_hash_to_block m) (bhash m) (num_gpu_blocks m)"
    and len: "length (block_pool m) = num_gpu_blocks m" and b: "b < num_gpu_blocks m"
  shows "\<exists>ev m'. maybe_evict_cached_block m b = Inr (ev, m') \<and> bhash m' = (bhash m)(b := None) \<and>
     refc m' = refc m \<and> bid m' = bid m \<and> req_to_blocks m' = req_to_blocks m \<and> same_conf m m' \<and>
     length (block_pool m') = length (block_pool m) \<and> free_block_queue m' = free_block_queue m \<and>
     cache_ok (cached_block_hash_to_block m') (bhash m') (num_gpu_blocks m) \<and>
     (\<forall>q xs. queue_repr (block_pool m', q) xs \<longleftrightarrow> queue_repr (block_pool m, q) xs)"
proof (cases "bhash m b")
  case None
  then show ?thesis
    using ok by (auto simp: maybe_evict_cached_block_def bhash_def fun_upd_idem)
next
  case (Some h)
  with ok b obtain ids where ids: "cached_block_hash_to_block m h = Some ids" "b \<in> set ids"
    by (rule cache_okE)
  let ?m1 = "upd_block m b reset_hash"
  let ?c = "(cached_block_hash_to_block m)(h := (if remove1 b ids = [] then None else Some (remove1 b ids)))"
  have ev: "maybe_evict_cached_block m b = Inr (True, ?m1\<lparr>cached_block_hash_to_block := ?c\<rparr>)"
    using Some ids by (simp add: maybe_evict_cached_block_def bhash_def Let_def)
  have g: "bhash ?m1 = (bhash m)(b := None)" "refc ?m1 = refc m" "bid ?m1 = bid m"
    using b len by (auto simp: upd_block_refc fun_eq_iff refc_def bid_def)
  have sel: "bhash (?m1\<lparr>cached_block_hash_to_block := ?c\<rparr>) = bhash ?m1"
      "refc (?m1\<lparr>cached_block_hash_to_block := ?c\<rparr>) = refc ?m1"
      "bid (?m1\<lparr>cached_block_hash_to_block := ?c\<rparr>) = bid ?m1"
    by (simp_all add: bhash_def refc_def bid_def fun_eq_iff)
  show ?thesis
    using cache_ok_evict(2) [OF ok Some b ids(1)] ev
    by (auto simp: sel g same_conf_def queue_repr_upd_block)
qed

text \<open>One round of \<open>_get_new_blocks\<close>: the oldest free block, stripped of its hash, now referenced.\<close>

lemma new_block_step:
  assumes rep: "kvm_rep m (b # fl) pend"
  shows "\<exists>m'. (\<forall>k. new_blocks_loop m (Suc k) =
              py_bind (new_blocks_loop m' k) (\<lambda>(bs, m3). Inr (b # bs, m3))) \<and>
     kvm_rep m' fl (pend @ [b]) \<and> same_conf m m' \<and> req_to_blocks m' = req_to_blocks m \<and>
     (\<forall>c. c \<noteq> b \<longrightarrow> bhash m' c = bhash m c) \<and> (enable_caching m \<longrightarrow> bhash m' b = None)"
proof -
  let ?n = "num_gpu_blocks m"
  let ?m1 = "set_qst m (remove_block (qst m) b)"
  have b: "b < ?n" using kvm_rep_bound [OF rep] by simp
  have pop: "popleft (qst m) = Inr (b, remove_block (qst m) b)"
    using kvm_rep_queue [OF rep] by (rule popleft_Cons)
  have q1: "queue_repr (remove_block (qst m) b) fl"
    using remove_block_repr [of "qst m" "[]" b fl] kvm_rep_queue [OF rep] by simp
  have r0: "refc m b = 0" using rep b kvm_rep_free_iff by fastforce
  have "block_meta (fst (remove_block (qst m) b)) = block_meta (block_pool m)"
    using remove_block_meta [of "qst m" b] unfolding queue_meta_def by simp
  note rm = meta_eqD(1) [OF this, of b]
  have len: "length (block_pool ?m1) = ?n" using kvm_rep_length [OF rep] by simp
  obtain ev m2 where m2: "(if enable_caching ?m1 then maybe_evict_cached_block ?m1 b else Inr (False, ?m1))
        = Inr (ev, m2)"
      "\<forall>c. c \<noteq> b \<longrightarrow> bhash m2 c = bhash m c" "enable_caching m \<longrightarrow> bhash m2 b = None"
      "refc m2 = refc m" "bid m2 = bid m" "req_to_blocks m2 = req_to_blocks m" "same_conf m m2"
      "length (block_pool m2) = ?n" "free_block_queue m2 = free_block_queue ?m1"
      "cache_ok (cached_block_hash_to_block m2) (bhash m2) ?n"
      "queue_repr (block_pool m2, free_block_queue m2) fl"
    using maybe_evict_ok [of ?m1 b] kvm_rep_cache [OF rep] len b q1
    by (cases "enable_caching m") (auto simp: same_conf_def)
  let ?m3 = "upd_block m2 b incr_ref"
  have meta: "refc ?m3 = (refc m)(b := refc m b + 1)" "bhash ?m3 = bhash m2" "bid ?m3 = bid m"
    using upd_block_refc [of b m2 incr_ref] m2 b by (auto simp: fun_eq_iff refc_def bhash_def bid_def)
  have "kvm_rep ?m3 fl (pend @ [b])"
    using rep m2 meta b r0 kvm_rep_distinct [OF rep]
    by (auto simp: kvm_rep_def queue_repr_upd_block same_conf_def)
  moreover have "new_blocks_loop m (Suc k) = py_bind (new_blocks_loop ?m3 k) (\<lambda>(bs, m3). Inr (b # bs, m3))" for k
    using m2(1) r0 rm by (simp add: pop Let_def refc_def)
  ultimately show ?thesis
    using m2 meta by (intro exI [of _ ?m3]) (auto simp: same_conf_def)
qed

lemma new_blocks_loop_rep:
  "kvm_rep m fl pend \<Longrightarrow> k \<le> length fl \<Longrightarrow>
     \<exists>m'. new_blocks_loop m k = Inr (take k fl, m') \<and> kvm_rep m' (drop k fl) (pend @ take k fl) \<and>
       same_conf m m' \<and> req_to_blocks m' = req_to_blocks m \<and>
       (\<forall>b. b \<notin> set (take k fl) \<longrightarrow> bhash m' b = bhash m b) \<and>
       (enable_caching m \<longrightarrow> (\<forall>b\<in>set (take k fl). bhash m' b = None))"
proof (induction k arbitrary: m fl pend)
  case 0
  then show ?case by simp
next
  case (Suc k)
  then obtain b fl' where fl: "fl = b # fl'" by (cases fl) auto
  from new_block_step [OF Suc.prems(1) [unfolded fl]] obtain m1 where m1:
    "\<forall>k. new_blocks_loop m (Suc k) = py_bind (new_blocks_loop m1 k) (\<lambda>(bs, m3). Inr (b # bs, m3))"
    "kvm_rep m1 fl' (pend @ [b])" "same_conf m m1" "req_to_blocks m1 = req_to_blocks m"
    "\<forall>c. c \<noteq> b \<longrightarrow> bhash m1 c = bhash m c" "enable_caching m \<longrightarrow> bhash m1 b = None" by blast
  from Suc.IH [OF m1(2)] Suc.prems(2) fl obtain m2 where m2:
    "new_blocks_loop m1 k = Inr (take k fl', m2)" "kvm_rep m2 (drop k fl') ((pend @ [b]) @ take k fl')"
    "same_conf m1 m2" "req_to_blocks m2 = req_to_blocks m1"
    "\<forall>b. b \<notin> set (take k fl') \<longrightarrow> bhash m2 b = bhash m1 b"
    "enable_caching m1 \<longrightarrow> (\<forall>b\<in>set (take k fl'). bhash m2 b = None)" by auto
  have "b \<notin> set (take k fl')"
    using kvm_rep_distinct [OF Suc.prems(1)] fl by (auto dest: in_set_takeD)
  with m1 m2 show ?case
    by (auto simp del: new_blocks_loop.simps simp: fl intro: same_conf_trans)
       (auto simp: same_conf_def)
qed

lemma get_new_blocks_rep:
  assumes "kvm_rep m fl pend" and "0 \<le> n" and "n \<le> free_blocks_num m"
  shows "\<exists>m'. get_new_blocks m n = Inr (take (nat n) fl, m') \<and>
     kvm_rep m' (drop (nat n) fl) (pend @ take (nat n) fl) \<and> same_conf m m' \<and>
     req_to_blocks m' = req_to_blocks m \<and>
     (\<forall>b. b \<notin> set (take (nat n) fl) \<longrightarrow> bhash m' b = bhash m b) \<and>
     (enable_caching m \<longrightarrow> (\<forall>b\<in>set (take (nat n) fl). bhash m' b = None))"
  using new_blocks_loop_rep [OF assms(1), of "nat n"] assms kvm_rep_num_free [OF assms(1)]
  by (simp add: get_new_blocks_def)

subsection \<open>Giving blocks to a request and caching them\<close>

lemma set_rtb_meta [simp]:
  "refc (m\<lparr>req_to_blocks := M\<rparr>) = refc m" "bhash (m\<lparr>req_to_blocks := M\<rparr>) = bhash m"
  "bid (m\<lparr>req_to_blocks := M\<rparr>) = bid m"
  by (simp_all add: refc_def bhash_def bid_def fun_eq_iff)

lemma set_cache_meta [simp]:
  "refc (m\<lparr>cached_block_hash_to_block := M\<rparr>) = refc m"
  "bhash (m\<lparr>cached_block_hash_to_block := M\<rparr>) = bhash m"
  "bid (m\<lparr>cached_block_hash_to_block := M\<rparr>) = bid m"
  by (simp_all add: refc_def bhash_def bid_def fun_eq_iff)

lemma set_rtb_conf [simp]: "same_conf m (m\<lparr>req_to_blocks := M\<rparr>)"
  by (simp add: same_conf_def)

lemma free_blocks_num_rtb [simp]: "free_blocks_num (m\<lparr>req_to_blocks := M\<rparr>) = free_blocks_num m"
  by (simp add: free_blocks_num_def)

text \<open>References taken on behalf of a request move from the pending list into its block list.\<close>

lemma blocks_of_bound: "kvm_rep m fl pend \<Longrightarrow> set (blocks_of m rid) \<subseteq> {..<num_gpu_blocks m}"
  by (cases "req_to_blocks m rid") (simp_all add: kvm_rep_def blocks_of_def)

lemma hold_rep:
  assumes rep: "kvm_rep m fl (pend @ bs)"
  shows "kvm_rep (m\<lparr>req_to_blocks := (req_to_blocks m)(rid \<mapsto> blocks_of m rid @ bs)\<rparr>) fl pend"
proof -
  let ?M = "req_to_blocks m"
  have fin: "finite (dom ?M)" using kvm_rep_finite [OF rep] .
  have "total_count (?M(rid \<mapsto> blocks_of m rid @ bs)) b = total_count ?M b + count_list bs b" for b
  proof (cases "?M rid")
    case None
    then show ?thesis using total_count_upd_fresh [OF fin None] by (simp add: blocks_of_def)
  next
    case (Some xs)
    then show ?thesis using total_count_upd [OF fin Some, of "xs @ bs" b]
      by (simp add: blocks_of_def count_list_append)
  qed
  moreover have "set (blocks_of m rid) \<subseteq> {..<num_gpu_blocks m}"
    using blocks_of_bound [OF rep] .
  ultimately show ?thesis
    using rep by (auto simp: kvm_rep_def count_list_append)
qed

lemma default_rep:
  "kvm_rep m fl pend \<Longrightarrow> kvm_rep (m\<lparr>req_to_blocks := (req_to_blocks m)(rid \<mapsto> blocks_of m rid)\<rparr>) fl pend"
  using hold_rep [of m fl pend "[]" rid] by simp

lemma cache_ok_insert:
  assumes ok: "cache_ok c g n" and g: "g b = None" and b: "b < n"
  shows "cache_ok (c(h \<mapsto> (case c h of None \<Rightarrow> [b] | Some ids \<Rightarrow> if b \<in> set ids then ids else ids @ [b])))
           (g(b \<mapsto> h)) n"
proof -
  have nb: "b \<notin> set ids" if "c h' = Some ids" for h' ids
    using cache_okD(3) [OF ok that, of b] g by auto
  show ?thesis
    unfolding cache_ok_def
  proof (intro conjI allI impI)
    fix h' ids
    assume a: "(c(h \<mapsto> (case c h of None \<Rightarrow> [b] | Some ids \<Rightarrow> if b \<in> set ids then ids else ids @ [b]))) h'
               = Some ids"
    show "ids \<noteq> []" "distinct ids"
      using a cache_okD(1,2) [OF ok] nb by (auto split: if_splits option.splits)
    show "\<forall>x\<in>set ids. x < n \<and> (g(b \<mapsto> h)) x = Some h'"
      using a cache_okD(3) [OF ok] nb b by (auto split: if_splits option.splits)
  next
    fix x h'
    assume x: "x < n" "(g(b \<mapsto> h)) x = Some h'"
    show "\<exists>ids. (c(h \<mapsto> (case c h of None \<Rightarrow> [b] | Some ids \<Rightarrow> if b \<in> set ids then ids else ids @ [b]))) h'
               = Some ids \<and> x \<in> set ids"
    proof (cases "x = b")
      case True
      with x show ?thesis by (auto split: option.splits)
    next
      case False
      with x have "g x = Some h'" by simp
      with ok x(1) obtain ids where "c h' = Some ids" "x \<in> set ids" by (blast elim: cache_okE)
      then show ?thesis by (cases "h' = h") auto
    qed
  qed
qed

lemma cache_insert_step:
  assumes rep: "kvm_rep m fl pend" and b: "b < num_gpu_blocks m" and g: "bhash m b = None"
    and m': "m' = cache_insert (upd_block m b (\<lambda>_. (block_pool m ! b)\<lparr>block_hash := Some h\<rparr>)) h b"
  shows "kvm_rep m' fl pend" "same_conf m m'" "req_to_blocks m' = req_to_blocks m"
    "refc m' = refc m" "bhash m' = (bhash m)(b \<mapsto> h)"
proof -
  have len: "b < length (block_pool m)" using kvm_rep_length [OF rep] b by simp
  let ?m1 = "upd_block m b (\<lambda>_. (block_pool m ! b)\<lparr>block_hash := Some h\<rparr>)"
  have r: "refc ?m1 = refc m" and h: "bhash ?m1 = (bhash m)(b \<mapsto> h)" and i: "bid ?m1 = bid m"
    using upd_block_refc [OF len] by (auto simp: fun_eq_iff refc_def bhash_def bid_def)
  show "refc m' = refc m" "bhash m' = (bhash m)(b \<mapsto> h)" "same_conf m m'"
      "req_to_blocks m' = req_to_blocks m"
    by (simp_all add: m' cache_insert_def r h same_conf_def)
  show "kvm_rep m' fl pend"
    using rep cache_ok_insert [OF kvm_rep_cache [OF rep] g b, of h]
    by (simp add: kvm_rep_def m' cache_insert_def r h i queue_repr_upd_block)
qed

text \<open>The only field of a request that caching blocks can change.\<close>

definition same_req :: "Request \<Rightarrow> Request \<Rightarrow> bool" where
  "same_req r r' \<longleftrightarrow> r' = r\<lparr>kv_block_hashes := kv_block_hashes r'\<rparr>"

lemma same_req_refl [simp]: "same_req r r"
  by (simp add: same_req_def)

lemma same_req_sel:
  assumes "same_req r r'"
  shows "request_id r' = request_id r" "status r' = status r" "all_token_ids r' = all_token_ids r"
    "num_computed_tokens r' = num_computed_tokens r" "mm_positions r' = mm_positions r"
    "mm_inputs r' = mm_inputs r" "mm_hashes r' = mm_hashes r" "num_tokens r' = num_tokens r"
    "output_token_ids r' = output_token_ids r" "max_tokens r' = max_tokens r"
    "sampling_params r' = sampling_params r" "eos_token_id r' = eos_token_id r"
    "prompt_token_ids r' = prompt_token_ids r" "num_prompt_tokens r' = num_prompt_tokens r"
    "stop_reason r' = stop_reason r"
proof -
  have "r' = r\<lparr>kv_block_hashes := kv_block_hashes r'\<rparr>" using assms by (simp add: same_req_def)
  moreover have "request_id (r\<lparr>kv_block_hashes := k\<rparr>) = request_id r" "status (r\<lparr>kv_block_hashes := k\<rparr>) = status r"
    "all_token_ids (r\<lparr>kv_block_hashes := k\<rparr>) = all_token_ids r"
    "num_computed_tokens (r\<lparr>kv_block_hashes := k\<rparr>) = num_computed_tokens r"
    "mm_positions (r\<lparr>kv_block_hashes := k\<rparr>) = mm_positions r"
    "mm_inputs (r\<lparr>kv_block_hashes := k\<rparr>) = mm_inputs r" "mm_hashes (r\<lparr>kv_block_hashes := k\<rparr>) = mm_hashes r"
    "num_tokens (r\<lparr>kv_block_hashes := k\<rparr>) = num_tokens r"
    "output_token_ids (r\<lparr>kv_block_hashes := k\<rparr>) = output_token_ids r"
    "max_tokens (r\<lparr>kv_block_hashes := k\<rparr>) = max_tokens r"
    "sampling_params (r\<lparr>kv_block_hashes := k\<rparr>) = sampling_params r"
    "eos_token_id (r\<lparr>kv_block_hashes := k\<rparr>) = eos_token_id r"
    "prompt_token_ids (r\<lparr>kv_block_hashes := k\<rparr>) = prompt_token_ids r"
    "num_prompt_tokens (r\<lparr>kv_block_hashes := k\<rparr>) = num_prompt_tokens r"
    "stop_reason (r\<lparr>kv_block_hashes := k\<rparr>) = stop_reason r" for k
    by (simp_all add: num_tokens_def)
  ultimately show "request_id r' = request_id r" "status r' = status r" "all_token_ids r' = all_token_ids r"
    "num_computed_tokens r' = num_computed_tokens r" "mm_positions r' = mm_positions r"
    "mm_inputs r' = mm_inputs r" "mm_hashes r' = mm_hashes r" "num_tokens r' = num_tokens r"
    "output_token_ids r' = output_token_ids r" "max_tokens r' = max_tokens r"
    "sampling_params r' = sampling_params r" "eos_token_id r' = eos_token_id r"
    "prompt_token_ids r' = prompt_token_ids r" "num_prompt_tokens r' = num_prompt_tokens r"
    "stop_reason r' = stop_reason r"
    by metis+
qed

lemma same_req_trans: "same_req a b \<Longrightarrow> same_req b c \<Longrightarrow> same_req a c"
  by (cases a; cases b; cases c) (simp add: same_req_def)

lemma block_hash_for_req: "block_hash_for hf bs r nc idx prev = Inr (h, r') \<Longrightarrow> same_req r r'"
  by (auto simp: block_hash_for_def same_req_def append_kv_block_hashes_def Let_def split: if_splits)

lemma cache_blocks_loop_rep:
  "kvm_rep m fl pend \<Longrightarrow> set bs \<subseteq> {..<num_gpu_blocks m} \<Longrightarrow>
   cache_blocks_loop hf m r nc idx bs prev = Inr (m', r') \<Longrightarrow>
     kvm_rep m' fl pend \<and> same_conf m m' \<and> req_to_blocks m' = req_to_blocks m \<and> refc m' = refc m \<and>
     same_req r r' \<and> (\<forall>b. b \<notin> set bs \<longrightarrow> bhash m' b = bhash m b) \<and> (\<forall>b\<in>set bs. bhash m' b \<noteq> None) \<and>
     (\<forall>b. bhash m b \<noteq> None \<longrightarrow> bhash m' b = bhash m b)"
proof (induction bs arbitrary: m r idx prev)
  case Nil
  then show ?case by simp
next
  case (Cons b bs)
  from Cons.prems(3) obtain h r1 where
    g: "bhash m b = None" and h: "block_hash_for hf (block_size m) r nc idx prev = Inr (h, r1)"
    and rec: "cache_blocks_loop hf
        (cache_insert (upd_block m b (\<lambda>_. (block_pool m ! b)\<lparr>block_hash := Some h\<rparr>)) h b) r1 nc (Suc idx) bs
        (Some (hash_value h)) = Inr (m', r')"
    by (auto simp: bhash_def set_block_hash_def)
  let ?m1 = "cache_insert (upd_block m b (\<lambda>_. (block_pool m ! b)\<lparr>block_hash := Some h\<rparr>)) h b"
  have b: "b < num_gpu_blocks m" using Cons.prems(2) by simp
  note step = cache_insert_step [OF Cons.prems(1) b g refl, of h]
  from Cons.IH [OF step(1) _ rec] Cons.prems(2) step(2)
  have IH: "kvm_rep m' fl pend" "same_conf ?m1 m'" "req_to_blocks m' = req_to_blocks ?m1"
      "refc m' = refc ?m1" "same_req r1 r'" "\<forall>b. b \<notin> set bs \<longrightarrow> bhash m' b = bhash ?m1 b"
      "\<forall>b\<in>set bs. bhash m' b \<noteq> None" "\<forall>b. bhash ?m1 b \<noteq> None \<longrightarrow> bhash m' b = bhash ?m1 b"
    by (simp_all add: same_conf_def)
  have "same_req r r'" using block_hash_for_req [OF h] IH(5) by (rule same_req_trans)
  moreover have "same_conf m m'" using step(2) IH(2) by (rule same_conf_trans)
  moreover have "bhash m' b = Some h" using IH(8) step(5) by simp
  ultimately show ?case
    using IH step(3-5) g by auto
qed

lemma cache_full_blocks_rep:
  assumes "kvm_rep m fl pend" and "set full \<subseteq> {..<num_gpu_blocks m}"
    and "cache_full_blocks hf m r start full prev = Inr (m', r')"
  shows "kvm_rep m' fl pend \<and> same_conf m m' \<and> req_to_blocks m' = req_to_blocks m \<and> refc m' = refc m \<and>
     same_req r r' \<and> (\<forall>b. bhash m b \<noteq> None \<longrightarrow> bhash m' b = bhash m b)"
proof -
  obtain prev0 where p: "(let (offset, prev) = cached_offset m full prev0 in
        if offset = length full then Inr (m, r)
        else cache_blocks_loop hf m r (length (kv_block_hashes r)) (start + offset)
               (drop offset full) prev) = Inr (m', r')"
    using assms(3) unfolding cache_full_blocks_def py_bind_eq_Inr by blast
  obtain offset prev1 where co: "cached_offset m full prev0 = (offset, prev1)" and
    "(if offset = length full then Inr (m, r)
      else cache_blocks_loop hf m r (length (kv_block_hashes r)) (start + offset) (drop offset full) prev1)
     = Inr (m', r')"
    using p by (cases "cached_offset m full prev0") simp
  moreover have "set (drop offset full) \<subseteq> {..<num_gpu_blocks m}"
    using assms(2) by (auto dest: in_set_dropD)
  ultimately show ?thesis
    using cache_blocks_loop_rep [OF assms(1)] assms(1) by (fastforce split: if_splits)
qed

lemma cache_new_full_rep:
  assumes rep: "kvm_rep m fl pend" and c: "cache_new_full hf m r nct k = Inr (m', r')"
  shows "kvm_rep m' fl pend \<and> same_conf m m' \<and> req_to_blocks m' = req_to_blocks m \<and> refc m' = refc m \<and>
     same_req r r' \<and> (\<forall>b. bhash m b \<noteq> None \<longrightarrow> bhash m' b = bhash m b)"
proof -
  have "set (py_slice (blocks_of m (request_id r)) i j) \<subseteq> {..<num_gpu_blocks m}" for i j
    using blocks_of_bound [OF rep] set_py_slice_subset [of "blocks_of m (request_id r)" i j] by blast
  with c rep show ?thesis
    by (auto simp: cache_new_full_def Let_def split: if_splits dest!: cache_full_blocks_rep [OF rep, rotated])
qed

subsection \<open>Allocation\<close>

lemma blocks_of_upd [simp]:
  "blocks_of (m\<lparr>req_to_blocks := M(rid \<mapsto> bs)\<rparr>) rid = bs"
  "rid' \<noteq> rid \<Longrightarrow> blocks_of (m\<lparr>req_to_blocks := M(rid := x)\<rparr>) rid' =
     (case M rid' of None \<Rightarrow> [] | Some bs \<Rightarrow> bs)"
  by (simp_all add: blocks_of_def)

lemma blocks_of_cong: "req_to_blocks m' = req_to_blocks m \<Longrightarrow> blocks_of m' = blocks_of m"
  by (simp add: blocks_of_def fun_eq_iff)

lemma allocate_new_blocks_spec:
  assumes rep: "kvm_rep m fl []" and res: "allocate_new_blocks m rid k = Inr (nb, m')"
  shows "\<exists>n \<le> length fl. nb = take n fl \<and> kvm_rep m' (drop n fl) [] \<and> same_conf m m' \<and>
     blocks_of m' rid = blocks_of m rid @ nb \<and>
     (\<forall>rid'. rid' \<noteq> rid \<longrightarrow> req_to_blocks m' rid' = req_to_blocks m rid') \<and>
     (\<forall>b. b \<notin> set nb \<longrightarrow> bhash m' b = bhash m b) \<and> (enable_caching m \<longrightarrow> (\<forall>b\<in>set nb. bhash m' b = None)) \<and>
     int n = (if k \<le> 0 then 0 else min (min (k + num_preallocate_blocks m) (int (length fl)))
                  (max_num_blocks_per_req m - int (length (blocks_of m rid))))"
proof (cases "k \<le> 0")
  case True
  then show ?thesis
    using rep res by (intro exI [of _ 0]) (simp add: allocate_new_blocks_def)
next
  case False
  let ?n = "min (min (k + num_preallocate_blocks m) (free_blocks_num m))
              (max_num_blocks_per_req m - int (length (blocks_of m rid)))"
  from False res obtain m1 where n: "?n > 0" and g: "get_new_blocks m ?n = Inr (nb, m1)"
    and m': "m' = m1\<lparr>req_to_blocks := (req_to_blocks m1)(rid \<mapsto> blocks_of m1 rid @ nb)\<rparr>"
    by (auto simp: allocate_new_blocks_def Let_def split: if_splits)
  from n have n0: "0 \<le> ?n" "?n \<le> free_blocks_num m" by simp_all
  from get_new_blocks_rep [OF rep n0] g
  have nb: "nb = take (nat ?n) fl" "kvm_rep m1 (drop (nat ?n) fl) ([] @ nb)" "same_conf m m1"
      "req_to_blocks m1 = req_to_blocks m" "\<forall>b. b \<notin> set nb \<longrightarrow> bhash m1 b = bhash m b"
      "enable_caching m \<longrightarrow> (\<forall>b\<in>set nb. bhash m1 b = None)"
    by auto
  have free: "free_blocks_num m = int (length fl)" using kvm_rep_num_free [OF rep] .
  have "kvm_rep m' (drop (nat ?n) fl) []"
    using hold_rep [OF nb(2)] by (simp add: m')
  moreover have "nat ?n \<le> length fl" "int (nat ?n) = ?n" using n0 free by auto
  moreover have "blocks_of m1 = blocks_of m" using nb(4) by (rule blocks_of_cong)
  ultimately show ?thesis
    using nb False free by (intro exI [of _ "nat ?n"]) (auto simp: m' same_conf_def)
qed

text \<open>How many blocks \<open>allocate_slots\<close> still needs, beyond those the request has and hits.\<close>

definition num_new_blocks :: "KVCacheManager \<Rightarrow> Request \<Rightarrow> int \<Rightarrow> nat list \<Rightarrow> int" where
  "num_new_blocks m r k nc =
     cdiv (num_computed_tokens r + int (length nc) * block_size m + k) (block_size m)
       - int (length (blocks_of m (request_id r))) - int (length nc)"

definition num_evictable :: "KVCacheManager \<Rightarrow> nat list \<Rightarrow> int" where
  "num_evictable m nc = int (length (filter (\<lambda>b. refc m b = 0) nc))"

lemma allocate_slots_None:
  assumes "allocate_slots hf m r k nc = Inr (None, m', r')"
  shows "num_new_blocks m r k nc > free_blocks_num m - num_evictable m nc"
    "m' = m\<lparr>req_to_blocks := (req_to_blocks m)(request_id r \<mapsto> blocks_of m (request_id r))\<rparr>" "r' = r"
  using assms
  by (auto simp: allocate_slots_def Let_def num_new_blocks_def num_evictable_def refc_def
      split: if_splits prod.splits)

lemma allocate_slots_Some:
  assumes rep: "kvm_rep m fl []" and nc: "set nc \<subseteq> {..<num_gpu_blocks m}"
    and res: "allocate_slots hf m r k nc = Inr (Some nb, m', r')"
  defines "fl' \<equiv> filter (\<lambda>b. b \<notin> set nc) fl"
  shows "k \<noteq> 0 \<and> num_new_blocks m r k nc \<le> free_blocks_num m - num_evictable m nc \<and>
    (\<exists>n \<le> length fl'. nb = take n fl' \<and> kvm_rep m' (drop n fl') [] \<and>
      int n = (if num_new_blocks m r k nc \<le> 0 then 0
               else min (min (num_new_blocks m r k nc + num_preallocate_blocks m) (int (length fl')))
                      (max_num_blocks_per_req m - int (length (blocks_of m (request_id r) @ nc))))) \<and>
    same_conf m m' \<and> same_req r r' \<and>
    blocks_of m' (request_id r) = blocks_of m (request_id r) @ nc @ nb \<and>
    (\<forall>rid'. rid' \<noteq> request_id r \<longrightarrow> req_to_blocks m' rid' = req_to_blocks m rid')"
proof -
  let ?rid = "request_id r"
  let ?bs = "blocks_of m ?rid"
  let ?num = "num_new_blocks m r k nc"
  let ?nct = "num_computed_tokens r + int (length nc) * block_size m"
  let ?m0 = "m\<lparr>req_to_blocks := (req_to_blocks m)(?rid \<mapsto> ?bs)\<rparr>"
  let ?m2 = "\<lambda>m1. m1\<lparr>req_to_blocks := (req_to_blocks m1)(?rid \<mapsto> ?bs @ nc)\<rparr>"
  have rep0: "kvm_rep ?m0 fl []" using rep by (rule default_rep)
  from res obtain m1 m3 where k: "k \<noteq> 0" "?num \<le> free_blocks_num m - num_evictable m nc"
    and m1: "(if enable_caching m then Inr (touch ?m0 nc) else py_assert (nc = []) (Inr ?m0)) = Inr m1"
    and m3: "allocate_new_blocks (?m2 m1) ?rid ?num = Inr (nb, m3)"
    and m4: "(if \<not> enable_caching m3 then Inr (Some nb, m3, r)
              else py_bind (cache_new_full hf m3 r ?nct k) (\<lambda>(m4, r'). Inr (Some nb, m4, r')))
             = Inr (Some nb, m', r')"
    by (auto simp: allocate_slots_def Let_def num_new_blocks_def num_evictable_def refc_def
        split: if_splits prod.splits)
  have t': "kvm_rep m1 fl' ([] @ nc) \<and> same_conf m m1 \<and> req_to_blocks m1 = req_to_blocks ?m0"
  proof (cases "enable_caching m")
    case True
    with touch_rep [OF rep0, of nc] nc m1 show ?thesis
      by (auto simp: fl'_def same_conf_def)
  next
    case False
    with m1 rep0 show ?thesis by (auto simp: fl'_def)
  qed
  note t = conjunct1 [OF t'] conjunct1 [OF conjunct2 [OF t']] conjunct2 [OF conjunct2 [OF t']]
  have bs1: "blocks_of m1 ?rid = ?bs" using blocks_of_cong [OF t(3)] by simp
  have rep2: "kvm_rep (?m2 m1) fl' []" using hold_rep [OF t(1), of ?rid] bs1 by simp
  obtain n where n: "n \<le> length fl'" "nb = take n fl'" "kvm_rep m3 (drop n fl') []" "same_conf m m3"
    "blocks_of m3 ?rid = ?bs @ nc @ nb" "\<forall>rid'. rid' \<noteq> ?rid \<longrightarrow> req_to_blocks m3 rid' = req_to_blocks m rid'"
    "int n = (if ?num \<le> 0 then 0 else min (min (?num + num_preallocate_blocks m) (int (length fl')))
                  (max_num_blocks_per_req m - int (length (?bs @ nc))))"
    using allocate_new_blocks_spec [OF rep2 m3] t(2,3) by (fastforce simp: same_conf_def)
  have c: "kvm_rep m' (drop n fl') [] \<and> same_conf m3 m' \<and> req_to_blocks m' = req_to_blocks m3 \<and> same_req r r'"
    using m4 cache_new_full_rep [OF n(3)] n(3) by (auto split: if_splits)
  then have "blocks_of m' = blocks_of m3" by (intro blocks_of_cong) simp
  then show ?thesis
    using k n c by (auto intro: same_conf_trans)
qed

subsection \<open>Freeing\<close>

text \<open>The blocks that one pass over \<open>bs\<close> returns to the free queue, for reference counts \<open>g\<close>.\<close>

fun freed_blocks :: "(nat \<Rightarrow> int) \<Rightarrow> nat list \<Rightarrow> nat list" where
  "freed_blocks g [] = []"
| "freed_blocks g (b # bs) =
     (if g b = 1 then b # freed_blocks (g(b := g b - 1)) bs else freed_blocks (g(b := g b - 1)) bs)"

lemma freed_blocks_cong: "(\<And>b. b \<in> set bs \<Longrightarrow> g b = g' b) \<Longrightarrow> freed_blocks g bs = freed_blocks g' bs"
proof (induction bs arbitrary: g g')
  case (Cons b bs)
  have "freed_blocks (g(b := v)) bs = freed_blocks (g'(b := v)) bs" for v
    by (rule Cons.IH) (use Cons.prems in auto)
  with Cons.prems [of b] show ?case by simp
qed simp

lemma freed_blocks_distinct: "distinct bs \<Longrightarrow> freed_blocks g bs = filter (\<lambda>b. g b = 1) bs"
proof (induction bs arbitrary: g)
  case (Cons b bs)
  then have "freed_blocks (g(b := v)) bs = freed_blocks g bs" for v
    by (intro freed_blocks_cong) auto
  with Cons.IH [of g] Cons.prems show ?case by simp
qed simp

lemma set_freed_blocks_subset: "set (freed_blocks g bs) \<subseteq> set bs"
proof (induction bs arbitrary: g)
  case (Cons b bs)
  have "set (freed_blocks (g(b := v)) bs) \<subseteq> insert b (set bs)" for v
    using Cons.IH [of "g(b := v)"] by (rule subset_insertI2)
  then show ?case by simp
qed simp

lemma drop_ref_step:
  assumes rep: "kvm_rep m fl (b # pend)"
  shows "\<exists>m'. (\<forall>bs. free_loop m (b # bs) = free_loop m' bs) \<and>
     kvm_rep m' (if refc m b = 1 then fl @ [b] else fl) pend \<and> same_conf m m' \<and>
     req_to_blocks m' = req_to_blocks m \<and> bhash m' = bhash m \<and>
     cached_block_hash_to_block m' = cached_block_hash_to_block m \<and>
     refc m' = (refc m)(b := refc m b - 1)"
proof -
  let ?n = "num_gpu_blocks m"
  let ?m1 = "upd_block m b decr_ref"
  have b: "b < ?n" using rep by (simp add: kvm_rep_def)
  have len: "b < length (block_pool m)" using b kvm_rep_length [OF rep] by simp
  have meta: "refc ?m1 = (refc m)(b := refc m b - 1)" "bhash ?m1 = bhash m" "bid ?m1 = bid m"
    using upd_block_refc [OF len, of decr_ref] by (auto simp: fun_eq_iff refc_def bhash_def bid_def)
  have q: "queue_repr (qst ?m1) fl" using kvm_rep_queue [OF rep] by (simp add: queue_repr_upd_block)
  have pos: "refc m b \<noteq> 0" using rep b by (simp add: kvm_rep_def)
  have b_fl: "b \<notin> set fl" using kvm_rep_free_iff [OF rep b] pos by simp
  show ?thesis
  proof (cases "refc m b = 1")
    case True
    obtain s where s: "append_block (qst ?m1) b = Inr s" "queue_repr s (fl @ [b])"
        "queue_meta s = queue_meta (qst ?m1)" "queue_valid s = queue_valid (qst ?m1)"
      using append_block_repr [OF q _ b_fl] len by (auto simp: queue_valid_def)
    have l: "length (fst s) = ?n"
      using s(4) kvm_rep_length [OF rep] by (simp add: queue_valid_def fun_eq_iff)
        (metis linorder_neqE_nat nat_neq_iff)
    note qm = set_qst_meta [OF s(3)]
    have "kvm_rep (set_qst ?m1 s) (fl @ [b]) pend"
      using rep s(2) l True b by (auto simp: kvm_rep_def qm meta)
    moreover have "free_loop m (b # bs) = free_loop (set_qst ?m1 s) bs" for bs
      using True s(1) fun_cong [OF meta(1), of b] by (simp add: refc_def)
    ultimately show ?thesis
      using True by (intro exI [of _ "set_qst ?m1 s"]) (auto simp: qm meta same_conf_def)
  next
    case False
    have "kvm_rep ?m1 fl pend"
      using rep q False b pos b_fl kvm_rep_length [OF rep] by (auto simp: kvm_rep_def meta)
    moreover have "free_loop m (b # bs) = free_loop ?m1 bs" for bs
      using False fun_cong [OF meta(1), of b] by (simp add: refc_def)
    ultimately show ?thesis
      using False by (intro exI [of _ ?m1]) (auto simp: meta same_conf_def)
  qed
qed

lemma free_loop_rep:
  "kvm_rep m fl (bs @ pend) \<Longrightarrow>
     \<exists>m'. free_loop m bs = Inr m' \<and> kvm_rep m' (fl @ freed_blocks (refc m) bs) pend \<and> same_conf m m' \<and>
       req_to_blocks m' = req_to_blocks m \<and> bhash m' = bhash m \<and>
       cached_block_hash_to_block m' = cached_block_hash_to_block m"
proof (induction bs arbitrary: m fl)
  case Nil
  then show ?case by simp
next
  case (Cons b bs)
  from drop_ref_step [of m fl b "bs @ pend"] Cons.prems obtain m1 where m1:
    "\<forall>bs. free_loop m (b # bs) = free_loop m1 bs"
    "kvm_rep m1 (if refc m b = 1 then fl @ [b] else fl) (bs @ pend)" "same_conf m m1"
    "req_to_blocks m1 = req_to_blocks m" "bhash m1 = bhash m"
    "cached_block_hash_to_block m1 = cached_block_hash_to_block m"
    "refc m1 = (refc m)(b := refc m b - 1)" by auto
  from Cons.IH [OF m1(2)] obtain m2 where m2: "free_loop m1 bs = Inr m2"
    "kvm_rep m2 ((if refc m b = 1 then fl @ [b] else fl) @ freed_blocks (refc m1) bs) pend"
    "same_conf m1 m2" "req_to_blocks m2 = req_to_blocks m1" "bhash m2 = bhash m1"
    "cached_block_hash_to_block m2 = cached_block_hash_to_block m1" by auto
  have "(if refc m b = 1 then fl @ [b] else fl) @ freed_blocks (refc m1) bs =
      fl @ freed_blocks (refc m) (b # bs)"
    by (simp add: m1(7))
  with m1 m2 same_conf_trans [OF m1(3) m2(3)] show ?case by metis
qed

lemma release_rep:
  assumes rep: "kvm_rep m fl []"
  shows "kvm_rep (m\<lparr>req_to_blocks := (req_to_blocks m)(rid := None)\<rparr>) fl (blocks_of m rid)"
proof (cases "req_to_blocks m rid")
  case None
  then have "(req_to_blocks m)(rid := None) = req_to_blocks m" by (rule fun_upd_idem)
  with None rep show ?thesis by (simp add: blocks_of_def)
next
  case (Some bs)
  have "total_count (req_to_blocks m) b = total_count ((req_to_blocks m)(rid := None)) b + count_list bs b" for b
    using total_count_remove [OF kvm_rep_finite [OF rep] Some] .
  with rep Some blocks_of_bound [OF rep, of rid] show ?thesis
    by (auto simp: kvm_rep_def blocks_of_def)
qed

text \<open>The order in which \<open>free\<close> visits the blocks of a request.\<close>

definition free_order :: "KVCacheManager \<Rightarrow> string \<Rightarrow> nat list" where
  "free_order m rid = (if enable_caching m then rev (blocks_of m rid) else blocks_of m rid)"

lemma free_rep:
  assumes rep: "kvm_rep m fl []"
  shows "\<exists>m'. free m rid = Inr m' \<and> kvm_rep m' (fl @ freed_blocks (refc m) (free_order m rid)) [] \<and>
     same_conf m m' \<and> req_to_blocks m' = (req_to_blocks m)(rid := None) \<and> bhash m' = bhash m \<and>
     cached_block_hash_to_block m' = cached_block_hash_to_block m"
proof -
  let ?m1 = "m\<lparr>req_to_blocks := (req_to_blocks m)(rid := None)\<rparr>"
  have "kvm_rep ?m1 fl (free_order m rid @ [])"
    by (rule kvm_rep_pend_cong [OF release_rep [OF rep, of rid]]) (simp add: free_order_def count_list_rev)
  from free_loop_rep [OF this] show ?thesis
    by (auto simp: free_def free_order_def Let_def same_conf_def)
qed

end
