(* ===== verification/KVCacheProps.thy ===== *)
theory KVCacheProps
  imports KVCacheManager
begin

text \<open>
  Correctness of the KV cache manager beyond its invariant: when \<open>allocate_slots\<close> cannot raise, what
  the hash chain stored in the blocks of a request looks like after it, exclusivity of unhashed
  blocks, and the observable contract of allocation, freeing, prefix lookup and reset.
\<close>

section \<open>Reference counts across an allocation\<close>

lemma total_count_split:
  assumes "finite (dom M)"
  shows "total_count M b = total_count (M(k := None)) b + count_list (case M k of None \<Rightarrow> [] | Some xs \<Rightarrow> xs) b"
  using total_count_remove [OF assms, of k] by (cases "M k") (simp_all add: fun_upd_idem)

lemma kvm_rep_refc:
  "kvm_rep m fl [] \<Longrightarrow> b < num_gpu_blocks m \<Longrightarrow>
     refc m b = int (total_count ((req_to_blocks m)(rid := None)) b + count_list (blocks_of m rid) b)"
  using total_count_split [of "req_to_blocks m" b rid]
  by (simp add: kvm_rep_def blocks_of_def)

lemma refc_alloc:
  assumes rep: "kvm_rep m fl []" and rep': "kvm_rep m' fl' []" and n: "num_gpu_blocks m' = num_gpu_blocks m"
    and own: "blocks_of m' rid = blocks_of m rid @ xs"
    and other: "\<forall>rid'. rid' \<noteq> rid \<longrightarrow> req_to_blocks m' rid' = req_to_blocks m rid'" and b: "b < num_gpu_blocks m"
  shows "refc m' b = refc m b + int (count_list xs b)"
proof -
  have "(req_to_blocks m')(rid := None) = (req_to_blocks m)(rid := None)"
    using other by (auto simp: fun_eq_iff)
  then show ?thesis
    using kvm_rep_refc [OF rep b, of rid] kvm_rep_refc [OF rep', of b rid] n own b by simp
qed

lemma held_pos:
  assumes "kvm_rep m fl []" and "b \<in> set (blocks_of m rid)"
  shows "b < num_gpu_blocks m \<and> 0 < refc m b"
proof -
  have "b < num_gpu_blocks m" using blocks_of_bound [OF assms(1)] assms(2) by blast
  then show ?thesis
    using kvm_rep_refc [OF assms(1), of b rid] assms(2) count_list_0_iff [of "blocks_of m rid" b]
    by (auto simp: neq0_conv [symmetric] simp del: neq0_conv)
qed

lemma held_not_free:
  "kvm_rep m fl [] \<Longrightarrow> b \<in> set (blocks_of m rid) \<Longrightarrow> b \<notin> set fl"
  using held_pos [of m fl b rid] kvm_rep_free_iff [of m fl "[]" b] by fastforce

text \<open>A block with one reference is held once, by one request.\<close>

lemma held_once:
  assumes rep: "kvm_rep m fl []" and one: "refc m b \<le> 1" and b: "b \<in> set (blocks_of m rid)"
  shows "count_list (blocks_of m rid) b = 1" and "rid' \<noteq> rid \<Longrightarrow> b \<notin> set (blocks_of m rid')"
proof -
  have n: "b < num_gpu_blocks m" using held_pos [OF rep b] by simp
  have c: "count_list (blocks_of m rid) b \<noteq> 0" using b count_list_0_iff by metis
  with kvm_rep_refc [OF rep n, of rid] one
  show c1: "count_list (blocks_of m rid) b = 1" by simp
  show "b \<notin> set (blocks_of m rid')" if ne: "rid' \<noteq> rid"
  proof
    assume "b \<in> set (blocks_of m rid')"
    then obtain xs where xs: "((req_to_blocks m)(rid := None)) rid' = Some xs" "b \<in> set xs"
      using ne by (cases "req_to_blocks m rid'") (simp_all add: blocks_of_def)
    have "finite (dom ((req_to_blocks m)(rid := None)))" using kvm_rep_finite [OF rep] by simp
    from count_list_total_count_le [OF this xs(1), of b] xs(2) count_list_0_iff [of xs b]
    have "0 < total_count ((req_to_blocks m)(rid := None)) b" by linarith
    with kvm_rep_refc [OF rep n, of rid] c1 one show False by simp
  qed
qed

section \<open>Hash chains of the blocks of a request\<close>

text \<open>
  The first \<open>j\<close> of the blocks \<open>bs\<close> carry a hash, the others do not.  Blocks become hashed in order,
  and only full blocks are hashed.
\<close>

definition hashed_prefix :: "KVCacheManager \<Rightarrow> nat list \<Rightarrow> nat \<Rightarrow> bool" where
  "hashed_prefix m bs j \<longleftrightarrow>
     j \<le> length bs \<and> (\<forall>b\<in>set (take j bs). bhash m b \<noteq> None) \<and> (\<forall>b\<in>set (drop j bs). bhash m b = None)"

text \<open>
  Configurations the engine builds, and blocks that are not hashed are not shared.
\<close>

definition kvm_conf_ok :: "KVCacheManager \<Rightarrow> bool" where
  "kvm_conf_ok m \<longleftrightarrow>
     0 < block_size m \<and> max_num_blocks_per_req m = cdiv (max_model_len m) (block_size m) \<and>
     0 \<le> num_preallocate_blocks m \<and> 0 < num_gpu_blocks m"

definition unhashed_exclusive :: "KVCacheManager \<Rightarrow> bool" where
  "unhashed_exclusive m \<longleftrightarrow> (\<forall>b < num_gpu_blocks m. bhash m b = None \<longrightarrow> refc m b \<le> 1)"

definition mm_keys_ok :: "Request \<Rightarrow> bool" where
  "mm_keys_ok r \<longleftrightarrow> mm_positions r = [] \<or> length (mm_hashes r) = length (mm_positions r)"

lemma mm_keys_ok_same: "same_req r r' \<Longrightarrow> mm_keys_ok r' = mm_keys_ok r"
  using same_req_sel [of r r'] by (simp add: mm_keys_ok_def)

lemma generate_extra_keys_ok:
  assumes "mm_keys_ok r"
  shows "\<exists>x. generate_block_hash_extra_keys r s e (- 1) = Inr x"
proof (cases "generate_block_hash_extra_keys r s e (- 1)")
  case (Inl err)
  then show ?thesis
    using assms Suc_le_eq [of 0 "length (mm_positions r)"]
    by (auto simp: generate_block_hash_extra_keys_def mm_keys_ok_def Let_def py_bind_def py_assert_def
        split: if_splits prod.splits)
qed simp

lemma block_hash_for_ok:
  assumes "0 < bs" and "(int idx + 1) * bs \<le> num_tokens r" and "mm_keys_ok r"
  shows "\<exists>h r'. block_hash_for hf bs r nc idx prev = Inr (h, r')"
proof (cases "idx < nc")
  case False
  have "length (py_slice (all_token_ids r) (int idx * bs) ((int idx + 1) * bs)) = nat bs"
  proof -
    have "nat (bs * int idx) + nat bs \<le> length (all_token_ids r)"
      using assms(1,2) nat_add_distrib [of "bs * int idx" bs, symmetric]
      by (simp add: num_tokens_def algebra_simps)
    then show ?thesis
      using assms(1) by (simp add: py_slice_nonneg algebra_simps nat_add_distrib)
  qed
  moreover obtain x where "generate_block_hash_extra_keys r (int idx * bs) ((int idx + 1) * bs) (- 1) = Inr x"
    using generate_extra_keys_ok [OF assms(3)] by blast
  ultimately show ?thesis
    using False assms(1) by (cases x) (auto simp: block_hash_for_def Let_def)
qed (simp add: block_hash_for_def)

lemma cache_blocks_loop_ok:
  assumes "kvm_rep m fl pend" and "set bs \<subseteq> {..<num_gpu_blocks m}" and "distinct bs"
    and "\<forall>b\<in>set bs. bhash m b = None" and "0 < block_size m"
    and "(int idx + int (length bs)) * block_size m \<le> num_tokens r" and "mm_keys_ok r"
  shows "\<exists>m' r'. cache_blocks_loop hf m r nc idx bs prev = Inr (m', r')"
  using assms
proof (induction bs arbitrary: m r idx prev)
  case (Cons b bs)
  have "(int idx + int (length (b # bs))) * block_size m =
      (int idx + 1) * block_size m + block_size m * int (length bs)" by (simp add: algebra_simps)
  moreover have "0 \<le> block_size m * int (length bs)" using Cons.prems(5) by simp
  ultimately have "(int idx + 1) * block_size m \<le> num_tokens r" using Cons.prems(6) by linarith
  from block_hash_for_ok [OF Cons.prems(5) this Cons.prems(7)] obtain h r1 where
    h: "block_hash_for hf (block_size m) r nc idx prev = Inr (h, r1)" by blast
  let ?m1 = "cache_insert (upd_block m b (\<lambda>_. (block_pool m ! b)\<lparr>block_hash := Some h\<rparr>)) h b"
  have b: "b < num_gpu_blocks m" and g: "bhash m b = None" using Cons.prems(2,4) by simp_all
  note step = cache_insert_step [OF Cons.prems(1) b g refl, of h]
  have r1: "same_req r r1" using block_hash_for_req [OF h] .
  have conf: "num_gpu_blocks ?m1 = num_gpu_blocks m" "block_size ?m1 = block_size m"
    using step(2) by (simp_all add: same_conf_def)
  have "\<exists>m' r'. cache_blocks_loop hf ?m1 r1 nc (Suc idx) bs (Some (hash_value h)) = Inr (m', r')"
  proof (rule Cons.IH [OF step(1)])
    show "\<forall>c\<in>set bs. bhash ?m1 c = None"
      using Cons.prems(3,4) step(5) by (metis distinct.simps(2) fun_upd_other insert_iff list.set(2))
  qed (use Cons.prems conf r1 same_req_sel [OF r1] in \<open>simp_all add: mm_keys_ok_same algebra_simps\<close>)
  then show ?case
    using g h by (simp add: bhash_def set_block_hash_def)
qed simp

lemma block_hash_for_length:
  "block_hash_for hf bs r nc idx prev = Inr (h, r') \<Longrightarrow>
     length (kv_block_hashes r') = length (kv_block_hashes r) + (if idx < nc then 0 else 1)"
  by (auto simp: block_hash_for_def append_kv_block_hashes_def Let_def split: if_splits)

lemma cache_blocks_loop_length:
  "cache_blocks_loop hf m r nc idx bs prev = Inr (m', r') \<Longrightarrow>
     length (kv_block_hashes r') = length (kv_block_hashes r) + (idx + length bs - max idx nc)"
proof (induction bs arbitrary: m r idx prev)
  case (Cons b bs)
  from Cons.prems obtain h r1 blk where h: "block_hash_for hf (block_size m) r nc idx prev = Inr (h, r1)"
    and "cache_blocks_loop hf (cache_insert (upd_block m b (\<lambda>_. blk)) h b) r1 nc (Suc idx) bs
        (Some (hash_value h)) = Inr (m', r')" by auto
  from Cons.IH [OF this(2)] block_hash_for_length [OF h] show ?case by (auto simp: max_def)
qed simp

lemma cached_offset_append:
  assumes "\<forall>b\<in>set xs. bhash m b \<noteq> None" and "\<forall>b\<in>set ys. bhash m b = None"
  shows "fst (cached_offset m (xs @ ys) prev) = length xs"
  using assms
proof (induction xs arbitrary: prev)
  case Nil
  then show ?case by (cases ys) (auto simp: bhash_def split: option.splits)
next
  case (Cons b xs)
  then show ?case by (auto simp: bhash_def split: option.splits prod.splits) (metis fst_conv)
qed

lemma cache_full_blocks_ok:
  assumes rep: "kvm_rep m fl pend" and full: "full = xs @ ys" "set full \<subseteq> {..<num_gpu_blocks m}" "distinct ys"
    and hashed: "\<forall>b\<in>set xs. bhash m b \<noteq> None" "\<forall>b\<in>set ys. bhash m b = None"
    and prev: "\<forall>b. prev = Some b \<longrightarrow> bhash m b \<noteq> None"
    and bs: "0 < block_size m" "(int start + int (length full)) * block_size m \<le> num_tokens r" "mm_keys_ok r"
  shows "\<exists>m' r'. cache_full_blocks hf m r start full prev = Inr (m', r') \<and>
     (\<forall>b. b \<notin> set ys \<longrightarrow> bhash m' b = bhash m b) \<and> (\<forall>b\<in>set ys. bhash m' b \<noteq> None) \<and>
     (start + length xs \<le> length (kv_block_hashes r) \<longrightarrow>
        length (kv_block_hashes r') = max (length (kv_block_hashes r)) (start + length full))"
proof -
  obtain prev0 where p0: "(case prev of None \<Rightarrow> Inr None
        | Some b \<Rightarrow> (case block_hash (block_pool m ! b) of
            None \<Rightarrow> Inl AssertionError | Some h \<Rightarrow> Inr (Some (hash_value h)))) = Inr prev0"
    using prev by (cases prev) (auto simp: bhash_def split: option.splits)
  obtain k prev1 where co: "cached_offset m full prev0 = (k, prev1)" by (cases "cached_offset m full prev0")
  have k: "k = length xs" using cached_offset_append [OF hashed, of prev0] full(1) co by simp
  have "(int start + int k + int (length ys)) * block_size m \<le> num_tokens r"
    using bs(2) by (simp add: full(1) k add.assoc)
  then have "\<exists>m1 r1. cache_blocks_loop hf m r (length (kv_block_hashes r)) (start + k) ys prev1 = Inr (m1, r1)"
    using full(1,2) by (intro cache_blocks_loop_ok [OF rep _ full(3) hashed(2) bs(1) _ bs(3)]) auto
  then obtain m1 r1 where
    l: "cache_blocks_loop hf m r (length (kv_block_hashes r)) (start + k) ys prev1 = Inr (m1, r1)" by blast
  show ?thesis
  proof (cases "ys = []")
    case True
    then show ?thesis using p0 co k full(1) by (simp add: cache_full_blocks_def py_bind_def max_def)
  next
    case False
    then show ?thesis
      using p0 co k full l cache_blocks_loop_rep [OF rep _ l] cache_blocks_loop_length [OF l]
      by (auto simp: cache_full_blocks_def py_bind_def max_def)
  qed
qed

lemma distinct_count_le_1: "(\<And>b. count_list xs b \<le> 1) \<Longrightarrow> distinct xs"
proof (induction xs)
  case (Cons a xs)
  have "count_list xs b \<le> 1" for b using Cons.prems [of b] by (simp split: if_splits)
  moreover have "a \<notin> set xs" using Cons.prems [of a] by (simp add: count_list_0_iff)
  ultimately show ?case using Cons.IH by simp
qed simp

lemma unhashed_tail_distinct:
  assumes rep: "kvm_rep m fl []" and ex: "unhashed_exclusive m" and hp: "hashed_prefix m (blocks_of m rid) j"
  shows "distinct (drop j (blocks_of m rid))"
proof -
  let ?bs = "blocks_of m rid"
  have "count_list (drop j ?bs) b \<le> 1" for b
  proof (cases "b \<in> set (drop j ?bs)")
    case True
    then have b: "b \<in> set ?bs" by (rule in_set_dropD)
    with True hp ex held_pos [OF rep b] have "refc m b \<le> 1"
      by (auto simp: hashed_prefix_def unhashed_exclusive_def)
    from held_once(1) [OF rep this b] have "count_list (take j ?bs @ drop j ?bs) b = 1" by simp
    then show ?thesis by (simp del: append_take_drop_id)
  next
    case False
    then show ?thesis using count_list_0_iff by (metis zero_le_one)
  qed
  then show ?thesis by (rule distinct_count_le_1)
qed

lemma hashed_prefix_drop:
  assumes hp: "hashed_prefix m bs j" and i: "i \<le> j" and e: "i \<le> e" "e \<le> length bs"
  defines "xs \<equiv> take (e - i) (take (j - i) (drop i bs))" and "ys \<equiv> take (e - j) (drop j bs)"
  shows "take (e - i) (drop i bs) = xs @ ys" "\<forall>b\<in>set xs. bhash m b \<noteq> None" "\<forall>b\<in>set ys. bhash m b = None"
    "take (max j e) bs = take j bs @ ys" "drop (max j e) bs = drop (e - j) (drop j bs)"
proof -
  have j: "j \<le> length bs" using hp by (simp add: hashed_prefix_def)
  have "drop i bs = take (j - i) (drop i bs) @ drop (j - i) (drop i bs)"
    by (rule append_take_drop_id [symmetric])
  also have "drop (j - i) (drop i bs) = drop j bs" using i by simp
  finally have "take (e - i) (drop i bs) = xs @ take (e - i - (length (take (j - i) (drop i bs)))) (drop j bs)"
    unfolding xs_def by (metis take_append)
  also have "length (take (j - i) (drop i bs)) = j - i" using j i by simp
  finally show "take (e - i) (drop i bs) = xs @ ys" using i by (simp add: ys_def)
  have "take (j - i) (drop i bs) = drop i (take j bs)" by (simp add: drop_take)
  then have "set xs \<subseteq> set (take j bs)"
    unfolding xs_def by (metis set_drop_subset set_take_subset subset_trans)
  then show "\<forall>b\<in>set xs. bhash m b \<noteq> None" using hp by (auto simp: hashed_prefix_def)
  show "\<forall>b\<in>set ys. bhash m b = None"
    using hp by (auto simp: ys_def hashed_prefix_def dest!: in_set_takeD)
  show "take (max j e) bs = take j bs @ ys" "drop (max j e) bs = drop (e - j) (drop j bs)"
    by (simp_all add: ys_def max_def take_add [symmetric])
qed

lemma cache_new_full_ok:
  fixes m :: KVCacheManager and r :: Request
  defines "bs \<equiv> blocks_of m (request_id r)"
  assumes rep: "kvm_rep m fl []" and ex: "unhashed_exclusive m" and hp: "hashed_prefix m bs j"
    and pos: "0 < block_size m" "0 \<le> nct" "0 < k" and nj: "nct div block_size m \<le> int j"
    and tot: "nct + k \<le> num_tokens r" "(nct + k) div block_size m \<le> int (length bs)" and mm: "mm_keys_ok r"
  shows "\<exists>m' r'. cache_new_full hf m r nct k = Inr (m', r') \<and>
     hashed_prefix m' bs (max j (nat ((nct + k) div block_size m))) \<and>
     (\<forall>b. bhash m b \<noteq> None \<longrightarrow> bhash m' b = bhash m b) \<and>
     (\<forall>b. b \<notin> set bs \<longrightarrow> bhash m' b = bhash m b) \<and>
     (j \<le> length (kv_block_hashes r) \<longrightarrow> length (kv_block_hashes r') =
        max (length (kv_block_hashes r)) (nat ((nct + k) div block_size m)))"
proof -
  let ?i = "nat (nct div block_size m)" and ?e = "nat ((nct + k) div block_size m)"
  let ?full = "take (?e - ?i) (drop ?i bs)" and ?ys = "take (?e - j) (drop j bs)"
  have i: "0 \<le> nct div block_size m" "nct div block_size m \<le> (nct + k) div block_size m"
    using pos by (simp_all add: pos_imp_zdiv_nonneg_iff zdiv_mono1)
  then have ie: "?i \<le> j" "?i \<le> ?e" "?e \<le> length bs" using nj tot(2) by auto
  note split = hashed_prefix_drop [OF hp ie]
  have slice: "py_slice bs (nct div block_size m) ((nct + k) div block_size m) = ?full"
    using i by (simp add: py_slice_nonneg)
  have dist: "distinct (drop j bs)" using unhashed_tail_distinct [OF rep ex] hp bs_def by blast
  have bound: "set bs \<subseteq> {..<num_gpu_blocks m}" using blocks_of_bound [OF rep] by (simp add: bs_def)
  have jl: "j \<le> length bs" using hp by (simp add: hashed_prefix_def)
  have fits: "(int ?i + int (length ?full)) * block_size m \<le> num_tokens r"
  proof -
    have "int ?i + int (length ?full) = (nct + k) div block_size m" using ie i by auto
    moreover have "(nct + k) div block_size m * block_size m \<le> nct + k"
      using pos(1) by (metis div_mult_mod_eq le_add_same_cancel1 pos_mod_sign)
    ultimately show ?thesis using tot(1) by simp
  qed
  have prev: "bhash m (bs ! (?i - 1)) \<noteq> None" if "nct div block_size m > 0"
  proof -
    have "bs ! (?i - 1) \<in> set (take j bs)"
      using that ie(1) jl by (auto simp: in_set_conv_nth intro!: exI [of _ "?i - 1"])
    then show ?thesis using hp by (simp add: hashed_prefix_def)
  qed
  let ?prev = "if nct div block_size m > 0 then Some (bs ! nat (nct div block_size m - 1)) else None"
  have "\<exists>m' r'. cache_full_blocks hf m r ?i ?full ?prev = Inr (m', r') \<and>
     (\<forall>b. b \<notin> set ?ys \<longrightarrow> bhash m' b = bhash m b) \<and> (\<forall>b\<in>set ?ys. bhash m' b \<noteq> None) \<and>
     (?i + length (take (?e - ?i) (take (j - ?i) (drop ?i bs))) \<le> length (kv_block_hashes r) \<longrightarrow>
        length (kv_block_hashes r') = max (length (kv_block_hashes r)) (?i + length ?full))"
    using dist bound prev
    by (intro cache_full_blocks_ok [OF rep split(1) _ _ split(2,3) _ pos(1) fits mm])
      (auto simp: nat_diff_distrib dest!: in_set_takeD in_set_dropD split: if_splits)
  then obtain m1 r1 where m1: "cache_full_blocks hf m r ?i ?full ?prev = Inr (m1, r1)"
      "\<forall>b. b \<notin> set ?ys \<longrightarrow> bhash m1 b = bhash m b" "\<forall>b\<in>set ?ys. bhash m1 b \<noteq> None"
      "?i + length (take (?e - ?i) (take (j - ?i) (drop ?i bs))) \<le> length (kv_block_hashes r) \<longrightarrow>
        length (kv_block_hashes r1) = max (length (kv_block_hashes r)) (?i + length ?full)" by blast
  have len: "length (kv_block_hashes (if ?full = [] then r else r1)) = max (length (kv_block_hashes r)) ?e"
    if L: "j \<le> length (kv_block_hashes r)"
  proof -
    have l: "length ?full = ?e - ?i" "length (take (?e - ?i) (take (j - ?i) (drop ?i bs))) \<le> j - ?i"
      using ie jl by (simp_all add: min.coboundedI2)
    then have "?i + length (take (?e - ?i) (take (j - ?i) (drop ?i bs))) \<le> length (kv_block_hashes r)"
      using ie(1) L by linarith
    then have "length (kv_block_hashes r1) = max (length (kv_block_hashes r)) (?i + length ?full)"
      using m1(4) by blast
    moreover have e: "?i + length ?full = ?e" using l(1) ie(2) by linarith
    moreover have "max (length (kv_block_hashes r)) ?e = length (kv_block_hashes r)" if "?full = []"
      using e that ie(1) L by (metis add_0_right le_trans list.size(3) max.absorb1)
    ultimately show ?thesis by (metis (full_types))
  qed
  define m' where "m' = (if ?full = [] then m else m1)"
  have c: "cache_new_full hf m r nct k = Inr (m', if ?full = [] then r else r1)"
    unfolding cache_new_full_def Let_def bs_def [symmetric] slice m'_def
    by (cases "?full = []") (simp_all only: if_True if_False m1(1) simp_thms)
  have h: "\<forall>b. b \<notin> set ?ys \<longrightarrow> bhash m' b = bhash m b" "\<forall>b\<in>set ?ys. bhash m' b \<noteq> None"
    using m1(2,3) split(1) by (auto simp: m'_def)
  have "hashed_prefix m' bs (max j ?e)"
    unfolding hashed_prefix_def split(4,5)
  proof (intro conjI ballI)
    show "max j ?e \<le> length bs" using jl ie(3) by simp
    show "bhash m' b \<noteq> None" if "b \<in> set (take j bs @ ?ys)" for b
      using that h hp by (cases "b \<in> set ?ys") (auto simp: hashed_prefix_def)
    show "bhash m' b = None" if b: "b \<in> set (drop (?e - j) (drop j bs))" for b
    proof -
      have "distinct (?ys @ drop (?e - j) (drop j bs))"
        using dist by (simp only: append_take_drop_id)
      then have "b \<notin> set ?ys" using b by (auto simp only: distinct_append disjoint_iff)
      moreover have "b \<in> set (drop j bs)" using b by (rule in_set_dropD)
      ultimately show ?thesis using h(1) hp by (auto simp: hashed_prefix_def)
    qed
  qed
  moreover have "bhash m' b = bhash m b" if "bhash m b \<noteq> None" for b
    using h(1) split(3) that by metis
  moreover have "bhash m' b = bhash m b" if "b \<notin> set bs" for b
    using h(1) that by (meson in_set_takeD in_set_dropD)
  ultimately show ?thesis using c len by blast
qed

section \<open>Allocation succeeds\<close>

lemma allocate_new_blocks_ok:
  assumes rep: "kvm_rep m fl []" and n: "n \<le> free_blocks_num m"
    and room: "n \<le> max_num_blocks_per_req m - int (length (blocks_of m rid))"
    and pre: "0 \<le> num_preallocate_blocks m"
  shows "\<exists>nb m'. allocate_new_blocks m rid n = Inr (nb, m')"
proof (cases "n \<le> 0")
  case False
  let ?n = "min (min (n + num_preallocate_blocks m) (free_blocks_num m))
              (max_num_blocks_per_req m - int (length (blocks_of m rid)))"
  have "0 < ?n" using False n room pre by simp
  moreover have "\<exists>nb m'. get_new_blocks m ?n = Inr (nb, m')"
    using get_new_blocks_rep [OF rep, of ?n] \<open>0 < ?n\<close> by force
  ultimately show ?thesis
    using False by (auto simp: allocate_new_blocks_def Let_def)
qed (simp add: allocate_new_blocks_def)

lemma length_filter_notin:
  assumes "distinct fl"
  shows "length fl \<le> length (filter (\<lambda>b. b \<notin> set nc) fl) + length (filter (\<lambda>b. b \<in> set fl) nc)"
proof -
  have "length fl = length (filter (\<lambda>b. b \<in> set nc) fl) + length (filter (\<lambda>b. b \<notin> set nc) fl)"
    by (rule sum_length_filter_compl [symmetric])
  moreover have "length (filter (\<lambda>b. b \<in> set nc) fl) = card (set (filter (\<lambda>b. b \<in> set nc) fl))"
    using assms by (intro distinct_card [symmetric] distinct_filter)
  moreover have "card (set (filter (\<lambda>b. b \<in> set nc) fl)) \<le> card (set (filter (\<lambda>b. b \<in> set fl) nc))"
    by (intro card_mono) auto
  moreover have "card (set (filter (\<lambda>b. b \<in> set fl) nc)) \<le> length (filter (\<lambda>b. b \<in> set fl) nc)"
    by (rule card_length)
  ultimately show ?thesis by linarith
qed

text \<open>
  A request that \<open>allocate_slots\<close> can serve: the hashes of its blocks form a prefix that covers its
  computed full blocks, hits are hashed blocks and come first, and the tokens to store exist and fit
  into the model length.
\<close>

definition alloc_ready :: "KVCacheManager \<Rightarrow> Request \<Rightarrow> int \<Rightarrow> nat list \<Rightarrow> bool" where
  "alloc_ready m r k nc \<longleftrightarrow>
     0 < k \<and> 0 \<le> num_computed_tokens r \<and> (enable_caching m \<longrightarrow> mm_keys_ok r) \<and>
     num_computed_tokens r + int (length nc) * block_size m + k \<le> min (num_tokens r) (max_model_len m) \<and>
     (nc \<noteq> [] \<longrightarrow> enable_caching m \<and> blocks_of m (request_id r) = [] \<and> num_computed_tokens r = 0) \<and>
     (\<forall>b\<in>set nc. b < num_gpu_blocks m \<and> bhash m b \<noteq> None) \<and>
     (enable_caching m \<longrightarrow> (\<exists>j. hashed_prefix m (blocks_of m (request_id r)) j \<and>
        num_computed_tokens r div block_size m \<le> int j \<and> j \<le> length (kv_block_hashes r)) \<and>
        length nc \<le> length (kv_block_hashes r) \<and>
        int (length (kv_block_hashes r)) * block_size m \<le> num_tokens r)"

definition kvm_good :: "KVCacheManager \<Rightarrow> bool" where
  "kvm_good m \<longleftrightarrow> kvm_inv m \<and> kvm_conf_ok m \<and> (enable_caching m \<longrightarrow> unhashed_exclusive m)"

text \<open>The state after the hits were touched and given to the request.\<close>

lemma alloc_hits_ok:
  fixes m :: KVCacheManager and r :: Request
  defines "rid \<equiv> request_id r"
  defines "m0 \<equiv> m\<lparr>req_to_blocks := (req_to_blocks m)(rid \<mapsto> blocks_of m rid)\<rparr>"
  assumes rep: "kvm_rep m fl []" and nc: "set nc \<subseteq> {..<num_gpu_blocks m}" "nc \<noteq> [] \<longrightarrow> enable_caching m"
  shows "\<exists>m1. (if enable_caching m0 then Inr (touch m0 nc) else py_assert (nc = []) (Inr m0)) = Inr m1 \<and>
    (\<exists>m2. m2 = m1\<lparr>req_to_blocks := (req_to_blocks m1)(rid \<mapsto> blocks_of m rid @ nc)\<rparr> \<and>
     kvm_rep m2 (filter (\<lambda>b. b \<notin> set nc) fl) [] \<and> bhash m2 = bhash m \<and> same_conf m m2 \<and>
     blocks_of m2 rid = blocks_of m rid @ nc \<and>
     (\<forall>rid'. rid' \<noteq> rid \<longrightarrow> req_to_blocks m2 rid' = req_to_blocks m rid'))"
proof -
  have rep0: "kvm_rep m0 fl []" using default_rep [OF rep] by (simp add: m0_def)
  define m1 where "m1 = (if enable_caching m then touch m0 nc else m0)"
  have t: "kvm_rep m1 (filter (\<lambda>b. b \<notin> set nc) fl) nc \<and> bhash m1 = bhash m \<and> same_conf m m1 \<and>
      req_to_blocks m1 = req_to_blocks m0"
  proof (cases "enable_caching m")
    case True
    then show ?thesis
      using touch_rep [OF rep0, of nc] nc(1) by (simp add: m1_def m0_def same_conf_def)
  next
    case False
    then show ?thesis using nc(2) rep0 by (simp add: m1_def) (simp add: m0_def)
  qed
  have b1: "blocks_of m1 rid = blocks_of m rid"
    using blocks_of_cong [of m1 m0] t by (simp add: m0_def)
  have "kvm_rep (m1\<lparr>req_to_blocks := (req_to_blocks m1)(rid \<mapsto> blocks_of m rid @ nc)\<rparr>)
      (filter (\<lambda>b. b \<notin> set nc) fl) []"
    using hold_rep [of m1 "filter (\<lambda>b. b \<notin> set nc) fl" "[]" nc rid] t b1 by simp
  moreover have "(if enable_caching m0 then Inr (touch m0 nc) else py_assert (nc = []) (Inr m0)) = Inr m1"
    using nc(2) by (auto simp: m1_def m0_def)
  ultimately show ?thesis using t by (auto simp: Let_def m0_def same_conf_def)
qed

lemma allocate_slots_unfold:
  fixes m :: KVCacheManager and r :: Request
  defines "rid \<equiv> request_id r"
  defines "m0 \<equiv> m\<lparr>req_to_blocks := (req_to_blocks m)(rid \<mapsto> blocks_of m rid)\<rparr>"
  assumes "0 < k" and "num_new_blocks m r k nc \<le> free_blocks_num m - num_evictable m nc"
    and "(if enable_caching m0 then Inr (touch m0 nc) else py_assert (nc = []) (Inr m0)) = Inr m1"
    and "allocate_new_blocks (m1\<lparr>req_to_blocks := (req_to_blocks m1)(rid \<mapsto> blocks_of m rid @ nc)\<rparr>) rid
           (num_new_blocks m r k nc) = Inr (nb, m3)"
  shows "allocate_slots hf m r k nc =
    (if \<not> enable_caching m3 then Inr (Some nb, m3, r)
     else py_bind (cache_new_full hf m3 r (num_computed_tokens r + int (length nc) * block_size m) k)
            (\<lambda>(m4, r'). Inr (Some nb, m4, r')))"
  using assms(3,4) assms(5,6) unfolding allocate_slots_def num_new_blocks_def [symmetric] Let_def
    num_evictable_def refc_def rid_def m0_def
  by (simp del: if_split_asm split del: if_split)

text \<open>The state after new blocks were added: hashes only disappear from blocks that were free.\<close>

lemma alloc_new_ok:
  fixes m m2 :: KVCacheManager and r :: Request
  defines "rid \<equiv> request_id r" and "nct \<equiv> \<lambda>nc. num_computed_tokens r + int (length nc) * block_size m"
  assumes rep: "kvm_rep m fl []" and conf: "kvm_conf_ok m"
    and ready: "alloc_ready m r k nc" and fit: "num_new_blocks m r k nc \<le> free_blocks_num m - num_evictable m nc"
    and rep2: "kvm_rep m2 (filter (\<lambda>b. b \<notin> set nc) fl) []" and h2: "bhash m2 = bhash m" and c2: "same_conf m m2"
    and own2: "blocks_of m2 rid = blocks_of m rid @ nc"
    and other2: "\<forall>rid'. rid' \<noteq> rid \<longrightarrow> req_to_blocks m2 rid' = req_to_blocks m rid'"
  shows "\<exists>nb m3 fl3. allocate_new_blocks m2 rid (num_new_blocks m r k nc) = Inr (nb, m3) \<and>
     kvm_rep m3 fl3 [] \<and> same_conf m m3 \<and> set nb \<subseteq> set fl - set nc \<and> distinct nb \<and>
     blocks_of m3 rid = blocks_of m rid @ nc @ nb \<and>
     (\<forall>rid'. rid' \<noteq> rid \<longrightarrow> req_to_blocks m3 rid' = req_to_blocks m rid') \<and>
     (\<forall>b. b \<notin> set nb \<longrightarrow> bhash m3 b = bhash m b) \<and> (enable_caching m \<longrightarrow> (\<forall>b\<in>set nb. bhash m3 b = None)) \<and>
     cdiv (nct nc + k) (block_size m) \<le> int (length (blocks_of m3 rid))"
proof -
  let ?fl = "filter (\<lambda>b. b \<notin> set nc) fl" and ?num = "num_new_blocks m r k nc"
  have free: "free_blocks_num m = int (length fl)" "free_blocks_num m2 = int (length ?fl)"
    using kvm_rep_num_free rep rep2 by blast+
  have "filter (\<lambda>b. refc m b = 0) nc = filter (\<lambda>b. b \<in> set fl) nc"
    using ready kvm_rep_free_iff [OF rep] by (intro filter_cong) (auto simp: alloc_ready_def)
  with length_filter_notin [OF kvm_rep_distinct [OF rep], of nc] free fit
  have n_le: "?num \<le> free_blocks_num m2" by (simp add: num_evictable_def)
  have "cdiv (nct nc + k) (block_size m) \<le> max_num_blocks_per_req m"
    using conf ready cdiv_mono [of "block_size m" "nct nc + k" "max_model_len m"]
    by (simp add: kvm_conf_ok_def alloc_ready_def nct_def)
  then have room: "?num \<le> max_num_blocks_per_req m2 - int (length (blocks_of m2 rid))"
    using c2 own2 by (simp add: num_new_blocks_def same_conf_def rid_def nct_def)
  have pre: "0 \<le> num_preallocate_blocks m2" using c2 conf by (simp add: same_conf_def kvm_conf_ok_def)
  from allocate_new_blocks_ok [OF rep2 n_le room pre] obtain nb m3 where
    a: "allocate_new_blocks m2 rid ?num = Inr (nb, m3)" by blast
  obtain n where n: "n \<le> length ?fl" "nb = take n ?fl" "kvm_rep m3 (drop n ?fl) []" "same_conf m2 m3"
      "blocks_of m3 rid = blocks_of m2 rid @ nb"
      "\<forall>rid'. rid' \<noteq> rid \<longrightarrow> req_to_blocks m3 rid' = req_to_blocks m2 rid'"
      "\<forall>b. b \<notin> set nb \<longrightarrow> bhash m3 b = bhash m2 b" "enable_caching m2 \<longrightarrow> (\<forall>b\<in>set nb. bhash m3 b = None)"
      "int n = (if ?num \<le> 0 then 0 else min (min (?num + num_preallocate_blocks m2) (int (length ?fl)))
                  (max_num_blocks_per_req m2 - int (length (blocks_of m2 rid))))"
    using allocate_new_blocks_spec [OF rep2 a] by blast
  have "?num \<le> int (length nb)" using n(1,2,9) n_le room pre free by (auto simp: min_def split: if_splits)
  then have "cdiv (nct nc + k) (block_size m) \<le> int (length (blocks_of m3 rid))"
    using n(5) own2 by (simp add: num_new_blocks_def rid_def nct_def)
  moreover have "set nb \<subseteq> set fl - set nc" "distinct nb"
    using n(2) kvm_rep_distinct [OF rep] by (auto dest: in_set_takeD)
  moreover have "same_conf m m3" using c2 n(4) by (rule same_conf_trans)
  ultimately show ?thesis
    using a n own2 other2 h2 c2 by (auto simp: same_conf_def)
qed

lemma count_list_distinct: "distinct xs \<Longrightarrow> count_list xs b = (if b \<in> set xs then 1 else 0)"
  by (induction xs) auto

lemma unhashed_exclusive_alloc:
  assumes rep: "kvm_rep m fl []" and rep3: "kvm_rep m3 fl3 []" and c: "same_conf m m3"
    and own: "blocks_of m3 rid = blocks_of m rid @ nc @ nb"
    and other: "\<forall>rid'. rid' \<noteq> rid \<longrightarrow> req_to_blocks m3 rid' = req_to_blocks m rid'"
    and ex: "unhashed_exclusive m" and nc: "\<forall>b\<in>set nc. bhash m b \<noteq> None"
    and nb: "set nb \<subseteq> set fl - set nc" "distinct nb" and h: "\<forall>b. b \<notin> set nb \<longrightarrow> bhash m3 b = bhash m b"
  shows "unhashed_exclusive m3"
  unfolding unhashed_exclusive_def
proof (intro allI impI)
  fix b assume "b < num_gpu_blocks m3" and none: "bhash m3 b = None"
  then have b: "b < num_gpu_blocks m" using c by (simp add: same_conf_def)
  have r: "refc m3 b = refc m b + int (count_list (nc @ nb) b)"
    using refc_alloc [OF rep rep3 _ own other b] c by (simp add: same_conf_def)
  show "refc m3 b \<le> 1"
  proof (cases "b \<in> set nb")
    case True
    then have "refc m b = 0" "count_list nc b = 0" "count_list nb b = 1"
      using nb kvm_rep_free_iff [OF rep b] count_list_distinct [OF nb(2)] by auto
    with r show ?thesis by simp
  next
    case False
    then have "bhash m b = None" using h none by simp
    then have "refc m b \<le> 1" "b \<notin> set nc" using ex b nc by (auto simp: unhashed_exclusive_def)
    with r False show ?thesis by simp
  qed
qed

lemma hashed_prefix_alloc:
  assumes "hashed_prefix m bs j" and "nc \<noteq> [] \<longrightarrow> bs = []" and "\<forall>b\<in>set nc. bhash m b \<noteq> None"
    and "\<forall>b. b \<notin> set nb \<longrightarrow> bhash m3 b = bhash m b" and "\<forall>b\<in>set nb. bhash m3 b = None"
    and "set nb \<inter> set (bs @ nc) = {}"
  shows "hashed_prefix m3 (bs @ nc @ nb) (if nc = [] then j else length nc)"
proof (cases "nc = []")
  case True
  have "bhash m3 b = bhash m b" if "b \<in> set bs" for b using assms(4,6) that by auto
  moreover have "set (take j bs) \<subseteq> set bs" "set (drop j bs) \<subseteq> set bs" by (auto dest: in_set_takeD in_set_dropD)
  ultimately show ?thesis using True assms(1,5) by (auto simp: hashed_prefix_def)
next
  case False
  have "bhash m3 b = bhash m b" if "b \<in> set nc" for b using assms(4,6) that by auto
  with False assms(2,3,5) show ?thesis by (auto simp: hashed_prefix_def)
qed

lemma div_le_cdiv: "0 < b \<Longrightarrow> a div b \<le> cdiv a b"
  using cdiv_mult_ge [of b a] zdiv_mono1 [of a "cdiv a b * b" b] by simp

lemma alloc_cache_ok:
  fixes m m3 :: KVCacheManager and r :: Request and nc :: "nat list"
  defines "rid \<equiv> request_id r" and "nct \<equiv> num_computed_tokens r + int (length nc) * block_size m"
  assumes rep: "kvm_rep m fl []" and conf: "kvm_conf_ok m" and ex: "unhashed_exclusive m"
    and ready: "alloc_ready m r k nc" and caching: "enable_caching m"
    and n: "kvm_rep m3 fl3 []" "same_conf m m3" "set nb \<subseteq> set fl - set nc" "distinct nb"
      "blocks_of m3 rid = blocks_of m rid @ nc @ nb"
      "\<forall>rid'. rid' \<noteq> rid \<longrightarrow> req_to_blocks m3 rid' = req_to_blocks m rid'"
      "\<forall>b. b \<notin> set nb \<longrightarrow> bhash m3 b = bhash m b" "enable_caching m \<longrightarrow> (\<forall>b\<in>set nb. bhash m3 b = None)"
      "cdiv (nct + k) (block_size m) \<le> int (length (blocks_of m3 rid))"
  shows "\<exists>j m4 r4. cache_new_full hf m3 r nct k = Inr (m4, r4) \<and>
        hashed_prefix m4 (blocks_of m3 rid) j \<and> (nct + k) div block_size m \<le> int j \<and> unhashed_exclusive m4 \<and>
        (\<forall>b. bhash m3 b \<noteq> None \<longrightarrow> bhash m4 b = bhash m3 b) \<and>
        (\<forall>b. b \<notin> set (blocks_of m3 rid) \<longrightarrow> bhash m4 b = bhash m3 b) \<and> req_to_blocks m4 = req_to_blocks m3 \<and>
        j \<le> length (kv_block_hashes r4) \<and> int (length (kv_block_hashes r4)) * block_size m \<le> num_tokens r"
proof -
  have bs: "0 < block_size m" "block_size m3 = block_size m"
    using conf n(2) by (simp_all add: kvm_conf_ok_def same_conf_def)
  from ready caching obtain j0 where j0: "hashed_prefix m (blocks_of m rid) j0"
      "num_computed_tokens r div block_size m \<le> int j0" "j0 \<le> length (kv_block_hashes r)"
    by (auto simp: alloc_ready_def rid_def)
  let ?j = "if nc = [] then j0 else length nc"
  have nc: "\<forall>b\<in>set nc. bhash m b \<noteq> None" "nc \<noteq> [] \<longrightarrow> blocks_of m rid = []"
    using ready by (auto simp: alloc_ready_def rid_def)
  have "set nb \<inter> set (blocks_of m rid @ nc) = {}"
    using held_not_free [OF rep, of _ rid] n(3) by auto
  then have hp: "hashed_prefix m3 (blocks_of m3 rid) ?j"
    using hashed_prefix_alloc [OF j0(1) nc(2,1) n(7)] n(5,8) caching by simp
  have nj: "nct div block_size m3 \<le> int ?j" and pos: "0 \<le> nct"
    using j0(2) ready bs by (auto simp: nct_def alloc_ready_def)
  have bs3: "0 < block_size m3" using bs by simp
  have len: "(nct + k) div block_size m3 \<le> int (length (blocks_of m3 rid))"
    using n(9) div_le_cdiv [OF bs(1), of "nct + k"] bs(2) by simp
  have tot: "nct + k \<le> num_tokens r" "0 < k" "mm_keys_ok r"
    using ready caching by (simp_all add: alloc_ready_def nct_def)
  have ex3: "unhashed_exclusive m3"
    by (rule unhashed_exclusive_alloc [OF rep n(1,2,5,6) ex nc(1) n(3,4,7)])
  obtain m4 r4 where c: "cache_new_full hf m3 r nct k = Inr (m4, r4)"
      "hashed_prefix m4 (blocks_of m3 rid) (max ?j (nat ((nct + k) div block_size m3)))"
      "\<forall>b. bhash m3 b \<noteq> None \<longrightarrow> bhash m4 b = bhash m3 b"
      "\<forall>b. b \<notin> set (blocks_of m3 rid) \<longrightarrow> bhash m4 b = bhash m3 b"
      "?j \<le> length (kv_block_hashes r) \<longrightarrow> length (kv_block_hashes r4) =
        max (length (kv_block_hashes r)) (nat ((nct + k) div block_size m3))"
    using cache_new_full_ok [of m3 fl3 r, folded rid_def, OF n(1) ex3 hp bs3 pos tot(2) nj tot(1) len tot(3), of hf]
    by (elim exE conjE)
  from cache_new_full_rep [OF n(1) c(1)]
  have r4: "same_conf m3 m4" "req_to_blocks m4 = req_to_blocks m3" "refc m4 = refc m3" by simp_all
  have "unhashed_exclusive m4"
    using ex3 r4 c(3) unfolding unhashed_exclusive_def same_conf_def by metis
  moreover have "(nct + k) div block_size m \<le> int (max ?j (nat ((nct + k) div block_size m3)))"
    using bs(2) by simp
  moreover have jl: "?j \<le> length (kv_block_hashes r)" and L: "int (length (kv_block_hashes r)) * block_size m \<le> num_tokens r"
    using j0(3) ready caching by (auto simp: alloc_ready_def)
  moreover have "max ?j (nat ((nct + k) div block_size m3)) \<le> length (kv_block_hashes r4)"
    using c(5) jl by (simp add: max_def)
  moreover have "int (length (kv_block_hashes r4)) * block_size m \<le> num_tokens r"
  proof -
    have "(nct + k) div block_size m * block_size m \<le> nct + k"
      using bs(1) by (metis div_mult_mod_eq le_add_same_cancel1 pos_mod_sign)
    moreover have "0 \<le> (nct + k) div block_size m" using pos tot(2) bs(1) by (simp add: pos_imp_zdiv_nonneg_iff)
    ultimately show ?thesis using c(5) jl L tot(1) bs(2) by (auto simp: max_def)
  qed
  ultimately show ?thesis using c(1-4) r4(2) by blast
qed

text \<open>Blocks of other requests that are not hashed are not among the blocks of this one.\<close>

lemma alloc_keeps_other:
  assumes "kvm_rep m fl []" and "unhashed_exclusive m" and "rid' \<noteq> rid" and "b \<in> set (blocks_of m rid')"
    and "bhash m b = None"
  shows "b \<notin> set (blocks_of m rid)"
  using held_once(2) [OF assms(1) _ assms(4), of rid] assms held_pos [OF assms(1,4)]
  by (auto simp: unhashed_exclusive_def)

text \<open>
  Under \<open>alloc_ready\<close> the only two outcomes are: too few free blocks, and success; the latter keeps
  every hash of a held block, extends the hashed prefix of the request over all its full blocks, and
  never hashes a shared block.
\<close>

lemma allocate_slots_total:
  fixes m :: KVCacheManager and r :: Request
  defines "rid \<equiv> request_id r"
  assumes rep: "kvm_rep m fl []" and conf: "kvm_conf_ok m" and ex: "enable_caching m \<longrightarrow> unhashed_exclusive m"
    and ready: "alloc_ready m r k nc" and fit: "num_new_blocks m r k nc \<le> free_blocks_num m - num_evictable m nc"
  shows "\<exists>nb m' r'. allocate_slots hf m r k nc = Inr (Some nb, m', r') \<and> set nb \<subseteq> set fl - set nc \<and> distinct nb \<and>
     (\<forall>rid' b. rid' \<noteq> rid \<longrightarrow> b \<in> set (blocks_of m rid') \<longrightarrow> bhash m' b = bhash m b) \<and>
     (enable_caching m \<longrightarrow> unhashed_exclusive m' \<and> (\<exists>j. hashed_prefix m' (blocks_of m' rid) j \<and>
        (num_computed_tokens r + int (length nc) * block_size m + k) div block_size m \<le> int j \<and>
        j \<le> length (kv_block_hashes r')) \<and> int (length (kv_block_hashes r')) * block_size m \<le> num_tokens r) \<and>
     cdiv (num_computed_tokens r + int (length nc) * block_size m + k) (block_size m) \<le> int (length (blocks_of m' rid))"
proof -
  let ?nct = "num_computed_tokens r + int (length nc) * block_size m"
  have nc: "set nc \<subseteq> {..<num_gpu_blocks m}" "nc \<noteq> [] \<longrightarrow> enable_caching m"
    using ready by (auto simp: alloc_ready_def)
  obtain m1 m2 where m1: "(if enable_caching (m\<lparr>req_to_blocks := (req_to_blocks m)(rid \<mapsto> blocks_of m rid)\<rparr>)
       then Inr (touch (m\<lparr>req_to_blocks := (req_to_blocks m)(rid \<mapsto> blocks_of m rid)\<rparr>) nc)
       else py_assert (nc = []) (Inr (m\<lparr>req_to_blocks := (req_to_blocks m)(rid \<mapsto> blocks_of m rid)\<rparr>))) = Inr m1"
    and m2: "m2 = m1\<lparr>req_to_blocks := (req_to_blocks m1)(rid \<mapsto> blocks_of m rid @ nc)\<rparr>"
      "kvm_rep m2 (filter (\<lambda>b. b \<notin> set nc) fl) []" "bhash m2 = bhash m" "same_conf m m2"
      "blocks_of m2 rid = blocks_of m rid @ nc"
      "\<forall>rid'. rid' \<noteq> rid \<longrightarrow> req_to_blocks m2 rid' = req_to_blocks m rid'"
    using alloc_hits_ok [OF rep nc, of r, folded rid_def] by (elim exE conjE)
  obtain nb m3 fl3 where a: "allocate_new_blocks m2 rid (num_new_blocks m r k nc) = Inr (nb, m3)" and
    n: "kvm_rep m3 fl3 []" "same_conf m m3" "set nb \<subseteq> set fl - set nc" "distinct nb"
      "blocks_of m3 rid = blocks_of m rid @ nc @ nb"
      "\<forall>rid'. rid' \<noteq> rid \<longrightarrow> req_to_blocks m3 rid' = req_to_blocks m rid'"
      "\<forall>b. b \<notin> set nb \<longrightarrow> bhash m3 b = bhash m b" "enable_caching m \<longrightarrow> (\<forall>b\<in>set nb. bhash m3 b = None)"
      "cdiv (?nct + k) (block_size m) \<le> int (length (blocks_of m3 rid))"
    using alloc_new_ok [OF rep conf ready fit, folded rid_def, OF m2(2-6)] by (elim exE conjE)
  have k: "0 < k" using ready by (simp add: alloc_ready_def)
  note unf = allocate_slots_unfold [OF k fit, folded rid_def, OF m1 a [unfolded m2(1)], of hf]
  have disj: "b \<notin> set nb" if "b \<in> set (blocks_of m rid')" for b rid'
    using held_not_free [OF rep that] n(3) by blast
  have keep: "bhash m3 b = bhash m b" if "b \<in> set (blocks_of m rid')" for b rid'
    using n(7) disj [OF that] by blast
  show ?thesis
  proof (cases "enable_caching m")
    case False
    then show ?thesis using unf n keep by (auto simp: same_conf_def)
  next
    case True
    then have c3: "enable_caching m3" "block_size m3 = block_size m" using n(2) by (simp_all add: same_conf_def)
    obtain j m4 r4 where c: "cache_new_full hf m3 r ?nct k = Inr (m4, r4)"
        "hashed_prefix m4 (blocks_of m3 rid) j" "(?nct + k) div block_size m \<le> int j" "unhashed_exclusive m4"
        "\<forall>b. bhash m3 b \<noteq> None \<longrightarrow> bhash m4 b = bhash m3 b" "\<forall>b. b \<notin> set (blocks_of m3 rid) \<longrightarrow> bhash m4 b = bhash m3 b"
        "req_to_blocks m4 = req_to_blocks m3" "j \<le> length (kv_block_hashes r4)"
        "int (length (kv_block_hashes r4)) * block_size m \<le> num_tokens r"
      using alloc_cache_ok [OF rep conf ex [rule_format, OF True] ready True, folded rid_def, OF n] by blast
    have b4: "blocks_of m4 = blocks_of m3" using c(7) by (rule blocks_of_cong)
    have "bhash m4 b = bhash m b" if ne: "rid' \<noteq> rid" and b: "b \<in> set (blocks_of m rid')" for rid' b
    proof (cases "bhash m b = None")
      case none: True
      then have "b \<notin> set (blocks_of m3 rid)"
        using alloc_keeps_other [OF rep ex [rule_format, OF True] ne b] disj [OF b] ready n(5)
        by (auto simp: alloc_ready_def)
      with c(6) keep [OF b] show ?thesis by simp
    next
      case False
      with c(5) keep [OF b] show ?thesis by simp
    qed
    with c b4 n(3,4,9) show ?thesis
      by (intro exI [of _ nb] exI [of _ m4] exI [of _ r4]) (auto simp: unf c3)
  qed
qed

section \<open>Looking up computed blocks\<close>

text \<open>The leading hashes of a chain that the cache knows, each with its first block.\<close>

lemma computed_blocks_loop_spec:
  assumes rep: "kvm_rep m fl pend"
  shows "computed_blocks_loop m hs =
     Inr (map (\<lambda>h. hd (the (cached_block_hash_to_block m h)))
            (takeWhile (\<lambda>h. cached_block_hash_to_block m h \<noteq> None) hs))"
proof (induction hs)
  case (Cons h hs)
  have "ids \<noteq> []" if "cached_block_hash_to_block m h = Some ids" for ids
    using kvm_rep_cache [OF rep] that by (auto simp: cache_ok_def)
  with Cons show ?case
    by (auto simp: get_cached_block_def py_bind_def split: option.splits list.splits)
qed simp

lemma cached_hd:
  assumes rep: "kvm_rep m fl pend" and "cached_block_hash_to_block m h \<noteq> None"
  shows "hd (the (cached_block_hash_to_block m h)) < num_gpu_blocks m \<and>
    bhash m (hd (the (cached_block_hash_to_block m h))) = Some h"
  using kvm_rep_cache [OF rep] assms(2) unfolding cache_ok_def by (metis hd_in_set option.collapse)

lemma computed_blocks_loop_hashes:
  assumes rep: "kvm_rep m fl pend" and bs: "computed_blocks_loop m hs = Inr bs"
  shows "length bs \<le> length hs"
    and "\<And>i. i < length bs \<Longrightarrow> bs ! i < num_gpu_blocks m \<and> bhash m (bs ! i) = Some (hs ! i)"
    and "length bs < length hs \<Longrightarrow> cached_block_hash_to_block m (hs ! length bs) = None"
proof -
  let ?P = "\<lambda>h. cached_block_hash_to_block m h \<noteq> None"
  have bs': "bs = map (\<lambda>h. hd (the (cached_block_hash_to_block m h))) (takeWhile ?P hs)"
    using computed_blocks_loop_spec [OF rep, of hs] bs by simp
  show "length bs \<le> length hs" by (simp add: bs' length_takeWhile_le)
  show "bs ! i < num_gpu_blocks m \<and> bhash m (bs ! i) = Some (hs ! i)" if "i < length bs" for i
  proof -
    have i: "i < length (takeWhile ?P hs)" using that bs' by simp
    then have "?P (hs ! i)" using set_takeWhileD [of "takeWhile ?P hs ! i" ?P hs]
      by (simp add: takeWhile_nth) (metis nth_mem takeWhile_nth)
    with cached_hd [OF rep this] i show ?thesis by (simp add: bs' takeWhile_nth)
  qed
  show "cached_block_hash_to_block m (hs ! length bs) = None" if "length bs < length hs"
    using nth_length_takeWhile [of ?P hs] that by (simp add: bs')
qed

text \<open>When it does not raise, a lookup changes nothing but the hashes stored in the request.\<close>

lemma get_computed_blocks_spec:
  assumes rep: "kvm_rep m fl pend" and res: "get_computed_blocks hf m r = Inr ((bs, n), r')"
  shows "same_req r r' \<and> n = int (length bs) * block_size m \<and> length bs \<le> length (kv_block_hashes r')"
    and "\<not> enable_caching m \<Longrightarrow> bs = [] \<and> n = 0 \<and> r' = r"
    and "\<And>i. i < length bs \<Longrightarrow> bs ! i < num_gpu_blocks m \<and> bhash m (bs ! i) = Some (kv_block_hashes r' ! i)"
    and "enable_caching m \<Longrightarrow> length bs < length (kv_block_hashes r') \<Longrightarrow>
      cached_block_hash_to_block m (kv_block_hashes r' ! length bs) = None"
proof -
  have *: "enable_caching m \<Longrightarrow> same_req r r' \<and> computed_blocks_loop m (kv_block_hashes r') = Inr bs \<and>
      n = int (length bs) * block_size m"
    using res by (auto simp: get_computed_blocks_def same_req_def set_kv_block_hashes_def split: if_splits)
  show off: "\<not> enable_caching m \<Longrightarrow> bs = [] \<and> n = 0 \<and> r' = r" using res by (simp add: get_computed_blocks_def)
  note H = computed_blocks_loop_hashes [OF rep]
  show "same_req r r' \<and> n = int (length bs) * block_size m \<and> length bs \<le> length (kv_block_hashes r')"
    using * H(1) off by (cases "enable_caching m") auto
  show "bs ! i < num_gpu_blocks m \<and> bhash m (bs ! i) = Some (kv_block_hashes r' ! i)" if "i < length bs" for i
    using * H(2) [of "kv_block_hashes r'" bs i] off that by (cases "enable_caching m") auto
  show "cached_block_hash_to_block m (kv_block_hashes r' ! length bs) = None"
    if "enable_caching m" "length bs < length (kv_block_hashes r')"
    using * H(3) that by blast
qed

section \<open>Preservation of the invariants\<close>

lemma kvm_invI: "kvm_rep m fl [] \<Longrightarrow> kvm_inv m"
  by (auto simp: kvm_inv_def)

lemma kvm_goodI: "kvm_rep m fl [] \<Longrightarrow> kvm_conf_ok m \<Longrightarrow> (enable_caching m \<Longrightarrow> unhashed_exclusive m) \<Longrightarrow> kvm_good m"
  by (auto simp: kvm_good_def kvm_inv_def)

lemma kvm_conf_ok_same: "same_conf m m' \<Longrightarrow> kvm_conf_ok m' = kvm_conf_ok m"
  by (simp add: same_conf_def kvm_conf_ok_def)

lemma allocate_slots_good:
  assumes good: "kvm_good m" and ready: "alloc_ready m r k nc" and res: "allocate_slots hf m r k nc = Inr (x, m', r')"
  shows "kvm_good m'"
proof -
  obtain fl where rep: "kvm_rep m fl []" and conf: "kvm_conf_ok m" and ex: "enable_caching m \<longrightarrow> unhashed_exclusive m"
    using good by (auto simp: kvm_good_def kvm_inv_def)
  show ?thesis
  proof (cases x)
    case None
    with allocate_slots_None [of hf m r k nc m' r'] res
    have m': "m' = m\<lparr>req_to_blocks := (req_to_blocks m)(request_id r \<mapsto> blocks_of m (request_id r))\<rparr>" by simp
    then show ?thesis
      using default_rep [OF rep] conf ex by (auto intro!: kvm_goodI simp: kvm_conf_ok_def unhashed_exclusive_def)
  next
    case (Some nb)
    have nc: "set nc \<subseteq> {..<num_gpu_blocks m}" using ready by (auto simp: alloc_ready_def)
    from allocate_slots_Some [OF rep nc res [unfolded Some]]
    have fit: "num_new_blocks m r k nc \<le> free_blocks_num m - num_evictable m nc" "same_conf m m'"
        "\<exists>fl. kvm_rep m' fl []" by blast+
    with allocate_slots_total [OF rep conf ex ready fit(1), of hf] res conf show ?thesis
      by (auto intro!: kvm_goodI simp: kvm_conf_ok_same) (simp add: same_conf_def)
  qed
qed

lemma free_good:
  assumes good: "kvm_good m"
  shows "\<exists>m'. free m rid = Inr m' \<and> kvm_good m' \<and> same_conf m m' \<and> bhash m' = bhash m \<and>
     req_to_blocks m' = (req_to_blocks m)(rid := None)"
proof -
  obtain fl where rep: "kvm_rep m fl []" and conf: "kvm_conf_ok m" and ex: "enable_caching m \<longrightarrow> unhashed_exclusive m"
    using good by (auto simp: kvm_good_def kvm_inv_def)
  obtain m' fl' where m': "free m rid = Inr m'" "kvm_rep m' fl' []" "same_conf m m'"
      "req_to_blocks m' = (req_to_blocks m)(rid := None)" "bhash m' = bhash m"
    using free_rep [OF rep, of rid] by blast
  have "refc m' b \<le> refc m b" if "b < num_gpu_blocks m" for b
  proof -
    have "blocks_of m' rid = []" "(req_to_blocks m')(rid := None) = (req_to_blocks m)(rid := None)"
      using m'(4) by (simp_all add: blocks_of_def)
    then show ?thesis
      using kvm_rep_refc [OF rep that, of rid] kvm_rep_refc [OF m'(2), of b rid] m'(3) that
      by (simp add: same_conf_def)
  qed
  then have "enable_caching m' \<Longrightarrow> unhashed_exclusive m'"
    using ex m'(3,5) by (force simp: unhashed_exclusive_def same_conf_def)
  with m' conf show ?thesis by (auto intro!: kvm_goodI simp: kvm_conf_ok_same)
qed

lemma reset_hash_pool:
  assumes "length (block_pool m) = num_gpu_blocks m"
  shows "b < num_gpu_blocks m \<Longrightarrow> refc (m\<lparr>block_pool := map reset_hash (block_pool m)\<rparr>) b = refc m b"
    "b < num_gpu_blocks m \<Longrightarrow> bhash (m\<lparr>block_pool := map reset_hash (block_pool m)\<rparr>) b = None"
    "b < num_gpu_blocks m \<Longrightarrow> bid (m\<lparr>block_pool := map reset_hash (block_pool m)\<rparr>) b = bid m b"
  using assms by (simp_all add: refc_def bhash_def bid_def reset_hash_def)

lemma reset_rep:
  assumes rep: "kvm_rep m fl []" and c: "reset_prefix_cache m = (True, m')"
  shows "kvm_rep m' fl [] \<and> same_conf m m' \<and> req_to_blocks m' = req_to_blocks m \<and>
    cached_block_hash_to_block m' = Map.empty \<and> (\<forall>b < num_gpu_blocks m. bhash m' b = None \<and> refc m' b = refc m b)"
proof -
  have m': "m' = m\<lparr>cached_block_hash_to_block := Map.empty, block_pool := map reset_hash (block_pool m)\<rparr>"
    using c by (simp add: reset_prefix_cache_def split: if_splits)
  note len = kvm_rep_length [OF rep]
  have meta: "\<forall>b < num_gpu_blocks m. refc m' b = refc m b \<and> bhash m' b = None \<and> bid m' b = bid m b"
    using len by (simp add: m' refc_def bhash_def bid_def reset_hash_def)
  have "queue_repr (qst m') fl"
    using kvm_rep_queue [OF rep] queue_repr_cong [of "map reset_hash (block_pool m)" "block_pool m"] by (simp add: m')
  with rep meta show ?thesis
    by (auto simp: m' kvm_rep_def same_conf_def cache_ok_def)
qed

lemma reset_good:
  assumes "kvm_good m" and "reset_prefix_cache m = (ok, m')"
  shows "kvm_good m' \<and> same_conf m m'"
proof (cases ok)
  case True
  obtain fl where rep: "kvm_rep m fl []" using assms(1) by (auto simp: kvm_good_def kvm_inv_def)
  have "reset_prefix_cache m = (True, m')" using assms(2) True by simp
  note R = reset_rep [OF rep this]
  have free: "int (num_gpu_blocks m) \<le> int (length fl)"
    using True assms(2) kvm_rep_num_free [OF rep] by (simp add: reset_prefix_cache_def split: if_splits)
  have "set fl \<subseteq> {..<num_gpu_blocks m}" using kvm_rep_bound [OF rep] by blast
  moreover have "card (set fl) \<ge> card {..<num_gpu_blocks m}"
    using free distinct_card [OF kvm_rep_distinct [OF rep]] by simp
  ultimately have "set fl = {..<num_gpu_blocks m}" by (intro card_seteq) auto
  then have "refc m b = 0" if "b < num_gpu_blocks m" for b using kvm_rep_free_iff [OF rep that] that by blast
  then have "unhashed_exclusive m'" using R by (simp add: unhashed_exclusive_def same_conf_def)
  moreover have "kvm_conf_ok m'" using R assms(1) kvm_conf_ok_same by (auto simp: kvm_good_def)
  ultimately show ?thesis using R kvm_goodI by blast
next
  case False
  then show ?thesis using assms by (simp add: reset_prefix_cache_def split: if_splits)
qed

lemma init_rep:
  assumes m: "kv_cache_manager_init bs n mml sw caching prealloc = Inr m"
  shows "0 < n \<and> kvm_rep m [0..<n] [] \<and> req_to_blocks m = Map.empty \<and> cached_block_hash_to_block m = Map.empty \<and>
     block_size m = bs \<and> num_gpu_blocks m = n \<and> max_model_len m = mml \<and> enable_caching m = caching \<and>
     max_num_blocks_per_req m = cdiv mml bs \<and> num_preallocate_blocks m = cdiv prealloc bs \<and>
     (\<forall>b < n. bhash m b = None \<and> refc m b = 0)"
proof -
  let ?blocks = "map new_block [0..<n]"
  have n: "?blocks \<noteq> []" using m by (auto simp: kv_cache_manager_init_def queue_init_def split: if_splits)
  then obtain p q where s: "queue_init ?blocks = Inr (p, q)" "queue_repr (p, q) [0..<n]"
      "queue_meta (p, q) = block_meta ?blocks" "length p = n"
    using queue_init_repr [OF n] by (auto simp: new_block_def)
  have m': "m = \<lparr>block_size = bs, num_gpu_blocks = n, max_model_len = mml,
           max_num_blocks_per_req = cdiv mml bs, sliding_window = sw, enable_caching = caching,
           num_preallocate_tokens = prealloc, num_preallocate_blocks = cdiv prealloc bs,
           block_pool = p, free_block_queue = q,
           cached_block_hash_to_block = Map.empty, req_to_blocks = Map.empty\<rparr>"
    using m s(1) by (simp add: kv_cache_manager_init_def split: if_splits)
  have meta: "ref_cnt (p ! b) = 0 \<and> block_hash (p ! b) = None \<and> block_id (p ! b) = b" if "b < n" for b
    using meta_eqD [of p ?blocks] s(3) that by (simp add: queue_meta_def new_block_def)
  have "kvm_rep m [0..<n] []"
    using s meta by (auto simp: m' kvm_rep_def refc_def bhash_def bid_def cache_ok_def)
  then show ?thesis using meta n by (simp add: m' refc_def bhash_def)
qed

lemma init_good:
  assumes "0 < bs" and "0 \<le> prealloc" and m: "kv_cache_manager_init bs n mml sw caching prealloc = Inr m"
  shows "kvm_good m"
proof (rule kvm_goodI)
  show "kvm_rep m [0..<n] []" using init_rep [OF m] by simp
  show "kvm_conf_ok m" using init_rep [OF m] assms(1,2) by (simp add: kvm_conf_ok_def cdiv_nonneg)
  show "unhashed_exclusive m" using init_rep [OF m] by (simp add: unhashed_exclusive_def)
qed

section \<open>Interleavings of operations\<close>

text \<open>
  The calls the scheduler makes, in any order: a lookup followed by an allocation with a prefix of the
  hits (the scheduler drops the last hit when the whole prompt is cached), an allocation without hits,
  freeing, resetting, and the common-prefix query.
\<close>

inductive kvm_step :: "py_hash \<Rightarrow> KVCacheManager \<Rightarrow> KVCacheManager \<Rightarrow> bool" for hf where
  alloc_hits: "get_computed_blocks hf m r = Inr ((nc, n), r1) \<Longrightarrow>
     allocate_slots hf m r1 k (take i nc) = Inr (x, m', r2) \<Longrightarrow> kvm_step hf m m'"
| alloc: "allocate_slots hf m r k [] = Inr (x, m', r1) \<Longrightarrow> kvm_step hf m m'"
| free: "free m rid = Inr m' \<Longrightarrow> kvm_step hf m m'"
| reset: "reset_prefix_cache m = (ok, m') \<Longrightarrow> kvm_step hf m m'"
| common: "get_num_common_prefix_blocks m r n = Inr (k, m') \<Longrightarrow> kvm_step hf m m'"

inductive_simps kvm_step_simps: "kvm_step hf m m'"

inductive kvm_reachable :: "py_hash \<Rightarrow> KVCacheManager \<Rightarrow> bool" for hf where
  init: "kv_cache_manager_init bs n mml sw caching prealloc = Inr m \<Longrightarrow> kvm_reachable hf m"
| step: "kvm_reachable hf m \<Longrightarrow> kvm_step hf m m' \<Longrightarrow> kvm_reachable hf m'"

lemma allocate_slots_inv:
  assumes inv: "kvm_inv m" and nc: "set nc \<subseteq> {..<num_gpu_blocks m}"
    and res: "allocate_slots hf m r k nc = Inr (x, m', r')"
  shows "kvm_inv m'"
proof (cases x)
  case None
  with allocate_slots_None [of hf m r k nc m' r'] res inv show ?thesis
    by (auto simp: kvm_inv_def intro: default_rep)
next
  case (Some nb)
  with allocate_slots_Some nc res inv show ?thesis unfolding kvm_inv_def by metis
qed

lemma kvm_step_inv: "kvm_step hf m m' \<Longrightarrow> kvm_inv m \<Longrightarrow> kvm_inv m'"
proof (induction rule: kvm_step.induct)
  case (alloc_hits m r nc n r1 k i x m' r2)
  then obtain fl where rep: "kvm_rep m fl []" by (auto simp: kvm_inv_def)
  have "set nc \<subseteq> {..<num_gpu_blocks m}"
    using get_computed_blocks_spec(3) [OF rep alloc_hits.hyps(1)] by (auto simp: in_set_conv_nth)
  with alloc_hits allocate_slots_inv [of m "take i nc"] show ?case by (meson set_take_subset subset_trans)
next
  case (alloc m r k x m' r1)
  then show ?case using allocate_slots_inv [of m "[]"] by simp
next
  case (free m rid m')
  then show ?case using free_rep unfolding kvm_inv_def by (metis sum.inject(2))
next
  case (reset m ok m')
  then show ?case
  proof (cases ok)
    case True
    with reset reset_rep [of m _ m'] show ?thesis unfolding kvm_inv_def by metis
  next
    case False
    with reset show ?thesis by (simp add: reset_prefix_cache_def split: if_splits)
  qed
next
  case (common m r n k m')
  then show ?case by (auto simp: kvm_inv_def get_num_common_prefix_blocks_def Let_def intro: default_rep)
qed

lemma kvm_reachable_inv_aux: "kvm_reachable hf m \<Longrightarrow> kvm_inv m"
  by (induction rule: kvm_reachable.induct) (use init_rep kvm_invI kvm_step_inv in blast)+

section \<open>Observable facts\<close>

lemma kvm_rep_free_list: "kvm_rep m fl pend \<Longrightarrow> get_all_free_blocks (qst m) = Some fl"
  using get_all_free_blocks_repr kvm_rep_queue by blast

lemma kvm_invE:
  assumes "kvm_inv m"
  obtains fl where "kvm_rep m fl []" "get_all_free_blocks (qst m) = Some fl"
  using assms kvm_rep_free_list by (auto simp: kvm_inv_def)

lemma held_iff:
  assumes rep: "kvm_rep m fl []" and b: "b < num_gpu_blocks m"
  shows "refc m b = 0 \<longleftrightarrow> (\<forall>rid. b \<notin> set (blocks_of m rid))"
proof -
  have "refc m b = 0 \<longleftrightarrow> total_count (req_to_blocks m) b = 0" using rep b by (simp add: kvm_rep_def)
  also have "\<dots> \<longleftrightarrow> (\<forall>rid xs. req_to_blocks m rid = Some xs \<longrightarrow> b \<notin> set xs)"
    using total_count_0_iff [OF kvm_rep_finite [OF rep]] .
  also have "\<dots> \<longleftrightarrow> (\<forall>rid. b \<notin> set (blocks_of m rid))"
    unfolding blocks_of_def by (metis empty_iff empty_set not_Some_eq option.case)
  finally show ?thesis .
qed

lemma sum_eq_card_imp:
  assumes "finite R" and "\<And>x. x \<in> R \<Longrightarrow> f x \<le> (1::nat)" and "sum f R = card R" and "x \<in> R"
  shows "f x = 1"
proof (rule ccontr)
  assume "f x \<noteq> 1"
  with assms(2) [OF assms(4)] have "f x < 1" by simp
  then have "sum f R < sum (\<lambda>_. 1) R"
    by (intro sum_strict_mono_ex1) (use assms in auto)
  with assms(3) show False by simp
qed

lemma total_count_over:
  assumes "finite R" and "finite (dom M)" and "\<And>k. M k \<noteq> None \<Longrightarrow> the (M k) \<noteq> [] \<Longrightarrow> k \<in> R"
  shows "total_count M b = (\<Sum>k\<in>R. count_list (case M k of None \<Rightarrow> [] | Some xs \<Rightarrow> xs) b)"
proof -
  let ?f = "\<lambda>k. count_list (case M k of None \<Rightarrow> [] | Some xs \<Rightarrow> xs) b"
  have "total_count M b = sum ?f (dom M)"
    unfolding total_count_def by (intro sum.cong) auto
  also have "\<dots> = sum ?f (dom M \<inter> R)"
    using assms by (intro sum.mono_neutral_right) (auto split: option.splits, fastforce)
  also have "\<dots> = sum ?f R"
    using assms by (intro sum.mono_neutral_left) (auto split: option.splits)
  finally show ?thesis .
qed

lemma common_prefix_loop_nth:
  "i < common_prefix_loop m bs n \<Longrightarrow> i < length bs \<and> refc m (bs ! i) = n"
proof (induction bs arbitrary: i)
  case (Cons b bs)
  then show ?case by (cases i) (auto simp: refc_def split: if_splits)
qed simp

section \<open>A concrete manager and request\<close>

definition demo_hash :: py_hash where
  "demo_hash = \<lparr>hash_tuple = (\<lambda>(p, toks, ek). 7 + 3 * p + sum_list toks), hash_none_str = 1\<rparr>"

definition demo_kvm :: KVCacheManager where
  "demo_kvm = (case kv_cache_manager_init 2 4 16 None True 0 of Inr m \<Rightarrow> m | Inl _ \<Rightarrow> undefined)"

definition demo_req :: "string \<Rightarrow> int list \<Rightarrow> Request" where
  "demo_req rid toks =
     \<lparr>request_id = rid, prompt = None, prompt_token_ids = toks,
      sampling_params = default_params\<lparr>sp_max_tokens := Some 8\<rparr>,
      eos_token_id = Some 0, status = WAITING, stop_reason = None, max_tokens = 8,
      num_prompt_tokens = int (length toks), output_token_ids = [], all_token_ids = toks,
      num_computed_tokens = 0, mm_positions = [], mm_inputs = [], mm_hashes = [], kv_block_hashes = []\<rparr>"

lemma demo_kvm_init: "kv_cache_manager_init 2 4 16 None True 0 = Inr demo_kvm"
  by (simp add: demo_kvm_def kv_cache_manager_init_def queue_init_def)

lemma demo_kvm_fields [simp]:
  "req_to_blocks demo_kvm = Map.empty" "block_size demo_kvm = 2" "num_gpu_blocks demo_kvm = 4"
  "max_model_len demo_kvm = 16" "enable_caching demo_kvm" "num_preallocate_blocks demo_kvm = 0"
  "cached_block_hash_to_block demo_kvm = Map.empty" "blocks_of demo_kvm rid = []"
  using init_rep [OF demo_kvm_init] by (simp_all add: blocks_of_def cdiv_def)

lemma demo_kvm_good [simp]: "kvm_good demo_kvm"
  by (rule init_good [OF _ _ demo_kvm_init]) simp_all

lemma demo_kvm_rep: "kvm_rep demo_kvm [0, 1, 2, 3] []"
  using init_rep [OF demo_kvm_init] by (simp add: upt_rec numeral_eq_Suc)

lemma demo_kvm_free [simp]: "free_blocks_num demo_kvm = 4"
  using kvm_rep_num_free [OF demo_kvm_rep] by simp

lemma demo_req_fields [simp]:
  "request_id (demo_req rid toks) = rid" "num_computed_tokens (demo_req rid toks) = 0"
  "num_tokens (demo_req rid toks) = int (length toks)" "mm_positions (demo_req rid toks) = []"
  "all_token_ids (demo_req rid toks) = toks" "kv_block_hashes (demo_req rid toks) = []"
  "status (demo_req rid toks) = WAITING"
  by (simp_all add: demo_req_def num_tokens_def)

lemma demo_ready [simp]: "alloc_ready demo_kvm (demo_req rid [5, 6, 7, 8, 9]) 5 []"
  by (auto simp: alloc_ready_def mm_keys_ok_def hashed_prefix_def)

lemma demo_fits [simp]:
  "num_new_blocks demo_kvm (demo_req rid [5, 6, 7, 8, 9]) 5 [] = 3" "num_evictable demo_kvm [] = 0"
  by (simp_all add: num_new_blocks_def num_evictable_def cdiv_def)

text \<open>The manager after the first request got its blocks.\<close>

definition demo_alloc :: "nat list \<times> KVCacheManager \<times> Request" where
  "demo_alloc = (case allocate_slots demo_hash demo_kvm (demo_req ''a'' [5, 6, 7, 8, 9]) 5 [] of
     Inr (Some nb, m, r) \<Rightarrow> (nb, m, r) | _ \<Rightarrow> undefined)"

lemma demo_alloc_eq:
  "allocate_slots demo_hash demo_kvm (demo_req ''a'' [5, 6, 7, 8, 9]) 5 [] =
     Inr (Some [0, 1, 2], fst (snd demo_alloc), snd (snd demo_alloc))"
proof -
  have g: "kvm_conf_ok demo_kvm" "enable_caching demo_kvm \<longrightarrow> unhashed_exclusive demo_kvm"
    using demo_kvm_good by (simp_all add: kvm_good_def)
  obtain nb m' r' where a: "allocate_slots demo_hash demo_kvm (demo_req ''a'' [5, 6, 7, 8, 9]) 5 [] = Inr (Some nb, m', r')"
    using allocate_slots_total [OF demo_kvm_rep g demo_ready [of "''a''"]] by fastforce
  have "nb = [0, 1, 2]"
    using allocate_slots_Some [OF demo_kvm_rep _ a] demo_fits(1) [of "''a''"] init_rep [OF demo_kvm_init]
    by (auto simp: cdiv_def)
  with a show ?thesis by (simp add: demo_alloc_def)
qed

lemma demo_alloc_good [simp]: "kvm_good (fst (snd demo_alloc))"
  using allocate_slots_good [OF demo_kvm_good demo_ready demo_alloc_eq] .

section \<open>Properties\<close>

text \<open>C7: In every state the manager can reach, under any interleaving of lookups, allocations,
  frees, resets and common-prefix queries, the free queue lists exactly the blocks with reference count
  zero, once each, its counter is its length, every reference count is the number of times requests
  hold the block, and the hash table and the hashes stored in the blocks agree.\<close>

theorem kvm_reachable_inv:
  assumes "kvm_reachable hf m"
  shows "\<exists>fl. get_all_free_blocks (qst m) = Some fl \<and> distinct fl \<and> free_blocks_num m = int (length fl) \<and>
     set fl = {b. b < num_gpu_blocks m \<and> ref_cnt (block_pool m ! b) = 0} \<and>
     (\<forall>b < num_gpu_blocks m. ref_cnt (block_pool m ! b) = int (total_count (req_to_blocks m) b)) \<and>
     (\<forall>b < num_gpu_blocks m. \<forall>h. block_hash (block_pool m ! b) = Some h \<longleftrightarrow>
        (\<exists>ids. cached_block_hash_to_block m h = Some ids \<and> b \<in> set ids))"
proof -
  obtain fl where rep: "kvm_rep m fl []" and fl: "get_all_free_blocks (qst m) = Some fl"
    using kvm_reachable_inv_aux [OF assms] by (rule kvm_invE)
  have "set fl = {b. b < num_gpu_blocks m \<and> refc m b = 0}"
    using kvm_rep_free_iff [OF rep] kvm_rep_bound [OF rep] by blast
  moreover have "bhash m b = Some h \<longleftrightarrow> (\<exists>ids. cached_block_hash_to_block m h = Some ids \<and> b \<in> set ids)"
    if "b < num_gpu_blocks m" for b h
    using kvm_rep_cache [OF rep] that unfolding cache_ok_def by blast
  moreover have "\<forall>b < num_gpu_blocks m. refc m b = int (total_count (req_to_blocks m) b)"
    using rep by (simp add: kvm_rep_def)
  ultimately show ?thesis
    using fl kvm_rep_distinct [OF rep] kvm_rep_num_free [OF rep]
    by (intro exI [of _ fl]) (simp add: refc_def bhash_def)
qed

theorem kvm_reachable_inv_witness:
  "kvm_reachable demo_hash (fst (snd demo_alloc)) \<and>
   (\<exists>fl. get_all_free_blocks (qst (fst (snd demo_alloc))) = Some fl \<and> distinct fl)"
proof -
  have "kvm_reachable demo_hash (fst (snd demo_alloc))"
    using kvm_reachable.step [OF kvm_reachable.init [OF demo_kvm_init] kvm_step.alloc [OF demo_alloc_eq]] .
  with kvm_reachable_inv [OF this] show ?thesis by blast
qed

text \<open>C10: \<open>allocate_slots\<close> never raises for a request whose hashed blocks cover its computed full
  blocks and whose new tokens exist and fit into the model length: it answers \<open>None\<close> exactly when
  fewer blocks are free, not counting hits that wait for eviction, than are still needed; otherwise it
  succeeds, keeps the invariants, and the request's blocks have room for all its tokens.\<close>

theorem allocate_slots_outcome:
  assumes good: "kvm_good m" and ready: "alloc_ready m r k nc"
  shows "(if num_new_blocks m r k nc > free_blocks_num m - num_evictable m nc
     then allocate_slots hf m r k nc =
       Inr (None, m\<lparr>req_to_blocks := (req_to_blocks m)(request_id r \<mapsto> blocks_of m (request_id r))\<rparr>, r)
     else \<exists>nb m' r'. allocate_slots hf m r k nc = Inr (Some nb, m', r') \<and> kvm_good m' \<and> same_req r r' \<and>
       num_computed_tokens r + int (length nc) * block_size m + k
         \<le> int (length (blocks_of m' (request_id r))) * block_size m')"
proof (cases "num_new_blocks m r k nc > free_blocks_num m - num_evictable m nc")
  case True
  then show ?thesis
    using ready by (simp add: allocate_slots_def Let_def num_new_blocks_def num_evictable_def refc_def
        alloc_ready_def free_blocks_num_def)
next
  case False
  obtain fl where rep: "kvm_rep m fl []" and conf: "kvm_conf_ok m" and ex: "enable_caching m \<longrightarrow> unhashed_exclusive m"
    using good by (auto simp: kvm_good_def kvm_inv_def)
  have nc: "set nc \<subseteq> {..<num_gpu_blocks m}" and bs: "0 < block_size m"
    using ready conf by (auto simp: alloc_ready_def kvm_conf_ok_def)
  obtain nb m' r' where a: "allocate_slots hf m r k nc = Inr (Some nb, m', r')"
      "cdiv (num_computed_tokens r + int (length nc) * block_size m + k) (block_size m)
         \<le> int (length (blocks_of m' (request_id r)))"
    using allocate_slots_total [OF rep conf ex ready, of hf] False by auto
  have "same_conf m m'" "same_req r r'" using allocate_slots_Some [OF rep nc a(1)] by blast+
  with a allocate_slots_good [OF good ready a(1)] cdiv_le_iff [OF bs] False show ?thesis
    by (auto simp: same_conf_def)
qed

theorem allocate_slots_outcome_witness:
  "\<exists>nb m' r'. allocate_slots demo_hash demo_kvm (demo_req ''a'' [5, 6, 7, 8, 9]) 5 [] = Inr (Some nb, m', r') \<and>
     5 \<le> int (length (blocks_of m' ''a'')) * block_size m'"
  using allocate_slots_outcome [OF demo_kvm_good demo_ready, of "''a''" demo_hash] by auto

text \<open>C11: A successful \<open>allocate_slots\<close> extends the request's blocks by the hits and then by new
  blocks.  The new blocks are taken from the front of the free queue without the hits, so eviction is
  in queue order; no request held them, they are held exactly once now, and no other request's blocks
  change.\<close>

theorem allocate_slots_takes_free_blocks:
  assumes inv: "kvm_inv m" and nc: "set nc \<subseteq> {..<num_gpu_blocks m}"
    and res: "allocate_slots hf m r k nc = Inr (Some nb, m', r')"
    and fl: "get_all_free_blocks (qst m) = Some fl"
  shows "\<exists>n. nb = take n (filter (\<lambda>b. b \<notin> set nc) fl) \<and>
      get_all_free_blocks (qst m') = Some (drop n (filter (\<lambda>b. b \<notin> set nc) fl)) \<and>
      blocks_of m' (request_id r) = blocks_of m (request_id r) @ nc @ nb \<and>
      (\<forall>rid'. rid' \<noteq> request_id r \<longrightarrow> blocks_of m' rid' = blocks_of m rid') \<and>
      (\<forall>b\<in>set nb. (\<forall>rid'. b \<notin> set (blocks_of m rid')) \<and> ref_cnt (block_pool m' ! b) = 1)"
proof -
  from inv fl have rep: "kvm_rep m fl []" by (metis kvm_invE option.inject)
  let ?fl = "filter (\<lambda>b. b \<notin> set nc) fl"
  note R = allocate_slots_Some [OF rep nc res]
  then obtain n where n: "nb = take n ?fl" "kvm_rep m' (drop n ?fl) []" by blast
  have own: "blocks_of m' (request_id r) = blocks_of m (request_id r) @ nc @ nb" using R by blast
  have other: "\<forall>rid'. rid' \<noteq> request_id r \<longrightarrow> req_to_blocks m' rid' = req_to_blocks m rid'" using R by blast
  have "(\<forall>rid'. b \<notin> set (blocks_of m rid')) \<and> ref_cnt (block_pool m' ! b) = 1" if b: "b \<in> set nb" for b
  proof -
    have fl: "b \<in> set fl" "b \<notin> set nc" "distinct nb"
      using b n(1) kvm_rep_distinct [OF rep] by (auto dest: in_set_takeD)
    have lt: "b < num_gpu_blocks m" and z: "refc m b = 0"
      using kvm_rep_bound [OF rep fl(1)] kvm_rep_free_iff [OF rep] fl(1) by blast+
    have "refc m' b = refc m b + int (count_list (nc @ nb) b)"
      using refc_alloc [OF rep n(2) _ own other lt] R by (simp add: same_conf_def)
    then have "refc m' b = 1" using fl b z count_list_distinct [OF fl(3)] by simp
    with held_iff [OF rep lt] z show ?thesis by (simp add: refc_def)
  qed
  moreover have "\<forall>rid'. rid' \<noteq> request_id r \<longrightarrow> blocks_of m' rid' = blocks_of m rid'"
    using other by (simp add: blocks_of_def)
  ultimately show ?thesis using own n(1) kvm_rep_free_list [OF n(2)] by blast
qed

theorem allocate_slots_takes_free_blocks_witness:
  "blocks_of (fst (snd demo_alloc)) ''a'' = [0, 1, 2] \<and>
   ref_cnt (block_pool (fst (snd demo_alloc)) ! 1) = 1"
proof -
  have inv: "kvm_inv demo_kvm" using demo_kvm_good by (simp add: kvm_good_def)
  note P = allocate_slots_takes_free_blocks [OF inv _ demo_alloc_eq kvm_rep_free_list [OF demo_kvm_rep]]
  show ?thesis using P by auto
qed

text \<open>C15: \<open>free\<close> never raises.  It removes the request's entry, gives back one reference per held
  block, keeps all cached hashes, and appends the blocks nobody else holds to the free queue, the last
  block of the request first when caching is on, so that tails are evicted before prefixes.\<close>

theorem free_returns_blocks:
  assumes inv: "kvm_inv m" and fl: "get_all_free_blocks (qst m) = Some fl"
    and dist: "distinct (blocks_of m rid)"
  shows "\<exists>m'. free m rid = Inr m' \<and> kvm_inv m' \<and> req_to_blocks m' = (req_to_blocks m)(rid := None) \<and>
     cached_block_hash_to_block m' = cached_block_hash_to_block m \<and>
     get_all_free_blocks (qst m') = Some (fl @ filter (\<lambda>b. ref_cnt (block_pool m ! b) = 1)
       (if enable_caching m then rev (blocks_of m rid) else blocks_of m rid))"
proof -
  from inv fl have rep: "kvm_rep m fl []" by (metis kvm_invE option.inject)
  have "distinct (free_order m rid)" using dist by (simp add: free_order_def)
  note F = freed_blocks_distinct [OF this, of "refc m"]
  obtain m' where m': "free m rid = Inr m'" "req_to_blocks m' = (req_to_blocks m)(rid := None)"
      "cached_block_hash_to_block m' = cached_block_hash_to_block m"
      "kvm_rep m' (fl @ filter (\<lambda>b. refc m b = 1) (free_order m rid)) []"
    using free_rep [OF rep, of rid] F by auto
  from kvm_rep_free_list [OF m'(4)] kvm_invI [OF m'(4)] m'(1-3) show ?thesis
    by (intro exI [of _ m']) (simp add: free_order_def refc_def)
qed

theorem free_returns_blocks_witness:
  "\<exists>m'. free (fst (snd demo_alloc)) ''a'' = Inr m' \<and> get_all_free_blocks (qst m') = Some [3, 2, 1, 0]"
proof -
  have inv: "kvm_inv (fst (snd demo_alloc))" using demo_alloc_good by (simp add: kvm_good_def)
  have fl: "get_all_free_blocks (qst (fst (snd demo_alloc))) = Some [3]" by code_simp
  have d: "distinct (blocks_of (fst (snd demo_alloc)) ''a'')" by code_simp
  have e: "[3] @ filter (\<lambda>b. ref_cnt (block_pool (fst (snd demo_alloc)) ! b) = 1)
      (if enable_caching (fst (snd demo_alloc)) then rev (blocks_of (fst (snd demo_alloc)) ''a'')
       else blocks_of (fst (snd demo_alloc)) ''a'') = [3, 2, 1, 0]" by code_simp
  from free_returns_blocks [OF inv fl d, unfolded e] show ?thesis by blast
qed

text \<open>Allocating for a request without blocks and freeing it again restores every reference
  count, the blocks of all other requests and the number of free blocks.\<close>

lemma allocate_free_roundtrip:
  assumes inv: "kvm_inv m" and nc: "set nc \<subseteq> {..<num_gpu_blocks m}"
    and fresh: "blocks_of m (request_id r) = []"
    and res: "allocate_slots hf m r k nc = Inr (Some nb, m', r')"
  shows "\<exists>m''. free m' (request_id r) = Inr m'' \<and> blocks_of m'' = blocks_of m \<and>
     (\<forall>b < num_gpu_blocks m. ref_cnt (block_pool m'' ! b) = ref_cnt (block_pool m ! b)) \<and>
     free_blocks_num m'' = free_blocks_num m"
proof -
  let ?rid = "request_id r"
  obtain fl where rep: "kvm_rep m fl []" using inv by (auto simp: kvm_inv_def)
  note R = allocate_slots_Some [OF rep nc res]
  then obtain fl1 where rep1: "kvm_rep m' fl1 []" by blast
  obtain m'' fl2 where f: "free m' ?rid = Inr m''" "kvm_rep m'' fl2 []" "same_conf m' m''"
      "req_to_blocks m'' = (req_to_blocks m')(?rid := None)"
    using free_rep [OF rep1, of ?rid] by blast
  have conf: "num_gpu_blocks m'' = num_gpu_blocks m" using R f(3) by (simp add: same_conf_def)
  have map: "(req_to_blocks m'')(?rid := None) = (req_to_blocks m)(?rid := None)"
    using R f(4) by (auto simp: fun_eq_iff)
  have bl: "blocks_of m'' rid = blocks_of m rid" for rid
    using fun_cong [OF map, of rid] f(4) fresh by (cases "rid = ?rid") (simp_all add: blocks_of_def)
  have ref: "refc m'' b = refc m b" if "b < num_gpu_blocks m" for b
    using kvm_rep_refc [OF f(2), of b ?rid] kvm_rep_refc [OF rep, of b ?rid] that conf bl by (simp add: map)
  have "set fl2 = set fl"
    using kvm_rep_free_iff [OF f(2)] kvm_rep_free_iff [OF rep] kvm_rep_bound [OF f(2)] kvm_rep_bound [OF rep]
      ref conf by (metis subsetI subset_antisym)
  then have "length fl2 = length fl"
    using distinct_card [OF kvm_rep_distinct [OF f(2)]] distinct_card [OF kvm_rep_distinct [OF rep]] by simp
  then have "free_blocks_num m'' = free_blocks_num m"
    using kvm_rep_num_free [OF f(2)] kvm_rep_num_free [OF rep] by simp
  with f(1) bl ref show ?thesis by (auto simp: refc_def)
qed

lemma allocate_free_roundtrip_witness:
  "\<exists>m''. free (fst (snd demo_alloc)) ''a'' = Inr m'' \<and> free_blocks_num m'' = 4"
proof -
  have inv: "kvm_inv demo_kvm" using demo_kvm_good by (simp add: kvm_good_def)
  show ?thesis using allocate_free_roundtrip [OF inv _ _ demo_alloc_eq] by auto
qed

text \<open>C12: A prefix lookup with caching returns the longest run of leading block hashes of the request
  that the cache knows: block \<open>i\<close> of the result carries hash \<open>i\<close>, the hash after the last hit is not
  in the cache, and the token count is the block size per hit.  The request changes at most in its
  stored hashes.\<close>

theorem get_computed_blocks_longest:
  assumes inv: "kvm_inv m" and caching: "enable_caching m" and res: "get_computed_blocks hf m r = Inr ((bs, n), r')"
  shows "same_req r r' \<and> n = int (length bs) * block_size m \<and> length bs \<le> length (kv_block_hashes r') \<and>
     (\<forall>i < length bs. block_hash (block_pool m ! (bs ! i)) = Some (kv_block_hashes r' ! i)) \<and>
     (length bs < length (kv_block_hashes r') \<longrightarrow>
        (\<forall>b < num_gpu_blocks m. block_hash (block_pool m ! b) \<noteq> Some (kv_block_hashes r' ! length bs)))"
proof -
  obtain fl where rep: "kvm_rep m fl []" using inv by (auto simp: kvm_inv_def)
  note S = get_computed_blocks_spec [OF rep res]
  have "bhash m b \<noteq> Some (kv_block_hashes r' ! length bs)"
    if "length bs < length (kv_block_hashes r')" "b < num_gpu_blocks m" for b
    using S(4) [OF caching that(1)] kvm_rep_cache [OF rep] that(2) unfolding cache_ok_def by fastforce
  with S(1,3) show ?thesis by (auto simp: bhash_def)
qed

text \<open>The two full blocks of the first request are hits for a second one with the same first tokens.\<close>

definition demo_lookup :: Request where
  "demo_lookup = (case get_computed_blocks demo_hash (fst (snd demo_alloc)) (demo_req ''b'' [5, 6, 7, 8, 1, 2]) of
     Inr (_, r) \<Rightarrow> r | Inl _ \<Rightarrow> undefined)"

theorem get_computed_blocks_longest_witness:
  "get_computed_blocks demo_hash (fst (snd demo_alloc)) (demo_req ''b'' [5, 6, 7, 8, 1, 2])
     = Inr (([0, 1], 4), demo_lookup) \<and>
   block_hash (block_pool (fst (snd demo_alloc)) ! 3) \<noteq> Some (kv_block_hashes demo_lookup ! 2)"
proof -
  have inv: "kvm_inv (fst (snd demo_alloc))" using demo_alloc_good by (simp add: kvm_good_def)
  have c: "enable_caching (fst (snd demo_alloc))" "num_gpu_blocks (fst (snd demo_alloc)) = 4" by code_simp+
  have l: "get_computed_blocks demo_hash (fst (snd demo_alloc)) (demo_req ''b'' [5, 6, 7, 8, 1, 2])
      = Inr (([0, 1], 4), demo_lookup)" by code_simp
  have "length (kv_block_hashes demo_lookup) = 3" by code_simp
  with get_computed_blocks_longest [OF inv c(1) l] l c(2) show ?thesis by (simp add: numeral_2_eq_2)
qed

text \<open>The reset succeeds exactly when no request holds a block.\<close>

lemma reset_ok_iff:
  assumes rep: "kvm_rep m fl []" and res: "reset_prefix_cache m = (ok, m')"
  shows "ok \<longleftrightarrow> (\<forall>rid. blocks_of m rid = [])"
proof -
  have bound: "set fl \<subseteq> {..<num_gpu_blocks m}" using kvm_rep_bound [OF rep] by blast
  have num: "free_blocks_num m = int (card (set fl))"
    using kvm_rep_num_free [OF rep] distinct_card [OF kvm_rep_distinct [OF rep]] by simp
  have "ok \<longleftrightarrow> card {..<num_gpu_blocks m} \<le> card (set fl)"
    using res num by (auto simp: reset_prefix_cache_def split: if_splits)
  also have "\<dots> \<longleftrightarrow> set fl = {..<num_gpu_blocks m}" using bound by (metis card_seteq finite_lessThan order_refl)
  also have "\<dots> \<longleftrightarrow> (\<forall>b < num_gpu_blocks m. \<forall>rid. b \<notin> set (blocks_of m rid))"
    using kvm_rep_free_iff [OF rep] held_iff [OF rep] bound by auto
  also have "\<dots> \<longleftrightarrow> (\<forall>rid. blocks_of m rid = [])"
    using blocks_of_bound [OF rep] by (metis all_not_in_conv empty_set lessThan_iff set_empty subsetD)
  finally show ?thesis .
qed

text \<open>\<open>reset_prefix_cache\<close> succeeds exactly when no request holds a block; then no lookup of any
  request finds a hit afterwards.  Otherwise it changes nothing.\<close>

lemma reset_prefix_cache_spec:
  assumes inv: "kvm_inv m" and res: "reset_prefix_cache m = (ok, m')"
  shows "(ok \<longleftrightarrow> (\<forall>rid. blocks_of m rid = [])) \<and> kvm_inv m' \<and> (\<not> ok \<longrightarrow> m' = m) \<and>
     (ok \<longrightarrow> (\<forall>hf r bs n r'. get_computed_blocks hf m' r = Inr ((bs, n), r') \<longrightarrow> bs = [] \<and> n = 0))"
proof -
  obtain fl where rep: "kvm_rep m fl []" using inv by (auto simp: kvm_inv_def)
  note ok = reset_ok_iff [OF rep res]
  have no: "\<not> ok \<longrightarrow> m' = m" using res by (simp add: reset_prefix_cache_def split: if_splits)
  show ?thesis
  proof (cases ok)
    case True
    have "reset_prefix_cache m = (True, m')" using res True by simp
    note R = reset_rep [OF rep this]
    have "bs = [] \<and> n = 0" if g: "get_computed_blocks hf m' r = Inr ((bs, n), r')" for hf r bs n r'
    proof -
      note S = get_computed_blocks_spec [OF conjunct1 [OF R] g]
      have "bs = []" using S(3) [of 0] R by (cases bs) (auto simp: same_conf_def)
      with S(1) show ?thesis by simp
    qed
    with ok no R True show ?thesis by (auto intro: kvm_invI)
  qed (use ok no inv in auto)
qed

lemma reset_prefix_cache_spec_witness:
  "\<not> fst (reset_prefix_cache (fst (snd demo_alloc))) \<and> (\<exists>rid. blocks_of (fst (snd demo_alloc)) rid \<noteq> [])"
proof -
  have inv: "kvm_inv (fst (snd demo_alloc))" using demo_alloc_good by (simp add: kvm_good_def)
  have no: "\<not> fst (reset_prefix_cache (fst (snd demo_alloc)))" by code_simp
  with reset_prefix_cache_spec [OF inv prod.collapse [symmetric]] show ?thesis by blast
qed

text \<open>If \<open>R\<close> are the running requests, every request that holds blocks is running, and no request
  holds a block twice, then each of the first \<open>k\<close> blocks of a running request, where \<open>k\<close> is the
  answer of \<open>get_num_common_prefix_blocks\<close>, is held by every running request.\<close>

lemma common_prefix_blocks_shared:
  assumes inv: "kvm_inv m" and R: "finite R" "\<forall>rid. blocks_of m rid \<noteq> [] \<longrightarrow> rid \<in> R"
    and dist: "\<forall>rid. distinct (blocks_of m rid)"
    and res: "get_num_common_prefix_blocks m r (card R) = Inr (k, m')"
  shows "\<forall>i < k. \<forall>rid\<in>R. blocks_of m (request_id r) ! i \<in> set (blocks_of m rid)"
proof (intro allI impI ballI)
  fix i rid assume i: "i < k" and rid: "rid \<in> R"
  obtain fl where rep: "kvm_rep m fl []" using inv by (auto simp: kvm_inv_def)
  let ?b = "blocks_of m (request_id r) ! i"
  have k: "i < common_prefix_loop m (blocks_of m (request_id r)) (int (card R))"
    using res i by (simp add: get_num_common_prefix_blocks_def Let_def)
  then have len: "i < length (blocks_of m (request_id r))" and ref: "refc m ?b = int (card R)"
    using common_prefix_loop_nth by blast+
  have "?b < num_gpu_blocks m" using nth_mem [OF len] blocks_of_bound [OF rep] by blast
  then have "card R = total_count (req_to_blocks m) ?b" using ref rep by (simp add: kvm_rep_def)
  also have "\<dots> = (\<Sum>rid\<in>R. count_list (blocks_of m rid) ?b)"
    using total_count_over [OF R(1) kvm_rep_finite [OF rep]] R(2) by (force simp: blocks_of_def)
  finally have "(\<Sum>rid\<in>R. count_list (blocks_of m rid) ?b) = card R" ..
  moreover have "count_list (blocks_of m rid') ?b \<le> 1" for rid' using dist by (simp add: count_list_distinct)
  ultimately have "count_list (blocks_of m rid) ?b = 1" 
    using sum_eq_card_imp [OF R(1) _ _ rid, of "\<lambda>rid. count_list (blocks_of m rid) ?b"] by blast
  then show "?b \<in> set (blocks_of m rid)" using count_notin by fastforce
qed

text \<open>The second request gets the two hits and one new block.\<close>

definition demo_alloc2 :: "nat list \<times> KVCacheManager \<times> Request" where
  "demo_alloc2 = (case allocate_slots demo_hash (fst (snd demo_alloc)) demo_lookup 2 [0, 1] of
     Inr (Some nb, m, r) \<Rightarrow> (nb, m, r\<lparr>status := RUNNING\<rparr>) | _ \<Rightarrow> undefined)"

lemma demo_alloc2_eq:
  "\<exists>r. allocate_slots demo_hash (fst (snd demo_alloc)) demo_lookup 2 [0, 1] = Inr (Some [3], fst (snd demo_alloc2), r)"
proof -
  have "case allocate_slots demo_hash (fst (snd demo_alloc)) demo_lookup 2 [0, 1] of
      Inr (Some nb, m, r) \<Rightarrow> nb = [3] | _ \<Rightarrow> False" by code_simp
  then show ?thesis by (auto simp: demo_alloc2_def split: sum.splits option.splits)
qed

lemma demo_alloc2_inv: "kvm_inv (fst (snd demo_alloc2))"
proof -
  have inv: "kvm_inv (fst (snd demo_alloc))" using demo_alloc_good by (simp add: kvm_good_def)
  have "num_gpu_blocks (fst (snd demo_alloc)) = 4" by code_simp
  with demo_alloc2_eq allocate_slots_inv [OF inv, of "[0, 1]"] show ?thesis by auto
qed

lemma alloc_other_blocks:
  assumes "kvm_inv m" and "set nc \<subseteq> {..<num_gpu_blocks m}"
    and "allocate_slots hf m r k nc = Inr (Some nb, m', r')" and "rid \<noteq> request_id r"
  shows "blocks_of m' rid = blocks_of m rid"
  using assms allocate_slots_Some [of m _ nc hf r k nb m' r'] by (auto simp: kvm_inv_def blocks_of_def)

lemma demo_alloc2_blocks:
  "blocks_of (fst (snd demo_alloc2)) = (\<lambda>rid. if rid = ''a'' then [0, 1, 2] else if rid = ''b'' then [0, 1, 3] else [])"
proof
  fix rid
  obtain r where r: "allocate_slots demo_hash (fst (snd demo_alloc)) demo_lookup 2 [0, 1] =
      Inr (Some [3], fst (snd demo_alloc2), r)" using demo_alloc2_eq by blast
  have inv: "kvm_inv demo_kvm" "kvm_inv (fst (snd demo_alloc))"
    using demo_kvm_good demo_alloc_good by (simp_all add: kvm_good_def)
  have n: "num_gpu_blocks (fst (snd demo_alloc)) = 4" "request_id demo_lookup = ''b''" by code_simp+
  have "blocks_of (fst (snd demo_alloc2)) ''a'' = [0, 1, 2]" "blocks_of (fst (snd demo_alloc2)) ''b'' = [0, 1, 3]"
    by code_simp+
  moreover have "blocks_of (fst (snd demo_alloc2)) rid = []" if "rid \<noteq> ''a''" "rid \<noteq> ''b''"
    using alloc_other_blocks [OF inv(2) _ r, of rid] alloc_other_blocks [OF inv(1) _ demo_alloc_eq, of rid] that n by simp
  ultimately show "blocks_of (fst (snd demo_alloc2)) rid =
      (if rid = ''a'' then [0, 1, 2] else if rid = ''b'' then [0, 1, 3] else [])" by simp
qed

lemma common_prefix_blocks_shared_witness:
  "\<exists>m'. get_num_common_prefix_blocks (fst (snd demo_alloc2)) (snd (snd demo_alloc2)) 2 = Inr (2, m') \<and>
     blocks_of (fst (snd demo_alloc2)) ''b'' ! 1 \<in> set (blocks_of (fst (snd demo_alloc2)) ''a'')"
proof -
  let ?m = "fst (snd demo_alloc2)" and ?r = "snd (snd demo_alloc2)" and ?R = "{''a'', ''b''}"
  have R: "finite ?R" "\<forall>rid. blocks_of ?m rid \<noteq> [] \<longrightarrow> rid \<in> ?R" "\<forall>rid. distinct (blocks_of ?m rid)"
    by (auto simp: demo_alloc2_blocks)
  have "case get_num_common_prefix_blocks ?m ?r 2 of Inr (k, _) \<Rightarrow> k = 2 | _ \<Rightarrow> False" by code_simp
  then obtain m' where m': "get_num_common_prefix_blocks ?m ?r 2 = Inr (2, m')" by (auto split: sum.splits)
  have "request_id ?r = ''b''" by code_simp
  moreover have "card ?R = 2" by simp
  ultimately show ?thesis
    using common_prefix_blocks_shared [OF demo_alloc2_inv R, of ?r] m' by (metis insertI1 one_less_numeral_iff semiring_norm(76))
qed

text \<open>Blocks are conserved: in every reachable state the free blocks and the blocks held by some
  request add up to the size of the pool.\<close>

lemma block_conservation:
  assumes "kvm_reachable hf m"
  shows "free_blocks_num m + int (card {b. \<exists>rid. b \<in> set (blocks_of m rid)}) = int (num_gpu_blocks m)"
proof -
  obtain fl where rep: "kvm_rep m fl []" using kvm_reachable_inv_aux [OF assms] by (auto simp: kvm_inv_def)
  let ?H = "{b. \<exists>rid. b \<in> set (blocks_of m rid)}"
  have "set fl \<union> ?H = {..<num_gpu_blocks m}" "set fl \<inter> ?H = {}"
    using kvm_rep_free_iff [OF rep] held_iff [OF rep] kvm_rep_bound [OF rep] blocks_of_bound [OF rep] by auto blast+
  moreover from this(1) have "finite ?H" by (metis finite_Un finite_lessThan)
  ultimately have "card (set fl) + card ?H = num_gpu_blocks m"
    using card_Un_disjoint [of "set fl" ?H] by simp
  then show ?thesis
    using kvm_rep_num_free [OF rep] distinct_card [OF kvm_rep_distinct [OF rep]] by simp
qed

lemma block_conservation_witness:
  "kvm_reachable demo_hash demo_kvm \<and> int (card {b. \<exists>rid. b \<in> set (blocks_of demo_kvm rid)}) = 0"
proof -
  have r: "kvm_reachable demo_hash demo_kvm" using kvm_reachable.init [OF demo_kvm_init] .
  from block_conservation [OF r] r show ?thesis by simp
qed

text \<open>C13: Equal block hashes mean equal prefixes: if hash \<open>i\<close> of one request's chain has the value of hash
  \<open>i\<close> of another's, then the two requests agree on all tokens up to the end of block \<open>i\<close> and on the
  extra keys of all these blocks, unless two different keys hashed on the way collide or a parent
  hash is \<open>0\<close>, which the code takes for a missing parent.\<close>

theorem equal_hash_equal_prefix:
  assumes bs: "0 < bs"
    and h: "hash_request_tokens hf bs r = Inr hs" and h': "hash_request_tokens hf bs r' = Inr hs'"
    and i: "i < length hs" "i < length hs'" and eq: "hash_value (hs ! i) = hash_value (hs' ! i)"
  shows "chain_collision hf hs hs' i \<or>
     (take (Suc i * nat bs) (all_token_ids r) = take (Suc i * nat bs) (all_token_ids r') \<and>
      (\<forall>j \<le> i. extra_keys (hs ! j) = extra_keys (hs' ! j)))"
proof (cases "chain_collision hf hs hs' i")
  case False
  note c = hash_request_tokens_chain [OF bs h] and c' = hash_request_tokens_chain [OF bs h']
  have key: "chain_key hf hs j = chain_key hf hs' j" if "j \<le> i" for j
    using chain_agree [OF _ _ False i eq that] c c' by blast
  have "take (nat bs) (drop (j * nat bs) (all_token_ids r)) = take (nat bs) (drop (j * nat bs) (all_token_ids r'))"
    if "j < Suc i" for j
    using key [of j] c [of j] c' [of j] that i by (simp add: chain_key_def)
  then show ?thesis
    using take_eq_blocks [of "Suc i" "nat bs" "all_token_ids r" "all_token_ids r'"] key
    by (simp add: chain_key_def)
qed simp

lemma demo_chain:
  "hash_request_tokens demo_hash 2 (demo_req ''a'' [5, 6, 7, 8, 9]) =
    Inr [\<lparr>hash_value = 21, token_ids = [5, 6], extra_keys = None\<rparr>, \<lparr>hash_value = 85, token_ids = [7, 8], extra_keys = None\<rparr>]"
  "hash_request_tokens demo_hash 2 (demo_req ''b'' [5, 6, 7, 8, 1]) =
    Inr [\<lparr>hash_value = 21, token_ids = [5, 6], extra_keys = None\<rparr>, \<lparr>hash_value = 85, token_ids = [7, 8], extra_keys = None\<rparr>]"
  by code_simp+

theorem equal_hash_equal_prefix_witness:
  "hash_request_tokens demo_hash 2 (demo_req ''a'' [5, 6, 7, 8, 9]) = hash_request_tokens demo_hash 2 (demo_req ''b'' [5, 6, 7, 8, 1]) \<and>
   take 4 (all_token_ids (demo_req ''a'' [5, 6, 7, 8, 9])) = take 4 (all_token_ids (demo_req ''b'' [5, 6, 7, 8, 1]))"
proof -
  have "\<not> chain_collision demo_hash
      [\<lparr>hash_value = 21, token_ids = [5, 6], extra_keys = None\<rparr>, \<lparr>hash_value = 85, token_ids = [7, 8], extra_keys = None\<rparr>]
      [\<lparr>hash_value = 21, token_ids = [5, 6], extra_keys = None\<rparr>, \<lparr>hash_value = 85, token_ids = [7, 8], extra_keys = None\<rparr>] 1"
    by (simp add: chain_collision_def)
  with equal_hash_equal_prefix [OF _ demo_chain, of 1] show ?thesis
    by (simp add: demo_chain)
qed

text \<open>C14: The doubly linked free queue refines a list of distinct blocks: \<open>popleft\<close> takes the head, \<open>remove\<close>
  deletes a block from any position, \<open>append\<close> adds at the end, \<open>get_all_free_blocks\<close> returns the list
  (so its walk ends), and \<open>num_free_blocks\<close> is its length.\<close>

theorem free_queue_refines_list:
  assumes "queue_repr s xs"
  shows "(case xs of [] \<Rightarrow> popleft s = Inl ValueError | b # ys \<Rightarrow> \<exists>s'. popleft s = Inr (b, s') \<and> queue_repr s' ys) \<and>
     (\<forall>b\<in>set xs. queue_repr (remove_block s b) (remove1 b xs)) \<and>
     (\<forall>b < length (fst s). b \<notin> set xs \<longrightarrow> (\<exists>s'. append_block s b = Inr s' \<and> queue_repr s' (xs @ [b]))) \<and>
     get_all_free_blocks s = Some xs \<and> num_free_blocks (snd s) = int (length xs)"
proof -
  have "case xs of [] \<Rightarrow> popleft s = Inl ValueError | b # ys \<Rightarrow> \<exists>s'. popleft s = Inr (b, s') \<and> queue_repr s' ys"
    using assms fq.pop_Nil fq.repr_pop by (cases xs) fastforce+
  moreover have "queue_repr (remove_block s b) (remove1 b xs)" if b: "b \<in> set xs" for b
  proof -
    obtain ys zs where xs: "xs = ys @ b # zs" "b \<notin> set ys" using split_list_first [OF b] by blast
    then show ?thesis using fq.repr_del [of s ys b zs] assms by (simp add: remove1_append)
  qed
  moreover have "\<exists>s'. append_block s b = Inr s' \<and> queue_repr s' (xs @ [b])" if "b < length (fst s)" "b \<notin> set xs" for b
    using fq.repr_push [OF assms _ that(2)] that(1) by (auto simp: queue_valid_def)
  ultimately show ?thesis using assms get_all_free_blocks_repr [OF assms] by (simp add: queue_repr_def)
qed

theorem free_queue_refines_list_witness:
  "get_all_free_blocks (qst demo_kvm) = Some [0, 1, 2, 3] \<and> queue_repr (remove_block (qst demo_kvm) 2) [0, 1, 3]"
  using free_queue_refines_list [OF kvm_rep_queue [OF demo_kvm_rep]] by simp

end
