(* ===== verification/EncoderCache.thy ===== *)
theory EncoderCache
  imports Request
begin

text \<open>
  The encoder cache manager (\<open>vllm/v1/core/encoder_cache_manager.py\<close>): which encoder inputs of which
  request have their output in the worker's encoder cache, how many slots are left, and which entries
  were freed since the last step.

  The iteration order of a Python set is not specified, so it is a parameter \<open>ord\<close> of the operations
  that iterate over one; \<open>set_order_ok\<close> is what iteration promises.  Iterating over a set that changes
  its size raises, which is modelled: the iterator compares the size with the one it started with
  before it produces each next element and before it stops.
\<close>

section \<open>State\<close>

record EncoderCacheManager =
  cache_size :: int
  num_free_slots :: int
  cached :: "string \<Rightarrow> nat set option"
  freed :: "(string \<times> nat) list"

type_synonym set_order = "nat set \<Rightarrow> nat list"

definition set_order_ok :: "set_order \<Rightarrow> bool" where
  "set_order_ok ord \<longleftrightarrow> (\<forall>S. finite S \<longrightarrow> distinct (ord S) \<and> set (ord S) = S)"

section \<open>Operations\<close>

definition encoder_cache_manager_init :: "int \<Rightarrow> EncoderCacheManager" where
  "encoder_cache_manager_init n =
     \<lparr>cache_size = n, num_free_slots = n, cached = Map.empty, freed = []\<rparr>"

definition has_cache :: "EncoderCacheManager \<Rightarrow> Request \<Rightarrow> nat \<Rightarrow> bool" where
  "has_cache e r i = (case cached e (request_id r) of None \<Rightarrow> False | Some S \<Rightarrow> i \<in> S)"

definition can_allocate :: "EncoderCacheManager \<Rightarrow> Request \<Rightarrow> nat \<Rightarrow> bool py" where
  "can_allocate e r i = py_bind (get_num_encoder_tokens r i) (\<lambda>n. Inr (n \<le> num_free_slots e))"

definition allocate :: "EncoderCacheManager \<Rightarrow> Request \<Rightarrow> nat \<Rightarrow> EncoderCacheManager py" where
  "allocate e r i =
     (let S = (case cached e (request_id r) of None \<Rightarrow> {} | Some S \<Rightarrow> S);
          e1 = e\<lparr>cached := (cached e)(request_id r \<mapsto> insert i S)\<rparr>
      in py_bind (get_num_encoder_tokens r i)
           (\<lambda>n. Inr (e1\<lparr>num_free_slots := num_free_slots e1 - n\<rparr>)))"

definition get_cached_input_ids :: "EncoderCacheManager \<Rightarrow> Request \<Rightarrow> nat set" where
  "get_cached_input_ids e r = (case cached e (request_id r) of None \<Rightarrow> {} | Some S \<Rightarrow> S)"

definition free_encoder_input :: "EncoderCacheManager \<Rightarrow> Request \<Rightarrow> nat \<Rightarrow> EncoderCacheManager py" where
  "free_encoder_input e r i =
     (let rid = request_id r in
      case cached e rid of
        None \<Rightarrow> Inr e
      | Some S \<Rightarrow>
          (let S' = S - {i};
               e1 = e\<lparr>cached := (cached e)(rid := (if card S' = 0 then None else Some S'))\<rparr>
           in py_bind (get_num_encoder_tokens r i)
                (\<lambda>n. Inr (e1\<lparr>num_free_slots := num_free_slots e1 + n, freed := freed e1 @ [(rid, i)]\<rparr>))))"

text \<open>The loop of \<open>free\<close>: \<open>n\<close> is the size of the live set when the iteration began.\<close>

fun free_inputs_loop :: "EncoderCacheManager \<Rightarrow> Request \<Rightarrow> nat \<Rightarrow> nat list \<Rightarrow> EncoderCacheManager py" where
  "free_inputs_loop e r n [] =
     (if card (get_cached_input_ids e r) \<noteq> n then Inl RuntimeError else Inr e)"
| "free_inputs_loop e r n (i # is) =
     (if card (get_cached_input_ids e r) \<noteq> n then Inl RuntimeError
      else py_bind (free_encoder_input e r i) (\<lambda>e'. free_inputs_loop e' r n is))"

definition encoder_free :: "set_order \<Rightarrow> EncoderCacheManager \<Rightarrow> Request \<Rightarrow> EncoderCacheManager py" where
  "encoder_free ord e r =
     (let S = get_cached_input_ids e r in free_inputs_loop e r (card S) (ord S))"

definition get_freed_ids :: "EncoderCacheManager \<Rightarrow> (string \<times> nat) list \<times> EncoderCacheManager" where
  "get_freed_ids e = (freed e, e\<lparr>freed := []\<rparr>)"

text \<open>
  The encoder budgets of a model: \<open>max_tokens_by_modality\<close>, the largest number of tokens of one item
  of each modality, comes from the multi-modal registry.
\<close>

definition compute_encoder_budget_multimodal ::
  "(string \<times> int) list \<Rightarrow> int \<Rightarrow> int \<Rightarrow> int \<times> int" where
  "compute_encoder_budget_multimodal max_tokens_by_modality max_num_encoder_input_tokens cfg_cache_size =
     (if max_tokens_by_modality = [] then (0, 0)
      else let m = Max (set (map snd max_tokens_by_modality)) in
        (max max_num_encoder_input_tokens m, max cfg_cache_size m))"

definition compute_encoder_budget ::
  "bool \<Rightarrow> (string \<times> int) list \<Rightarrow> int \<Rightarrow> int \<Rightarrow> int \<times> int" where
  "compute_encoder_budget is_multimodal max_tokens_by_modality max_num_encoder_input_tokens cfg_cache_size =
     (if \<not> is_multimodal then (0, 0)
      else compute_encoder_budget_multimodal max_tokens_by_modality max_num_encoder_input_tokens cfg_cache_size)"

section \<open>Lemmas\<close>

lemma set_order_okD:
  "set_order_ok ord \<Longrightarrow> finite S \<Longrightarrow> distinct (ord S)" "set_order_ok ord \<Longrightarrow> finite S \<Longrightarrow> set (ord S) = S"
  by (simp_all add: set_order_ok_def)

lemma set_order_sorted: "set_order_ok sorted_list_of_set"
  by (simp add: set_order_ok_def)

text \<open>What the entries of a request use, and the total that is in use.\<close>

definition used_by :: "(string \<Rightarrow> Request option) \<Rightarrow> EncoderCacheManager \<Rightarrow> string \<Rightarrow> int" where
  "used_by R e rid =
     (case cached e rid of None \<Rightarrow> 0
      | Some S \<Rightarrow> (\<Sum>i\<in>S. pr_length (mm_positions (the (R rid)) ! i)))"

definition encoder_cache_inv :: "(string \<Rightarrow> Request option) \<Rightarrow> EncoderCacheManager \<Rightarrow> bool" where
  "encoder_cache_inv R e \<longleftrightarrow>
     finite (dom (cached e)) \<and>
     (\<forall>rid S. cached e rid = Some S \<longrightarrow> finite S \<and> S \<noteq> {} \<and>
        (\<exists>r. R rid = Some r \<and> (\<forall>i\<in>S. i < length (mm_positions r)))) \<and>
     num_free_slots e + (\<Sum>rid\<in>dom (cached e). used_by R e rid) = cache_size e"

lemma sum_dom_upd:
  fixes f g :: "string \<Rightarrow> int"
  assumes "finite (dom M)" and "\<And>k. k \<noteq> rid \<Longrightarrow> g k = f k" and "M rid = None \<Longrightarrow> f rid = 0"
  shows "sum g (dom (M(rid \<mapsto> x))) = sum f (dom M) + g rid - f rid"
proof -
  have "sum g (dom (M(rid \<mapsto> x))) = g rid + sum g (dom M - {rid})"
    using assms(1) by (simp add: sum.insert_remove)
  also have "sum g (dom M - {rid}) = sum f (dom M - {rid})" using assms(2) by (intro sum.cong) auto
  also have "\<dots> = sum f (dom M) - f rid"
    using assms(1,3) by (cases "rid \<in> dom M") (auto simp: sum_diff1 domIff)
  finally show ?thesis by linarith
qed

lemma encoder_cache_invD:
  assumes "encoder_cache_inv R e" and "R rid = Some r" and "cached e rid = Some S"
  shows "finite S \<and> S \<noteq> {} \<and> (\<forall>i\<in>S. i < length (mm_positions r))"
  using assms unfolding encoder_cache_inv_def by (metis option.inject)

lemma cached_ids_bound:
  assumes "encoder_cache_inv R e" and "R (request_id r) = Some r"
  shows "finite (get_cached_input_ids e r) \<and> (\<forall>i\<in>get_cached_input_ids e r. i < length (mm_positions r))"
  using encoder_cache_invD [OF assms] by (cases "cached e (request_id r)") (simp_all add: get_cached_input_ids_def)

lemma allocate_inv:
  assumes inv: "encoder_cache_inv R e" and r: "R (request_id r) = Some r" and i: "i < length (mm_positions r)"
    and fresh: "\<not> has_cache e r i"
  shows "\<exists>e'. allocate e r i = Inr e' \<and> encoder_cache_inv R e' \<and> cache_size e' = cache_size e \<and>
     freed e' = freed e \<and> num_free_slots e' = num_free_slots e - pr_length (mm_positions r ! i) \<and>
     cached e' = (cached e)(request_id r \<mapsto> insert i (get_cached_input_ids e r))"
proof -
  let ?rid = "request_id r" and ?S = "get_cached_input_ids e r"
  let ?e = "e\<lparr>cached := (cached e)(?rid \<mapsto> insert i ?S), num_free_slots := num_free_slots e - pr_length (mm_positions r ! i)\<rparr>"
  have fin: "finite ?S" "i \<notin> ?S" "\<forall>j\<in>?S. j < length (mm_positions r)"
    using cached_ids_bound [OF inv r] fresh by (simp_all add: get_cached_input_ids_def has_cache_def split: option.splits)
  have rid: "used_by R ?e ?rid = used_by R e ?rid + pr_length (mm_positions r ! i)"
    using fin r by (cases "cached e ?rid") (simp_all add: used_by_def get_cached_input_ids_def)
  have "(\<Sum>rid\<in>dom (cached ?e). used_by R ?e rid) =
      (\<Sum>rid\<in>dom (cached e). used_by R e rid) + used_by R ?e ?rid - used_by R e ?rid"
    using sum_dom_upd [of "cached e" ?rid "used_by R ?e" "used_by R e" "insert i ?S"] inv
    by (simp add: encoder_cache_inv_def used_by_def)
  moreover have "\<forall>rid S. cached ?e rid = Some S \<longrightarrow> finite S \<and> S \<noteq> {} \<and>
        (\<exists>r. R rid = Some r \<and> (\<forall>i\<in>S. i < length (mm_positions r)))"
    using inv fin r i by (auto simp: encoder_cache_inv_def)
  ultimately have "encoder_cache_inv R ?e" using inv rid by (simp add: encoder_cache_inv_def)
  moreover have "allocate e r i = Inr ?e"
    using i by (simp add: allocate_def get_num_encoder_tokens_def get_cached_input_ids_def Let_def)
  ultimately show ?thesis by auto
qed

lemma sum_dom_del:
  fixes f g :: "string \<Rightarrow> int"
  assumes "finite (dom M)" and "\<And>k. k \<noteq> rid \<Longrightarrow> g k = f k" and "M rid \<noteq> None"
  shows "sum g (dom (M(rid := None))) = sum f (dom M) - f rid"
proof -
  have "sum g (dom (M(rid := None))) = sum f (dom M - {rid})" using assms(2) by (intro sum.cong) auto
  also have "\<dots> = sum f (dom M) - f rid" using assms(1,3) by (auto simp: sum_diff1 domIff)
  finally show ?thesis .
qed

lemma free_encoder_input_inv:
  assumes inv: "encoder_cache_inv R e" and r: "R (request_id r) = Some r" and i: "i \<in> get_cached_input_ids e r"
  shows "\<exists>e'. free_encoder_input e r i = Inr e' \<and> encoder_cache_inv R e' \<and> cache_size e' = cache_size e \<and>
     num_free_slots e' = num_free_slots e + pr_length (mm_positions r ! i) \<and>
     freed e' = freed e @ [(request_id r, i)] \<and>
     get_cached_input_ids e' r = get_cached_input_ids e r - {i} \<and>
     (\<forall>rid. rid \<noteq> request_id r \<longrightarrow> cached e' rid = cached e rid)"
proof -
  let ?rid = "request_id r"
  obtain S where S: "cached e ?rid = Some S" "i \<in> S" using i by (auto simp: get_cached_input_ids_def split: option.splits)
  have fin: "finite S" "\<forall>j\<in>S. j < length (mm_positions r)" using encoder_cache_invD [OF inv r S(1)] by simp_all
  let ?n = "pr_length (mm_positions r ! i)"
  let ?e = "e\<lparr>cached := (cached e)(?rid := (if card (S - {i}) = 0 then None else Some (S - {i}))),
              num_free_slots := num_free_slots e + ?n, freed := freed e @ [(?rid, i)]\<rparr>"
  have ev: "free_encoder_input e r i = Inr ?e"
    using S fin by (simp add: free_encoder_input_def get_num_encoder_tokens_def Let_def)
  have rid: "used_by R e ?rid = (\<Sum>j\<in>S - {i}. pr_length (mm_positions r ! j)) + ?n"
    using S r fin sum.remove [of S i "\<lambda>j. pr_length (mm_positions r ! j)"] by (simp add: used_by_def)
  have sum: "(\<Sum>rid\<in>dom (cached ?e). used_by R ?e rid) = (\<Sum>rid\<in>dom (cached e). used_by R e rid) - ?n"
  proof (cases "S - {i} = {}")
    case True
    then have "?n = used_by R e ?rid" using rid by (simp only: sum.empty)
    moreover have "cached ?e = (cached e)(?rid := None)"
      unfolding EncoderCacheManager.simps True by simp
    ultimately show ?thesis
      using sum_dom_del [of "cached e" ?rid "used_by R ?e" "used_by R e"] inv S
      by (simp add: encoder_cache_inv_def used_by_def)
  next
    case False
    then have "cached ?e = (cached e)(?rid \<mapsto> S - {i})" using fin by (simp add: card_gt_0_iff)
    moreover from this have "used_by R ?e ?rid = (\<Sum>j\<in>S - {i}. pr_length (mm_positions r ! j))"
      using r by (simp add: used_by_def)
    ultimately show ?thesis
      using sum_dom_upd [of "cached e" ?rid "used_by R ?e" "used_by R e" "S - {i}"] inv S rid
      by (simp add: encoder_cache_inv_def used_by_def)
  qed
  have "finite S' \<and> S' \<noteq> {} \<and> (\<exists>r. R rid = Some r \<and> (\<forall>i\<in>S'. i < length (mm_positions r)))"
    if a: "cached ?e rid = Some S'" for rid S'
  proof (cases "rid = ?rid")
    case True
    with a have "S' = S - {i}" "card S' \<noteq> 0" by (simp_all split: if_splits)
    with fin r True show ?thesis by auto
  next
    case False
    with a inv show ?thesis by (simp add: encoder_cache_inv_def)
  qed
  moreover have "num_free_slots ?e + (\<Sum>rid\<in>dom (cached ?e). used_by R ?e rid) = cache_size ?e"
    unfolding sum using inv by (simp add: encoder_cache_inv_def)
  moreover have "finite (dom (cached ?e))" using inv by (simp add: encoder_cache_inv_def)
  ultimately have "encoder_cache_inv R ?e" unfolding encoder_cache_inv_def by blast
  moreover have "get_cached_input_ids ?e r = get_cached_input_ids e r - {i}"
  proof (cases "card (S - {i}) = 0")
    case True
    then have "S - {i} = {}" using fin by (simp only: card_0_eq finite_Diff)
    with True S show ?thesis by (simp add: get_cached_input_ids_def)
  next
    case False
    with S show ?thesis by (simp add: get_cached_input_ids_def)
  qed
  ultimately show ?thesis using ev by auto
qed

text \<open>Freeing a request with nothing cached does nothing; with anything cached it raises.\<close>

lemma encoder_free_empty:
  assumes "set_order_ok ord" and "get_cached_input_ids e r = {}"
  shows "encoder_free ord e r = Inr e"
  using set_order_okD [OF assms(1), of "{}"] assms(2) by (simp add: encoder_free_def Let_def)

lemma encoder_free_raises:
  assumes ord: "set_order_ok ord" and inv: "encoder_cache_inv R e" and r: "R (request_id r) = Some r"
    and ne: "get_cached_input_ids e r \<noteq> {}"
  shows "encoder_free ord e r = Inl RuntimeError"
proof -
  let ?S = "get_cached_input_ids e r"
  have fin: "finite ?S" using cached_ids_bound [OF inv r] by simp
  then obtain i xs where o: "ord ?S = i # xs" "i \<in> ?S"
    using set_order_okD(2) [OF ord, of ?S] ne by (cases "ord ?S") auto
  from free_encoder_input_inv [OF inv r o(2)] obtain e' where
    e': "free_encoder_input e r i = Inr e'" "get_cached_input_ids e' r = ?S - {i}" by blast
  have "card (get_cached_input_ids e' r) \<noteq> card ?S"
    using e'(2) o(2) fin by (simp add: card_gt_0_iff) (metis card_gt_0_iff empty_iff less_irrefl Suc_pred diff_Suc_1 n_not_Suc_n)
  then have "free_inputs_loop e' r (card ?S) xs = Inl RuntimeError" by (cases xs) simp_all
  then show ?thesis by (simp add: encoder_free_def Let_def o(1) e'(1))
qed

end
