(* ===== verification/Scheduler.thy ===== *)
theory Scheduler
  imports KVCacheProps EncoderCache "HOL-Library.AList"
begin

text \<open>
  The scheduler of the engine core (\<open>vllm/v1/core/scheduler.py\<close>): which requests get how many tokens
  in the next step, preemption when KV blocks run out, admission of waiting requests, the encoder
  inputs a step needs, and the update of all state from the model's output.

  Requests are objects shared by \<open>requests\<close>, \<open>waiting\<close> and \<open>running\<close>.  Their ids are unique (the
  front end refuses a request id that is in use), so the model keeps the objects in \<open>requests\<close> and
  the queues hold ids.  Dictionaries whose insertion order or sum matters are association lists.
  \<open>encoder_cache\<close> is the dictionary of encoder results that the engine core fills while it drains the
  queue of the encoder process; a result is an opaque handle.
\<close>

section \<open>Data\<close>

record NewRequestData =
  nr_req_id :: string
  nr_prompt_token_ids :: "int list"
  nr_prompt :: "string option"
  nr_mm_inputs :: "mm_kwargs option list"
  nr_mm_hashes :: "string list"
  nr_mm_positions :: "PlaceholderRange list"
  nr_sampling_params :: SamplingParams
  nr_block_ids :: "nat list"
  nr_num_computed_tokens :: int

record CachedRequestData =
  cr_req_id :: string
  cr_resumed_from_preemption :: bool
  cr_new_block_ids :: "nat list"
  cr_num_computed_tokens :: int

record SchedulerOutput =
  scheduled_new_reqs :: "NewRequestData list"
  scheduled_cached_reqs :: "CachedRequestData list"
  num_scheduled_tokens :: "(string \<times> int) list"
  total_num_scheduled_tokens :: int
  scheduled_encoder_inputs :: "(string \<times> nat list) list"
  num_common_prefix_blocks :: nat
  out_finished_req_ids :: "string set"
  free_encoder_input_ids :: "(string \<times> nat) list"

type_synonym enc_handle = nat
type_synonym enc_results = "string \<Rightarrow> (nat \<Rightarrow> enc_handle option) option"

record Scheduler =
  max_num_running_reqs :: int
  max_num_scheduled_tokens :: int
  s_max_model_len :: int
  s_block_size :: int
  kv_cache_manager :: KVCacheManager
  requests :: "string \<Rightarrow> Request option"
  waiting :: "string list"
  running :: "string list"
  finished_req_ids :: "string set"
  cached_reqs_data :: "string \<Rightarrow> CachedRequestData option"
  max_num_encoder_input_tokens :: int
  encoder_cache_manager :: EncoderCacheManager
  encoder_cache :: "enc_results option"

text \<open>The local variables of \<open>schedule\<close>.\<close>

record sched_locals =
  l_new :: "string list"
  l_resumed :: "string list"
  l_running :: "string list"
  l_preempted :: "string list"
  l_blocks :: "string \<Rightarrow> nat list option"
  l_tokens :: "(string \<times> int) list"
  l_encoder :: "(string \<times> nat list) list"
  l_token_budget :: int
  l_encoder_budget :: int

record ModelRunnerOutput =
  req_ids :: "string list"
  req_id_to_index :: "string \<Rightarrow> int option"
  sampled_token_ids :: "int list"

record EngineCoreOutput =
  eco_request_id :: string
  eco_new_token_ids :: "int list"
  eco_finished :: bool
  eco_finish_reason :: "FinishReason option"
  eco_stop_reason :: "StopReason option"

record SchedulerStats =
  num_running_reqs :: int
  num_waiting_reqs :: int
  gpu_cache_usage :: rat

record EngineCoreOutputs =
  ecos_outputs :: "EngineCoreOutput list"
  ecos_scheduler_stats :: SchedulerStats

section \<open>Construction and data of a step\<close>

text \<open>
  \<open>num_gpu_blocks\<close> is \<open>None\<close> until the KV caches are initialised.  The KV cache manager is built with
  its default of 64 preallocated tokens.
\<close>

definition scheduler_init ::
  "int \<Rightarrow> int \<Rightarrow> int \<Rightarrow> int \<Rightarrow> nat option \<Rightarrow> int option \<Rightarrow> bool \<Rightarrow> bool \<Rightarrow> int \<times> int \<Rightarrow> enc_results option \<Rightarrow>
   Scheduler py" where
  "scheduler_init max_num_seqs max_num_batched_tokens mml bs num_blocks sw caching lora budgets ecache =
     py_assert (\<not> lora)
       (case num_blocks of
          None \<Rightarrow> Inl AssertionError
        | Some n \<Rightarrow>
            py_assert (n > 0)
              (py_bind (kv_cache_manager_init bs n mml sw caching 64) (\<lambda>kv.
                 Inr \<lparr>max_num_running_reqs = max_num_seqs, max_num_scheduled_tokens = max_num_batched_tokens,
                      s_max_model_len = mml, s_block_size = bs, kv_cache_manager = kv,
                      requests = Map.empty, waiting = [], running = [], finished_req_ids = {},
                      cached_reqs_data = Map.empty, max_num_encoder_input_tokens = fst budgets,
                      encoder_cache_manager = encoder_cache_manager_init (snd budgets),
                      encoder_cache = ecache\<rparr>)))"

definition new_request_data :: "Request \<Rightarrow> nat list \<Rightarrow> int \<Rightarrow> NewRequestData" where
  "new_request_data r bids nct =
     \<lparr>nr_req_id = request_id r, nr_prompt_token_ids = prompt_token_ids r, nr_prompt = prompt r,
      nr_mm_inputs = mm_inputs r, nr_mm_hashes = mm_hashes r, nr_mm_positions = mm_positions r,
      nr_sampling_params = sampling_params r, nr_block_ids = bids, nr_num_computed_tokens = nct\<rparr>"

definition cached_request_data :: "Request \<Rightarrow> bool \<Rightarrow> nat list \<Rightarrow> int \<Rightarrow> CachedRequestData" where
  "cached_request_data r resumed bids nct =
     \<lparr>cr_req_id = request_id r, cr_resumed_from_preemption = resumed, cr_new_block_ids = bids,
      cr_num_computed_tokens = nct\<rparr>"

text \<open>The request object behind an id in a queue.\<close>

definition get_req :: "Scheduler \<Rightarrow> string \<Rightarrow> Request py" where
  "get_req s rid = (case requests s rid of None \<Rightarrow> Inl KeyError | Some r \<Rightarrow> Inr r)"

definition put_req :: "Scheduler \<Rightarrow> Request \<Rightarrow> Scheduler" where
  "put_req s r = s\<lparr>requests := (requests s)(request_id r \<mapsto> r)\<rparr>"

definition make_cached_request_data ::
  "Scheduler \<Rightarrow> Request \<Rightarrow> nat list \<Rightarrow> int \<Rightarrow> bool \<Rightarrow> CachedRequestData \<times> Scheduler" where
  "make_cached_request_data s r bids nct resumed =
     (case cached_reqs_data s (request_id r) of
        Some d \<Rightarrow>
          (let d' = d\<lparr>cr_resumed_from_preemption := resumed, cr_new_block_ids := bids,
                      cr_num_computed_tokens := nct\<rparr>
           in (d', s\<lparr>cached_reqs_data := (cached_reqs_data s)(request_id r \<mapsto> d')\<rparr>))
      | None \<Rightarrow>
          (let d = cached_request_data r resumed bids nct
           in (d, s\<lparr>cached_reqs_data := (cached_reqs_data s)(request_id r \<mapsto> d)\<rparr>)))"

section \<open>Encoder inputs of a step\<close>

text \<open>Is the result of input \<open>i\<close> of a request in the dictionary?  \<open>in None\<close> raises.\<close>

definition has_encoder_result :: "enc_results option \<Rightarrow> string \<Rightarrow> nat \<Rightarrow> bool py" where
  "has_encoder_result c rid i =
     (case c of
        None \<Rightarrow> Inl TypeError
      | Some d \<Rightarrow> Inr (case d rid of None \<Rightarrow> False | Some m \<Rightarrow> m i \<noteq> None))"

definition cut_tokens :: "int \<Rightarrow> int \<Rightarrow> int" where
  "cut_tokens nct start_pos = (if nct < start_pos then start_pos - nct else 0)"

fun encoder_inputs_loop ::
  "Scheduler \<Rightarrow> Request \<Rightarrow> int \<Rightarrow> PlaceholderRange list \<Rightarrow> nat \<Rightarrow> int \<Rightarrow> int \<Rightarrow> nat list \<Rightarrow> (nat list \<times> int \<times> int) py"
where
  "encoder_inputs_loop s r nct [] i n budget acc = Inr (acc, n, budget)"
| "encoder_inputs_loop s r nct (p # ps) i n budget acc =
     (if pr_offset p \<ge> nct + n then Inr (acc, n, budget)
      else if pr_offset p + pr_length p \<le> nct then encoder_inputs_loop s r nct ps (Suc i) n budget acc
      else if has_cache (encoder_cache_manager s) r i then encoder_inputs_loop s r nct ps (Suc i) n budget acc
      else py_bind (can_allocate (encoder_cache_manager s) r i) (\<lambda>can.
        if \<not> can \<or> pr_length p > budget then Inr (acc, cut_tokens nct (pr_offset p), budget)
        else py_bind (has_encoder_result (encoder_cache s) (request_id r) i) (\<lambda>avail.
          if \<not> avail then Inr (acc, cut_tokens nct (pr_offset p), budget)
          else encoder_inputs_loop s r nct ps (Suc i) n (budget - pr_length p) (acc @ [i]))))"

definition try_schedule_encoder_inputs ::
  "Scheduler \<Rightarrow> Request \<Rightarrow> int \<Rightarrow> int \<Rightarrow> int \<Rightarrow> (nat list \<times> int \<times> int) py" where
  "try_schedule_encoder_inputs s r nct n budget =
     (if \<not> has_encoder_inputs r then Inr ([], n, budget)
      else py_assert (length (mm_positions r) > 0)
        (encoder_inputs_loop s r nct (mm_positions r) 0 n budget []))"

fun allocate_encoder_inputs :: "EncoderCacheManager \<Rightarrow> Request \<Rightarrow> nat list \<Rightarrow> EncoderCacheManager py" where
  "allocate_encoder_inputs e r [] = Inr e"
| "allocate_encoder_inputs e r (i # is) =
     py_bind (allocate e r i) (\<lambda>e'. allocate_encoder_inputs e' r is)"

definition book_encoder_inputs ::
  "Scheduler \<Rightarrow> sched_locals \<Rightarrow> Request \<Rightarrow> nat list \<Rightarrow> int \<Rightarrow> (Scheduler \<times> sched_locals) py" where
  "book_encoder_inputs s l r ids budget =
     (if ids = [] then Inr (s, l)
      else py_bind (allocate_encoder_inputs (encoder_cache_manager s) r ids) (\<lambda>e.
        Inr (s\<lparr>encoder_cache_manager := e\<rparr>,
             l\<lparr>l_encoder := AList.update (request_id r) ids (l_encoder l), l_encoder_budget := budget\<rparr>)))"

section \<open>The schedule\<close>

lemma py_bind_cong [fundef_cong]:
  "x = y \<Longrightarrow> (\<And>a. y = Inr a \<Longrightarrow> f a = g a) \<Longrightarrow> py_bind x f = py_bind y g"
  by (cases y) (simp_all add: py_bind_def)

text \<open>Preempt the last running request: \<open>p\<close> is popped from \<open>running\<close>.\<close>

definition preempt_last :: "Scheduler \<Rightarrow> sched_locals \<Rightarrow> (string \<times> Scheduler \<times> sched_locals) py" where
  "preempt_last s l =
     (if running s = [] then Inl IndexError
      else
        let p = last (running s); s1 = s\<lparr>running := butlast (running s)\<rparr> in
        py_bind (get_req s1 p) (\<lambda>pr.
          py_bind (free (kv_cache_manager s1) p) (\<lambda>kv.
            let s2 = put_req (s1\<lparr>kv_cache_manager := kv\<rparr>) (pr\<lparr>status := PREEMPTED, num_computed_tokens := 0\<rparr>)
            in Inr (p, s2\<lparr>waiting := p # waiting s2\<rparr>, l\<lparr>l_preempted := l_preempted l @ [p]\<rparr>))))"

lemma preempt_last_shrinks:
  "preempt_last s l = Inr (p, s', l') \<Longrightarrow> length (running s') < length (running s)"
  by (auto simp: preempt_last_def Let_def put_req_def split: if_splits)

text \<open>The inner \<open>while True\<close>: allocate, preempting from the end of \<open>running\<close> until it works.\<close>

function alloc_or_preempt ::
  "py_hash \<Rightarrow> Scheduler \<Rightarrow> sched_locals \<Rightarrow> string \<Rightarrow> int \<Rightarrow> (nat list option \<times> Scheduler \<times> sched_locals) py" where
  "alloc_or_preempt hf s l rid n =
     py_bind (get_req s rid) (\<lambda>r.
       py_bind (allocate_slots hf (kv_cache_manager s) r n []) (\<lambda>(nb, kv, r').
         let s1 = put_req (s\<lparr>kv_cache_manager := kv\<rparr>) r' in
         case nb of
           Some bs \<Rightarrow> Inr (Some bs, s1, l)
         | None \<Rightarrow>
             py_bind (preempt_last s1 l) (\<lambda>(p, s2, l2).
               if p = rid then Inr (None, s2, l2) else alloc_or_preempt hf s2 l2 rid n)))"
  by pat_completeness auto
termination
  by (relation "measure (\<lambda>(hf, s, l, rid, n). length (running s))")
    (auto dest!: preempt_last_shrinks simp: put_req_def)

declare alloc_or_preempt.simps [simp del]

lemma alloc_or_preempt_running:
  "alloc_or_preempt hf s l rid n = Inr (nb, s', l') \<Longrightarrow> length (running s') \<le> length (running s)"
proof (induction hf s l rid n arbitrary: nb s' l' rule: alloc_or_preempt.induct)
  case (1 hf s l rid n)
  from "1.prems" obtain r x kv r' where r: "get_req s rid = Inr r"
      "allocate_slots hf (kv_cache_manager s) r n [] = Inr (x, kv, r')"
      "(let s1 = put_req (s\<lparr>kv_cache_manager := kv\<rparr>) r' in
         case x of
           Some bs \<Rightarrow> Inr (Some bs, s1, l)
         | None \<Rightarrow>
             py_bind (preempt_last s1 l) (\<lambda>(p, s2, l2).
               if p = rid then Inr (None, s2, l2) else alloc_or_preempt hf s2 l2 rid n)) = Inr (nb, s', l')"
    by (subst (asm) alloc_or_preempt.simps) auto
  show ?case
  proof (cases x)
    case (Some bs)
    with r(3) show ?thesis by (auto simp: put_req_def)
  next
    case None
    with r(3) obtain p s2 l2 where p: "preempt_last (put_req (s\<lparr>kv_cache_manager := kv\<rparr>) r') l = Inr (p, s2, l2)"
        "(if p = rid then Inr (None, s2, l2) else alloc_or_preempt hf s2 l2 rid n) = Inr (nb, s', l')" by auto
    have "length (running s2) < length (running s)" using preempt_last_shrinks [OF p(1)] by (simp add: put_req_def)
    with p(2) "1.IH" [OF r(1) r(2) refl refl refl None p(1) refl refl] show ?thesis
      by (fastforce split: if_splits)
  qed
qed

text \<open>One request of the running queue got its blocks.\<close>

definition record_running :: "sched_locals \<Rightarrow> string \<Rightarrow> nat list \<Rightarrow> int \<Rightarrow> sched_locals" where
  "record_running l rid bids n =
     l\<lparr>l_running := l_running l @ [rid], l_blocks := (l_blocks l)(rid \<mapsto> bids),
       l_tokens := AList.update rid n (l_tokens l), l_token_budget := l_token_budget l - n\<rparr>"

lemma book_encoder_inputs_running [simp]:
  "book_encoder_inputs s l r ids b = Inr (s', l') \<Longrightarrow> running s' = running s \<and> waiting s' = waiting s"
  by (auto simp: book_encoder_inputs_def split: if_splits)

function running_loop ::
  "py_hash \<Rightarrow> Scheduler \<Rightarrow> sched_locals \<Rightarrow> nat \<Rightarrow> (Scheduler \<times> sched_locals) py" where
  "running_loop hf s l idx =
     (if \<not> (idx < length (running s) \<and> l_token_budget l > 0) then Inr (s, l)
      else
        let rid = running s ! idx in
        py_bind (get_req s rid) (\<lambda>r.
          let n0 = min (num_tokens r - num_computed_tokens r) (l_token_budget l) in
          py_assert (n0 > 0)
          (py_bind (try_schedule_encoder_inputs s r (num_computed_tokens r) n0 (l_encoder_budget l)) (\<lambda>(ids, n, eb).
            if n = 0 then running_loop hf s l (Suc idx)
            else
              py_bind (alloc_or_preempt hf s l rid n) (\<lambda>(nb, s1, l1).
                case nb of
                  None \<Rightarrow> Inr (s1, l1)
                | Some bs \<Rightarrow>
                    py_bind (get_req s1 rid) (\<lambda>r1.
                      py_bind (book_encoder_inputs s1
                                 (record_running l1 rid (map (bid (kv_cache_manager s1)) bs) n) r1 ids eb) (\<lambda>(s2, l2).
                        running_loop hf s2 l2 (Suc idx))))))))"
  by pat_completeness auto
termination
proof (relation "measure (\<lambda>(hf, s, l, idx). length (running s) - idx)", goal_cases)
  case 1
  then show ?case by simp
next
  case 2
  then show ?case by auto
next
  case 3
  then show ?case by (auto dest!: alloc_or_preempt_running book_encoder_inputs_running)
qed

declare running_loop.simps [simp del]

text \<open>Admission of one waiting request that got its blocks.\<close>

definition admit ::
  "Scheduler \<Rightarrow> sched_locals \<Rightarrow> Request \<Rightarrow> nat list \<Rightarrow> nat list \<Rightarrow> int \<Rightarrow> int \<Rightarrow> (Scheduler \<times> sched_locals) py" where
  "admit s l r hits nb n nct =
     (let rid = request_id r;
          s1 = s\<lparr>waiting := tl (waiting s), running := running s @ [rid]\<rparr>
      in py_bind
        (case status r of
           WAITING \<Rightarrow> Inr (l\<lparr>l_new := l_new l @ [rid]\<rparr>)
         | PREEMPTED \<Rightarrow> Inr (l\<lparr>l_resumed := l_resumed l @ [rid]\<rparr>)
         | _ \<Rightarrow> Inl RuntimeError)
        (\<lambda>l1. Inr
          (put_req s1 (r\<lparr>status := RUNNING, num_computed_tokens := nct\<rparr>),
           l1\<lparr>l_blocks := (l_blocks l1)(rid \<mapsto> map (bid (kv_cache_manager s)) (hits @ nb)),
              l_tokens := AList.update rid n (l_tokens l1), l_token_budget := l_token_budget l1 - n\<rparr>)))"

text \<open>
  The hits used for a waiting request: when its whole length is cached, the last hit is dropped, so
  that one block is recomputed.  \<open>pop\<close> of an empty list raises.
\<close>

definition usable_hits :: "Scheduler \<Rightarrow> Request \<Rightarrow> nat list \<Rightarrow> int \<Rightarrow> (nat list \<times> int \<times> int) py" where
  "usable_hits s r hits nct =
     (if num_tokens r - nct = 0 then
        if hits = [] then Inl IndexError
        else Inr (butlast hits, nct - s_block_size s, s_block_size s)
      else Inr (hits, nct, num_tokens r - nct))"

lemma admit_waiting: "admit s l r h nb n nct = Inr (s', l') \<Longrightarrow> waiting s' = tl (waiting s)"
  by (auto simp: admit_def put_req_def Let_def split: RequestStatus.splits)

function waiting_loop :: "py_hash \<Rightarrow> Scheduler \<Rightarrow> sched_locals \<Rightarrow> (Scheduler \<times> sched_locals) py" where
  "waiting_loop hf s l =
     (if waiting s = [] \<or> \<not> l_token_budget l > 0 then Inr (s, l)
      else if int (length (running s)) = max_num_running_reqs s then Inr (s, l)
      else
        py_bind (get_req s (hd (waiting s))) (\<lambda>r0.
          py_bind (get_computed_blocks hf (kv_cache_manager s) r0) (\<lambda>((hits0, nct0), r1).
            let s1 = put_req s r1 in
            py_bind (usable_hits s1 r1 hits0 nct0) (\<lambda>(hits, nct, n0).
              let n1 = min n0 (l_token_budget l) in
              py_assert (n1 > 0)
              (py_bind (try_schedule_encoder_inputs s1 r1 nct n1 (l_encoder_budget l)) (\<lambda>(ids, n, eb).
                if n = 0 then Inr (s1, l)
                else
                  py_bind (allocate_slots hf (kv_cache_manager s1) r1 n hits) (\<lambda>(nb, kv, r2).
                    let s2 = put_req (s1\<lparr>kv_cache_manager := kv\<rparr>) r2 in
                    case nb of
                      None \<Rightarrow> Inr (s2, l)
                    | Some bs \<Rightarrow>
                        py_bind (admit s2 l r2 hits bs n nct) (\<lambda>(s3, l3).
                          py_bind (get_req s3 (request_id r2)) (\<lambda>r3.
                            py_bind (book_encoder_inputs s3 l3 r3 ids eb) (\<lambda>(s4, l4).
                              waiting_loop hf s4 l4))))))))))"
  by pat_completeness auto
termination
proof (relation "measure (\<lambda>(hf, s, l). length (waiting s))", goal_cases)
  case 1
  then show ?case by simp
next
  case 2
  then show ?case by (auto dest!: admit_waiting book_encoder_inputs_running simp: put_req_def)
qed

declare waiting_loop.simps [simp del]

text \<open>The data of the requests of the step, in order.\<close>

fun new_reqs_data :: "Scheduler \<Rightarrow> (string \<Rightarrow> nat list option) \<Rightarrow> string list \<Rightarrow> NewRequestData list py" where
  "new_reqs_data s bl [] = Inr []"
| "new_reqs_data s bl (rid # rids) =
     py_bind (get_req s rid) (\<lambda>r.
       case bl rid of
         None \<Rightarrow> Inl KeyError
       | Some bids \<Rightarrow> py_bind (new_reqs_data s bl rids)
                        (\<lambda>ds. Inr (new_request_data r bids (num_computed_tokens r) # ds)))"

fun cached_data :: "Scheduler \<Rightarrow> (string \<Rightarrow> nat list option) \<Rightarrow> bool \<Rightarrow> string list \<Rightarrow>
    (CachedRequestData list \<times> Scheduler) py" where
  "cached_data s bl resumed [] = Inr ([], s)"
| "cached_data s bl resumed (rid # rids) =
     py_bind (get_req s rid) (\<lambda>r.
       case bl rid of
         None \<Rightarrow> Inl KeyError
       | Some bids \<Rightarrow>
           (let (d, s1) = make_cached_request_data s r bids (num_computed_tokens r) resumed in
            py_bind (cached_data s1 bl resumed rids) (\<lambda>(ds, s2). Inr (d # ds, s2))))"

definition common_prefix_of_running :: "Scheduler \<Rightarrow> (nat \<times> Scheduler) py" where
  "common_prefix_of_running s =
     (if running s = [] then Inr (0, s)
      else py_bind (get_req s (hd (running s))) (\<lambda>r.
        py_bind (get_num_common_prefix_blocks (kv_cache_manager s) r (length (running s)))
          (\<lambda>(k, kv). Inr (k, s\<lparr>kv_cache_manager := kv\<rparr>))))"

definition init_locals :: "Scheduler \<Rightarrow> sched_locals" where
  "init_locals s =
     \<lparr>l_new = [], l_resumed = [], l_running = [], l_preempted = [], l_blocks = Map.empty, l_tokens = [],
      l_encoder = [], l_token_budget = max_num_scheduled_tokens s,
      l_encoder_budget = max_num_encoder_input_tokens s\<rparr>"

text \<open>The checks after the loops and the construction of the output.\<close>

definition finish_schedule :: "Scheduler \<Rightarrow> sched_locals \<Rightarrow> (SchedulerOutput \<times> Scheduler) py" where
  "finish_schedule s l =
     (let total = sum_list (map snd (l_tokens l)) in
      py_assert (total \<le> max_num_scheduled_tokens s)
      (py_assert (l_token_budget l \<ge> 0)
      (py_assert (int (length (running s)) \<le> max_num_running_reqs s)
      (py_assert (length (l_new l) + length (l_resumed l) + length (l_running l) \<le> length (running s))
      (py_bind (common_prefix_of_running s) (\<lambda>(k, s1).
        py_bind (new_reqs_data s1 (l_blocks l) (l_new l)) (\<lambda>nd.
          py_bind (cached_data s1 (l_blocks l) True (l_resumed l)) (\<lambda>(resumed, s2).
            py_bind (cached_data s2 (l_blocks l) False (l_running l)) (\<lambda>(run, s3).
              let (fr, e) = get_freed_ids (encoder_cache_manager s3) in
              Inr (\<lparr>scheduled_new_reqs = nd, scheduled_cached_reqs = resumed @ run,
                    num_scheduled_tokens = l_tokens l, total_num_scheduled_tokens = total,
                    scheduled_encoder_inputs = l_encoder l, num_common_prefix_blocks = k,
                    out_finished_req_ids = finished_req_ids s3, free_encoder_input_ids = fr\<rparr>,
                   s3\<lparr>encoder_cache_manager := e, finished_req_ids := {}\<rparr>))))))))))"

definition schedule :: "py_hash \<Rightarrow> Scheduler \<Rightarrow> (SchedulerOutput \<times> Scheduler) py" where
  "schedule hf s =
     py_bind (running_loop hf s (init_locals s) 0) (\<lambda>(s1, l1).
       py_bind (if l_preempted l1 = [] then waiting_loop hf s1 l1 else Inr (s1, l1)) (\<lambda>(s2, l2).
         finish_schedule s2 l2))"

section \<open>Updating from the model output\<close>

fun free_done_inputs :: "EncoderCacheManager \<Rightarrow> Request \<Rightarrow> nat list \<Rightarrow> EncoderCacheManager py" where
  "free_done_inputs e r [] = Inr e"
| "free_done_inputs e r (i # is) =
     (if i < length (mm_positions r) then
        (let p = mm_positions r ! i in
         py_bind (if pr_offset p + pr_length p \<le> num_computed_tokens r then free_encoder_input e r i else Inr e)
           (\<lambda>e'. free_done_inputs e' r is))
      else Inl IndexError)"

definition check_stop :: "Scheduler \<Rightarrow> Request \<Rightarrow> (bool \<times> Request) py" where
  "check_stop s r =
     (if num_tokens r \<ge> s_max_model_len s \<or> num_output_tokens r \<ge> max_tokens r then
        Inr (True, r\<lparr>status := FINISHED_LENGTH_CAPPED\<rparr>)
      else if output_token_ids r = [] then Inl IndexError
      else
        let t = last (output_token_ids r); sp = sampling_params r in
        if \<not> sp_ignore_eos sp \<and> Some t = eos_token_id r then Inr (True, r\<lparr>status := FINISHED_STOPPED\<rparr>)
        else if t \<in> set (or_empty (sp_stop_token_ids sp)) then
          Inr (True, r\<lparr>status := FINISHED_STOPPED, stop_reason := Some (StopToken t)\<rparr>)
        else Inr (False, r))"

text \<open>\<open>r\<close> is the request object; the deleted dictionary entry is its last reference.\<close>

definition free_request :: "set_order \<Rightarrow> Scheduler \<Rightarrow> Request \<Rightarrow> Scheduler py" where
  "free_request ord s r =
     py_assert (is_finished r)
       (py_bind (free (kv_cache_manager s) (request_id r)) (\<lambda>kv.
         py_bind (encoder_free ord (encoder_cache_manager s) r) (\<lambda>e.
           if requests s (request_id r) = None then Inl KeyError
           else Inr (s\<lparr>kv_cache_manager := kv, encoder_cache_manager := e,
                       cached_reqs_data := (cached_reqs_data s)(request_id r := None),
                       requests := (requests s)(request_id r := None),
                       finished_req_ids := insert (request_id r) (finished_req_ids s)\<rparr>))))"

definition make_stats :: "Scheduler \<Rightarrow> SchedulerStats py" where
  "make_stats s =
     py_bind (usage (kv_cache_manager s)) (\<lambda>u.
       Inr \<lparr>num_running_reqs = int (length (running s)), num_waiting_reqs = int (length (waiting s)),
            gpu_cache_usage = u\<rparr>)"

text \<open>\<open>xs[i]\<close> with a Python index.\<close>

definition py_index :: "'a list \<Rightarrow> int \<Rightarrow> 'a py" where
  "py_index xs i =
     (if 0 \<le> i \<and> i < int (length xs) then Inr (xs ! nat i)
      else if i < 0 \<and> - i \<le> int (length xs) then Inr (xs ! nat (int (length xs) + i))
      else Inl IndexError)"

text \<open>The token a request generated in this step, and whether it stops.\<close>

definition generate_token ::
  "set_order \<Rightarrow> Scheduler \<Rightarrow> Request \<Rightarrow> ModelRunnerOutput \<Rightarrow> (EngineCoreOutput \<times> bool \<times> Scheduler) py" where
  "generate_token ord s r mro =
     (case req_id_to_index mro (request_id r) of
        None \<Rightarrow> Inl KeyError
      | Some k \<Rightarrow>
          py_bind (py_index (sampled_token_ids mro) k) (\<lambda>t.
            let r1 = append_output_token_ids r [t] in
            py_bind (check_stop s r1) (\<lambda>(stopped, r2).
              py_bind (if stopped then free_request ord (put_req s r2) r2 else Inr (put_req s r2)) (\<lambda>s2.
                Inr (\<lparr>eco_request_id = request_id r2,
                      eco_new_token_ids = py_slice (output_token_ids r2) (- 1) (int (length (output_token_ids r2))),
                      eco_finished = is_finished r2, eco_finish_reason = get_finished_reason r2,
                      eco_stop_reason = stop_reason r2\<rparr>, stopped, s2)))))"

text \<open>
  The loop over \<open>running\<close>: the first result is \<open>new_running\<close>, the second the outputs.
\<close>

fun update_loop ::
  "set_order \<Rightarrow> Scheduler \<Rightarrow> (string \<times> int) list \<Rightarrow> ModelRunnerOutput \<Rightarrow> string list \<Rightarrow>
   (string list \<times> EngineCoreOutput list \<times> Scheduler) py" where
  "update_loop ord s toks mro [] = Inr ([], [], s)"
| "update_loop ord s toks mro (rid # rids) =
     py_bind (get_req s rid) (\<lambda>r0.
       let n = (case map_of toks rid of None \<Rightarrow> 0 | Some n \<Rightarrow> n) in
       if n = 0 then
         py_bind (update_loop ord s toks mro rids) (\<lambda>(nr, outs, s'). Inr (rid # nr, outs, s'))
       else
         let r = r0\<lparr>num_computed_tokens := num_computed_tokens r0 + n\<rparr> in
         py_assert (num_computed_tokens r \<le> num_tokens r)
         (py_bind (free_done_inputs (encoder_cache_manager s) r (ord (get_cached_input_ids (encoder_cache_manager s) r)))
           (\<lambda>e.
             let s1 = put_req (s\<lparr>encoder_cache_manager := e\<rparr>) r in
             if num_computed_tokens r = num_tokens r then
               py_bind (generate_token ord s1 r mro) (\<lambda>(out, stopped, s2).
                 py_bind (update_loop ord s2 toks mro rids) (\<lambda>(nr, outs, s').
                   Inr (if stopped then nr else rid # nr, out # outs, s')))
             else
               py_bind (update_loop ord s1 toks mro rids) (\<lambda>(nr, outs, s'). Inr (rid # nr, outs, s')))))"

definition update_from_output ::
  "set_order \<Rightarrow> Scheduler \<Rightarrow> SchedulerOutput \<Rightarrow> ModelRunnerOutput \<Rightarrow> (EngineCoreOutputs \<times> Scheduler) py" where
  "update_from_output ord s out mro =
     py_bind (update_loop ord s (num_scheduled_tokens out) mro (running s)) (\<lambda>(nr, outs, s1).
       let s2 = s1\<lparr>running := nr\<rparr> in
       py_bind (make_stats s2) (\<lambda>st. Inr (\<lparr>ecos_outputs = outs, ecos_scheduler_stats = st\<rparr>, s2)))"

section \<open>Adding and finishing requests\<close>

definition add_request :: "Scheduler \<Rightarrow> Request \<Rightarrow> Scheduler" where
  "add_request s r = s\<lparr>waiting := waiting s @ [request_id r], requests := (requests s)(request_id r \<mapsto> r)\<rparr>"

text \<open>\<open>list.remove\<close> and \<open>deque.remove\<close> raise when the object is absent.\<close>

definition py_remove :: "'a \<Rightarrow> 'a list \<Rightarrow> 'a list py" where
  "py_remove x xs = (if x \<in> set xs then Inr (remove1 x xs) else Inl ValueError)"

definition finish_one :: "set_order \<Rightarrow> Scheduler \<Rightarrow> RequestStatus \<Rightarrow> string \<Rightarrow> Scheduler py" where
  "finish_one ord s st rid =
     (case requests s rid of
        None \<Rightarrow> Inr s
      | Some r \<Rightarrow>
          py_bind
            (if status r = RUNNING then py_bind (py_remove rid (running s)) (\<lambda>q. Inr (s\<lparr>running := q\<rparr>))
             else py_bind (py_remove rid (waiting s)) (\<lambda>q. Inr (s\<lparr>waiting := q\<rparr>)))
            (\<lambda>s1. let r1 = r\<lparr>status := st\<rparr> in free_request ord (put_req s1 r1) r1))"

fun finish_loop :: "set_order \<Rightarrow> Scheduler \<Rightarrow> RequestStatus \<Rightarrow> string list \<Rightarrow> Scheduler py" where
  "finish_loop ord s st [] = Inr s"
| "finish_loop ord s st (rid # rids) = py_bind (finish_one ord s st rid) (\<lambda>s'. finish_loop ord s' st rids)"

text \<open>\<open>rids\<close> are the elements of \<open>set(request_ids)\<close> in iteration order.\<close>

definition finish_requests :: "set_order \<Rightarrow> Scheduler \<Rightarrow> string list \<Rightarrow> RequestStatus \<Rightarrow> Scheduler py" where
  "finish_requests ord s rids st = py_assert (status_is_finished st) (finish_loop ord s st rids)"

definition get_num_unfinished_requests :: "Scheduler \<Rightarrow> int" where
  "get_num_unfinished_requests s = int (length (waiting s)) + int (length (running s))"

definition has_unfinished_requests :: "Scheduler \<Rightarrow> bool" where
  "has_unfinished_requests s \<longleftrightarrow> get_num_unfinished_requests s > 0"

definition scheduler_reset_prefix_cache :: "Scheduler \<Rightarrow> bool \<times> Scheduler" where
  "scheduler_reset_prefix_cache s =
     (let (ok, kv) = reset_prefix_cache (kv_cache_manager s) in (ok, s\<lparr>kv_cache_manager := kv\<rparr>))"

end
