(* ===== verification/SchedulerInv.thy ===== *)
theory SchedulerInv
  imports Scheduler
begin

text \<open>
  The invariant of the scheduler and its preservation: no operation of a step raises, every scheduled
  token has a slot in a KV block, the budgets hold, and requests keep a consistent view of their
  blocks through preemption, admission and output processing.
\<close>

section \<open>Facts about one request and the KV cache\<close>

text \<open>The KV cache shows a request the same blocks, with the same hashes.\<close>

definition kv_same_for :: "KVCacheManager \<Rightarrow> KVCacheManager \<Rightarrow> string \<Rightarrow> bool" where
  "kv_same_for kv kv' rid \<longleftrightarrow>
     blocks_of kv' rid = blocks_of kv rid \<and> (\<forall>b\<in>set (blocks_of kv rid). bhash kv' b = bhash kv b)"

lemma kv_same_for_refl [simp]: "kv_same_for kv kv rid"
  by (simp add: kv_same_for_def)

lemma kv_same_for_trans: "kv_same_for a b rid \<Longrightarrow> kv_same_for b c rid \<Longrightarrow> kv_same_for a c rid"
  by (simp add: kv_same_for_def)

lemma hashed_prefix_cong:
  assumes "\<forall>b\<in>set bs. bhash m' b = bhash m b"
  shows "hashed_prefix m' bs j = hashed_prefix m bs j"
proof -
  have "\<forall>b\<in>set (take j bs). bhash m' b = bhash m b" "\<forall>b\<in>set (drop j bs). bhash m' b = bhash m b"
    using assms by (auto dest: in_set_dropD in_set_takeD)
  then show ?thesis by (simp add: hashed_prefix_def)
qed

text \<open>The hashes of a request's blocks cover its first \<open>n\<close> tokens.\<close>

definition hashes_cover :: "KVCacheManager \<Rightarrow> Request \<Rightarrow> int \<Rightarrow> bool" where
  "hashes_cover kv r n \<longleftrightarrow>
     (enable_caching kv \<longrightarrow> (\<exists>j. hashed_prefix kv (blocks_of kv (request_id r)) j \<and>
        n div block_size kv \<le> int j \<and> j \<le> length (kv_block_hashes r)))"

lemma hashes_cover_cong:
  "kv_same_for kv kv' (request_id r) \<Longrightarrow> same_conf kv kv' \<Longrightarrow> hashes_cover kv' r n = hashes_cover kv r n"
  using hashed_prefix_cong [of "blocks_of kv (request_id r)" kv' kv]
  by (simp add: hashes_cover_def kv_same_for_def same_conf_def)

lemma hashes_cover_mono: "hashes_cover kv r n \<Longrightarrow> 0 < block_size kv \<Longrightarrow> k \<le> n \<Longrightarrow> hashes_cover kv r k"
  unfolding hashes_cover_def by (meson order_trans zdiv_mono1)

text \<open>A request holds no more blocks than its longest sequence needs.\<close>

definition blocks_bounded :: "KVCacheManager \<Rightarrow> string \<Rightarrow> bool" where
  "blocks_bounded kv rid \<longleftrightarrow>
     blocks_of kv rid \<noteq> [] \<longrightarrow> int (length (blocks_of kv rid)) \<le> max_num_blocks_per_req kv"

lemma blocks_bounded_cong: "kv_same_for kv kv' rid \<Longrightarrow> same_conf kv kv' \<Longrightarrow> blocks_bounded kv' rid = blocks_bounded kv rid"
  by (simp add: blocks_bounded_def kv_same_for_def same_conf_def)

lemma blocks_bounded_Nil: "blocks_of kv rid = [] \<Longrightarrow> blocks_bounded kv rid"
  by (simp add: blocks_bounded_def)

text \<open>What holds of every request the scheduler knows.\<close>

definition req_ok :: "KVCacheManager \<Rightarrow> Request \<Rightarrow> bool" where
  "req_ok kv r \<longleftrightarrow>
     request_wf r \<and> 0 \<le> num_computed_tokens r \<and> num_computed_tokens r < num_tokens r \<and>
     num_tokens r \<le> max_model_len kv \<and>
     (\<forall>p\<in>set (mm_positions r). pr_offset p + pr_length p \<le> num_prompt_tokens r) \<and>
     (enable_caching kv \<longrightarrow> mm_keys_ok r \<and> int (length (kv_block_hashes r)) * block_size kv \<le> num_tokens r) \<and>
     hashes_cover kv r (num_computed_tokens r) \<and> blocks_bounded kv (request_id r)"

text \<open>The tokens a step computes for a request exist and have slots in its blocks.\<close>

definition sched_ok :: "KVCacheManager \<Rightarrow> Request \<Rightarrow> int \<Rightarrow> bool" where
  "sched_ok kv r n \<longleftrightarrow>
     0 < n \<and> num_computed_tokens r + n \<le> num_tokens r \<and>
     num_computed_tokens r + n \<le> int (length (blocks_of kv (request_id r))) * block_size kv \<and>
     hashes_cover kv r (num_computed_tokens r + n)"

lemma req_ok_cong: "kv_same_for kv kv' (request_id r) \<Longrightarrow> same_conf kv kv' \<Longrightarrow> req_ok kv' r = req_ok kv r"
  by (simp add: req_ok_def hashes_cover_cong blocks_bounded_cong) (simp add: same_conf_def)

lemma sched_ok_cong: "kv_same_for kv kv' (request_id r) \<Longrightarrow> same_conf kv kv' \<Longrightarrow> sched_ok kv' r n = sched_ok kv r n"
  by (simp add: sched_ok_def hashes_cover_cong) (simp add: same_conf_def kv_same_for_def)

section \<open>Allocation for one request\<close>

text \<open>Blocks that nobody holds.\<close>

definition fresh_blocks :: "KVCacheManager \<Rightarrow> nat list \<Rightarrow> bool" where
  "fresh_blocks kv bs \<longleftrightarrow> distinct bs \<and> (\<forall>i. set bs \<inter> set (blocks_of kv i) = {})"

lemma alloc_bounded:
  assumes conf: "kvm_conf_ok kv" and ready: "alloc_ready kv r n nc"
    and S: "n \<noteq> 0 \<and> num_new_blocks kv r n nc \<le> free_blocks_num kv - num_evictable kv nc \<and>
      (\<exists>k \<le> length fl'. nb = take k fl' \<and> Q k \<and>
        int k = (if num_new_blocks kv r n nc \<le> 0 then 0
                 else min (min (num_new_blocks kv r n nc + num_preallocate_blocks kv) (int (length fl')))
                        (max_num_blocks_per_req kv - int (length (blocks_of kv (request_id r) @ nc))))) \<and>
      same_conf kv kv' \<and> same_req r r' \<and>
      blocks_of kv' (request_id r) = blocks_of kv (request_id r) @ nc @ nb \<and> R"
    and old: "blocks_bounded kv (request_id r)"
  shows "blocks_bounded kv' (request_id r)"
proof -
  let ?old = "blocks_of kv (request_id r)" and ?num = "num_new_blocks kv r n nc"
  have bs: "0 < block_size kv" using conf by (simp add: kvm_conf_ok_def)
  obtain k where k: "k \<le> length fl'" "nb = take k fl'" "int k = (if ?num \<le> 0 then 0
      else min (min (?num + num_preallocate_blocks kv) (int (length fl'))) (max_num_blocks_per_req kv - int (length (?old @ nc))))"
    using S by blast
  have len: "length (blocks_of kv' (request_id r)) = length (?old @ nc) + k" and c: "same_conf kv kv'"
    using S k(1,2) by auto
  have "int (length (?old @ nc) + k) \<le> max_num_blocks_per_req kv" if "?old @ nc @ nb \<noteq> []"
  proof (cases "?num \<le> 0")
    case True
    then have "k = 0" using k(3) by simp
    have nc: "nc = []"
    proof (rule ccontr)
      assume "nc \<noteq> []"
      then have "?old = []" "num_computed_tokens r = 0" using ready by (simp_all add: alloc_ready_def)
      then have "cdiv (int (length nc) * block_size kv + n) (block_size kv) \<le> int (length nc)"
        using True by (simp add: num_new_blocks_def)
      then show False using cdiv_le_iff [OF bs] ready by (simp add: alloc_ready_def)
    qed
    then show ?thesis using old that \<open>k = 0\<close> k(2) by (simp add: blocks_bounded_def)
  next
    case False
    then show ?thesis using k(3) by simp
  qed
  moreover have "blocks_of kv' (request_id r) = ?old @ nc @ nb" "max_num_blocks_per_req kv' = max_num_blocks_per_req kv"
    using S c by (simp_all add: same_conf_def)
  ultimately show ?thesis unfolding blocks_bounded_def len by simp
qed

lemma alloc_step:
  assumes good: "kvm_good kv" and ready: "alloc_ready kv r n nc"
  shows "\<exists>x kv' r'. allocate_slots hf kv r n nc = Inr (x, kv', r') \<and> kvm_good kv' \<and> same_conf kv kv' \<and>
     same_req r r' \<and> (\<forall>rid. rid \<noteq> request_id r \<longrightarrow> kv_same_for kv kv' rid) \<and>
     (case x of None \<Rightarrow> r' = r \<and> kv_same_for kv kv' (request_id r)
      | Some nb \<Rightarrow>
          blocks_of kv' (request_id r) = blocks_of kv (request_id r) @ nc @ nb \<and>
          num_computed_tokens r + int (length nc) * block_size kv + n
            \<le> int (length (blocks_of kv' (request_id r))) * block_size kv \<and>
          hashes_cover kv' r' (num_computed_tokens r + int (length nc) * block_size kv + n) \<and>
          (enable_caching kv \<longrightarrow> int (length (kv_block_hashes r')) * block_size kv \<le> num_tokens r) \<and>
          (blocks_bounded kv (request_id r) \<longrightarrow> blocks_bounded kv' (request_id r)) \<and> fresh_blocks kv nb)"
proof (cases "num_new_blocks kv r n nc > free_blocks_num kv - num_evictable kv nc")
  case True
  let ?kv = "kv\<lparr>req_to_blocks := (req_to_blocks kv)(request_id r \<mapsto> blocks_of kv (request_id r))\<rparr>"
  have a: "allocate_slots hf kv r n nc = Inr (None, ?kv, r)"
    using True ready by (simp add: allocate_slots_def Let_def num_new_blocks_def num_evictable_def refc_def
        alloc_ready_def free_blocks_num_def)
  have "blocks_of ?kv rid = blocks_of kv rid" for rid by (simp add: blocks_of_def)
  then have "kv_same_for kv ?kv rid" for rid by (simp add: kv_same_for_def)
  with a allocate_slots_good [OF good ready a] show ?thesis by auto
next
  case False
  obtain fl where rep: "kvm_rep kv fl []" and conf: "kvm_conf_ok kv" and ex: "enable_caching kv \<longrightarrow> unhashed_exclusive kv"
    using good by (auto simp: kvm_good_def kvm_inv_def)
  have nc: "set nc \<subseteq> {..<num_gpu_blocks kv}" and bs: "0 < block_size kv"
    using ready conf by (auto simp: alloc_ready_def kvm_conf_ok_def)
  have fit: "num_new_blocks kv r n nc \<le> free_blocks_num kv - num_evictable kv nc" using False by simp
  let ?t = "num_computed_tokens r + int (length nc) * block_size kv + n"
  obtain nb kv' r' where a: "allocate_slots hf kv r n nc = Inr (Some nb, kv', r')"
      "\<forall>rid' b. rid' \<noteq> request_id r \<longrightarrow> b \<in> set (blocks_of kv rid') \<longrightarrow> bhash kv' b = bhash kv b"
      "enable_caching kv \<longrightarrow> unhashed_exclusive kv' \<and> (\<exists>j. hashed_prefix kv' (blocks_of kv' (request_id r)) j \<and>
        ?t div block_size kv \<le> int j \<and> j \<le> length (kv_block_hashes r')) \<and>
        int (length (kv_block_hashes r')) * block_size kv \<le> num_tokens r"
      "cdiv ?t (block_size kv) \<le> int (length (blocks_of kv' (request_id r)))"
    using allocate_slots_total [OF rep conf ex ready fit, of hf] by blast
  note S = allocate_slots_Some [OF rep nc a(1)]
  then have c: "same_conf kv kv'" "same_req r r'" by blast+
  have "?t \<le> int (length (blocks_of kv' (request_id r))) * block_size kv"
    using a(4) cdiv_le_iff [OF bs] by blast
  moreover have "hashes_cover kv' r' ?t"
    using a(3) c same_req_sel(1) [OF c(2)] by (auto simp: hashes_cover_def same_conf_def)
  moreover have "kv_same_for kv kv' rid" if "rid \<noteq> request_id r" for rid
    using S a(2) that by (auto simp: kv_same_for_def blocks_of_def)
  moreover have "blocks_bounded kv' (request_id r)" if old: "blocks_bounded kv (request_id r)"
    using alloc_bounded [OF conf ready S old] .
  moreover have "fresh_blocks kv nb"
  proof -
    obtain k where nb: "nb = take k (filter (\<lambda>b. b \<notin> set nc) fl)" using S by blast
    have "b \<notin> set (blocks_of kv i)" if "b \<in> set nb" for b i
    proof -
      have b: "b \<in> set fl" using that nb by (auto dest: in_set_takeD)
      have "b < num_gpu_blocks kv" by (rule kvm_rep_bound [OF rep b])
      then show ?thesis using held_iff [OF rep] kvm_rep_free_iff [OF rep] b by blast
    qed
    moreover have "distinct nb" using nb kvm_rep_distinct [OF rep] by simp
    ultimately show ?thesis by (auto simp: fresh_blocks_def)
  qed
  ultimately show ?thesis
    using a(1,3) c S allocate_slots_good [OF good ready a(1)] by auto
qed

lemma free_step:
  assumes "kvm_good kv"
  shows "\<exists>kv'. free kv rid = Inr kv' \<and> kvm_good kv' \<and> same_conf kv kv' \<and> blocks_of kv' rid = [] \<and>
     (\<forall>rid'. rid' \<noteq> rid \<longrightarrow> kv_same_for kv kv' rid')"
  using free_good [OF assms, of rid] by (auto simp: kv_same_for_def blocks_of_def)

lemma running_ready:
  assumes "req_ok kv r" and "0 < n" and "num_computed_tokens r + n \<le> num_tokens r"
  shows "alloc_ready kv r n []"
  using assms by (auto simp: alloc_ready_def req_ok_def hashes_cover_def)

section \<open>The invariant\<close>

definition req_status_ok :: "Scheduler \<Rightarrow> Request \<Rightarrow> bool" where
  "req_status_ok s r \<longleftrightarrow>
     (if request_id r \<in> set (running s) then status r = RUNNING
      else status r \<in> {WAITING, PREEMPTED} \<and> num_computed_tokens r = 0)"

definition sched_inv :: "Scheduler \<Rightarrow> bool" where
  "sched_inv s \<longleftrightarrow>
     kvm_good (kv_cache_manager s) \<and> s_block_size s = block_size (kv_cache_manager s) \<and>
     s_max_model_len s = max_model_len (kv_cache_manager s) \<and>
     distinct (running s @ waiting s) \<and> dom (requests s) = set (running s) \<union> set (waiting s) \<and>
     (\<forall>rid r. requests s rid = Some r \<longrightarrow>
        request_id r = rid \<and> req_ok (kv_cache_manager s) r \<and> req_status_ok s r) \<and>
     (\<forall>rid. rid \<notin> set (running s) \<longrightarrow> blocks_of (kv_cache_manager s) rid = []) \<and>
     int (length (running s)) \<le> max_num_running_reqs s \<and>
     encoder_cache_inv (requests s) (encoder_cache_manager s) \<and> encoder_cache s \<noteq> None"

lemma sched_invD:
  assumes "sched_inv s" and "requests s rid = Some r"
  shows "request_id r = rid" "req_ok (kv_cache_manager s) r" "req_status_ok s r"
  using assms by (simp_all add: sched_inv_def)

lemma sched_inv_req:
  assumes "sched_inv s" and "rid \<in> set (running s) \<union> set (waiting s)"
  obtains r where "requests s rid = Some r"
proof -
  have "rid \<in> dom (requests s)" using assms by (auto simp: sched_inv_def)
  then show ?thesis using that by blast
qed

lemma encoder_cache_inv_cong:
  assumes "\<And>rid. rid \<in> dom (cached e) \<Longrightarrow> map_option mm_positions (R' rid) = map_option mm_positions (R rid)"
  shows "encoder_cache_inv R' e = encoder_cache_inv R e"
proof -
  have the: "mm_positions (the (R' rid)) = mm_positions (the (R rid)) \<and> (R' rid = None \<longleftrightarrow> R rid = None)"
    if "rid \<in> dom (cached e)" "R rid \<noteq> None \<or> R' rid \<noteq> None" for rid
    using assms [OF that(1)] that(2) by (cases "R rid"; cases "R' rid") auto
  have ex: "(\<exists>r. R' rid = Some r \<and> (\<forall>i\<in>S. i < length (mm_positions r))) =
      (\<exists>r. R rid = Some r \<and> (\<forall>i\<in>S. i < length (mm_positions r)))" if "cached e rid = Some S" for rid S
    using assms [OF domI [of "cached e", OF that]] by (cases "R rid"; cases "R' rid") auto
  have used: "used_by R' e rid = used_by R e rid" if "R rid \<noteq> None" for rid
    using the [of rid] that by (cases "cached e rid") (auto simp: used_by_def domIff)
  show ?thesis
  proof (cases "\<forall>rid \<in> dom (cached e). R rid \<noteq> None")
    case True
    then have "(\<Sum>rid\<in>dom (cached e). used_by R' e rid) = (\<Sum>rid\<in>dom (cached e). used_by R e rid)"
      using used by (intro sum.cong) auto
    then show ?thesis using ex by (auto simp: encoder_cache_inv_def)
  next
    case False
    then obtain rid S where "cached e rid = Some S" "R rid = None" "R' rid = None"
      using assms by (metis domD map_option_is_None)
    then have "\<not> encoder_cache_inv R e" "\<not> encoder_cache_inv R' e"
      unfolding encoder_cache_inv_def by (metis option.distinct(1))+
    then show ?thesis by simp
  qed
qed

text \<open>What the loops of \<open>schedule\<close> leave alone.\<close>

definition sched_conf :: "Scheduler \<Rightarrow> Scheduler \<Rightarrow> bool" where
  "sched_conf s s' \<longleftrightarrow>
     max_num_running_reqs s' = max_num_running_reqs s \<and> max_num_scheduled_tokens s' = max_num_scheduled_tokens s \<and>
     s_max_model_len s' = s_max_model_len s \<and> s_block_size s' = s_block_size s \<and>
     max_num_encoder_input_tokens s' = max_num_encoder_input_tokens s \<and> encoder_cache s' = encoder_cache s \<and>
     finished_req_ids s' = finished_req_ids s \<and> cached_reqs_data s' = cached_reqs_data s \<and>
     same_conf (kv_cache_manager s) (kv_cache_manager s')"

lemma sched_conf_refl [simp]: "sched_conf s s"
  by (simp add: sched_conf_def)

lemma sched_conf_trans: "sched_conf a b \<Longrightarrow> sched_conf b c \<Longrightarrow> sched_conf a c"
  by (auto simp: sched_conf_def intro: same_conf_trans)

lemma put_req_sel [simp]:
  "requests (put_req s r) = (requests s)(request_id r \<mapsto> r)" "running (put_req s r) = running s"
  "waiting (put_req s r) = waiting s" "kv_cache_manager (put_req s r) = kv_cache_manager s"
  "encoder_cache_manager (put_req s r) = encoder_cache_manager s" "encoder_cache (put_req s r) = encoder_cache s"
  "max_num_running_reqs (put_req s r) = max_num_running_reqs s" "s_block_size (put_req s r) = s_block_size s"
  "s_max_model_len (put_req s r) = s_max_model_len s" "finished_req_ids (put_req s r) = finished_req_ids s"
  "cached_reqs_data (put_req s r) = cached_reqs_data s"
  "max_num_scheduled_tokens (put_req s r) = max_num_scheduled_tokens s"
  "max_num_encoder_input_tokens (put_req s r) = max_num_encoder_input_tokens s"
  by (simp_all add: put_req_def)

text \<open>
  Replace the KV cache manager and one request object, with new queues: the invariant survives when
  the other requests see their blocks unchanged.
\<close>

lemma sched_inv_step:
  assumes inv: "sched_inv s" and r: "requests s rid = Some r"
    and kv: "kvm_good kv'" "same_conf (kv_cache_manager s) kv'"
    and other: "\<forall>rid'. rid' \<noteq> rid \<longrightarrow> kv_same_for (kv_cache_manager s) kv' rid'"
    and r': "request_id r' = rid" "mm_positions r' = mm_positions r" "req_ok kv' r'"
    and q: "distinct (run @ wait)" "set run \<union> set wait = set (running s) \<union> set (waiting s)"
      "\<And>rid'. rid' \<noteq> rid \<Longrightarrow> rid' \<in> set run \<longleftrightarrow> rid' \<in> set (running s)"
      "int (length run) \<le> max_num_running_reqs s"
    and st: "if rid \<in> set run then status r' = RUNNING
             else status r' \<in> {WAITING, PREEMPTED} \<and> num_computed_tokens r' = 0 \<and> blocks_of kv' rid = []"
  shows "sched_inv ((put_req (s\<lparr>kv_cache_manager := kv'\<rparr>) r')\<lparr>running := run, waiting := wait\<rparr>)"
proof -
  let ?s = "(put_req (s\<lparr>kv_cache_manager := kv'\<rparr>) r')\<lparr>running := run, waiting := wait\<rparr>"
  have req: "requests ?s = (requests s)(rid \<mapsto> r')" using r'(1) by simp
  have "rid \<in> dom (requests s)" using r by blast
  then have dom: "dom (requests ?s) = set run \<union> set wait" using inv q(2) req by (auto simp: sched_inv_def)
  have each: "request_id x = i \<and> req_ok kv' x \<and> req_status_ok ?s x" if "requests ?s i = Some x" for i x
  proof (cases "i = rid")
    case True
    then show ?thesis using that req r' st by (auto simp: req_status_ok_def)
  next
    case False
    then have x: "requests s i = Some x" using that req by simp
    note D = sched_invD [OF inv x]
    have "kv_same_for (kv_cache_manager s) kv' (request_id x)" using other False D(1) by simp
    from req_ok_cong [OF this kv(2)] D False q(3) [of i] show ?thesis by (simp add: req_status_ok_def)
  qed
  have blocks: "blocks_of kv' i = []" if "i \<notin> set run" for i
  proof (cases "i = rid")
    case True
    then show ?thesis using st that by simp
  next
    case False
    then show ?thesis using other q(3) [OF False] that inv by (simp add: kv_same_for_def sched_inv_def)
  qed
  have "encoder_cache_inv (requests ?s) (encoder_cache_manager s) = encoder_cache_inv (requests s) (encoder_cache_manager s)"
    by (rule encoder_cache_inv_cong) (use r r'(2) req in auto)
  then have enc: "encoder_cache_inv (requests ?s) (encoder_cache_manager s)" using inv by (simp add: sched_inv_def)
  define t where "t = ?s"
  have sel: "kv_cache_manager t = kv'" "s_block_size t = s_block_size s" "s_max_model_len t = s_max_model_len s"
      "running t = run" "waiting t = wait" "max_num_running_reqs t = max_num_running_reqs s"
      "encoder_cache_manager t = encoder_cache_manager s" "encoder_cache t = encoder_cache s"
    by (simp_all add: t_def)
  have "sched_inv t"
    unfolding sched_inv_def sel
    using inv kv q(1,4) blocks dom [folded t_def] each [folded t_def] enc [folded t_def]
    unfolding sched_inv_def same_conf_def by (intro conjI) (blast | simp)+
  then show ?thesis by (simp add: t_def)
qed

section \<open>Blocks that are written\<close>

text \<open>
  The blocks from the first token that is still to be computed on: the ones whose slots the next steps
  write.  They are never shared between requests; only blocks with computed tokens are.
\<close>

definition own_blocks :: "Scheduler \<Rightarrow> string \<Rightarrow> nat list" where
  "own_blocks s rid =
     (case requests s rid of
        None \<Rightarrow> []
      | Some r \<Rightarrow> drop (nat (num_computed_tokens r div block_size (kv_cache_manager s))) (blocks_of (kv_cache_manager s) rid))"

definition writes_ok :: "Scheduler \<Rightarrow> bool" where
  "writes_ok s \<longleftrightarrow>
     (\<forall>i. distinct (own_blocks s i)) \<and> (\<forall>i j. i \<noteq> j \<longrightarrow> set (own_blocks s i) \<inter> set (own_blocks s j) = {})"

lemma own_blocks_sub: "set (own_blocks s i) \<subseteq> set (blocks_of (kv_cache_manager s) i)"
  by (auto simp: own_blocks_def dest: in_set_dropD split: option.splits)

lemma own_blocks_cong:
  "requests s' i = requests s i \<Longrightarrow> blocks_of (kv_cache_manager s') i = blocks_of (kv_cache_manager s) i \<Longrightarrow>
   block_size (kv_cache_manager s') = block_size (kv_cache_manager s) \<Longrightarrow> own_blocks s' i = own_blocks s i"
  by (simp add: own_blocks_def split: option.split)

lemma own_blocks_Nil: "blocks_of (kv_cache_manager s) i = [] \<Longrightarrow> own_blocks s i = []"
  by (simp add: own_blocks_def split: option.split)

lemma drop_append_drop: "\<exists>k. drop n (xs @ ys) = drop k (drop n xs @ ys)"
  by (cases "n \<le> length xs") (auto intro: exI [of _ 0])

text \<open>Requests may advance or lose blocks; one of them may get fresh ones.\<close>

lemma writes_ok_step:
  assumes w: "writes_ok s" and fresh: "fresh_blocks (kv_cache_manager s) nb"
    and one: "\<exists>k. own_blocks s' rid = drop k (own_blocks s rid @ nb)"
    and rest: "\<And>i. i \<noteq> rid \<Longrightarrow> \<exists>k. own_blocks s' i = drop k (own_blocks s i)"
  shows "writes_ok s'"
proof -
  have nb: "distinct nb" "set nb \<inter> set (own_blocks s i) = {}" for i
    using fresh own_blocks_sub [of s i] by (auto simp: fresh_blocks_def)
  have W: "distinct (own_blocks s i)" "i \<noteq> j \<Longrightarrow> set (own_blocks s i) \<inter> set (own_blocks s j) = {}" for i j
    using w by (simp_all add: writes_ok_def)
  obtain k where k: "own_blocks s' rid = drop k (own_blocks s rid @ nb)" using one by blast
  have sub1: "set (own_blocks s' rid) \<subseteq> set (own_blocks s rid) \<union> set nb"
    unfolding k using set_drop_subset [of k "own_blocks s rid @ nb"] by simp
  have sub: "set (own_blocks s' i) \<subseteq> set (own_blocks s i)" "distinct (own_blocks s' i)" if i: "i \<noteq> rid" for i
  proof -
    obtain m where "own_blocks s' i = drop m (own_blocks s i)" using rest [OF i] by blast
    then show "set (own_blocks s' i) \<subseteq> set (own_blocks s i)" "distinct (own_blocks s' i)"
      using W(1) [of i] by (simp_all add: set_drop_subset)
  qed
  have "distinct (own_blocks s rid @ nb)" using W(1) [of rid] nb(1) nb(2) [of rid] by auto
  then have "distinct (own_blocks s' rid)" unfolding k by (rule distinct_drop)
  then have d: "distinct (own_blocks s' i)" for i
    using sub(2) [of i] by (cases "i = rid") simp_all
  have half: "set (own_blocks s' rid) \<inter> set (own_blocks s' j) = {}" if j: "rid \<noteq> j" for j
    using sub1 sub(1) [of j] j W(2) [OF j] nb(2) [of j] by blast
  have "set (own_blocks s' i) \<inter> set (own_blocks s' j) = {}" if ij: "i \<noteq> j" for i j
  proof (cases "i = rid \<or> j = rid")
    case True
    then show ?thesis using half [of j] half [of i] ij by (auto simp: Int_commute)
  next
    case False
    then show ?thesis using sub(1) [of i] sub(1) [of j] W(2) [OF ij] by blast
  qed
  with d show ?thesis by (simp add: writes_ok_def)
qed

lemma fresh_blocks_Nil [simp]: "fresh_blocks kv []"
  by (simp add: fresh_blocks_def)

text \<open>Steps without an allocation.\<close>

lemma writes_ok_mono:
  assumes "writes_ok s" and "\<And>i. \<exists>k. own_blocks s' i = drop k (own_blocks s i)"
  shows "writes_ok s'"
  using writes_ok_step [OF assms(1) fresh_blocks_Nil] assms(2) by simp

lemma own_blocks_same: "own_blocks s' i = own_blocks s i \<Longrightarrow> \<exists>k. own_blocks s' i = drop k (own_blocks s i)"
  by (intro exI [of _ 0]) simp

lemma own_blocks_gone: "own_blocks s' i = [] \<Longrightarrow> \<exists>k. own_blocks s' i = drop k (own_blocks s i)"
  by (intro exI [of _ "length (own_blocks s i)"]) simp

section \<open>Preemption\<close>

text \<open>
  Scheduling changes the status, the number of computed tokens and the block hashes of a request, nothing
  else.
\<close>

definition carried :: "Request \<Rightarrow> Request \<Rightarrow> bool" where
  "carried r r' \<longleftrightarrow>
     r' = r\<lparr>status := status r', num_computed_tokens := num_computed_tokens r', kv_block_hashes := kv_block_hashes r'\<rparr>"

lemma carried_refl [simp]: "carried r r"
  by (simp add: carried_def)

lemma carried_sel:
  assumes "carried r r'"
  shows "request_id r' = request_id r" "prompt_token_ids r' = prompt_token_ids r" "prompt r' = prompt r"
    "output_token_ids r' = output_token_ids r" "all_token_ids r' = all_token_ids r" "mm_positions r' = mm_positions r"
    "mm_inputs r' = mm_inputs r" "sampling_params r' = sampling_params r" "num_tokens r' = num_tokens r"
    "max_tokens r' = max_tokens r"
  using assms by (cases r; cases r'; simp add: carried_def num_tokens_def)+

lemma carried_same: "same_req r r' \<Longrightarrow> carried r (r'\<lparr>status := st, num_computed_tokens := k\<rparr>)"
  unfolding same_req_def carried_def by (cases r; cases r') simp

lemma carried_same_req: "same_req r r' \<Longrightarrow> carried r r'"
  unfolding same_req_def carried_def by (cases r; cases r') simp

lemma carried_upd: "carried r (r\<lparr>status := st, num_computed_tokens := k\<rparr>)"
  unfolding carried_def by (cases r) simp

lemma carried_trans: "carried a b \<Longrightarrow> carried b c \<Longrightarrow> carried a c"
  unfolding carried_def by (cases a; cases b; cases c) simp

lemma req_ok_preempted:
  assumes "req_ok kv r" and "same_conf kv kv'" and "blocks_of kv' (request_id r) = []"
  shows "req_ok kv' (r\<lparr>status := PREEMPTED, num_computed_tokens := 0\<rparr>)"
  using assms
  by (auto simp: req_ok_def same_conf_def request_wf_def num_tokens_def mm_keys_ok_def hashes_cover_def hashed_prefix_def
      blocks_bounded_Nil)

lemma preempt_last_ok:
  assumes inv: "sched_inv s" and ne: "running s \<noteq> []"
  shows "\<exists>s'. preempt_last s l = Inr (last (running s), s', l\<lparr>l_preempted := l_preempted l @ [last (running s)]\<rparr>) \<and>
     sched_inv s' \<and> sched_conf s s' \<and> running s' = butlast (running s) \<and>
     waiting s' = last (running s) # waiting s \<and> encoder_cache_manager s' = encoder_cache_manager s \<and>
     (\<forall>rid. rid \<noteq> last (running s) \<longrightarrow> requests s' rid = requests s rid \<and>
        kv_same_for (kv_cache_manager s) (kv_cache_manager s') rid) \<and>
     (\<exists>r r'. requests s (last (running s)) = Some r \<and> requests s' (last (running s)) = Some r' \<and> carried r r' \<and>
        status r' = PREEMPTED) \<and> (writes_ok s \<longrightarrow> writes_ok s')"
proof -
  let ?p = "last (running s)"
  obtain r where r: "requests s ?p = Some r" using sched_inv_req [OF inv, of ?p] ne by auto
  note D = sched_invD [OF inv r]
  obtain kv where kv: "free (kv_cache_manager s) ?p = Inr kv" "kvm_good kv" "same_conf (kv_cache_manager s) kv"
      "blocks_of kv ?p = []" "\<forall>rid. rid \<noteq> ?p \<longrightarrow> kv_same_for (kv_cache_manager s) kv rid"
    using free_step [of "kv_cache_manager s" ?p] inv by (auto simp: sched_inv_def)
  let ?r = "r\<lparr>status := PREEMPTED, num_computed_tokens := 0\<rparr>"
  let ?s = "(put_req (s\<lparr>kv_cache_manager := kv\<rparr>) ?r)\<lparr>running := butlast (running s), waiting := ?p # waiting s\<rparr>"
  have dist: "distinct (running s @ waiting s)" and len: "int (length (running s)) \<le> max_num_running_reqs s"
    using inv by (simp_all add: sched_inv_def)
  have run: "running s = butlast (running s) @ [?p]" using ne by simp
  then have d: "distinct (butlast (running s) @ ?p # waiting s)" using dist by (metis append.assoc append_Cons append_Nil)
  have set: "set (running s) = insert ?p (set (butlast (running s)))" by (subst run) auto
  have "sched_inv ?s"
    by (rule sched_inv_step [OF inv r kv(2,3,5)])
      (use D kv req_ok_preempted [OF D(2) kv(3)] d len set in auto)
  moreover have "preempt_last s l = Inr (?p, ?s, l\<lparr>l_preempted := l_preempted l @ [?p]\<rparr>)"
    using ne r kv(1) by (simp add: preempt_last_def get_req_def Let_def put_req_def)
  moreover have "writes_ok ?s" if "writes_ok s"
  proof (rule writes_ok_mono [OF that])
    fix i
    show "\<exists>k. own_blocks ?s i = drop k (own_blocks s i)"
    proof (cases "i = ?p")
      case True
      then show ?thesis using kv(4) by (intro own_blocks_gone own_blocks_Nil) simp
    next
      case False
      then show ?thesis
        using kv(3,5) D(1) by (intro own_blocks_same own_blocks_cong) (simp_all add: same_conf_def kv_same_for_def)
    qed
  qed
  ultimately show ?thesis using kv D r carried_upd [where r = r and st = PREEMPTED and k = 0] by (auto simp: sched_conf_def)
qed

lemma drop_butlast_last: "m < length xs \<Longrightarrow> drop m (butlast xs) @ [last xs] = drop m xs"
  by (cases xs rule: rev_cases) simp_all

lemma take_butlast_le: "m < length xs \<Longrightarrow> take m (butlast xs) = take m xs"
  by (cases xs rule: rev_cases) simp_all

text \<open>
  What \<open>alloc_or_preempt\<close> does for the running request at \<open>idx\<close>: the requests from some position \<open>m\<close>
  on are preempted, in order, to the front of the waiting queue; \<open>m\<close> lies behind \<open>idx\<close> when the
  allocation succeeds, and is \<open>idx\<close> when it fails.
\<close>

definition aop_post ::
  "Scheduler \<Rightarrow> sched_locals \<Rightarrow> nat \<Rightarrow> Request \<Rightarrow> int \<Rightarrow> nat list option \<Rightarrow> Scheduler \<Rightarrow> sched_locals \<Rightarrow> nat \<Rightarrow> bool" where
  "aop_post s l idx r n nb s' l' m \<longleftrightarrow>
     sched_inv s' \<and> sched_conf s s' \<and> encoder_cache_manager s' = encoder_cache_manager s \<and>
     m \<le> length (running s) \<and> running s' = take m (running s) \<and> waiting s' = drop m (running s) @ waiting s \<and>
     l' = l\<lparr>l_preempted := l_preempted l @ rev (drop m (running s))\<rparr> \<and>
     (\<forall>rid \<in> set (running s'). rid \<noteq> request_id r \<longrightarrow> requests s' rid = requests s rid \<and>
        kv_same_for (kv_cache_manager s) (kv_cache_manager s') rid) \<and>
     (\<forall>rid \<in> set (waiting s). requests s' rid = requests s rid) \<and>
     (\<forall>rid \<in> set (drop m (running s)). \<exists>r0 r'. requests s rid = Some r0 \<and> requests s' rid = Some r' \<and>
        carried r0 r' \<and> status r' = PREEMPTED) \<and>
     (writes_ok s \<longrightarrow> writes_ok s') \<and>
     (case nb of None \<Rightarrow> m = idx
      | Some bs \<Rightarrow> idx < m \<and> (\<exists>r'. requests s' (request_id r) = Some r' \<and> same_req r r' \<and>
          sched_ok (kv_cache_manager s') r' n) \<and>
          blocks_of (kv_cache_manager s') (request_id r) = blocks_of (kv_cache_manager s) (request_id r) @ bs)"

lemma request_wf_same: "same_req r r' \<Longrightarrow> request_wf r' = request_wf r"
  using same_req_sel [of r r'] by (simp add: request_wf_def)

lemma req_ok_same:
  assumes "req_ok kv r" and "same_req r r'" and "same_conf kv kv'" and "hashes_cover kv' r' (num_computed_tokens r)"
    and "enable_caching kv \<longrightarrow> int (length (kv_block_hashes r')) * block_size kv \<le> num_tokens r"
    and "blocks_bounded kv' (request_id r)"
  shows "req_ok kv' r'"
  using assms same_req_sel [OF assms(2)] mm_keys_ok_same [OF assms(2)] request_wf_same [OF assms(2)]
  by (simp add: req_ok_def same_conf_def)

text \<open>One allocation for a running request, successful or not.\<close>

lemma alloc_running:
  assumes inv: "sched_inv s" and r: "requests s rid = Some r" and rid: "rid \<in> set (running s)"
    and n: "0 < n" "num_computed_tokens r + n \<le> num_tokens r"
  shows "\<exists>x kv' r'. allocate_slots hf (kv_cache_manager s) r n [] = Inr (x, kv', r') \<and>
     sched_inv (put_req (s\<lparr>kv_cache_manager := kv'\<rparr>) r') \<and> same_conf (kv_cache_manager s) kv' \<and>
     same_req r r' \<and> (\<forall>rid'. rid' \<noteq> rid \<longrightarrow> kv_same_for (kv_cache_manager s) kv' rid') \<and>
     (case x of None \<Rightarrow> r' = r \<and> kv_same_for (kv_cache_manager s) kv' rid
      | Some nb \<Rightarrow> sched_ok kv' r' n \<and> blocks_of kv' rid = blocks_of (kv_cache_manager s) rid @ nb \<and>
          fresh_blocks (kv_cache_manager s) nb)"
proof -
  let ?kv = "kv_cache_manager s"
  note D = sched_invD [OF inv r]
  have good: "kvm_good ?kv" and bs: "0 < block_size ?kv"
    using inv by (auto simp: sched_inv_def kvm_good_def kvm_conf_ok_def)
  obtain x kv' r' where a: "allocate_slots hf ?kv r n [] = Inr (x, kv', r')" "kvm_good kv'" "same_conf ?kv kv'"
      "same_req r r'" "\<forall>rid'. rid' \<noteq> rid \<longrightarrow> kv_same_for ?kv kv' rid'"
    and c0: "case x of None \<Rightarrow> r' = r \<and> kv_same_for ?kv kv' rid
      | Some nb \<Rightarrow> blocks_of kv' rid = blocks_of ?kv rid @ [] @ nb \<and>
          num_computed_tokens r + int (length ([] :: nat list)) * block_size ?kv + n
            \<le> int (length (blocks_of kv' rid)) * block_size ?kv \<and>
          hashes_cover kv' r' (num_computed_tokens r + int (length ([] :: nat list)) * block_size ?kv + n) \<and>
          (enable_caching ?kv \<longrightarrow> int (length (kv_block_hashes r')) * block_size ?kv \<le> num_tokens r) \<and>
          (blocks_bounded ?kv rid \<longrightarrow> blocks_bounded kv' rid) \<and> fresh_blocks ?kv nb"
    using alloc_step [OF good running_ready [OF D(2) n], of hf] unfolding D(1) by blast
  have c: "case x of None \<Rightarrow> r' = r \<and> kv_same_for ?kv kv' rid
      | Some nb \<Rightarrow> blocks_of kv' rid = blocks_of ?kv rid @ nb \<and>
          num_computed_tokens r + n \<le> int (length (blocks_of kv' rid)) * block_size ?kv \<and>
          hashes_cover kv' r' (num_computed_tokens r + n) \<and>
          (enable_caching ?kv \<longrightarrow> int (length (kv_block_hashes r')) * block_size ?kv \<le> num_tokens r) \<and>
          (blocks_bounded ?kv rid \<longrightarrow> blocks_bounded kv' rid) \<and> fresh_blocks ?kv nb"
    using c0 unfolding list.size of_nat_0 mult_zero_left add_0_right append_Nil
    by (cases x, simp_all only: option.case, blast)
  have ok: "req_ok kv' r'"
  proof (cases x)
    case None
    with c D show ?thesis using req_ok_cong [OF _ a(3)] by simp
  next
    case (Some nb)
    have "hashes_cover kv' r' (num_computed_tokens r)"
      using hashes_cover_mono [of kv' r' "num_computed_tokens r + n"] c Some n(1) bs a(3) by (simp add: same_conf_def)
    moreover have "blocks_bounded ?kv rid" using D(1,2) by (simp add: req_ok_def)
    ultimately show ?thesis using req_ok_same [OF D(2) a(4,3)] c Some D(1) by simp
  qed
  note S = same_req_sel [OF a(4)]
  have "status r = RUNNING" using D rid by (simp add: req_status_ok_def)
  then have "sched_inv ((put_req (s\<lparr>kv_cache_manager := kv'\<rparr>) r')\<lparr>running := running s, waiting := waiting s\<rparr>)"
    by (intro sched_inv_step [OF inv r a(2,3,5)]) (use S D ok inv rid in \<open>auto simp: sched_inv_def\<close>)
  moreover have "(put_req (s\<lparr>kv_cache_manager := kv'\<rparr>) r')\<lparr>running := running s, waiting := waiting s\<rparr> =
      put_req (s\<lparr>kv_cache_manager := kv'\<rparr>) r'" by (simp add: put_req_def)
  moreover have "case x of None \<Rightarrow> r' = r \<and> kv_same_for ?kv kv' rid
      | Some nb \<Rightarrow> sched_ok kv' r' n \<and> blocks_of kv' rid = blocks_of ?kv rid @ nb \<and> fresh_blocks ?kv nb"
    using c S n D(1) a(3) by (auto simp: sched_ok_def same_conf_def split: option.splits)
  ultimately show ?thesis using a by auto
qed

lemma aop_post_compose:
  assumes post: "aop_post s2 (l\<lparr>l_preempted := l_preempted l @ [last (running s)]\<rparr>) idx r n nb s' l' m"
    and conf: "sched_conf s s2" and q: "running s2 = butlast (running s)" "waiting s2 = last (running s) # waiting s"
      "encoder_cache_manager s2 = encoder_cache_manager s"
    and keep: "\<And>i. i \<in> set (butlast (running s)) \<union> set (waiting s) \<Longrightarrow>
      requests s2 i = requests s i \<and> kv_same_for (kv_cache_manager s) (kv_cache_manager s2) i"
    and last: "\<exists>r0 r'. requests s (last (running s)) = Some r0 \<and> requests s2 (last (running s)) = Some r' \<and>
      carried r0 r' \<and> status r' = PREEMPTED"
    and ne: "running s \<noteq> []" and rid: "request_id r \<in> set (butlast (running s))"
    and wr: "writes_ok s \<longrightarrow> writes_ok s2"
  shows "aop_post s l idx r n nb s' l' m"
proof -
  have m: "m \<le> length (butlast (running s))" and m': "m < length (running s)"
  proof -
    have "m \<le> length (running s2)" using post unfolding aop_post_def by blast
    then show "m \<le> length (butlast (running s))" "m < length (running s)" using q(1) ne by (cases "running s", simp_all)+
  qed
  have d: "drop m (running s) = drop m (butlast (running s)) @ [last (running s)]"
    and t: "take m (running s) = take m (butlast (running s))"
    using drop_butlast_last [OF m'] take_butlast_le [OF m'] by simp_all
  have "requests s' i = requests s i \<and> kv_same_for (kv_cache_manager s) (kv_cache_manager s') i"
    if "i \<in> set (running s')" "i \<noteq> request_id r" for i
  proof -
    have "i \<in> set (butlast (running s))" using that(1) post q(1) by (auto simp: aop_post_def dest: in_set_takeD)
    with keep have "requests s2 i = requests s i" "kv_same_for (kv_cache_manager s) (kv_cache_manager s2) i" by auto
    moreover have "requests s' i = requests s2 i" "kv_same_for (kv_cache_manager s2) (kv_cache_manager s') i"
      using post that by (auto simp: aop_post_def)
    ultimately show ?thesis using kv_same_for_trans by metis
  qed
  moreover have "requests s' i = requests s i" if "i \<in> set (waiting s)" for i
    using that post q(2) keep [of i] by (simp add: aop_post_def)
  moreover have "\<exists>r0 r'. requests s i = Some r0 \<and> requests s' i = Some r' \<and> carried r0 r' \<and> status r' = PREEMPTED"
    if "i \<in> set (drop m (running s))" for i
  proof (cases "i \<in> set (drop m (butlast (running s)))")
    case True
    then have "requests s2 i = requests s i" using keep [of i] by (auto dest: in_set_dropD)
    moreover have "\<forall>i \<in> set (drop m (running s2)). \<exists>r0 r'. requests s2 i = Some r0 \<and> requests s' i = Some r' \<and>
        carried r0 r' \<and> status r' = PREEMPTED" using post unfolding aop_post_def by blast
    ultimately show ?thesis using True q(1) by metis
  next
    case False
    then have "i = last (running s)" using that d by simp
    moreover have "requests s' (last (running s)) = requests s2 (last (running s))"
      using post q(2) by (simp add: aop_post_def)
    ultimately show ?thesis using last by simp
  qed
  moreover have "blocks_of (kv_cache_manager s2) (request_id r) = blocks_of (kv_cache_manager s) (request_id r)"
    using keep rid by (simp add: kv_same_for_def)
  ultimately show ?thesis
    using post q conf m' d t wr
    unfolding aop_post_def by (auto intro: sched_conf_trans split: option.splits)
qed

lemma alloc_or_preempt_ok:
  "sched_inv s \<Longrightarrow> idx < length (running s) \<Longrightarrow> requests s (running s ! idx) = Some r \<Longrightarrow>
   0 < n \<Longrightarrow> num_computed_tokens r + n \<le> num_tokens r \<Longrightarrow>
   \<exists>nb s' l' m. alloc_or_preempt hf s l (running s ! idx) n = Inr (nb, s', l') \<and> aop_post s l idx r n nb s' l' m"
proof (induction "length (running s)" arbitrary: s l)
  case (Suc k)
  let ?rid = "running s ! idx" and ?kv = "kv_cache_manager s" and ?p = "last (running s)"
  have mem: "?rid \<in> set (running s)" using Suc.prems(2) by simp
  have rid: "request_id r = ?rid" using sched_invD(1) [OF Suc.prems(1,3)] .
  have dist: "distinct (running s)" using Suc.prems(1) by (simp add: sched_inv_def)
  obtain x kv' r' where a: "allocate_slots hf ?kv r n [] = Inr (x, kv', r')"
      "sched_inv (put_req (s\<lparr>kv_cache_manager := kv'\<rparr>) r')" "same_conf ?kv kv'" "same_req r r'"
      "\<forall>rid'. rid' \<noteq> ?rid \<longrightarrow> kv_same_for ?kv kv' rid'" "case x of None \<Rightarrow> r' = r \<and> kv_same_for ?kv kv' ?rid
        | Some nb \<Rightarrow> sched_ok kv' r' n \<and> blocks_of kv' ?rid = blocks_of ?kv ?rid @ nb \<and> fresh_blocks ?kv nb"
    using alloc_running [OF Suc.prems(1,3) mem Suc.prems(4,5), of hf] by blast
  let ?s1 = "put_req (s\<lparr>kv_cache_manager := kv'\<rparr>) r'"
  have rid': "request_id r' = ?rid" using same_req_sel(1) [OF a(4)] rid by simp
  have conf1: "sched_conf s ?s1" using a(3) by (simp add: sched_conf_def)
  have unf: "alloc_or_preempt hf s l ?rid n =
      (case x of Some bs \<Rightarrow> Inr (Some bs, ?s1, l)
       | None \<Rightarrow> py_bind (preempt_last ?s1 l) (\<lambda>(p, s2, l2).
           if p = ?rid then Inr (None, s2, l2) else alloc_or_preempt hf s2 l2 ?rid n))"
    using Suc.prems(3) a(1) by (subst alloc_or_preempt.simps) (simp add: get_req_def Let_def)
  show ?case
  proof (cases x)
    case (Some bs)
    have nw: "?rid \<notin> set (waiting s)" using Suc.prems(1) mem by (auto simp: sched_inv_def)
    have "writes_ok ?s1" if "writes_ok s"
    proof (rule writes_ok_step [OF that, of bs _ ?rid])
      show "fresh_blocks ?kv bs" using a(6) Some by simp
      have "own_blocks ?s1 ?rid = drop (nat (num_computed_tokens r div block_size ?kv)) (blocks_of ?kv ?rid @ bs)"
        using a(3,4,6) Some rid' same_req_sel(4) [OF a(4)] by (simp add: own_blocks_def same_conf_def)
      moreover have "own_blocks s ?rid = drop (nat (num_computed_tokens r div block_size ?kv)) (blocks_of ?kv ?rid)"
        using Suc.prems(3) by (simp add: own_blocks_def)
      ultimately show "\<exists>k. own_blocks ?s1 ?rid = drop k (own_blocks s ?rid @ bs)"
        using drop_append_drop by metis
      show "\<exists>k. own_blocks ?s1 i = drop k (own_blocks s i)" if "i \<noteq> ?rid" for i
        using that a(3,5) rid' by (intro own_blocks_same own_blocks_cong) (simp_all add: same_conf_def kv_same_for_def)
    qed
    then have "aop_post s l idx r n (Some bs) ?s1 l (length (running s))"
      using a Some conf1 rid rid' Suc.prems(2) nw by (auto simp: aop_post_def)
    then show ?thesis using unf Some by auto
  next
    case None
    then have r': "r' = r" using a(6) by simp
    have ne: "running ?s1 \<noteq> []" using Suc.prems(2) by auto
    obtain s2 where s2: "preempt_last ?s1 l = Inr (?p, s2, l\<lparr>l_preempted := l_preempted l @ [?p]\<rparr>)" "sched_inv s2"
        "sched_conf ?s1 s2" "running s2 = butlast (running s)" "waiting s2 = ?p # waiting s"
        "encoder_cache_manager s2 = encoder_cache_manager s"
        "\<forall>i. i \<noteq> ?p \<longrightarrow> requests s2 i = requests ?s1 i \<and> kv_same_for kv' (kv_cache_manager s2) i"
        "\<exists>r0 r'. requests ?s1 ?p = Some r0 \<and> requests s2 ?p = Some r' \<and> carried r0 r' \<and> status r' = PREEMPTED"
        "writes_ok ?s1 \<longrightarrow> writes_ok s2"
      using preempt_last_ok [OF a(2) ne, of l] by auto
    have req1: "requests ?s1 = requests s" using rid' r' Suc.prems(3) by (simp add: fun_upd_idem)
    have last: "\<exists>r0 r'. requests s ?p = Some r0 \<and> requests s2 ?p = Some r' \<and> carried r0 r' \<and> status r' = PREEMPTED"
      using s2(8) unfolding req1 .
    have conf2: "sched_conf s s2" using conf1 s2(3) by (rule sched_conf_trans)
    have nlast: "i \<noteq> ?p" if "i \<in> set (butlast (running s))" for i
      using that dist by (metis append_butlast_last_id distinct_append disjoint_iff list.set_intros(1) empty_iff in_set_butlastD empty_set)
    have wlast: "i \<noteq> ?p" if "i \<in> set (waiting s)" for i
    proof -
      have "?p \<in> set (running s)" using ne by simp
      then show ?thesis using that Suc.prems(1) by (auto simp: sched_inv_def)
    qed
    have same1: "kv_same_for ?kv kv' i" for i using a(5,6) None by (cases "i = ?rid") auto
    have keep: "requests s2 i = requests s i \<and> kv_same_for ?kv (kv_cache_manager s2) i"
      if "i \<in> set (butlast (running s)) \<union> set (waiting s)" for i
      using s2(7) nlast wlast that req1 kv_same_for_trans [OF same1] by (metis UnE)
    have wr: "writes_ok s \<longrightarrow> writes_ok s2"
    proof
      assume w: "writes_ok s"
      have "own_blocks ?s1 i = own_blocks s i" for i
        using req1 same1 [of i] a(3) by (intro own_blocks_cong) (simp_all add: same_conf_def kv_same_for_def)
      then have "writes_ok ?s1" using w by (intro writes_ok_mono [OF w] own_blocks_same)
      with s2(9) show "writes_ok s2" by blast
    qed
    show ?thesis
    proof (cases "?p = ?rid")
      case True
      have idx: "idx = length (running s) - 1"
      proof -
        have "running s \<noteq> []" using ne by simp
        then have "?rid = running s ! (length (running s) - 1)" "length (running s) - 1 < length (running s)"
          using True last_conv_nth by (metis, simp)
        then show ?thesis using nth_eq_iff_index_eq [OF dist Suc.prems(2)] by blast
      qed
      have "drop idx (running s) = [?p]" "take idx (running s) = butlast (running s)"
        using drop_butlast_last [of idx "running s"] Suc.prems(2) by (simp_all add: idx butlast_conv_take)
      then have "aop_post s l idx r n None s2 (l\<lparr>l_preempted := l_preempted l @ [?p]\<rparr>) idx"
        using s2(2,4,5,6) conf2 keep last wr rid Suc.prems(2) by (simp add: aop_post_def)
      then show ?thesis using unf None s2(1) True by auto
    next
      case False
      then have idx: "idx < length (butlast (running s))"
        using Suc.prems(2) by (cases "running s" rule: rev_cases) (auto simp: nth_append less_Suc_eq split: if_splits)
      let ?l2 = "l\<lparr>l_preempted := l_preempted l @ [?p]\<rparr>"
      have eq: "running s2 ! idx = ?rid" using s2(4) idx by (simp add: nth_butlast)
      have req: "requests s2 (running s2 ! idx) = Some r" using s2(7) False eq rid' r' by auto
      have k: "k = length (running s2)" and idx2: "idx < length (running s2)"
        using Suc.hyps(2) s2(4) idx by simp_all
      have mem2: "?rid \<in> set (butlast (running s))" using nth_mem [OF idx2] eq s2(4) by metis
      obtain nb s' l' m where IH: "alloc_or_preempt hf s2 ?l2 ?rid n = Inr (nb, s', l')"
          "aop_post s2 ?l2 idx r n nb s' l' m"
        using Suc.hyps(1) [OF k s2(2) idx2 req Suc.prems(4,5), of ?l2] unfolding eq by blast
      have "aop_post s l idx r n nb s' l' m"
        by (rule aop_post_compose [OF IH(2) conf2 s2(4,5,6) keep last]) (use rid ne mem2 wr in simp_all)
      then show ?thesis using unf None s2(1) False IH(1) by auto
    qed
  qed
qed simp

section \<open>Encoder inputs\<close>

text \<open>
  The result of the loop over the encoder inputs from index \<open>i\<close> on, relative to what was collected
  before: \<open>new\<close> are the inputs to schedule, \<open>n'\<close> the tokens that remain, \<open>b'\<close> the budget.
\<close>

definition needs_input :: "Request \<Rightarrow> int \<Rightarrow> int \<Rightarrow> nat \<Rightarrow> bool" where
  "needs_input r nct n k \<longleftrightarrow>
     k < length (mm_positions r) \<and> pr_offset (mm_positions r ! k) < nct + n \<and>
     nct < pr_offset (mm_positions r ! k) + pr_length (mm_positions r ! k)"

definition enc_covered :: "Scheduler \<Rightarrow> Request \<Rightarrow> int \<Rightarrow> nat \<Rightarrow> int \<Rightarrow> nat list \<Rightarrow> bool" where
  "enc_covered s r nct i n new \<longleftrightarrow>
     (\<forall>k. i \<le> k \<longrightarrow> needs_input r nct n k \<longrightarrow> has_cache (encoder_cache_manager s) r k \<or> k \<in> set new)"

lemma enc_covered_step:
  assumes "enc_covered s r nct (Suc i) n new" and "needs_input r nct n i \<Longrightarrow> has_cache (encoder_cache_manager s) r i \<or> i \<in> set new'"
    and "set new \<subseteq> set new'"
  shows "enc_covered s r nct i n new'"
  unfolding enc_covered_def
proof (intro allI impI)
  fix k assume k: "i \<le> k" "needs_input r nct n k"
  show "has_cache (encoder_cache_manager s) r k \<or> k \<in> set new'"
  proof (cases "k = i")
    case True
    with k assms(2) show ?thesis by simp
  next
    case False
    with k(1) have "Suc i \<le> k" by simp
    with k(2) assms(1,3) show ?thesis unfolding enc_covered_def by blast
  qed
qed

definition enc_loop_post ::
  "Scheduler \<Rightarrow> Request \<Rightarrow> int \<Rightarrow> nat \<Rightarrow> int \<Rightarrow> int \<Rightarrow> nat list \<Rightarrow> int \<Rightarrow> int \<Rightarrow> bool" where
  "enc_loop_post s r nct i n b new n' b' \<longleftrightarrow>
     0 \<le> n' \<and> n' \<le> n \<and> distinct new \<and> b' = b - (\<Sum>k\<leftarrow>new. pr_length (mm_positions r ! k)) \<and> (0 \<le> b \<longrightarrow> 0 \<le> b') \<and>
     (\<forall>k\<in>set new. i \<le> k \<and> k < length (mm_positions r) \<and> \<not> has_cache (encoder_cache_manager s) r k \<and>
        nct < pr_offset (mm_positions r ! k) + pr_length (mm_positions r ! k) \<and>
        has_encoder_result (encoder_cache s) (request_id r) k = Inr True \<and>
        pr_length (mm_positions r ! k) \<le> num_free_slots (encoder_cache_manager s)) \<and>
     (positions_sorted (mm_positions r) \<longrightarrow> 0 < n' \<longrightarrow> enc_covered s r nct i n' new)"

lemma positions_sorted_offset:
  assumes "positions_sorted ps" "i \<le> j" "j < length ps"
  shows "pr_offset (ps ! i) \<le> pr_offset (ps ! j)"
proof (cases "i = j")
  case False
  then have "pr_offset (ps ! i) + pr_length (ps ! i) \<le> pr_offset (ps ! j)"
    using assms positions_sorted_nth [of ps i j] by simp
  moreover have "0 < pr_length (ps ! i)"
    using positions_sorted_mem [OF assms(1), of "ps ! i"] assms False by simp
  ultimately show ?thesis by simp
qed simp

lemma enc_loop_stop:
  assumes "0 \<le> n'" "n' \<le> n" "nct + n' \<le> pr_offset (mm_positions r ! i) \<or> n' = 0"
  shows "enc_loop_post s r nct i n b [] n' b"
proof -
  have "enc_covered s r nct i n' []" if "positions_sorted (mm_positions r)" "0 < n'"
    unfolding enc_covered_def needs_input_def
  proof (intro allI impI, elim conjE)
    fix k assume "i \<le> k" "k < length (mm_positions r)" "pr_offset (mm_positions r ! k) < nct + n'"
    with positions_sorted_offset [OF that(1), of i k] assms(3) that(2)
    show "has_cache (encoder_cache_manager s) r k \<or> k \<in> set []" by linarith
  qed
  with assms show ?thesis by (simp add: enc_loop_post_def)
qed

lemma enc_loop_skip:
  assumes post: "enc_loop_post s r nct (Suc i) n b new n' b'"
    and skip: "pr_offset (mm_positions r ! i) + pr_length (mm_positions r ! i) \<le> nct \<or>
               has_cache (encoder_cache_manager s) r i"
  shows "enc_loop_post s r nct i n b new n' b'"
  using post skip enc_covered_step [of s r nct i n' new new] unfolding enc_loop_post_def
  by (auto simp: needs_input_def)

lemma enc_loop_take:
  assumes post: "enc_loop_post s r nct (Suc i) n (b - pr_length (mm_positions r ! i)) new n' b'"
    and take: "i < length (mm_positions r)" "\<not> has_cache (encoder_cache_manager s) r i"
      "nct < pr_offset (mm_positions r ! i) + pr_length (mm_positions r ! i)"
      "has_encoder_result (encoder_cache s) (request_id r) i = Inr True"
      "pr_length (mm_positions r ! i) \<le> num_free_slots (encoder_cache_manager s)" "pr_length (mm_positions r ! i) \<le> b"
  shows "enc_loop_post s r nct i n b (i # new) n' b'"
  using post take enc_covered_step [of s r nct i n' new "i # new"] unfolding enc_loop_post_def
  by (auto simp: Suc_le_eq)

lemma encoder_inputs_loop_ok:
  assumes cache: "encoder_cache s \<noteq> None"
  shows "ps = drop i (mm_positions r) \<Longrightarrow> i + length ps = length (mm_positions r) \<Longrightarrow> 0 \<le> n \<Longrightarrow>
   \<exists>new n' b'. encoder_inputs_loop s r nct ps i n b acc = Inr (acc @ new, n', b') \<and> enc_loop_post s r nct i n b new n' b'"
proof (induction ps arbitrary: i b acc)
  case Nil
  then show ?case by (auto simp: enc_loop_post_def enc_covered_def needs_input_def)
next
  case (Cons p ps)
  have i: "i < length (mm_positions r)" using Cons.prems(2) by simp
  then have p: "p = mm_positions r ! i" and ps: "ps = drop (Suc i) (mm_positions r)"
    using Cons.prems(1) by (metis Cons_nth_drop_Suc list.inject)+
  have len: "Suc i + length ps = length (mm_positions r)" using Cons.prems(2) by simp
  note IH = Cons.IH [OF ps len Cons.prems(3)]
  have can: "can_allocate (encoder_cache_manager s) r i = Inr (pr_length p \<le> num_free_slots (encoder_cache_manager s))"
    using i by (simp add: can_allocate_def get_num_encoder_tokens_def p)
  obtain av where av: "has_encoder_result (encoder_cache s) (request_id r) i = Inr av"
    using cache by (auto simp: has_encoder_result_def)
  have cut: "0 \<le> cut_tokens nct (pr_offset p)" "cut_tokens nct (pr_offset p) \<le> n"
      "nct + cut_tokens nct (pr_offset p) \<le> pr_offset p \<or> cut_tokens nct (pr_offset p) = 0" if "pr_offset p < nct + n"
    using that Cons.prems(3) by (auto simp: cut_tokens_def)
  consider (stop) "nct + n \<le> pr_offset p"
    | (skip) "pr_offset p < nct + n" "pr_offset p + pr_length p \<le> nct \<or> has_cache (encoder_cache_manager s) r i"
    | (cutoff) "pr_offset p < nct + n" "\<not> (pr_offset p + pr_length p \<le> nct \<or> has_cache (encoder_cache_manager s) r i)"
        "\<not> (pr_length p \<le> num_free_slots (encoder_cache_manager s) \<and> pr_length p \<le> b \<and> av)"
    | (take) "pr_offset p < nct + n" "\<not> (pr_offset p + pr_length p \<le> nct \<or> has_cache (encoder_cache_manager s) r i)"
        "pr_length p \<le> num_free_slots (encoder_cache_manager s) \<and> pr_length p \<le> b \<and> av"
    by linarith
  then show ?case
  proof cases
    case stop
    then show ?thesis
      using enc_loop_stop [of n n nct r i s b] Cons.prems(3) p by (intro exI [of _ "[]"]) auto
  next
    case skip
    obtain new n' b' where "encoder_inputs_loop s r nct ps (Suc i) n b acc = Inr (acc @ new, n', b')"
        "enc_loop_post s r nct (Suc i) n b new n' b'" using IH [of b acc] by blast
    with skip p enc_loop_skip [of s r nct i n b new n' b'] show ?thesis by auto
  next
    case cutoff
    then have "encoder_inputs_loop s r nct (p # ps) i n b acc = Inr (acc @ [], cut_tokens nct (pr_offset p), b)"
      using can av by auto
    then show ?thesis using enc_loop_stop [of "cut_tokens nct (pr_offset p)" n nct r i s b] cut [OF cutoff(1)] p by blast
  next
    case take
    obtain new n' b' where "encoder_inputs_loop s r nct ps (Suc i) n (b - pr_length p) (acc @ [i]) =
        Inr ((acc @ [i]) @ new, n', b')" "enc_loop_post s r nct (Suc i) n (b - pr_length p) new n' b'"
      using IH [of "b - pr_length p" "acc @ [i]"] by blast
    with take can av p i enc_loop_take [of s r nct i n b new n' b'] show ?thesis
      by (intro exI [of _ "i # new"] exI [of _ n'] exI [of _ b']) simp
  qed
qed

lemma try_schedule_ok:
  assumes inv: "sched_inv s" and wf: "request_wf r" and n: "0 \<le> n"
  shows "\<exists>ids n' b'. try_schedule_encoder_inputs s r nct n b = Inr (ids, n', b') \<and> enc_loop_post s r nct 0 n b ids n' b'"
proof (cases "has_encoder_inputs r")
  case True
  then have "length (mm_positions r) > 0" using wf by (auto simp: has_encoder_inputs_def request_wf_def)
  then show ?thesis
    using encoder_inputs_loop_ok [of s "mm_positions r" 0 r n nct b "[]"] inv n True
    by (simp add: try_schedule_encoder_inputs_def sched_inv_def)
next
  case False
  then have "mm_positions r = []" using wf by (auto simp: has_encoder_inputs_def request_wf_def)
  then have "enc_loop_post s r nct 0 n b [] n b"
    using n by (simp add: enc_loop_post_def enc_covered_def needs_input_def)
  then show ?thesis using False by (simp add: try_schedule_encoder_inputs_def)
qed

lemma allocate_encoder_inputs_ok:
  "encoder_cache_inv R e \<Longrightarrow> R (request_id r) = Some r \<Longrightarrow> distinct ids \<Longrightarrow>
   \<forall>i\<in>set ids. i < length (mm_positions r) \<and> \<not> has_cache e r i \<Longrightarrow>
   \<exists>e'. allocate_encoder_inputs e r ids = Inr e' \<and> encoder_cache_inv R e' \<and> freed e' = freed e \<and>
     cache_size e' = cache_size e \<and>
     num_free_slots e' = num_free_slots e - (\<Sum>k\<leftarrow>ids. pr_length (mm_positions r ! k)) \<and>
     get_cached_input_ids e' r = get_cached_input_ids e r \<union> set ids \<and>
     (\<forall>rid. rid \<noteq> request_id r \<longrightarrow> cached e' rid = cached e rid)"
proof (induction ids arbitrary: e)
  case (Cons i ids)
  obtain e1 where e1: "allocate e r i = Inr e1" "encoder_cache_inv R e1" "freed e1 = freed e" "cache_size e1 = cache_size e"
      "num_free_slots e1 = num_free_slots e - pr_length (mm_positions r ! i)"
      "cached e1 = (cached e)(request_id r \<mapsto> insert i (get_cached_input_ids e r))"
    using allocate_inv [OF Cons.prems(1,2), of i] Cons.prems(4) by auto
  have c1: "get_cached_input_ids e1 r = insert i (get_cached_input_ids e r)"
    using e1(6) by (simp add: get_cached_input_ids_def)
  have "\<not> has_cache e1 r j" if "j \<in> set ids" for j
    using that Cons.prems(3,4) e1(6) by (auto simp: has_cache_def get_cached_input_ids_def split: option.splits)
  with Cons.IH [OF e1(2) Cons.prems(2)] Cons.prems(3,4) obtain e2 where
    "allocate_encoder_inputs e1 r ids = Inr e2" "encoder_cache_inv R e2" "freed e2 = freed e1"
    "cache_size e2 = cache_size e1"
    "num_free_slots e2 = num_free_slots e1 - (\<Sum>k\<leftarrow>ids. pr_length (mm_positions r ! k))"
    "get_cached_input_ids e2 r = get_cached_input_ids e1 r \<union> set ids"
    "\<forall>rid. rid \<noteq> request_id r \<longrightarrow> cached e2 rid = cached e1 rid" by auto
  with e1 c1 show ?case by auto
qed simp

lemma sched_inv_set_ecm:
  "sched_inv s \<Longrightarrow> encoder_cache_inv (requests s) e \<Longrightarrow> sched_inv (s\<lparr>encoder_cache_manager := e\<rparr>)"
proof -
  have "req_status_ok (s\<lparr>encoder_cache_manager := e\<rparr>) r = req_status_ok s r" for r by (simp add: req_status_ok_def)
  then show "sched_inv s \<Longrightarrow> encoder_cache_inv (requests s) e \<Longrightarrow> sched_inv (s\<lparr>encoder_cache_manager := e\<rparr>)"
    by (simp add: sched_inv_def)
qed

lemma book_ok:
  assumes inv: "sched_inv s" and r: "requests s (request_id r) = Some r" and dist: "distinct ids"
    and ids: "\<forall>i\<in>set ids. i < length (mm_positions r) \<and> \<not> has_cache (encoder_cache_manager s) r i"
  shows "\<exists>e l'. book_encoder_inputs s l r ids b = Inr (s\<lparr>encoder_cache_manager := e\<rparr>, l') \<and>
     sched_inv (s\<lparr>encoder_cache_manager := e\<rparr>) \<and>
     l' = (if ids = [] then l else l\<lparr>l_encoder := AList.update (request_id r) ids (l_encoder l), l_encoder_budget := b\<rparr>) \<and>
     get_cached_input_ids e r = get_cached_input_ids (encoder_cache_manager s) r \<union> set ids \<and>
     (\<forall>rid. rid \<noteq> request_id r \<longrightarrow> cached e rid = cached (encoder_cache_manager s) rid) \<and>
     freed e = freed (encoder_cache_manager s)"
proof -
  have "encoder_cache_inv (requests s) (encoder_cache_manager s)" using inv by (simp add: sched_inv_def)
  from allocate_encoder_inputs_ok [OF this r dist ids] obtain e where
    e: "allocate_encoder_inputs (encoder_cache_manager s) r ids = Inr e" "encoder_cache_inv (requests s) e"
      "get_cached_input_ids e r = get_cached_input_ids (encoder_cache_manager s) r \<union> set ids"
      "\<forall>rid. rid \<noteq> request_id r \<longrightarrow> cached e rid = cached (encoder_cache_manager s) rid"
      "freed e = freed (encoder_cache_manager s)" by blast
  show ?thesis
  proof (cases "ids = []")
    case True
    then show ?thesis using inv
      by (intro exI [of _ "encoder_cache_manager s"] exI [of _ l]) (simp add: book_encoder_inputs_def)
  next
    case False
    then show ?thesis using e sched_inv_set_ecm [OF inv e(2)]
      by (intro exI [of _ e]) (simp add: book_encoder_inputs_def)
  qed
qed

section \<open>Encoder outputs in use\<close>

text \<open>The inputs of a request that the encoder cache manager counts as cached.\<close>

definition inputs_of :: "EncoderCacheManager \<Rightarrow> string \<Rightarrow> nat set" where
  "inputs_of e rid = (case cached e rid of None \<Rightarrow> {} | Some S \<Rightarrow> S)"

lemma inputs_of_cached: "inputs_of e (request_id r) = get_cached_input_ids e r"
  by (simp add: inputs_of_def get_cached_input_ids_def)

lemma inputs_of_cong: "cached e' rid = cached e rid \<Longrightarrow> inputs_of e' rid = inputs_of e rid"
  by (simp add: inputs_of_def)

definition input_done :: "Request \<Rightarrow> nat \<Rightarrow> bool" where
  "input_done r k \<longleftrightarrow> pr_offset (mm_positions r ! k) + pr_length (mm_positions r ! k) \<le> num_computed_tokens r"

text \<open>
  Every cached input has its result in the encoder's results.  An input that was freed since the last output
  is not cached any more, and cannot be booked again in this step: its request is gone, or is running past the
  input, or was preempted in this step, after which nothing is admitted.
\<close>

definition freed_ok :: "Scheduler \<Rightarrow> string set \<Rightarrow> string \<Rightarrow> nat \<Rightarrow> bool" where
  "freed_ok s pre rid k \<longleftrightarrow>
     k \<notin> inputs_of (encoder_cache_manager s) rid \<and>
     (requests s rid = None \<or> rid \<in> pre \<or> rid \<in> set (running s) \<and> (\<exists>r. requests s rid = Some r \<and> input_done r k))"

definition enc_sync :: "Scheduler \<Rightarrow> string list \<Rightarrow> bool" where
  "enc_sync s pre \<longleftrightarrow>
     set pre \<subseteq> set (waiting s) \<and>
     (\<forall>rid k. k \<in> inputs_of (encoder_cache_manager s) rid \<longrightarrow> has_encoder_result (encoder_cache s) rid k = Inr True) \<and>
     (\<forall>(rid, k) \<in> set (freed (encoder_cache_manager s)). freed_ok s (set pre) rid k)"

lemma enc_sync_step:
  assumes sync: "enc_sync s pre" and e: "freed (encoder_cache_manager s') = freed (encoder_cache_manager s)"
      "encoder_cache s' = encoder_cache s"
    and gone: "\<And>i. requests s i = None \<Longrightarrow> requests s' i = None"
    and pre: "set pre \<subseteq> set pre'" "set pre' \<subseteq> set (waiting s')"
    and run: "\<And>i r. i \<in> set (running s) \<Longrightarrow> requests s i = Some r \<Longrightarrow> i \<in> set pre' \<or>
      i \<in> set (running s') \<and> (\<exists>r'. requests s' i = Some r' \<and> mm_positions r' = mm_positions r \<and>
        num_computed_tokens r \<le> num_computed_tokens r')"
    and new: "\<And>i k. k \<in> inputs_of (encoder_cache_manager s') i \<Longrightarrow> k \<notin> inputs_of (encoder_cache_manager s) i \<Longrightarrow>
      has_encoder_result (encoder_cache s) i k = Inr True \<and> (i, k) \<notin> set (freed (encoder_cache_manager s))"
  shows "enc_sync s' pre'"
proof -
  have "freed_ok s' (set pre') i k" if ik: "(i, k) \<in> set (freed (encoder_cache_manager s))" for i k
  proof -
    have f: "freed_ok s (set pre) i k" using sync ik by (auto simp: enc_sync_def)
    have "k \<notin> inputs_of (encoder_cache_manager s') i" using new [of k i] f ik by (auto simp: freed_ok_def)
    moreover have "requests s' i = None \<or> i \<in> set pre' \<or>
        i \<in> set (running s') \<and> (\<exists>r. requests s' i = Some r \<and> input_done r k)"
    proof (cases "requests s i = None \<or> i \<in> set pre")
      case True
      then show ?thesis using gone pre(1) by blast
    next
      case False
      then obtain r where "i \<in> set (running s)" "requests s i = Some r" "input_done r k"
        using f by (auto simp: freed_ok_def)
      then show ?thesis using run [of i r] by (fastforce simp: input_done_def)
    qed
    ultimately show ?thesis by (simp add: freed_ok_def)
  qed
  moreover have "has_encoder_result (encoder_cache s') i k = Inr True" if "k \<in> inputs_of (encoder_cache_manager s') i" for i k
    using new [OF that] sync e(2) by (cases "k \<in> inputs_of (encoder_cache_manager s) i") (simp_all add: enc_sync_def)
  ultimately show ?thesis using pre(2) e by (auto simp: enc_sync_def)
qed

text \<open>Booking the inputs of a running request that the loop over its inputs has chosen.\<close>

lemma enc_sync_book:
  assumes sync: "enc_sync s pre" and inv: "sched_inv s" and r: "requests s (request_id r) = Some r" "request_id r \<in> set (running s)"
    and e: "get_cached_input_ids e r = get_cached_input_ids (encoder_cache_manager s) r \<union> set ids"
      "\<forall>rid. rid \<noteq> request_id r \<longrightarrow> cached e rid = cached (encoder_cache_manager s) rid"
      "freed e = freed (encoder_cache_manager s)"
    and enc: "enc_loop_post s0 r0 nct 0 n0 b ids n eb"
    and same: "encoder_cache s0 = encoder_cache s" "request_id r0 = request_id r" "mm_positions r0 = mm_positions r"
      "nct = num_computed_tokens r"
  shows "enc_sync (s\<lparr>encoder_cache_manager := e\<rparr>) pre"
proof (rule enc_sync_step [OF sync])
  show "set pre \<subseteq> set (waiting (s\<lparr>encoder_cache_manager := e\<rparr>))" using sync by (simp add: enc_sync_def)
  show "has_encoder_result (encoder_cache s) i k = Inr True \<and> (i, k) \<notin> set (freed (encoder_cache_manager s))"
    if ik: "k \<in> inputs_of (encoder_cache_manager (s\<lparr>encoder_cache_manager := e\<rparr>)) i"
      "k \<notin> inputs_of (encoder_cache_manager s) i" for i k
  proof -
    have ik': "k \<in> inputs_of e i" using ik(1) by simp
    have i: "i = request_id r"
      using ik' ik(2) inputs_of_cong [of e i "encoder_cache_manager s"] e(2) by (cases "i = request_id r") simp_all
    then have "k \<in> set ids" using ik' ik(2) e(1) unfolding i inputs_of_cached by simp
    then have k: "has_encoder_result (encoder_cache s0) (request_id r0) k = Inr True" "\<not> input_done r k"
      using enc same by (auto simp: enc_loop_post_def input_done_def)
    have "(i, k) \<notin> set (freed (encoder_cache_manager s))"
    proof
      assume "(i, k) \<in> set (freed (encoder_cache_manager s))"
      then have "freed_ok s (set pre) i k" using sync by (auto simp: enc_sync_def)
      moreover have "i \<notin> set pre" using sync inv r(2) unfolding i by (auto simp: enc_sync_def sched_inv_def)
      ultimately show False using r k(2) unfolding i freed_ok_def by auto
    qed
    then show ?thesis using k(1) same i by simp
  qed
qed (use e(3) in auto)

text \<open>Allocation with preemption: the requests that keep running, and those that are known.\<close>

lemma aop_dom:
  assumes inv: "sched_inv s" and post: "aop_post s l idx r n nb s1 l1 m"
  shows "dom (requests s1) = dom (requests s)"
proof -
  have P: "sched_inv s1" "running s1 = take m (running s)" "waiting s1 = drop m (running s) @ waiting s"
    using post by (simp_all add: aop_post_def)
  have "set (running s1) \<union> set (waiting s1) = set (take m (running s) @ drop m (running s)) \<union> set (waiting s)"
    by (simp only: P(2,3) set_append Un_assoc)
  then show ?thesis using P(1) inv unfolding sched_inv_def by simp
qed

lemma aop_running:
  assumes inv: "sched_inv s" and post: "aop_post s l idx r n nb s1 l1 m"
    and r: "requests s (request_id r) = Some r" "request_id r = running s ! idx" "idx < length (running s)"
    and i: "i \<in> set (running s1)" "requests s i = Some ri"
  shows "\<exists>r'. requests s1 i = Some r' \<and> same_req ri r'"
proof (cases "i = request_id r")
  case False
  then show ?thesis using post i by (auto simp: aop_post_def)
next
  case True
  have one: "case nb of None \<Rightarrow> m = idx
      | Some bs \<Rightarrow> idx < m \<and> (\<exists>r'. requests s1 (request_id r) = Some r' \<and> same_req r r')"
    using post by (auto simp: aop_post_def split: option.splits)
  have "nb \<noteq> None"
  proof
    assume "nb = None"
    then have "running s ! idx \<in> set (take idx (running s))" using one i(1) True r(2) post by (simp add: aop_post_def)
    then show False using inv r(3) by (auto simp: sched_inv_def in_set_conv_nth nth_eq_iff_index_eq)
  qed
  then show ?thesis using one True i(2) r(1) by auto
qed

text \<open>It books nothing.\<close>

lemma aop_sync:
  assumes inv: "sched_inv s" and post: "aop_post s l idx r n nb s1 l1 m" and sync: "enc_sync s (l_preempted l)"
    and r: "requests s (request_id r) = Some r" "request_id r = running s ! idx" "idx < length (running s)"
  shows "enc_sync s1 (l_preempted l1)"
proof (rule enc_sync_step [OF sync])
  have P: "running s1 = take m (running s)" "waiting s1 = drop m (running s) @ waiting s"
      "l_preempted l1 = l_preempted l @ rev (drop m (running s))"
    using post by (simp_all add: aop_post_def)
  show "set (l_preempted l1) \<subseteq> set (waiting s1)" using P(2,3) sync by (auto simp: enc_sync_def)
  show "requests s1 i = None" if "requests s i = None" for i using that aop_dom [OF inv post] by (metis domIff)
  show "i \<in> set (l_preempted l1) \<or> i \<in> set (running s1) \<and> (\<exists>r'. requests s1 i = Some r' \<and>
      mm_positions r' = mm_positions ri \<and> num_computed_tokens ri \<le> num_computed_tokens r')"
    if i: "i \<in> set (running s)" "requests s i = Some ri" for i ri
  proof (cases "i \<in> set (drop m (running s))")
    case True
    then show ?thesis using P(3) by simp
  next
    case False
    then have mem: "i \<in> set (running s1)" using i(1) unfolding P(1) by (metis Un_iff append_take_drop_id set_append)
    from aop_running [OF inv post r mem i(2)] obtain r' where r': "requests s1 i = Some r'" "same_req ri r'" by blast
    then show ?thesis using mem same_req_sel [OF r'(2)] by simp
  qed
qed (use post in \<open>auto simp: aop_post_def sched_conf_def\<close>)

section \<open>Progress without the prefix cache\<close>

text \<open>When nothing is cached, scheduling alone never raises the number of computed tokens of a request.\<close>

definition no_gain :: "Scheduler \<Rightarrow> Scheduler \<Rightarrow> bool" where
  "no_gain s s' \<longleftrightarrow> (\<not> enable_caching (kv_cache_manager s) \<longrightarrow>
     (\<forall>rid r'. requests s' rid = Some r' \<longrightarrow>
        (\<exists>r. requests s rid = Some r \<and> num_computed_tokens r' \<le> num_computed_tokens r)))"

lemma no_gain_refl [simp]: "no_gain s s"
  by (simp add: no_gain_def)

lemma no_gain_trans:
  assumes "no_gain a b" and "no_gain b c" and "sched_conf a b"
  shows "no_gain a c"
proof -
  have c: "enable_caching (kv_cache_manager b) = enable_caching (kv_cache_manager a)"
    using assms(3) by (simp add: sched_conf_def same_conf_def)
  have "\<exists>r. requests a rid = Some r \<and> num_computed_tokens r' \<le> num_computed_tokens r"
    if n: "\<not> enable_caching (kv_cache_manager a)" and r': "requests c rid = Some r'" for rid r'
  proof -
    obtain r where r: "requests b rid = Some r" "num_computed_tokens r' \<le> num_computed_tokens r"
      using assms(2) n r' unfolding no_gain_def c by blast
    then obtain q where "requests a rid = Some q" "num_computed_tokens r \<le> num_computed_tokens q"
      using assms(1) n unfolding no_gain_def by blast
    then show ?thesis using r(2) by fastforce
  qed
  then show ?thesis by (simp add: no_gain_def)
qed

lemma no_gain_step:
  assumes inv: "sched_inv s" "sched_inv s'" and dom: "dom (requests s') \<subseteq> dom (requests s)"
    and run: "\<And>i r r'. \<not> enable_caching (kv_cache_manager s) \<Longrightarrow> i \<in> set (running s') \<Longrightarrow> requests s i = Some r \<Longrightarrow>
      requests s' i = Some r' \<Longrightarrow> num_computed_tokens r' \<le> num_computed_tokens r"
  shows "no_gain s s'"
proof -
  have "num_computed_tokens r' \<le> num_computed_tokens r"
    if c: "\<not> enable_caching (kv_cache_manager s)" and r: "requests s i = Some r" "requests s' i = Some r'" for i r r'
  proof (cases "i \<in> set (running s')")
    case True
    then show ?thesis using run c r by blast
  next
    case False
    have "num_computed_tokens r' = 0"
      using sched_invD [OF inv(2) r(2)] False by (simp add: req_status_ok_def)
    moreover have "0 \<le> num_computed_tokens r" using sched_invD(2) [OF inv(1) r(1)] by (simp add: req_ok_def)
    ultimately show ?thesis by simp
  qed
  then show ?thesis using dom unfolding no_gain_def by blast
qed

lemma aop_no_gain:
  assumes inv: "sched_inv s" and post: "aop_post s l idx r n nb s1 l1 m"
    and r: "requests s (request_id r) = Some r" "request_id r = running s ! idx" "idx < length (running s)"
  shows "no_gain s s1"
proof (rule no_gain_step [OF inv])
  show "sched_inv s1" using post by (simp add: aop_post_def)
  show "dom (requests s1) \<subseteq> dom (requests s)" using aop_dom [OF inv post] by simp
  show "num_computed_tokens r' \<le> num_computed_tokens ri"
    if i: "i \<in> set (running s1)" "requests s i = Some ri" "requests s1 i = Some r'" for i ri r'
  proof -
    have "same_req ri r'" using aop_running [OF inv post r i(1,2)] i(3) by auto
    then show ?thesis using same_req_sel by simp
  qed
qed

section \<open>The loops of a step\<close>

text \<open>
  The local variables while the queues are walked: the scheduled requests are distinct running
  requests, each has an entry with tokens that fit and whose encoder inputs are cached (\<open>tok_ok\<close>) and a
  list of blocks, and the tokens plus the remaining budget are the budget of the step.
\<close>

definition enc_ready :: "Scheduler \<Rightarrow> Request \<Rightarrow> int \<Rightarrow> bool" where
  "enc_ready s r n \<longleftrightarrow>
     (positions_sorted (mm_positions r) \<longrightarrow> (\<forall>k. needs_input r (num_computed_tokens r) n k \<longrightarrow>
        k \<in> get_cached_input_ids (encoder_cache_manager s) r))"

definition tok_ok :: "Scheduler \<Rightarrow> Request \<Rightarrow> int \<Rightarrow> bool" where
  "tok_ok s r n \<longleftrightarrow> sched_ok (kv_cache_manager s) r n \<and> enc_ready s r n"

definition scheduled :: "sched_locals \<Rightarrow> string list" where
  "scheduled l = l_new l @ l_resumed l @ l_running l"

definition locals_ok :: "Scheduler \<Rightarrow> sched_locals \<Rightarrow> bool" where
  "locals_ok s l \<longleftrightarrow>
     distinct (scheduled l) \<and> set (scheduled l) \<subseteq> set (running s) \<and>
     distinct (map fst (l_tokens l)) \<and> fst ` set (l_tokens l) = set (scheduled l) \<and>
     dom (l_blocks l) = set (scheduled l) \<and>
     (\<forall>(rid, n) \<in> set (l_tokens l). \<exists>r. requests s rid = Some r \<and> tok_ok s r n) \<and>
     sum_list (map snd (l_tokens l)) + l_token_budget l = max_num_scheduled_tokens s \<and> 0 \<le> l_token_budget l"

lemma update_fresh:
  assumes "rid \<notin> fst ` set al"
  shows "AList.update rid n al = al @ [(rid, n)]"
  using assms by (induction al) auto

text \<open>Scheduling one more request.\<close>

lemma locals_ok_add:
  assumes ok: "locals_ok s l" and run: "set (scheduled l) \<subseteq> set (running s')"
    and keep: "\<And>i r n. i \<in> set (scheduled l) \<Longrightarrow> requests s i = Some r \<Longrightarrow> tok_ok s r n \<Longrightarrow>
        requests s' i = Some r \<and> tok_ok s' r n"
    and conf: "max_num_scheduled_tokens s' = max_num_scheduled_tokens s"
    and rid: "rid \<notin> set (scheduled l)" "rid \<in> set (running s')" "requests s' rid = Some r" "tok_ok s' r n"
    and n: "n \<le> l_token_budget l"
    and l': "distinct (scheduled l')" "set (scheduled l') = insert rid (set (scheduled l))"
      "l_tokens l' = AList.update rid n (l_tokens l)" "l_blocks l' = (l_blocks l)(rid \<mapsto> bids)"
      "l_token_budget l' = l_token_budget l - n"
  shows "locals_ok s' l'"
proof -
  have "rid \<notin> fst ` set (l_tokens l)" using ok rid(1) by (simp add: locals_ok_def)
  then have t: "l_tokens l' = l_tokens l @ [(rid, n)]" using l'(3) update_fresh by metis
  have "\<exists>r. requests s' i = Some r \<and> tok_ok s' r k" if "(i, k) \<in> set (l_tokens l')" for i k
  proof (cases "(i, k) \<in> set (l_tokens l)")
    case True
    have f: "fst ` set (l_tokens l) = set (scheduled l)" using ok by (simp add: locals_ok_def)
    have "i \<in> fst ` set (l_tokens l)" using True by (rule image_eqI [rotated]) simp
    then have "i \<in> set (scheduled l)" using f by simp
    moreover obtain r where "requests s i = Some r" "tok_ok s r k"
      using ok True unfolding locals_ok_def by blast
    ultimately show ?thesis using keep by blast
  next
    case False
    then show ?thesis using that t rid by auto
  qed
  then have each: "\<forall>(i, k) \<in> set (l_tokens l'). \<exists>r. requests s' i = Some r \<and> tok_ok s' r k"
    by blast
  have old: "distinct (map fst (l_tokens l))" "fst ` set (l_tokens l) = set (scheduled l)"
      "dom (l_blocks l) = set (scheduled l)"
      "sum_list (map snd (l_tokens l)) + l_token_budget l = max_num_scheduled_tokens s"
    using ok by (simp_all add: locals_ok_def)
  have "distinct (map fst (l_tokens l'))" using old(1,2) t rid(1) by simp
  moreover have "fst ` set (l_tokens l') = set (scheduled l')" using old(2) t l'(2) by simp
  moreover have "dom (l_blocks l') = set (scheduled l')" using old(3) l'(2,4) by simp
  moreover have "sum_list (map snd (l_tokens l')) + l_token_budget l' = max_num_scheduled_tokens s'"
    using old(4) t l'(5) conf by simp
  moreover have "set (scheduled l') \<subseteq> set (running s')" using l'(2) run rid(2) by simp
  ultimately show ?thesis unfolding locals_ok_def using each l'(1,5) n by simp
qed

lemma locals_ok_keep:
  assumes ok: "locals_ok s l" and run: "set (scheduled l) \<subseteq> set (running s')"
    and keep: "\<And>i r n. i \<in> set (scheduled l) \<Longrightarrow> requests s i = Some r \<Longrightarrow> tok_ok s r n \<Longrightarrow>
        requests s' i = Some r \<and> tok_ok s' r n"
    and conf: "max_num_scheduled_tokens s' = max_num_scheduled_tokens s"
    and l': "scheduled l' = scheduled l" "l_tokens l' = l_tokens l" "l_blocks l' = l_blocks l"
      "l_token_budget l' = l_token_budget l"
  shows "locals_ok s' l'"
proof -
  have f: "fst ` set (l_tokens l) = set (scheduled l)" using ok by (simp add: locals_ok_def)
  have "\<exists>r. requests s' i = Some r \<and> tok_ok s' r k" if t: "(i, k) \<in> set (l_tokens l)" for i k
  proof -
    have "i \<in> fst ` set (l_tokens l)" using t by (rule image_eqI [rotated]) simp
    then have "i \<in> set (scheduled l)" using f by simp
    moreover obtain r where "requests s i = Some r" "tok_ok s r k" using ok t unfolding locals_ok_def by blast
    ultimately show ?thesis using keep by blast
  qed
  then have "\<forall>(i, k) \<in> set (l_tokens l). \<exists>r. requests s' i = Some r \<and> tok_ok s' r k" by blast
  then show ?thesis using ok run conf l' unfolding locals_ok_def by simp
qed

lemma tok_ok_frame:
  assumes "tok_ok s r n" and "kv_same_for (kv_cache_manager s) (kv_cache_manager s') (request_id r)"
    and "same_conf (kv_cache_manager s) (kv_cache_manager s')"
    and "get_cached_input_ids (encoder_cache_manager s) r \<subseteq> get_cached_input_ids (encoder_cache_manager s') r"
  shows "tok_ok s' r n"
  using assms sched_ok_cong [OF assms(2,3)] by (auto simp: tok_ok_def enc_ready_def)

lemma cached_ids_cong:
  "cached e' (request_id r) = cached e (request_id r) \<Longrightarrow> get_cached_input_ids e' r = get_cached_input_ids e r"
  by (simp add: get_cached_input_ids_def)

text \<open>After the blocks and the encoder inputs of a request are booked, its tokens are ready.\<close>

lemma enc_ready_booked:
  assumes post: "enc_loop_post s r nct 0 n0 b ids n b'" and n: "n \<noteq> 0"
    and same: "mm_positions r1 = mm_positions r" "request_id r1 = request_id r" "num_computed_tokens r1 = nct"
    and ids: "get_cached_input_ids (encoder_cache_manager s2) r1 =
      get_cached_input_ids (encoder_cache_manager s) r1 \<union> set ids"
  shows "enc_ready s2 r1 n"
proof -
  have "k \<in> get_cached_input_ids (encoder_cache_manager s2) r1"
    if "positions_sorted (mm_positions r1)" "needs_input r1 (num_computed_tokens r1) n k" for k
  proof -
    have "enc_covered s r nct 0 n ids" using post n same(1) that(1) by (simp add: enc_loop_post_def)
    moreover have "needs_input r nct n k" using that(2) same by (simp add: needs_input_def)
    ultimately have "has_cache (encoder_cache_manager s) r k \<or> k \<in> set ids" by (auto simp: enc_covered_def)
    then show ?thesis using ids same(2) by (auto simp: has_cache_def get_cached_input_ids_def split: option.splits)
  qed
  then show ?thesis by (simp add: enc_ready_def)
qed

text \<open>The requests before \<open>idx\<close> are untouched by the allocation for the request at \<open>idx\<close>.\<close>

lemma aop_keeps_scheduled:
  assumes inv: "sched_inv s" and post: "aop_post s l idx r n nb s1 l1 m" and idx: "idx < length (running s)"
    and rid: "request_id r = running s ! idx" and i: "i \<in> set (take idx (running s))"
    and ri: "requests s i = Some ri" and tok: "tok_ok s ri k"
    and e: "\<forall>rid. rid \<noteq> request_id r \<longrightarrow> cached e rid = cached (encoder_cache_manager s1) rid"
  shows "requests (s1\<lparr>encoder_cache_manager := e\<rparr>) i = Some ri \<and> tok_ok (s1\<lparr>encoder_cache_manager := e\<rparr>) ri k"
proof -
  have "distinct (running s)" using inv by (simp add: sched_inv_def)
  then have ne: "i \<noteq> request_id r"
    using i idx rid by (auto simp: in_set_conv_nth nth_eq_iff_index_eq)
  have m: "idx \<le> m" using post by (auto simp: aop_post_def split: option.splits)
  have "set (take idx (running s)) \<subseteq> set (take m (running s))" using m by (rule set_take_subset_set_take)
  then have run: "i \<in> set (running s1)" using i post by (auto simp: aop_post_def)
  then have 1: "requests s1 i = Some ri" "kv_same_for (kv_cache_manager s) (kv_cache_manager s1) i"
    using post ne ri by (auto simp: aop_post_def)
  have 2: "same_conf (kv_cache_manager s) (kv_cache_manager s1)" "encoder_cache_manager s1 = encoder_cache_manager s"
    using post by (auto simp: aop_post_def sched_conf_def)
  have id: "request_id ri = i" using sched_invD(1) [OF inv ri] .
  have "get_cached_input_ids e ri = get_cached_input_ids (encoder_cache_manager s) ri"
    using e ne id 2(2) by (intro cached_ids_cong) simp
  with tok_ok_frame [OF tok, of "s1\<lparr>encoder_cache_manager := e\<rparr>"] 1 2 id show ?thesis by simp
qed

text \<open>
  How the queue walks treat a request, from the scheduler \<open>s0\<close> at the start of the step: the blocks
  recorded for a new or resumed request are all of its blocks, those recorded for a running request are
  appended to the ones it had, and an unscheduled running request keeps its blocks.
\<close>

definition req_track :: "Scheduler \<Rightarrow> Scheduler \<Rightarrow> sched_locals \<Rightarrow> string \<Rightarrow> Request \<Rightarrow> Request \<Rightarrow> bool" where
  "req_track s0 s l rid r0 r \<longleftrightarrow> carried r0 r \<and>
     (let old = blocks_of (kv_cache_manager s0) rid; now = blocks_of (kv_cache_manager s) rid in
      if rid \<in> set (l_new l) then status r0 = WAITING \<and> l_blocks l rid = Some now
      else if rid \<in> set (l_resumed l) then status r0 \<noteq> WAITING \<and> l_blocks l rid = Some now
      else if rid \<in> set (l_running l) then
        status r0 \<noteq> WAITING \<and> rid \<in> set (running s0) \<and> (\<exists>new. l_blocks l rid = Some new \<and> now = old @ new)
      else if rid \<in> set (running s) then status r0 \<noteq> WAITING \<and> rid \<in> set (running s0) \<and> now = old
      else (status r = WAITING \<longleftrightarrow> status r0 = WAITING))"

definition tracks :: "Scheduler \<Rightarrow> Scheduler \<Rightarrow> sched_locals \<Rightarrow> bool" where
  "tracks s0 s l \<longleftrightarrow>
     (\<forall>rid r. requests s rid = Some r \<longrightarrow> (\<exists>r0. requests s0 rid = Some r0 \<and> req_track s0 s l rid r0 r))"

lemma tracks_step:
  assumes "tracks s0 s l"
    and "\<And>i r'. requests s' i = Some r' \<Longrightarrow>
      \<exists>r. requests s i = Some r \<and> (\<forall>r0. req_track s0 s l i r0 r \<longrightarrow> req_track s0 s' l' i r0 r')"
  shows "tracks s0 s' l'"
  using assms unfolding tracks_def by blast

lemma req_track_frame:
  assumes "req_track s0 s l i r0 r"
    and "blocks_of (kv_cache_manager s') i = blocks_of (kv_cache_manager s) i" "i \<in> set (running s') \<longleftrightarrow> i \<in> set (running s)"
    and "i \<in> set (l_new l') \<longleftrightarrow> i \<in> set (l_new l)" "i \<in> set (l_resumed l') \<longleftrightarrow> i \<in> set (l_resumed l)"
      "i \<in> set (l_running l') \<longleftrightarrow> i \<in> set (l_running l)" "l_blocks l' i = l_blocks l i"
  shows "req_track s0 s' l' i r0 r"
  using assms by (simp add: req_track_def Let_def)

text \<open>Block numbers are the indices of the blocks in the pool.\<close>

lemma map_bid:
  assumes "kvm_good kv" and "set bs \<subseteq> set (blocks_of kv rid)"
  shows "map (bid kv) bs = bs"
proof -
  obtain fl where rep: "kvm_rep kv fl []" using assms(1) by (auto simp: kvm_good_def kvm_inv_def)
  have "set (blocks_of kv rid) \<subseteq> {..<num_gpu_blocks kv}"
    using rep by (cases "req_to_blocks kv rid") (simp_all add: kvm_rep_def blocks_of_def)
  with assms(2) have "set bs \<subseteq> {..<num_gpu_blocks kv}" by (rule subset_trans)
  then show ?thesis using rep by (intro map_idI) (auto simp: kvm_rep_def)
qed

text \<open>One request changes, the others are left alone.\<close>

lemma tracks_one:
  assumes "tracks s0 s l" and "requests s rid = Some r" "requests s' rid = Some r'"
    and "\<And>r0. req_track s0 s l rid r0 r \<Longrightarrow> req_track s0 s' l' rid r0 r'"
    and "\<And>i. i \<noteq> rid \<Longrightarrow> requests s' i = requests s i \<and>
      blocks_of (kv_cache_manager s') i = blocks_of (kv_cache_manager s) i \<and> (i \<in> set (running s') \<longleftrightarrow> i \<in> set (running s)) \<and>
      (i \<in> set (l_new l') \<longleftrightarrow> i \<in> set (l_new l)) \<and> (i \<in> set (l_resumed l') \<longleftrightarrow> i \<in> set (l_resumed l)) \<and>
      (i \<in> set (l_running l') \<longleftrightarrow> i \<in> set (l_running l)) \<and> l_blocks l' i = l_blocks l i"
  shows "tracks s0 s' l'"
proof (rule tracks_step [OF assms(1)])
  fix i x assume x: "requests s' i = Some x"
  show "\<exists>ri. requests s i = Some ri \<and> (\<forall>r0. req_track s0 s l i r0 ri \<longrightarrow> req_track s0 s' l' i r0 x)"
  proof (cases "i = rid")
    case True
    then show ?thesis using assms(2-4) x by auto
  next
    case False
    with assms(5) [OF False] x req_track_frame [of s0 s l i _ x s' l'] show ?thesis by (intro exI [of _ x]) auto
  qed
qed

text \<open>The requests other than the one that gets blocks, through \<open>alloc_or_preempt\<close>.\<close>

lemma aop_track_other:
  assumes inv: "sched_inv s" and post: "aop_post s l idx r n nb s1 l1 m" and idx: "idx < length (running s)"
    and rid: "request_id r = running s ! idx" and run: "set (scheduled l) \<subseteq> set (take idx (running s))"
    and i: "requests s1 i = Some r'" "i = request_id r \<Longrightarrow> nb = None"
  shows "\<exists>ri. requests s i = Some ri \<and> (\<forall>r0. req_track s0 s l i r0 ri \<longrightarrow> req_track s0 s1 l1 i r0 r')"
proof -
  have dist: "distinct (running s @ waiting s)" using inv by (simp add: sched_inv_def)
  then have drun: "distinct (running s)" by simp
  have m: "idx \<le> m" using post by (auto simp: aop_post_def split: option.splits)
  have P: "sched_inv s1" "running s1 = take m (running s)" "waiting s1 = drop m (running s) @ waiting s"
      "l1 = l\<lparr>l_preempted := l_preempted l @ rev (drop m (running s))\<rparr>"
    using post by (simp_all add: aop_post_def)
  have l1: "l_new l1 = l_new l" "l_resumed l1 = l_resumed l" "l_running l1 = l_running l" "l_blocks l1 = l_blocks l"
    using P(4) by simp_all
  have "i \<in> dom (requests s1)" using i by blast
  then consider (run) "i \<in> set (take m (running s))" | (drop) "i \<in> set (drop m (running s))" | (wait) "i \<in> set (waiting s)"
    using P(1-3) by (auto simp: sched_inv_def)
  then show ?thesis
  proof cases
    case run
    have ne: "i \<noteq> request_id r"
    proof
      assume "i = request_id r"
      with i(2) post run rid idx drun show False
        by (auto simp: aop_post_def in_set_conv_nth nth_eq_iff_index_eq)
    qed
    then have "requests s1 i = requests s i" "kv_same_for (kv_cache_manager s) (kv_cache_manager s1) i"
      using post run by (simp_all add: aop_post_def)
    moreover have "i \<in> set (running s1)" "i \<in> set (running s)" using run P(2) by (auto dest: in_set_takeD)
    ultimately show ?thesis
      using i(1) l1 req_track_frame [of s0 s l i _ r' s1 l1] by (intro exI [of _ r']) (auto simp: kv_same_for_def)
  next
    case drop
    have "set (take m (running s)) \<inter> set (drop m (running s)) = {}" "set (take idx (running s)) \<subseteq> set (take m (running s))"
      by (rule set_take_disj_set_drop_if_distinct [OF drun order_refl], rule set_take_subset_set_take [OF m])
    then have nin: "i \<notin> set (scheduled l)" "i \<notin> set (running s1)" using drop run P(2) by auto
    obtain ri where ri: "requests s i = Some ri" "carried ri r'" "status r' = PREEMPTED"
    proof -
      have "\<exists>r0 r'. requests s i = Some r0 \<and> requests s1 i = Some r' \<and> carried r0 r' \<and> status r' = PREEMPTED"
        using post drop unfolding aop_post_def by blast
      with i(1) that show thesis by auto
    qed
    moreover have "i \<in> set (running s)" using drop by (rule in_set_dropD)
    ultimately show ?thesis
      using nin l1 carried_trans by (auto simp: req_track_def Let_def scheduled_def)
  next
    case wait
    then have w: "i \<notin> set (running s)" using dist by auto
    then have nin: "i \<notin> set (scheduled l)" "i \<notin> set (running s1)" using run P(2) by (auto dest: in_set_takeD)
    have "requests s1 i = requests s i" using post wait by (simp add: aop_post_def)
    then show ?thesis using w nin l1 i(1) by (intro exI [of _ r']) (auto simp: req_track_def Let_def scheduled_def)
  qed
qed

lemma running_some:
  assumes inv: "sched_inv s" and ok: "locals_ok s l" and new: "l_new l = []" "l_resumed l = []"
    and run: "set (l_running l) \<subseteq> set (take idx (running s))" and idx: "idx < length (running s)"
    and r: "requests s (running s ! idx) = Some r"
    and enc: "enc_loop_post s r (num_computed_tokens r) 0 n0 b ids n eb" and n: "n \<noteq> 0" "n \<le> l_token_budget l"
    and post: "aop_post s l idx r n (Some bs) s1 l1 m"
  shows "\<exists>r1 s2 l2. get_req s1 (running s ! idx) = Inr r1 \<and>
     book_encoder_inputs s1 (record_running l1 (running s ! idx) bids n) r1 ids eb = Inr (s2, l2) \<and>
     sched_inv s2 \<and> locals_ok s2 l2 \<and> sched_conf s s2 \<and> running s2 = take m (running s) \<and>
     waiting s2 = drop m (running s) @ waiting s \<and> l_new l2 = [] \<and> l_resumed l2 = [] \<and>
     set (l_running l2) \<subseteq> set (take (Suc idx) (running s2)) \<and> idx < m \<and>
     l_preempted l2 = l_preempted l @ rev (drop m (running s)) \<and>
     (\<forall>s0. tracks s0 s l \<longrightarrow> bids = bs \<longrightarrow> tracks s0 s2 l2) \<and> (writes_ok s \<longrightarrow> writes_ok s2) \<and>
     (enc_sync s (l_preempted l) \<longrightarrow> enc_sync s2 (l_preempted l2)) \<and> no_gain s s2"
proof -
  let ?rid = "running s ! idx"
  have rid: "request_id r = ?rid" using sched_invD(1) [OF inv r] .
  obtain r1 where r1: "requests s1 ?rid = Some r1" "same_req r r1" "sched_ok (kv_cache_manager s1) r1 n" "idx < m"
    and P: "sched_inv s1" "sched_conf s s1" "encoder_cache_manager s1 = encoder_cache_manager s" "m \<le> length (running s)"
      "running s1 = take m (running s)" "waiting s1 = drop m (running s) @ waiting s"
      "l1 = l\<lparr>l_preempted := l_preempted l @ rev (drop m (running s))\<rparr>"
    using post rid by (auto simp: aop_post_def)
  note S = same_req_sel [OF r1(2)]
  let ?l = "record_running l1 ?rid bids n"
  have ids: "distinct ids" "\<forall>i\<in>set ids. i < length (mm_positions r1) \<and> \<not> has_cache (encoder_cache_manager s1) r1 i"
    using enc S P(3) by (auto simp: enc_loop_post_def has_cache_def)
  have rs: "requests s1 (request_id r1) = Some r1" using r1(1) S(1) rid by simp
  obtain e l2 where e: "book_encoder_inputs s1 ?l r1 ids eb = Inr (s1\<lparr>encoder_cache_manager := e\<rparr>, l2)"
      "sched_inv (s1\<lparr>encoder_cache_manager := e\<rparr>)"
      "l2 = (if ids = [] then ?l else ?l\<lparr>l_encoder := AList.update (request_id r1) ids (l_encoder ?l), l_encoder_budget := eb\<rparr>)"
      "get_cached_input_ids e r1 = get_cached_input_ids (encoder_cache_manager s1) r1 \<union> set ids"
      "\<forall>rid. rid \<noteq> request_id r1 \<longrightarrow> cached e rid = cached (encoder_cache_manager s1) rid"
      "freed e = freed (encoder_cache_manager s1)"
    using book_ok [OF P(1) rs ids, of ?l eb] by blast
  let ?s2 = "s1\<lparr>encoder_cache_manager := e\<rparr>"
  have l2: "l_new l2 = []" "l_resumed l2 = []" "l_running l2 = l_running l @ [?rid]"
      "l_tokens l2 = AList.update ?rid n (l_tokens l)" "l_blocks l2 = (l_blocks l)(?rid \<mapsto> bids)"
      "l_token_budget l2 = l_token_budget l - n" "l_preempted l2 = l_preempted l @ rev (drop m (running s))"
    using e(3) new P(7) by (simp_all add: record_running_def)
  have nrun: "?rid \<notin> set (take idx (running s))" "?rid \<in> set (running s1)"
    using inv idx r1(4) P(4,5) by (auto simp: sched_inv_def in_set_conv_nth nth_eq_iff_index_eq)
  have sub: "set (take idx (running s)) \<subseteq> set (take (Suc idx) (running s1))"
    using r1(4) P(5) by (simp add: min_absorb2) (metis le_SucI order_refl set_take_subset_set_take)
  have tok: "tok_ok ?s2 r1 n"
    using r1(3) enc_ready_booked [OF enc n(1) S(5,1,4), of ?s2] e(4) P(3) by (simp add: tok_ok_def)
  have sch: "scheduled l = l_running l" "scheduled l2 = l_running l @ [?rid]" using new l2 by (simp_all add: scheduled_def)
  have "locals_ok ?s2 l2"
  proof (rule locals_ok_add [OF ok, where rid = ?rid and r = r1 and n = n and bids = bids])
    show "requests ?s2 i = Some ri \<and> tok_ok ?s2 ri k"
      if "i \<in> set (scheduled l)" "requests s i = Some ri" "tok_ok s ri k" for i ri k
      by (rule aop_keeps_scheduled [OF inv post idx rid _ that(2,3)]) (use that(1) run sch e(5) S(1) in auto)
  qed (use sub nrun run sch r1 tok l2 n P ok set_take_subset [of "Suc idx" "running s1"] in
      \<open>auto simp: sched_conf_def locals_ok_def\<close>)
  moreover have "set (l_running l2) \<subseteq> set (take (Suc idx) (running s1))"
    using sub run l2(3) r1(4) P(4,5) idx by (auto simp: take_Suc_conv_app_nth)
  moreover have "tracks s0 ?s2 l2" if t: "tracks s0 s l" and b: "bids = bs" for s0
  proof (rule tracks_step [OF t])
    fix i r' assume i: "requests ?s2 i = Some r'"
    show "\<exists>ri. requests s i = Some ri \<and> (\<forall>r0. req_track s0 s l i r0 ri \<longrightarrow> req_track s0 ?s2 l2 i r0 r')"
    proof (cases "i = ?rid")
      case True
      then have r': "r' = r1" using i r1(1) by simp
      have nin: "?rid \<notin> set (scheduled l)" using nrun(1) run sch(1) by auto
      have bl: "blocks_of (kv_cache_manager s1) ?rid = blocks_of (kv_cache_manager s) ?rid @ bs"
        using post rid by (simp add: aop_post_def)
      have "?rid \<in> set (running s)" using idx by simp
      then have "req_track s0 ?s2 l2 ?rid r0 r1" if "req_track s0 s l ?rid r0 r" for r0
        using that nin sch(1) new l2 bl b carried_trans [OF _ carried_same_req [OF r1(2)]]
        by (auto simp: req_track_def Let_def)
      then show ?thesis using r True r' by blast
    next
      case False
      then obtain ri where "requests s i = Some ri" "\<forall>r0. req_track s0 s l i r0 ri \<longrightarrow> req_track s0 s1 l1 i r0 r'"
        using aop_track_other [OF inv post idx rid, of i r' s0] i run sch(1) rid by auto
      moreover have "req_track s0 ?s2 l2 i r0 r'" if "req_track s0 s1 l1 i r0 r'" for r0
        by (rule req_track_frame [OF that]) (use False l2 new P(7) in auto)
      ultimately show ?thesis by blast
    qed
  qed
  moreover have "writes_ok ?s2" if "writes_ok s"
  proof (rule writes_ok_mono)
    show "writes_ok s1" using post that by (simp add: aop_post_def)
    show "\<exists>k. own_blocks ?s2 i = drop k (own_blocks s1 i)" for i by (intro own_blocks_same own_blocks_cong) simp_all
  qed
  moreover have "enc_sync ?s2 (l_preempted l2)" if sync: "enc_sync s (l_preempted l)"
  proof -
    have "enc_sync s1 (l_preempted l1)" using aop_sync [OF inv post sync] r rid idx by simp
    moreover have "encoder_cache s1 = encoder_cache s" using P(2) by (simp add: sched_conf_def)
    ultimately show ?thesis
      using enc_sync_book [OF _ P(1) rs _ e(4-6) enc] nrun(2) S rid l2(7) P(7) by simp
  qed
  moreover have "no_gain s ?s2" using aop_no_gain [OF inv post] r rid idx by (simp add: no_gain_def)
  ultimately show ?thesis
    using e(1,2) l2 P r1 by (auto simp: get_req_def sched_conf_def)
qed

text \<open>
  The state between the queue walks.  \<open>order s s'\<close>: running requests followed by waiting ones are the
  same list, so preemption and admission keep the order of arrival.
\<close>

definition same_order :: "Scheduler \<Rightarrow> Scheduler \<Rightarrow> bool" where
  "same_order s s' \<longleftrightarrow> running s' @ waiting s' = running s @ waiting s"

definition loop_post :: "Scheduler \<Rightarrow> sched_locals \<Rightarrow> Scheduler \<Rightarrow> sched_locals \<Rightarrow> bool" where
  "loop_post s l s' l' \<longleftrightarrow>
     sched_inv s' \<and> locals_ok s' l' \<and> sched_conf s s' \<and> same_order s s' \<and>
     (\<forall>s0. tracks s0 s l \<longrightarrow> tracks s0 s' l') \<and> (writes_ok s \<longrightarrow> writes_ok s') \<and>
     (enc_sync s (l_preempted l) \<longrightarrow> enc_sync s' (l_preempted l')) \<and> no_gain s s' \<and>
     (set (l_preempted l) \<subseteq> set (waiting s) \<longrightarrow> set (l_preempted l') \<subseteq> set (waiting s'))"

lemma loop_post_refl: "sched_inv s \<Longrightarrow> locals_ok s l \<Longrightarrow> loop_post s l s l"
  by (simp add: loop_post_def same_order_def)

lemma loop_post_trans: "loop_post a la b lb \<Longrightarrow> loop_post b lb c lc \<Longrightarrow> loop_post a la c lc"
  by (auto simp: loop_post_def same_order_def intro: sched_conf_trans no_gain_trans)

lemma running_none:
  assumes inv: "sched_inv s" and ok: "locals_ok s l" and new: "l_new l = []" "l_resumed l = []"
    and run: "set (l_running l) \<subseteq> set (take idx (running s))" and idx: "idx < length (running s)"
    and r: "requests s (running s ! idx) = Some r" and post: "aop_post s l idx r n None s1 l1 m"
  shows "loop_post s l s1 l1" and "l_new l1 = []" and "l_resumed l1 = []"
proof -
  have P: "sched_inv s1" "sched_conf s s1" "running s1 = take idx (running s)" "waiting s1 = drop idx (running s) @ waiting s"
      "l1 = l\<lparr>l_preempted := l_preempted l @ rev (drop idx (running s))\<rparr>"
    using post by (auto simp: aop_post_def)
  have rid: "request_id r = running s ! idx" using sched_invD(1) [OF inv r] .
  show "l_new l1 = []" "l_resumed l1 = []" using P(5) new by simp_all
  have sch: "scheduled l = l_running l" using new by (simp add: scheduled_def)
  have id: "s1\<lparr>encoder_cache_manager := encoder_cache_manager s1\<rparr> = s1" by simp
  have "locals_ok s1 l1"
  proof (rule locals_ok_keep [OF ok])
    show "requests s1 i = Some ri \<and> tok_ok s1 ri k"
      if "i \<in> set (scheduled l)" "requests s i = Some ri" "tok_ok s ri k" for i ri k
      using aop_keeps_scheduled [OF inv post idx rid _ that(2,3), of "encoder_cache_manager s1"] that(1) run sch id by auto
  qed (use P run sch in \<open>auto simp: sched_conf_def scheduled_def\<close>)
  moreover have "tracks s0 s1 l1" if "tracks s0 s l" for s0
    by (rule tracks_step [OF that aop_track_other [OF inv post idx rid]]) (use run sch in auto)
  moreover have "writes_ok s \<longrightarrow> writes_ok s1" using post by (simp add: aop_post_def)
  moreover have "enc_sync s (l_preempted l) \<longrightarrow> enc_sync s1 (l_preempted l1)"
    using aop_sync [OF inv post] r rid idx by simp
  moreover have "no_gain s s1" using aop_no_gain [OF inv post] r rid idx by simp
  ultimately show "loop_post s l s1 l1" using P by (auto simp: loop_post_def same_order_def)
qed

text \<open>One iteration over the running queue ends the loop or leads to the next index.\<close>

lemma running_iter:
  assumes inv: "sched_inv s" and ok: "locals_ok s l" and new: "l_new l = []" "l_resumed l = []"
    and run: "set (l_running l) \<subseteq> set (take idx (running s))"
    and go: "idx < length (running s) \<and> 0 < l_token_budget l"
  shows "\<exists>s' l'. loop_post s l s' l' \<and> l_new l' = [] \<and> l_resumed l' = [] \<and>
     (running_loop hf s l idx = Inr (s', l') \<or>
      running_loop hf s l idx = running_loop hf s' l' (Suc idx) \<and> length (running s') \<le> length (running s) \<and>
      set (l_running l') \<subseteq> set (take (Suc idx) (running s')))"
proof -
  let ?rid = "running s ! idx"
  have idx: "idx < length (running s)" using go by simp
  obtain r where r: "requests s ?rid = Some r" using sched_inv_req [OF inv, of ?rid] idx by auto
  note D = sched_invD [OF inv r]
  let ?n0 = "min (num_tokens r - num_computed_tokens r) (l_token_budget l)"
  have n0: "0 < ?n0" and wf: "request_wf r" using D(2) go by (simp_all add: req_ok_def)
  obtain ids n eb where t: "try_schedule_encoder_inputs s r (num_computed_tokens r) ?n0 (l_encoder_budget l) = Inr (ids, n, eb)"
      "enc_loop_post s r (num_computed_tokens r) 0 ?n0 (l_encoder_budget l) ids n eb"
    using try_schedule_ok [OF inv wf, of ?n0] n0 by fastforce
  have n: "0 \<le> n" "n \<le> ?n0" using t(2) by (simp_all add: enc_loop_post_def)
  have unf: "running_loop hf s l idx = (if n = 0 then running_loop hf s l (Suc idx) else
      py_bind (alloc_or_preempt hf s l ?rid n) (\<lambda>(nb, s1, l1).
        case nb of None \<Rightarrow> Inr (s1, l1)
         | Some bs \<Rightarrow> py_bind (get_req s1 ?rid) (\<lambda>r1.
             py_bind (book_encoder_inputs s1 (record_running l1 ?rid (map (bid (kv_cache_manager s1)) bs) n) r1 ids eb)
               (\<lambda>(s2, l2). running_loop hf s2 l2 (Suc idx)))))"
    using r n0 t(1) go by (subst running_loop.simps) (simp add: get_req_def Let_def)
  show ?thesis
  proof (cases "n = 0")
    case True
    have "set (l_running l) \<subseteq> set (take (Suc idx) (running s))"
      using run by (meson le_SucI order_refl set_take_subset_set_take subset_trans)
    then show ?thesis using unf True new loop_post_refl [OF inv ok] by auto
  next
    case False
    have tot: "0 < n" "num_computed_tokens r + n \<le> num_tokens r" "n \<le> l_token_budget l" using n False by auto
    obtain nb s1 l1 m where a: "alloc_or_preempt hf s l ?rid n = Inr (nb, s1, l1)" "aop_post s l idx r n nb s1 l1 m"
      using alloc_or_preempt_ok [OF inv idx r tot(1,2), of hf l] by blast
    show ?thesis
    proof (cases nb)
      case None
      then show ?thesis
        using unf False a(1) running_none [OF inv ok new run idx r a(2) [unfolded None]] by auto
    next
      case (Some bs)
      let ?bids = "map (bid (kv_cache_manager s1)) bs"
      have bids: "?bids = bs"
        using a(2) unfolding Some aop_post_def by (intro map_bid [of _ _ "request_id r"]) (auto simp: sched_inv_def)
      obtain r1 s2 l2 where b: "get_req s1 ?rid = Inr r1"
          "book_encoder_inputs s1 (record_running l1 ?rid ?bids n) r1 ids eb = Inr (s2, l2)"
          "sched_inv s2" "locals_ok s2 l2" "sched_conf s s2" "running s2 = take m (running s)"
          "waiting s2 = drop m (running s) @ waiting s" "l_new l2 = []" "l_resumed l2 = []"
          "set (l_running l2) \<subseteq> set (take (Suc idx) (running s2))"
          "l_preempted l2 = l_preempted l @ rev (drop m (running s))" "\<forall>s0. tracks s0 s l \<longrightarrow> tracks s0 s2 l2"
          "writes_ok s \<longrightarrow> writes_ok s2" "enc_sync s (l_preempted l) \<longrightarrow> enc_sync s2 (l_preempted l2)" "no_gain s s2"
        using running_some [OF inv ok new run idx r t(2) False tot(3) a(2) [unfolded Some], of ?bids] bids by blast
      have "loop_post s l s2 l2" using b(3-7,11-15) by (auto simp: loop_post_def same_order_def)
      moreover have "running_loop hf s l idx = running_loop hf s2 l2 (Suc idx)"
        using unf False a(1) Some b(1,2) by simp
      moreover have "length (running s2) \<le> length (running s)" using b(6) by simp
      ultimately show ?thesis using b(8-10) by blast
    qed
  qed
qed

lemma running_loop_ok:
  "sched_inv s \<Longrightarrow> locals_ok s l \<Longrightarrow> l_new l = [] \<Longrightarrow> l_resumed l = [] \<Longrightarrow>
   set (l_running l) \<subseteq> set (take idx (running s)) \<Longrightarrow>
   \<exists>s' l'. running_loop hf s l idx = Inr (s', l') \<and> loop_post s l s' l' \<and> l_new l' = [] \<and> l_resumed l' = []"
proof (induction "length (running s) - idx" arbitrary: s l idx rule: less_induct)
  case less
  show ?case
  proof (cases "idx < length (running s) \<and> 0 < l_token_budget l")
    case False
    then show ?thesis
      using less.prems loop_post_refl by (subst running_loop.simps) auto
  next
    case True
    obtain s1 l1 where p: "loop_post s l s1 l1" "l_new l1 = []" "l_resumed l1 = []" and
      c: "running_loop hf s l idx = Inr (s1, l1) \<or>
        running_loop hf s l idx = running_loop hf s1 l1 (Suc idx) \<and> length (running s1) \<le> length (running s) \<and>
        set (l_running l1) \<subseteq> set (take (Suc idx) (running s1))"
      using running_iter [OF less.prems True, of hf] by blast
    from c show ?thesis
    proof
      assume "running_loop hf s l idx = Inr (s1, l1)"
      then show ?thesis using p by blast
    next
      assume n: "running_loop hf s l idx = running_loop hf s1 l1 (Suc idx) \<and> length (running s1) \<le> length (running s) \<and>
        set (l_running l1) \<subseteq> set (take (Suc idx) (running s1))"
      then have lt: "length (running s1) - Suc idx < length (running s) - idx" using True by linarith
      have "sched_inv s1" "locals_ok s1 l1" using p(1) by (simp_all add: loop_post_def)
      from less.hyps [OF lt this p(2,3)] n p(1) loop_post_trans show ?thesis by fastforce
    qed
  qed
qed

section \<open>Admission\<close>

lemma generate_extra_keys_nonneg:
  assumes "mm_keys_ok r" and "0 \<le> mi"
  shows "\<exists>ek mi'. generate_block_hash_extra_keys r s e mi = Inr (ek, mi') \<and> 0 \<le> mi'"
  using assms by (auto simp: generate_block_hash_extra_keys_def mm_keys_ok_def Let_def py_bind_def split: prod.splits)

lemma hash_blocks_from_ok:
  "mm_keys_ok r \<Longrightarrow> 0 \<le> mi \<Longrightarrow> \<exists>hs. hash_blocks_from hf bs r start parent ek mi = Inr hs"
proof (induction hf bs r start parent ek mi rule: hash_blocks_from.induct)
  case (1 hf bs r start parent ek mi)
  let ?toks = "take bs (drop start (all_token_ids r))"
  show ?case
  proof (cases "0 < bs \<and> start < length (all_token_ids r) \<and> \<not> length ?toks < bs")
    case False
    then show ?thesis by (subst hash_blocks_from.simps) (auto simp: Let_def)
  next
    case True
    obtain ek' mi' where g: "(if mm_positions r \<noteq> [] then generate_block_hash_extra_keys r (int start) (int (start + bs)) mi
             else Inr (ek, mi)) = Inr (ek', mi')" "0 \<le> mi'"
      using generate_extra_keys_nonneg [OF "1.prems", of "int start" "int (start + bs)"] "1.prems"(2) by (cases "mm_positions r = []") auto
    then obtain hs where "hash_blocks_from hf bs r (start + bs)
        (Some (hash_value (hash_block_tokens hf parent ?toks ek'))) ek' mi' = Inr hs"
      using "1.IH" [OF _ refl _ refl "1.prems"(1) g(2)] True by blast
    then show ?thesis using True g(1) by (subst hash_blocks_from.simps) (simp add: Let_def)
  qed
qed

lemma hash_request_tokens_ok:
  assumes "0 < bs" and "mm_keys_ok r"
  shows "\<exists>hs. hash_request_tokens hf bs r = Inr hs \<and> int (length hs) * bs \<le> num_tokens r"
proof -
  obtain hs where hs: "hash_blocks_from hf (nat bs) r 0 None None 0 = Inr hs"
    using hash_blocks_from_ok [OF assms(2), of 0] by blast
  have "length hs = length (all_token_ids r) div nat bs"
    using hash_blocks_from_length [OF hs] assms(1) by simp
  then have "length hs * nat bs \<le> length (all_token_ids r)" by simp
  then have "int (length hs) * bs \<le> num_tokens r"
    using assms(1) by (metis num_tokens_def int_nat_eq less_imp_le of_nat_mono of_nat_mult)
  with hs assms show ?thesis by (auto simp: hash_request_tokens_def mm_keys_ok_def)
qed

lemma get_computed_blocks_ok:
  assumes good: "kvm_good m" and keys: "enable_caching m \<longrightarrow> mm_keys_ok r \<and>
      int (length (kv_block_hashes r)) * block_size m \<le> num_tokens r"
  shows "\<exists>bs r'. get_computed_blocks hf m r = Inr ((bs, int (length bs) * block_size m), r') \<and> same_req r r' \<and>
     (bs \<noteq> [] \<longrightarrow> enable_caching m) \<and> (\<forall>b\<in>set bs. b < num_gpu_blocks m \<and> bhash m b \<noteq> None) \<and>
     length bs \<le> length (kv_block_hashes r') \<and>
     (enable_caching m \<longrightarrow> int (length (kv_block_hashes r')) * block_size m \<le> num_tokens r)"
proof (cases "enable_caching m")
  case False
  then show ?thesis by (simp add: get_computed_blocks_def)
next
  case True
  obtain fl where rep: "kvm_rep m fl []" and bs: "0 < block_size m"
    using good by (auto simp: kvm_good_def kvm_inv_def kvm_conf_ok_def)
  obtain r1 where r1: "(if kv_block_hashes r = [] then
           py_bind (hash_request_tokens hf (block_size m) r) (\<lambda>hs. Inr (set_kv_block_hashes r hs)) else Inr r) = Inr r1"
      "int (length (kv_block_hashes r1)) * block_size m \<le> num_tokens r"
    using hash_request_tokens_ok [OF bs, of r hf] keys True
    by (cases "kv_block_hashes r = []") (auto simp: set_kv_block_hashes_def)
  let ?hits = "map (\<lambda>h. hd (the (cached_block_hash_to_block m h)))
            (takeWhile (\<lambda>h. cached_block_hash_to_block m h \<noteq> None) (kv_block_hashes r1))"
  have g: "get_computed_blocks hf m r = Inr ((?hits, int (length ?hits) * block_size m), r1)"
    unfolding get_computed_blocks_def r1(1) using True computed_blocks_loop_spec [OF rep] by (simp add: py_bind_def)
  note S = get_computed_blocks_spec [OF rep g]
  have "\<forall>b\<in>set ?hits. b < num_gpu_blocks m \<and> bhash m b \<noteq> None"
    using S(3) by (metis in_set_conv_nth option.distinct(1))
  with g S(1) r1(2) True show ?thesis by blast
qed

text \<open>The tokens that remain behind the usable hits; there is always at least one.\<close>

lemma usable_hits_ok:
  assumes bs: "0 < s_block_size s" and pos: "0 < num_tokens r"
    and le: "int (length hits) * s_block_size s \<le> num_tokens r"
  shows "\<exists>hits' i. usable_hits s r hits (int (length hits) * s_block_size s) =
       Inr (hits', int (length hits') * s_block_size s, num_tokens r - int (length hits') * s_block_size s) \<and>
     hits' = take i hits \<and> int (length hits') * s_block_size s < num_tokens r"
proof (cases "num_tokens r = int (length hits) * s_block_size s")
  case True
  then have ne: "hits \<noteq> []" using pos by auto
  have len: "int (length (butlast hits)) * s_block_size s = int (length hits) * s_block_size s - s_block_size s"
    using ne by (cases hits) (simp_all add: algebra_simps)
  with True ne bs show ?thesis
    by (intro exI [of _ "butlast hits"] exI [of _ "length hits - 1"]) (simp add: usable_hits_def butlast_conv_take)
next
  case False
  with le show ?thesis
    by (intro exI [of _ hits] exI [of _ "length hits"]) (simp add: usable_hits_def)
qed

text \<open>Storing the block hashes in a waiting request.\<close>

lemma waiting_put:
  assumes inv: "sched_inv s" and r: "requests s rid = Some r" and w: "rid \<notin> set (running s)" and s: "same_req r r'"
    and kv: "kvm_good kv'" "same_conf (kv_cache_manager s) kv'" "\<forall>rid'. kv_same_for (kv_cache_manager s) kv' rid'"
    and len: "enable_caching kv' \<longrightarrow> int (length (kv_block_hashes r')) * block_size kv' \<le> num_tokens r"
  shows "sched_inv (put_req (s\<lparr>kv_cache_manager := kv'\<rparr>) r')"
proof -
  note D = sched_invD [OF inv r] and S = same_req_sel [OF s]
  have nct: "num_computed_tokens r = 0" "status r \<in> {WAITING, PREEMPTED}" using D w by (simp_all add: req_status_ok_def)
  have bl: "blocks_of kv' rid = []" using inv w kv(3) by (simp add: sched_inv_def kv_same_for_def)
  have "hashes_cover kv' r' (num_computed_tokens r)"
    using bl nct S(1) D(1) by (simp add: hashes_cover_def hashed_prefix_def)
  then have "req_ok kv' r'" using req_ok_same [OF D(2) s kv(2)] len kv(2) blocks_bounded_Nil [OF bl] D(1)
    by (simp add: same_conf_def)
  then have "sched_inv ((put_req (s\<lparr>kv_cache_manager := kv'\<rparr>) r')\<lparr>running := running s, waiting := waiting s\<rparr>)"
    by (intro sched_inv_step [OF inv r kv(1,2)])
      (use S D nct bl w kv(3) inv in \<open>auto simp: sched_inv_def\<close>)
  moreover have "(put_req (s\<lparr>kv_cache_manager := kv'\<rparr>) r')\<lparr>running := running s, waiting := waiting s\<rparr> =
      put_req (s\<lparr>kv_cache_manager := kv'\<rparr>) r'" by (simp add: put_req_def)
  ultimately show ?thesis by simp
qed

text \<open>A change to a request that is not running, and to KV blocks of nobody else, keeps the locals.\<close>

lemma locals_ok_other:
  assumes inv: "sched_inv s" and ok: "locals_ok s l" and w: "rid \<notin> set (running s)"
    and s': "\<forall>i. i \<noteq> rid \<longrightarrow> requests s' i = requests s i" "running s' = running s"
      "same_conf (kv_cache_manager s) (kv_cache_manager s')"
      "\<forall>i. i \<noteq> rid \<longrightarrow> kv_same_for (kv_cache_manager s) (kv_cache_manager s') i"
      "encoder_cache_manager s' = encoder_cache_manager s" "max_num_scheduled_tokens s' = max_num_scheduled_tokens s"
  shows "locals_ok s' l"
proof (rule locals_ok_keep [OF ok])
  have sub: "set (scheduled l) \<subseteq> set (running s)" using ok by (simp add: locals_ok_def)
  show "set (scheduled l) \<subseteq> set (running s')" using sub s'(2) by simp
  show "requests s' i = Some r \<and> tok_ok s' r n"
    if i: "i \<in> set (scheduled l)" "requests s i = Some r" "tok_ok s r n" for i r n
  proof -
    have ne: "i \<noteq> rid" using i(1) sub w by blast
    then have "kv_same_for (kv_cache_manager s) (kv_cache_manager s') (request_id r)"
      using s'(4) sched_invD(1) [OF inv i(2)] by simp
    from tok_ok_frame [OF i(3) this s'(3)] s'(1,5) ne i(2) show ?thesis by simp
  qed
qed (use s' in auto)

end
