(* ===== verification/SchedulerStep.thy ===== *)
theory SchedulerStep
  imports SchedulerInv
begin

text \<open>
  A whole scheduling step and the processing of its output: admission of waiting requests, the final
  checks of \<open>schedule\<close>, and \<open>update_from_output\<close> never raise and keep the invariant.
\<close>

section \<open>Admitting a waiting request\<close>

lemma status_frame [simp]:
  "request_wf (r\<lparr>status := st, num_computed_tokens := k\<rparr>) = request_wf r"
  "num_tokens (r\<lparr>status := st, num_computed_tokens := k\<rparr>) = num_tokens r"
  "mm_keys_ok (r\<lparr>status := st, num_computed_tokens := k\<rparr>) = mm_keys_ok r"
  "hashes_cover kv (r\<lparr>status := st, num_computed_tokens := k\<rparr>) n = hashes_cover kv r n"
  by (simp_all add: request_wf_def num_tokens_def mm_keys_ok_def hashes_cover_def)

lemma admit_ok:
  assumes inv: "sched_inv s" and w: "waiting s = rid # ws" and r: "requests s rid = Some r"
    and room: "int (length (running s)) < max_num_running_reqs s"
    and kv: "kvm_good kv'" "same_conf (kv_cache_manager s) kv'"
      "\<forall>i. i \<noteq> rid \<longrightarrow> kv_same_for (kv_cache_manager s) kv' i"
    and s: "same_req r r2" and n: "0 < n" "0 \<le> nct" "nct + n \<le> num_tokens r"
    and cover: "hashes_cover kv' r2 (nct + n)"
    and len: "enable_caching kv' \<longrightarrow> int (length (kv_block_hashes r2)) * block_size kv' \<le> num_tokens r"
    and bnd: "blocks_bounded kv' rid"
  shows "\<exists>s3 l3. admit (put_req (s\<lparr>kv_cache_manager := kv'\<rparr>) r2) l r2 hits nb n nct = Inr (s3, l3) \<and>
     sched_inv s3 \<and> sched_conf s s3 \<and> running s3 = running s @ [rid] \<and> waiting s3 = ws \<and>
     kv_cache_manager s3 = kv' \<and> encoder_cache_manager s3 = encoder_cache_manager s \<and>
     requests s3 = (requests s)(rid \<mapsto> r2\<lparr>status := RUNNING, num_computed_tokens := nct\<rparr>) \<and>
     l_new l3 = (if status r = WAITING then l_new l @ [rid] else l_new l) \<and>
     l_resumed l3 = (if status r = WAITING then l_resumed l else l_resumed l @ [rid]) \<and> l_running l3 = l_running l \<and>
     l_preempted l3 = l_preempted l \<and> l_encoder_budget l3 = l_encoder_budget l \<and> l_encoder l3 = l_encoder l \<and>
     l_tokens l3 = AList.update rid n (l_tokens l) \<and> l_token_budget l3 = l_token_budget l - n \<and>
     l_blocks l3 = (l_blocks l)(rid \<mapsto> map (bid kv') (hits @ nb))"
proof -
  note D = sched_invD [OF inv r] and S = same_req_sel [OF s]
  let ?r = "r2\<lparr>status := RUNNING, num_computed_tokens := nct\<rparr>"
  have dist: "distinct (running s @ rid # ws)" using inv w by (simp add: sched_inv_def)
  then have nr: "rid \<notin> set (running s)" by simp
  have st: "status r2 \<in> {WAITING, PREEMPTED}" using D(1,3) nr S(2) by (simp add: req_status_ok_def)
  have bs: "0 < block_size kv'" using kv(1) by (simp add: kvm_good_def kvm_conf_ok_def)
  have "hashes_cover kv' r2 nct" using hashes_cover_mono [OF cover bs, of nct] n by simp
  then have ok: "req_ok kv' ?r"
    using D(1,2) S n len kv(2) bnd mm_keys_ok_same [OF s] request_wf_same [OF s]
    by (simp add: req_ok_def status_frame same_conf_def)
  have "sched_inv ((put_req (s\<lparr>kv_cache_manager := kv'\<rparr>) ?r)\<lparr>running := running s @ [rid], waiting := ws\<rparr>)"
    by (rule sched_inv_step [OF inv r kv]) (use ok S D dist room w in auto)
  moreover have "admit (put_req (s\<lparr>kv_cache_manager := kv'\<rparr>) r2) l r2 hits nb n nct =
      Inr ((put_req (s\<lparr>kv_cache_manager := kv'\<rparr>) ?r)\<lparr>running := running s @ [rid], waiting := ws\<rparr>,
        (if status r = WAITING then l\<lparr>l_new := l_new l @ [rid]\<rparr> else l\<lparr>l_resumed := l_resumed l @ [rid]\<rparr>)
          \<lparr>l_blocks := (l_blocks l)(rid \<mapsto> map (bid kv') (hits @ nb)), l_tokens := AList.update rid n (l_tokens l),
           l_token_budget := l_token_budget l - n\<rparr>)"
    using st S(1,2) D(1) w by (auto simp: admit_def put_req_def Let_def)
  ultimately show ?thesis
    using kv(2) S(1) D(1) by (auto simp: sched_conf_def scheduled_def)
qed

text \<open>The prefix lookup for the first waiting request.\<close>

lemma waiting_lookup:
  assumes inv: "sched_inv s" and w: "waiting s = rid # ws" and r: "requests s rid = Some r"
  shows "\<exists>hits0 nct0 r1 hits nct. get_computed_blocks hf (kv_cache_manager s) r = Inr ((hits0, nct0), r1) \<and>
     usable_hits (put_req s r1) r1 hits0 nct0 = Inr (hits, nct, num_tokens r - nct) \<and> same_req r r1 \<and>
     sched_inv (put_req s r1) \<and> nct = int (length hits) * block_size (kv_cache_manager s) \<and>
     0 \<le> nct \<and> nct < num_tokens r \<and>
     (\<forall>n. 0 < n \<longrightarrow> nct + n \<le> num_tokens r \<longrightarrow> alloc_ready (kv_cache_manager s) r1 n hits)"
proof -
  let ?kv = "kv_cache_manager s"
  note D = sched_invD [OF inv r]
  have nr: "rid \<notin> set (running s)" using inv w by (simp add: sched_inv_def)
  have nct0: "num_computed_tokens r = 0" using D nr by (simp add: req_status_ok_def)
  have good: "kvm_good ?kv" and bs: "0 < block_size ?kv" "s_block_size s = block_size ?kv"
    and bl: "blocks_of ?kv rid = []"
    using inv nr by (simp_all add: sched_inv_def kvm_good_def kvm_conf_ok_def)
  have keys: "enable_caching ?kv \<longrightarrow> mm_keys_ok r \<and> int (length (kv_block_hashes r)) * block_size ?kv \<le> num_tokens r"
    and tot: "num_tokens r \<le> max_model_len ?kv" "0 < num_tokens r" using D(2) by (auto simp: req_ok_def)
  obtain hits0 r1 where g: "get_computed_blocks hf ?kv r = Inr ((hits0, int (length hits0) * block_size ?kv), r1)"
      "same_req r r1" "hits0 \<noteq> [] \<longrightarrow> enable_caching ?kv" "\<forall>b\<in>set hits0. b < num_gpu_blocks ?kv \<and> bhash ?kv b \<noteq> None"
      "length hits0 \<le> length (kv_block_hashes r1)"
      "enable_caching ?kv \<longrightarrow> int (length (kv_block_hashes r1)) * block_size ?kv \<le> num_tokens r"
    using get_computed_blocks_ok [OF good keys, of hf] by blast
  note S = same_req_sel [OF g(2)]
  have le: "int (length hits0) * block_size ?kv \<le> num_tokens r1"
  proof (cases "hits0 = []")
    case False
    then have "int (length hits0) * block_size ?kv \<le> int (length (kv_block_hashes r1)) * block_size ?kv"
      using g(5) bs(1) by (simp add: mult_right_mono)
    with g(3,6) False S(8) show ?thesis by simp
  qed (use tot S(8) in simp)
  obtain hits i where u: "usable_hits (put_req s r1) r1 hits0 (int (length hits0) * block_size ?kv) =
        Inr (hits, int (length hits) * block_size ?kv, num_tokens r1 - int (length hits) * block_size ?kv)"
      "hits = take i hits0" "int (length hits) * block_size ?kv < num_tokens r1"
    using usable_hits_ok [of "put_req s r1" r1 hits0] le tot(2) S(8) bs by auto
  have hp: "set hits \<subseteq> set hits0" "length hits \<le> length hits0" using u(2) by (auto dest: in_set_takeD)
  have "s\<lparr>kv_cache_manager := ?kv\<rparr> = s" by simp
  then have inv1: "sched_inv (put_req s r1)"
    using waiting_put [OF inv r nr g(2) good same_conf_refl] g(6) by simp
  have ready: "alloc_ready ?kv r1 n hits" if "0 < n" "int (length hits) * block_size ?kv + n \<le> num_tokens r" for n
  proof -
    have "hashed_prefix ?kv (blocks_of ?kv (request_id r1)) 0"
      using bl S(1) D(1) by (simp add: hashed_prefix_def)
    moreover have "enable_caching ?kv \<longrightarrow> mm_keys_ok r1" using keys mm_keys_ok_same [OF g(2)] by simp
    ultimately show ?thesis
      using that g(3-6) S nct0 tot(1) bl D(1) hp unfolding alloc_ready_def by auto
  qed
  show ?thesis
    using g(1,2) u inv1 ready bs(1) S(8) by (intro exI [of _ hits0] exI [of _ "int (length hits0) * block_size ?kv"]
      exI [of _ r1] exI [of _ hits] exI [of _ "int (length hits) * block_size ?kv"]) simp
qed

text \<open>A waiting request whose blocks were allocated is admitted and its encoder inputs are booked.\<close>

lemma waiting_some:
  assumes inv: "sched_inv s" and ok: "locals_ok s l" and w: "waiting s = rid # ws" and r: "requests s rid = Some r"
    and room: "int (length (running s)) < max_num_running_reqs s"
    and kv: "kvm_good kv'" "same_conf (kv_cache_manager s) kv'"
      "\<forall>i. i \<noteq> rid \<longrightarrow> kv_same_for (kv_cache_manager s) kv' i"
    and s: "same_req r r2" and n: "0 < n" "0 \<le> nct" "nct + n \<le> num_tokens r" "n \<le> l_token_budget l"
    and cover: "hashes_cover kv' r2 (nct + n)" "nct + n \<le> int (length (blocks_of kv' rid)) * block_size kv'"
    and len: "enable_caching kv' \<longrightarrow> int (length (kv_block_hashes r2)) * block_size kv' \<le> num_tokens r"
    and enc: "enc_loop_post s r nct 0 n0 b ids n eb" and pre: "l_preempted l = []"
    and bl: "blocks_of kv' rid = hits @ nb" "blocks_bounded kv' rid" "fresh_blocks (kv_cache_manager s) nb"
    and hits: "nct = int (length hits) * block_size (kv_cache_manager s)" "hits \<noteq> [] \<Longrightarrow> enable_caching (kv_cache_manager s)"
  shows "\<exists>s3 l3 r3 s4 l4. admit (put_req (s\<lparr>kv_cache_manager := kv'\<rparr>) r2) l r2 hits nb n nct = Inr (s3, l3) \<and>
     get_req s3 rid = Inr r3 \<and> book_encoder_inputs s3 l3 r3 ids eb = Inr (s4, l4) \<and> loop_post s l s4 l4 \<and>
     length (waiting s4) < length (waiting s) \<and> l_preempted l4 = l_preempted l"
proof -
  note D = sched_invD [OF inv r] and S = same_req_sel [OF s]
  let ?r = "r2\<lparr>status := RUNNING, num_computed_tokens := nct\<rparr>"
  obtain s3 l3 where a: "admit (put_req (s\<lparr>kv_cache_manager := kv'\<rparr>) r2) l r2 hits nb n nct = Inr (s3, l3)"
     "sched_inv s3" "sched_conf s s3" "running s3 = running s @ [rid]" "waiting s3 = ws" "kv_cache_manager s3 = kv'"
     "encoder_cache_manager s3 = encoder_cache_manager s" "requests s3 = (requests s)(rid \<mapsto> ?r)"
     "l_new l3 = (if status r = WAITING then l_new l @ [rid] else l_new l)"
     "l_resumed l3 = (if status r = WAITING then l_resumed l else l_resumed l @ [rid])" "l_running l3 = l_running l"
     "l_preempted l3 = l_preempted l" "l_encoder_budget l3 = l_encoder_budget l" "l_encoder l3 = l_encoder l"
     "l_tokens l3 = AList.update rid n (l_tokens l)" "l_token_budget l3 = l_token_budget l - n"
     "l_blocks l3 = (l_blocks l)(rid \<mapsto> map (bid kv') (hits @ nb))"
    using admit_ok [OF inv w r room kv s n(1-3) cover(1) len bl(2), of l hits nb] by blast
  have r3: "requests s3 (request_id ?r) = Some ?r" "request_id ?r = rid" using a(8) S(1) D(1) by simp_all
  have ids: "distinct ids" "\<forall>i\<in>set ids. i < length (mm_positions ?r) \<and> \<not> has_cache (encoder_cache_manager s3) ?r i"
    using enc S a(7) by (auto simp: enc_loop_post_def has_cache_def)
  obtain e l4 where e: "book_encoder_inputs s3 l3 ?r ids eb = Inr (s3\<lparr>encoder_cache_manager := e\<rparr>, l4)"
      "sched_inv (s3\<lparr>encoder_cache_manager := e\<rparr>)"
      "l4 = (if ids = [] then l3 else l3\<lparr>l_encoder := AList.update (request_id ?r) ids (l_encoder l3), l_encoder_budget := eb\<rparr>)"
      "get_cached_input_ids e ?r = get_cached_input_ids (encoder_cache_manager s3) ?r \<union> set ids"
      "\<forall>i. i \<noteq> rid \<longrightarrow> cached e i = cached (encoder_cache_manager s3) i" "freed e = freed (encoder_cache_manager s3)"
    using book_ok [OF a(2) r3(1) ids, of l3 eb] r3(2) by metis
  let ?s4 = "s3\<lparr>encoder_cache_manager := e\<rparr>"
  have l4: "scheduled l4 = scheduled l3" "l_tokens l4 = l_tokens l3" "l_blocks l4 = l_blocks l3"
      "l_token_budget l4 = l_token_budget l3" "l_preempted l4 = l_preempted l3"
    using e(3) by (simp_all add: scheduled_def)
  have sub: "set (scheduled l) \<subseteq> set (running s)" "distinct (scheduled l)" using ok by (simp_all add: locals_ok_def)
  have nr: "rid \<notin> set (running s)" using inv w by (simp add: sched_inv_def)
  have "sched_ok kv' ?r n" using n cover S r3(2) by (simp add: sched_ok_def)
  moreover have "enc_ready ?s4 ?r n"
    by (rule enc_ready_booked [OF enc]) (use n S e(4) a(7) in simp_all)
  ultimately have tok: "tok_ok ?s4 ?r n" using a(6) by (simp add: tok_ok_def)
  have "locals_ok ?s4 l4"
  proof (rule locals_ok_add [OF ok, where rid = rid and r = ?r and n = n and bids = "map (bid kv') (hits @ nb)"])
    show "requests ?s4 i = Some ri \<and> tok_ok ?s4 ri k"
      if "i \<in> set (scheduled l)" "requests s i = Some ri" "tok_ok s ri k" for i ri k
    proof -
      have i: "i \<noteq> rid" "request_id ri = i" using that(1) sub(1) nr sched_invD(1) [OF inv that(2)] by auto
      have "get_cached_input_ids e ri = get_cached_input_ids (encoder_cache_manager s) ri"
        using e(5) i a(7) by (intro cached_ids_cong) simp
      with tok_ok_frame [OF that(3), of ?s4] i kv a(6,8) that(2) show ?thesis by simp
    qed
    show "distinct (scheduled l4)" "set (scheduled l4) = insert rid (set (scheduled l))"
      using a(9-11) l4(1) sub nr by (auto simp: scheduled_def)
  qed (use sub nr a l4 tok n in \<open>auto simp: sched_conf_def\<close>)
  moreover have "tracks s0 ?s4 l4" if "tracks s0 s l" for s0
  proof (rule tracks_one [OF that r])
    have nin: "rid \<notin> set (l_new l) \<union> set (l_resumed l) \<union> set (l_running l)" using sub(1) nr by (auto simp: scheduled_def)
    have lists: "l_new l4 = l_new l3" "l_resumed l4 = l_resumed l3" "l_running l4 = l_running l3" using e(3) by simp_all
    have ids: "map (bid kv') (hits @ nb) = hits @ nb" using map_bid [OF kv(1), of "hits @ nb" rid] bl(1) by simp
    show "requests ?s4 rid = Some ?r" using a(8) by simp
    show "req_track s0 ?s4 l4 rid r0 ?r" if "req_track s0 s l rid r0 r" for r0
      using that nr nin lists a(6,9-11) l4(3) a(17) bl ids
        carried_trans [OF _ carried_same [OF s, of nct RUNNING]]
      by (auto simp: req_track_def Let_def)
    show "requests ?s4 i = requests s i \<and> blocks_of (kv_cache_manager ?s4) i = blocks_of (kv_cache_manager s) i \<and>
      (i \<in> set (running ?s4) \<longleftrightarrow> i \<in> set (running s)) \<and> (i \<in> set (l_new l4) \<longleftrightarrow> i \<in> set (l_new l)) \<and>
      (i \<in> set (l_resumed l4) \<longleftrightarrow> i \<in> set (l_resumed l)) \<and> (i \<in> set (l_running l4) \<longleftrightarrow> i \<in> set (l_running l)) \<and>
      l_blocks l4 i = l_blocks l i" if "i \<noteq> rid" for i
      using that lists a(4,6,8-11,17) kv(3) l4(3) by (auto simp: kv_same_for_def)
  qed
  moreover have "writes_ok ?s4" if "writes_ok s"
  proof (rule writes_ok_step [OF that bl(3), of _ rid])
    have bs: "0 < block_size (kv_cache_manager s)" using inv by (simp add: sched_inv_def kvm_good_def kvm_conf_ok_def)
    have "nct div block_size (kv_cache_manager s) = int (length hits)" using hits(1) bs by simp
    then have "own_blocks ?s4 rid = nb"
      using a(6,8) bl(1) kv(2) by (simp add: own_blocks_def same_conf_def)
    moreover have "own_blocks s rid = []" using inv nr by (intro own_blocks_Nil) (simp add: sched_inv_def)
    ultimately show "\<exists>k. own_blocks ?s4 rid = drop k (own_blocks s rid @ nb)" by (intro exI [of _ 0]) simp
    show "\<exists>k. own_blocks ?s4 i = drop k (own_blocks s i)" if "i \<noteq> rid" for i
      using that a(6,8) kv(2,3) by (intro own_blocks_same own_blocks_cong) (simp_all add: same_conf_def kv_same_for_def)
  qed
  moreover have "enc_sync ?s4 (l_preempted l4)" if sync: "enc_sync s (l_preempted l)"
  proof -
    have "enc_sync s3 (l_preempted l4)"
    proof (rule enc_sync_step [OF sync])
      show "i \<in> set (l_preempted l4) \<or> i \<in> set (running s3) \<and> (\<exists>r'. requests s3 i = Some r' \<and>
          mm_positions r' = mm_positions ri \<and> num_computed_tokens ri \<le> num_computed_tokens r')"
        if "i \<in> set (running s)" "requests s i = Some ri" for i ri
        using that nr a(4,8) by (cases "i = rid") auto
    qed (use a(3,7,8,12) l4(5) pre r in \<open>auto simp: sched_conf_def\<close>)
    then show ?thesis
      by (rule enc_sync_book [OF _ a(2) r3(1) _ e(4) _ e(6) enc])
        (use a(3,4) r3(2) e(5) S in \<open>auto simp: sched_conf_def\<close>)
  qed
  moreover have "no_gain s ?s4"
  proof (rule no_gain_step [OF inv e(2)])
    show "dom (requests ?s4) \<subseteq> dom (requests s)" using a(8) r by auto
    show "num_computed_tokens r' \<le> num_computed_tokens ri" if g: "\<not> enable_caching (kv_cache_manager s)"
      "requests s i = Some ri" "requests ?s4 i = Some r'" for i ri r'
    proof (cases "i = rid")
      case True
      have "hits = []" using hits(2) g(1) by blast
      moreover have "num_computed_tokens r' = nct" using True g(3) a(8) by auto
      ultimately show ?thesis using hits(1) sched_invD(2) [OF inv g(2)] by (simp add: req_ok_def)
    next
      case False
      then show ?thesis using g a(8) by simp
    qed
  qed
  ultimately have "loop_post s l ?s4 l4"
    using a e(2) l4 w ok pre by (auto simp: loop_post_def same_order_def sched_conf_def)
  then show ?thesis using a e(1) r3 l4 w by (auto simp: get_req_def)
qed

lemma put_kv_id: "s\<lparr>kv_cache_manager := kv_cache_manager s\<rparr> = s"
  by simp

lemma put_req_kv: "(put_req s r)\<lparr>kv_cache_manager := kv\<rparr> = put_req (s\<lparr>kv_cache_manager := kv\<rparr>) r"
  by (simp add: put_req_def)

lemma put_req_twice: "request_id r' = request_id r \<Longrightarrow> put_req (put_req s r) r' = put_req s r'"
  by (simp add: put_req_def)

lemma loop_post_put:
  assumes inv: "sched_inv s" and ok: "locals_ok s l" and w: "rid \<notin> set (running s)" and rid: "request_id r = rid"
    and inv': "sched_inv (put_req (s\<lparr>kv_cache_manager := kv\<rparr>) r)" and c: "same_conf (kv_cache_manager s) kv"
    and kv: "\<forall>i. i \<noteq> rid \<longrightarrow> kv_same_for (kv_cache_manager s) kv i"
    and r0: "requests s rid = Some r0" "same_req r0 r"
  shows "loop_post s l (put_req (s\<lparr>kv_cache_manager := kv\<rparr>) r) l"
proof -
  have "set (scheduled l) \<subseteq> set (running s)" using ok by (simp add: locals_ok_def)
  then have nin: "rid \<notin> set (l_new l) \<union> set (l_resumed l) \<union> set (l_running l)" using w by (auto simp: scheduled_def)
  have "tracks s0 (put_req (s\<lparr>kv_cache_manager := kv\<rparr>) r) l" if "tracks s0 s l" for s0
  proof (rule tracks_one [OF that r0(1)])
    show "req_track s0 (put_req (s\<lparr>kv_cache_manager := kv\<rparr>) r) l rid x r" if "req_track s0 s l rid x r0" for x
      using that nin w same_req_sel(2) [OF r0(2)] carried_trans [OF _ carried_same_req [OF r0(2)]]
      by (auto simp: req_track_def Let_def)
  qed (use rid kv in \<open>auto simp: kv_same_for_def\<close>)
  moreover have "writes_ok (put_req (s\<lparr>kv_cache_manager := kv\<rparr>) r)" if wr: "writes_ok s"
  proof (rule writes_ok_mono [OF wr])
    fix i
    let ?s = "put_req (s\<lparr>kv_cache_manager := kv\<rparr>) r"
    show "\<exists>k. own_blocks ?s i = drop k (own_blocks s i)"
    proof (cases "i = rid")
      case True
      have "rid \<notin> set (running ?s)" using w by simp
      then have "blocks_of (kv_cache_manager ?s) rid = []" using inv' unfolding sched_inv_def by blast
      then show ?thesis using True by (intro own_blocks_gone own_blocks_Nil) simp
    next
      case False
      then show ?thesis
        using c kv rid by (intro own_blocks_same own_blocks_cong) (simp_all add: same_conf_def kv_same_for_def)
    qed
  qed
  moreover have "enc_sync (put_req (s\<lparr>kv_cache_manager := kv\<rparr>) r) (l_preempted l)" if sync: "enc_sync s (l_preempted l)"
    by (rule enc_sync_step [OF sync]) (use sync w rid r0 in \<open>auto simp: enc_sync_def\<close>)
  moreover have "no_gain s (put_req (s\<lparr>kv_cache_manager := kv\<rparr>) r)"
    using r0 rid same_req_sel(4) [OF r0(2)] by (auto simp: no_gain_def)
  ultimately show ?thesis
    using inv' locals_ok_other [OF inv ok w, of "put_req (s\<lparr>kv_cache_manager := kv\<rparr>) r"] rid c kv
    by (simp add: loop_post_def same_order_def sched_conf_def)
qed

text \<open>The part of an iteration after the encoder inputs are chosen.\<close>

definition waiting_rest ::
  "py_hash \<Rightarrow> Scheduler \<Rightarrow> sched_locals \<Rightarrow> Request \<Rightarrow> int \<Rightarrow> nat list \<Rightarrow> int \<Rightarrow> nat list \<Rightarrow> int \<Rightarrow> (Scheduler \<times> sched_locals) py" where
  "waiting_rest hf s l r n hits nct ids eb =
     py_bind (allocate_slots hf (kv_cache_manager s) r n hits) (\<lambda>(nb, kv, r2).
        let s2 = put_req (s\<lparr>kv_cache_manager := kv\<rparr>) r2 in
        case nb of None \<Rightarrow> Inr (s2, l)
        | Some bs \<Rightarrow> py_bind (admit s2 l r2 hits bs n nct) (\<lambda>(s3, l3).
            py_bind (get_req s3 (request_id r2)) (\<lambda>r3.
              py_bind (book_encoder_inputs s3 l3 r3 ids eb) (\<lambda>(s4, l4). waiting_loop hf s4 l4))))"

lemma waiting_alloc:
  assumes inv: "sched_inv s" and ok: "locals_ok s l" and pre: "l_preempted l = []" and w: "waiting s = rid # ws"
    and r: "requests s rid = Some r" and room: "int (length (running s)) < max_num_running_reqs s"
    and nct: "nct = int (length hits) * block_size (kv_cache_manager s)" "0 \<le> nct"
    and n: "0 < n" "nct + n \<le> num_tokens r" "n \<le> l_token_budget l"
    and ready: "alloc_ready (kv_cache_manager s) r n hits" and enc: "enc_loop_post s r nct 0 n0 b ids n eb"
  shows "\<exists>s' l'. loop_post s l s' l' \<and> l_preempted l' = [] \<and>
     (waiting_rest hf s l r n hits nct ids eb = Inr (s', l') \<or>
      waiting_rest hf s l r n hits nct ids eb = waiting_loop hf s' l' \<and> length (waiting s') < length (waiting s))"
proof -
  let ?kv = "kv_cache_manager s"
  note D = sched_invD [OF inv r]
  have nr: "rid \<notin> set (running s)" using inv w by (simp add: sched_inv_def)
  have nct0: "num_computed_tokens r = 0" using D nr by (simp add: req_status_ok_def)
  have good: "kvm_good ?kv" using inv by (simp add: sched_inv_def)
  obtain x kv' r2 where a: "allocate_slots hf ?kv r n hits = Inr (x, kv', r2)" "kvm_good kv'" "same_conf ?kv kv'"
      "same_req r r2" "\<forall>i. i \<noteq> rid \<longrightarrow> kv_same_for ?kv kv' i"
    and c: "case x of None \<Rightarrow> r2 = r \<and> kv_same_for ?kv kv' rid
      | Some nb \<Rightarrow> blocks_of kv' rid = blocks_of ?kv rid @ hits @ nb \<and>
          num_computed_tokens r + int (length hits) * block_size ?kv + n
            \<le> int (length (blocks_of kv' rid)) * block_size ?kv \<and>
          hashes_cover kv' r2 (num_computed_tokens r + int (length hits) * block_size ?kv + n) \<and>
          (enable_caching ?kv \<longrightarrow> int (length (kv_block_hashes r2)) * block_size ?kv \<le> num_tokens r) \<and>
          (blocks_bounded ?kv rid \<longrightarrow> blocks_bounded kv' rid) \<and> fresh_blocks ?kv nb"
    using alloc_step [OF good ready, of hf] unfolding D(1) by blast
  have rid: "request_id r2 = rid" using same_req_sel(1) [OF a(4)] D(1) by simp
  show ?thesis
  proof (cases x)
    case None
    have r2: "r2 = r" and "kv_same_for ?kv kv' rid" using c [unfolded None option.case] by blast+
    then have same: "\<forall>i. kv_same_for ?kv kv' i" using a(5) by metis
    have "sched_inv (put_req (s\<lparr>kv_cache_manager := kv'\<rparr>) r)"
      using waiting_put [OF inv r nr same_req_refl a(2,3) same] D(2) a(3) by (simp add: req_ok_def same_conf_def)
    then have "loop_post s l (put_req (s\<lparr>kv_cache_manager := kv'\<rparr>) r) l"
      using loop_post_put [OF inv ok nr D(1) _ a(3,5) r same_req_refl] by blast
    then show ?thesis using a(1) None r2 pre by (auto simp: waiting_rest_def Let_def)
  next
    case (Some nb)
    have cover: "hashes_cover kv' r2 (nct + n)" "nct + n \<le> int (length (blocks_of kv' rid)) * block_size kv'"
      and len: "enable_caching kv' \<longrightarrow> int (length (kv_block_hashes r2)) * block_size kv' \<le> num_tokens r"
    proof -
      from c [unfolded Some option.case] have "hashes_cover kv' r2 (num_computed_tokens r + int (length hits) * block_size ?kv + n)"
        "num_computed_tokens r + int (length hits) * block_size ?kv + n \<le> int (length (blocks_of kv' rid)) * block_size ?kv"
        "enable_caching ?kv \<longrightarrow> int (length (kv_block_hashes r2)) * block_size ?kv \<le> num_tokens r" by blast+
      with nct0 nct(1) a(3) show "hashes_cover kv' r2 (nct + n)" "nct + n \<le> int (length (blocks_of kv' rid)) * block_size kv'"
        "enable_caching kv' \<longrightarrow> int (length (kv_block_hashes r2)) * block_size kv' \<le> num_tokens r"
        by (simp_all add: same_conf_def)
    qed
    have old: "blocks_of ?kv rid = []" using inv nr by (simp add: sched_inv_def)
    from c [unfolded Some option.case] have "blocks_of kv' rid = blocks_of ?kv rid @ hits @ nb"
      "blocks_bounded ?kv rid \<longrightarrow> blocks_bounded kv' rid" and fresh: "fresh_blocks ?kv nb" by blast+
    with old blocks_bounded_Nil [OF old] have "blocks_of kv' rid = hits @ nb" "blocks_bounded kv' rid" by simp_all
    note bl = this fresh
    have hits: "hits \<noteq> [] \<Longrightarrow> enable_caching ?kv" using ready by (simp add: alloc_ready_def)
    from waiting_some [OF inv ok w r room a(2,3,5,4) n(1) nct(2) n(2,3) cover len enc pre bl nct(1) hits]
    show ?thesis using a(1) Some rid pre by (fastforce simp: waiting_rest_def Let_def)
  qed
qed

lemma waiting_iter:
  assumes inv: "sched_inv s" and ok: "locals_ok s l" and pre: "l_preempted l = []" and w: "waiting s = rid # ws"
    and go: "0 < l_token_budget l" "int (length (running s)) \<noteq> max_num_running_reqs s"
  shows "\<exists>s' l'. loop_post s l s' l' \<and> l_preempted l' = [] \<and>
     (waiting_loop hf s l = Inr (s', l') \<or>
      waiting_loop hf s l = waiting_loop hf s' l' \<and> length (waiting s') < length (waiting s))"
proof -
  let ?kv = "kv_cache_manager s"
  obtain r where r: "requests s rid = Some r" using sched_inv_req [OF inv, of rid] w by auto
  note D = sched_invD [OF inv r]
  have nr: "rid \<notin> set (running s)" and room: "int (length (running s)) < max_num_running_reqs s"
    using inv w go(2) by (simp_all add: sched_inv_def)
  obtain hits0 nct0 r1 hits nct where h: "get_computed_blocks hf ?kv r = Inr ((hits0, nct0), r1)"
     "usable_hits (put_req s r1) r1 hits0 nct0 = Inr (hits, nct, num_tokens r - nct)" "same_req r r1"
     "sched_inv (put_req s r1)" "nct = int (length hits) * block_size ?kv" "0 \<le> nct" "nct < num_tokens r"
     "\<forall>n. 0 < n \<longrightarrow> nct + n \<le> num_tokens r \<longrightarrow> alloc_ready ?kv r1 n hits"
    using waiting_lookup [OF inv w r, of hf] by blast
  note S = same_req_sel [OF h(3)]
  let ?s1 = "put_req s r1" and ?n1 = "min (num_tokens r - nct) (l_token_budget l)"
  have lp1: "loop_post s l ?s1 l"
    using loop_post_put [OF inv ok nr, of r1 ?kv r] S(1) D(1) h(3,4) r by (simp add: put_kv_id)
  have wf: "request_wf r1" using D(2) request_wf_same [OF h(3)] by (simp add: req_ok_def)
  have n1: "0 < ?n1" using h(7) go(1) by simp
  obtain ids n eb where t: "try_schedule_encoder_inputs ?s1 r1 nct ?n1 (l_encoder_budget l) = Inr (ids, n, eb)"
      "enc_loop_post ?s1 r1 nct 0 ?n1 (l_encoder_budget l) ids n eb"
    using try_schedule_ok [OF h(4) wf, of ?n1] n1 by fastforce
  have n: "0 \<le> n" "n \<le> ?n1" using t(2) by (simp_all add: enc_loop_post_def)
  have unf: "waiting_loop hf s l = (if n = 0 then Inr (?s1, l) else waiting_rest hf ?s1 l r1 n hits nct ids eb)"
    using w go r h(1,2) t(1) n1 by (subst waiting_loop.simps) (simp add: get_req_def Let_def waiting_rest_def)
  show ?thesis
  proof (cases "n = 0")
    case True
    then show ?thesis using unf lp1 pre by auto
  next
    case False
    have tot: "0 < n" "nct + n \<le> num_tokens r" "n \<le> l_token_budget l" using n False by auto
    have ready: "alloc_ready ?kv r1 n hits" using h(8) tot by blast
    have s1: "requests ?s1 rid = Some r1" "waiting ?s1 = rid # ws" "locals_ok ?s1 l" "kv_cache_manager ?s1 = ?kv"
      using S(1) D(1) w lp1 by (simp_all add: loop_post_def)
    have tot1: "nct + n \<le> num_tokens r1" "int (length (running ?s1)) < max_num_running_reqs ?s1"
      using tot(2) S(8) room by simp_all
    from waiting_alloc [of ?s1, unfolded s1(4), OF h(4) s1(3) pre s1(2,1) tot1(2) h(5,6) tot(1) tot1(1) tot(3) ready t(2), of hf]
    obtain s' l' where "loop_post ?s1 l s' l'" "l_preempted l' = []"
        "waiting_loop hf s l = Inr (s', l') \<or> waiting_loop hf s l = waiting_loop hf s' l' \<and> length (waiting s') < length (waiting s)"
      using unf False by auto
    then show ?thesis using loop_post_trans [OF lp1] by blast
  qed
qed

lemma waiting_loop_ok:
  "sched_inv s \<Longrightarrow> locals_ok s l \<Longrightarrow> l_preempted l = [] \<Longrightarrow>
   \<exists>s' l'. waiting_loop hf s l = Inr (s', l') \<and> loop_post s l s' l' \<and> l_preempted l' = []"
proof (induction "length (waiting s)" arbitrary: s l rule: less_induct)
  case less
  show ?case
  proof (cases "waiting s = [] \<or> \<not> 0 < l_token_budget l \<or> int (length (running s)) = max_num_running_reqs s")
    case True
    then show ?thesis
      using less.prems loop_post_refl by (subst waiting_loop.simps) auto
  next
    case False
    then obtain rid ws where w: "waiting s = rid # ws" by (cases "waiting s") auto
    from False have go: "0 < l_token_budget l" "int (length (running s)) \<noteq> max_num_running_reqs s" by auto
    obtain s1 l1 where p: "loop_post s l s1 l1" "l_preempted l1 = []" and
      c: "waiting_loop hf s l = Inr (s1, l1) \<or>
        waiting_loop hf s l = waiting_loop hf s1 l1 \<and> length (waiting s1) < length (waiting s)"
      using waiting_iter [OF less.prems w go, of hf] by blast
    have inv: "sched_inv s1" "locals_ok s1 l1" using p(1) by (simp_all add: loop_post_def)
    from c show ?thesis
    proof
      assume "waiting_loop hf s l = Inr (s1, l1)"
      then show ?thesis using p by blast
    next
      assume n: "waiting_loop hf s l = waiting_loop hf s1 l1 \<and> length (waiting s1) < length (waiting s)"
      from less.hyps [OF conjunct2 [OF n] inv p(2)] n p(1) loop_post_trans show ?thesis by fastforce
    qed
  qed
qed

section \<open>The output of a step\<close>

lemma sched_inv_out:
  assumes "sched_inv s" and "encoder_cache_inv (requests s) e"
  shows "sched_inv (s\<lparr>cached_reqs_data := c, encoder_cache_manager := e, finished_req_ids := f\<rparr>)"
proof -
  have "req_status_ok (s\<lparr>cached_reqs_data := c, encoder_cache_manager := e, finished_req_ids := f\<rparr>) r = req_status_ok s r" for r
    by (simp add: req_status_ok_def)
  then show ?thesis using assms by (simp add: sched_inv_def)
qed

lemma new_reqs_data_ok:
  "set rids \<subseteq> dom (requests s) \<Longrightarrow> set rids \<subseteq> dom bl \<Longrightarrow>
     new_reqs_data s bl rids = Inr (map (\<lambda>rid. new_request_data (the (requests s rid)) (the (bl rid))
        (num_computed_tokens (the (requests s rid)))) rids)"
  by (induction rids) (auto simp: get_req_def)

lemma make_cached_request_data_ok:
  "\<exists>d c. make_cached_request_data s r b k resumed = (d, s\<lparr>cached_reqs_data := c\<rparr>) \<and>
     cr_new_block_ids d = b \<and> cr_resumed_from_preemption d = resumed \<and> cr_num_computed_tokens d = k"
proof (cases "cached_reqs_data s (request_id r)")
  case None
  then show ?thesis
    by (intro exI [of _ "cached_request_data r resumed b k"]
        exI [of _ "(cached_reqs_data s)(request_id r \<mapsto> cached_request_data r resumed b k)"])
      (simp add: make_cached_request_data_def cached_request_data_def Let_def)
next
  case (Some d)
  let ?d = "d\<lparr>cr_resumed_from_preemption := resumed, cr_new_block_ids := b, cr_num_computed_tokens := k\<rparr>"
  show ?thesis
    by (intro exI [of _ ?d] exI [of _ "(cached_reqs_data s)(request_id r \<mapsto> ?d)"])
      (simp add: make_cached_request_data_def Some Let_def)
qed

text \<open>The data of cached requests changes nothing of the scheduler but the table of these objects.\<close>

lemma cached_data_ok:
  "set rids \<subseteq> dom (requests s) \<Longrightarrow> set rids \<subseteq> dom bl \<Longrightarrow>
     \<exists>ds c. cached_data s bl resumed rids = Inr (ds, s\<lparr>cached_reqs_data := c\<rparr>) \<and> length ds = length rids \<and>
       (\<forall>i < length rids. cr_new_block_ids (ds ! i) = the (bl (rids ! i)) \<and> cr_resumed_from_preemption (ds ! i) = resumed \<and>
          cr_num_computed_tokens (ds ! i) = num_computed_tokens (the (requests s (rids ! i))))"
proof (induction rids arbitrary: s)
  case Nil
  show ?case by (intro exI [of _ "[]"] exI [of _ "cached_reqs_data s"]) simp
next
  case (Cons rid rids)
  obtain r b where r: "requests s rid = Some r" "bl rid = Some b" using Cons.prems by auto
  obtain d c where d: "make_cached_request_data s r b (num_computed_tokens r) resumed = (d, s\<lparr>cached_reqs_data := c\<rparr>)"
      "cr_new_block_ids d = b" "cr_resumed_from_preemption d = resumed" "cr_num_computed_tokens d = num_computed_tokens r"
    using make_cached_request_data_ok by blast
  obtain ds c' where "cached_data (s\<lparr>cached_reqs_data := c\<rparr>) bl resumed rids = Inr (ds, s\<lparr>cached_reqs_data := c'\<rparr>)"
      "length ds = length rids"
      "\<forall>i < length rids. cr_new_block_ids (ds ! i) = the (bl (rids ! i)) \<and> cr_resumed_from_preemption (ds ! i) = resumed \<and>
          cr_num_computed_tokens (ds ! i) = num_computed_tokens (the (requests s (rids ! i)))"
    using Cons.IH [of "s\<lparr>cached_reqs_data := c\<rparr>"] Cons.prems by auto
  with r d show ?case
    by (intro exI [of _ "d # ds"] exI [of _ c']) (auto simp: get_req_def nth_Cons split: nat.splits)
qed

lemma common_prefix_ok:
  assumes inv: "sched_inv s"
  shows "\<exists>k kv. common_prefix_of_running s = Inr (k, s\<lparr>kv_cache_manager := kv\<rparr>) \<and>
     sched_inv (s\<lparr>kv_cache_manager := kv\<rparr>) \<and> same_conf (kv_cache_manager s) kv \<and>
     (\<forall>rid. kv_same_for (kv_cache_manager s) kv rid)"
proof (cases "running s")
  case Nil
  then show ?thesis using inv by (intro exI [of _ 0] exI [of _ "kv_cache_manager s"]) (simp add: common_prefix_of_running_def)
next
  case (Cons rid rs)
  let ?kv = "kv_cache_manager s"
  obtain r where r: "requests s rid = Some r" using sched_inv_req [OF inv, of rid] Cons by auto
  note D = sched_invD [OF inv r]
  let ?kv' = "?kv\<lparr>req_to_blocks := (req_to_blocks ?kv)(rid \<mapsto> blocks_of ?kv rid)\<rparr>"
  have st: "status r = RUNNING" using D Cons by (simp add: req_status_ok_def)
  have same: "kv_same_for ?kv ?kv' i" for i by (simp add: kv_same_for_def blocks_of_def)
  have good: "kvm_good ?kv'"
    using inv default_rep [of ?kv _ "[]" rid]
    by (auto simp: sched_inv_def kvm_good_def kvm_inv_def kvm_conf_ok_def unhashed_exclusive_def)
  have "req_ok ?kv' r" using req_ok_cong [OF same, of r] D(2) by simp
  then have "sched_inv ((put_req (s\<lparr>kv_cache_manager := ?kv'\<rparr>) r)\<lparr>running := running s, waiting := waiting s\<rparr>)"
    by (intro sched_inv_step [OF inv r good]) (use D st Cons same inv in \<open>auto simp: sched_inv_def\<close>)
  moreover have "(put_req (s\<lparr>kv_cache_manager := ?kv'\<rparr>) r)\<lparr>running := running s, waiting := waiting s\<rparr> =
      s\<lparr>kv_cache_manager := ?kv'\<rparr>" using r D(1) by (simp add: put_req_def fun_upd_idem)
  moreover have "\<exists>k. common_prefix_of_running s = Inr (k, s\<lparr>kv_cache_manager := ?kv'\<rparr>)"
    using Cons r st D(1) by (simp add: common_prefix_of_running_def get_req_def get_num_common_prefix_blocks_def Let_def)
  ultimately show ?thesis using same by (metis set_rtb_conf)
qed

text \<open>What a step promises: who is scheduled, with how many tokens, and that everything is in place.\<close>

definition schedule_post :: "Scheduler \<Rightarrow> SchedulerOutput \<Rightarrow> Scheduler \<Rightarrow> bool" where
  "schedule_post s out s' \<longleftrightarrow>
     sched_inv s' \<and> same_order s s' \<and> same_conf (kv_cache_manager s) (kv_cache_manager s') \<and>
     distinct (map fst (num_scheduled_tokens out)) \<and>
     fst ` set (num_scheduled_tokens out) \<subseteq> set (running s') \<and>
     (\<forall>(rid, n) \<in> set (num_scheduled_tokens out). \<exists>r. requests s' rid = Some r \<and> tok_ok s' r n) \<and>
     total_num_scheduled_tokens out = sum_list (map snd (num_scheduled_tokens out)) \<and>
     0 \<le> total_num_scheduled_tokens out \<and> total_num_scheduled_tokens out \<le> max_num_scheduled_tokens s \<and>
     out_finished_req_ids out = finished_req_ids s \<and> finished_req_ids s' = {} \<and>
     max_num_scheduled_tokens s' = max_num_scheduled_tokens s \<and> encoder_cache s' = encoder_cache s"

lemma get_freed_inv: "encoder_cache_inv R e \<Longrightarrow> encoder_cache_inv R (snd (get_freed_ids e))"
  by (simp add: get_freed_ids_def encoder_cache_inv_def used_by_def)

lemma finish_schedule_ok:
  assumes inv: "sched_inv s" and ok: "locals_ok s l"
  shows "\<exists>out s'. finish_schedule s l = Inr (out, s') \<and> schedule_post s out s'"
proof -
  obtain k kv where c: "common_prefix_of_running s = Inr (k, s\<lparr>kv_cache_manager := kv\<rparr>)"
     "sched_inv (s\<lparr>kv_cache_manager := kv\<rparr>)" "same_conf (kv_cache_manager s) kv"
     "\<forall>rid. kv_same_for (kv_cache_manager s) kv rid"
    using common_prefix_ok [OF inv] by blast
  let ?s1 = "s\<lparr>kv_cache_manager := kv\<rparr>"
  have L: "distinct (scheduled l)" "set (scheduled l) \<subseteq> set (running s)" "distinct (map fst (l_tokens l))"
     "fst ` set (l_tokens l) = set (scheduled l)" "dom (l_blocks l) = set (scheduled l)"
     "sum_list (map snd (l_tokens l)) + l_token_budget l = max_num_scheduled_tokens s" "0 \<le> l_token_budget l"
    using ok by (simp_all add: locals_ok_def)
  have dom: "set (running s) \<subseteq> dom (requests s)" "int (length (running s)) \<le> max_num_running_reqs s"
    using inv by (auto simp: sched_inv_def)
  have sub: "set (l_new l) \<subseteq> dom (requests s)" "set (l_resumed l) \<subseteq> dom (requests s)" "set (l_running l) \<subseteq> dom (requests s)"
     "set (l_new l) \<subseteq> dom (l_blocks l)" "set (l_resumed l) \<subseteq> dom (l_blocks l)" "set (l_running l) \<subseteq> dom (l_blocks l)"
    using L(2,5) dom by (auto simp: scheduled_def)
  have len: "length (l_new l) + length (l_resumed l) + length (l_running l) \<le> length (running s)"
    using card_mono [OF finite_set L(2)] distinct_card [OF L(1)] card_length [of "running s"] by (simp add: scheduled_def)
  obtain nd where nd: "new_reqs_data ?s1 (l_blocks l) (l_new l) = Inr nd"
    using new_reqs_data_ok [of "l_new l" ?s1 "l_blocks l"] sub by auto
  obtain d1 c1 where d1: "cached_data ?s1 (l_blocks l) True (l_resumed l) = Inr (d1, ?s1\<lparr>cached_reqs_data := c1\<rparr>)"
    using cached_data_ok [of "l_resumed l" ?s1 "l_blocks l" True] sub by auto
  obtain d2 c2 where d2: "cached_data (?s1\<lparr>cached_reqs_data := c1\<rparr>) (l_blocks l) False (l_running l) =
      Inr (d2, ?s1\<lparr>cached_reqs_data := c2\<rparr>)"
    using cached_data_ok [of "l_running l" "?s1\<lparr>cached_reqs_data := c1\<rparr>" "l_blocks l" False] sub by auto
  let ?e = "snd (get_freed_ids (encoder_cache_manager s))"
  let ?s' = "?s1\<lparr>cached_reqs_data := c2, encoder_cache_manager := ?e, finished_req_ids := {}\<rparr>"
  let ?out = "\<lparr>scheduled_new_reqs = nd, scheduled_cached_reqs = d1 @ d2, num_scheduled_tokens = l_tokens l,
      total_num_scheduled_tokens = sum_list (map snd (l_tokens l)), scheduled_encoder_inputs = l_encoder l,
      num_common_prefix_blocks = k, out_finished_req_ids = finished_req_ids s,
      free_encoder_input_ids = freed (encoder_cache_manager s)\<rparr>"
  have fin: "finish_schedule s l = Inr (?out, ?s')"
    using L(6,7) dom(2) len c(1) nd d1 d2 by (simp add: finish_schedule_def Let_def get_freed_ids_def)
  have "encoder_cache_inv (requests s) ?e" using inv get_freed_inv by (simp add: sched_inv_def)
  then have inv': "sched_inv ?s'" using sched_inv_out [OF c(2), of ?e] by simp
  have each: "\<exists>r. requests ?s' rid = Some r \<and> tok_ok ?s' r n" "0 < n" if t: "(rid, n) \<in> set (l_tokens l)" for rid n
  proof -
    obtain r where r: "requests s rid = Some r" "tok_ok s r n" using ok t unfolding locals_ok_def by blast
    have "get_cached_input_ids ?e r = get_cached_input_ids (encoder_cache_manager s) r"
      by (simp add: get_cached_input_ids_def get_freed_ids_def)
    with tok_ok_frame [OF r(2), of ?s'] c(3,4) r(1) show "\<exists>r. requests ?s' rid = Some r \<and> tok_ok ?s' r n" by simp
    show "0 < n" using r(2) by (simp add: tok_ok_def sched_ok_def)
  qed
  have "0 \<le> sum_list (map snd (l_tokens l))" using each(2) by (intro sum_list_nonneg) (auto intro: less_imp_le)
  moreover have "\<forall>(rid, n) \<in> set (l_tokens l). \<exists>r. requests ?s' rid = Some r \<and> tok_ok ?s' r n" using each(1) by blast
  ultimately have "schedule_post s ?out ?s'"
    using inv' L c(3) by (simp add: schedule_post_def same_order_def)
  with fin show ?thesis by blast
qed

lemma init_locals_ok:
  assumes "0 \<le> max_num_scheduled_tokens s"
  shows "locals_ok s (init_locals s)"
  using assms by (simp add: locals_ok_def init_locals_def scheduled_def)

lemma schedule_ok:
  assumes inv: "sched_inv s" and budget: "0 \<le> max_num_scheduled_tokens s"
  shows "\<exists>out s'. schedule hf s = Inr (out, s') \<and> schedule_post s out s'"
proof -
  let ?l = "init_locals s"
  have new: "l_new ?l = []" "l_resumed ?l = []" "set (l_running ?l) \<subseteq> set (take 0 (running s))" "l_preempted ?l = []"
    by (simp_all add: init_locals_def)
  obtain s1 l1 where r: "running_loop hf s ?l 0 = Inr (s1, l1)" "loop_post s ?l s1 l1"
    using running_loop_ok [OF inv init_locals_ok [OF budget] new(1-3), of hf] by blast
  obtain s2 l2 where w: "(if l_preempted l1 = [] then waiting_loop hf s1 l1 else Inr (s1, l1)) = Inr (s2, l2)"
      "loop_post s1 l1 s2 l2"
    using waiting_loop_ok [of s1 l1 hf] loop_post_refl [of s1 l1] r(2) by (cases "l_preempted l1 = []") (auto simp: loop_post_def)
  have p: "loop_post s ?l s2 l2" using r(2) w(2) by (rule loop_post_trans)
  then have i2: "sched_inv s2" "locals_ok s2 l2" by (simp_all add: loop_post_def)
  obtain out s' where f: "finish_schedule s2 l2 = Inr (out, s')" "schedule_post s2 out s'"
    using finish_schedule_ok [OF i2] by blast
  have "schedule_post s out s'"
    using f(2) p by (auto simp: schedule_post_def loop_post_def same_order_def sched_conf_def intro: same_conf_trans)
  then show ?thesis using r(1) w(1) f(1) by (simp add: schedule_def)
qed

end
