(* ===== verification/SchedulerUpdate.thy ===== *)
theory SchedulerUpdate
  imports SchedulerStep
begin

text \<open>
  Processing the model's output, aborting and adding requests keep the scheduler's invariant.
\<close>

section \<open>Freeing finished encoder inputs\<close>

lemma free_done_inputs_ok:
  "encoder_cache_inv R e \<Longrightarrow> R (request_id r) = Some r \<Longrightarrow> distinct ids \<Longrightarrow> set ids \<subseteq> get_cached_input_ids e r \<Longrightarrow>
   \<exists>e'. free_done_inputs e r ids = Inr e' \<and> encoder_cache_inv R e' \<and>
     get_cached_input_ids e' r = get_cached_input_ids e r - {i \<in> set ids. input_done r i} \<and>
     (\<forall>rid. rid \<noteq> request_id r \<longrightarrow> cached e' rid = cached e rid)"
proof (induction ids arbitrary: e)
  case (Cons i ids)
  have i: "i \<in> get_cached_input_ids e r" "i < length (mm_positions r)"
    using Cons.prems cached_ids_bound [OF Cons.prems(1,2)] by auto
  obtain e1 where e1: "(if input_done r i then free_encoder_input e r i else Inr e) = Inr e1" "encoder_cache_inv R e1"
      "get_cached_input_ids e1 r = get_cached_input_ids e r - (if input_done r i then {i} else {})"
      "\<forall>rid. rid \<noteq> request_id r \<longrightarrow> cached e1 rid = cached e rid"
    using free_encoder_input_inv [OF Cons.prems(1,2) i(1)] Cons.prems(1) by (cases "input_done r i") auto
  have "set ids \<subseteq> get_cached_input_ids e1 r" using Cons.prems(3,4) e1(3) by auto
  with Cons.IH [OF e1(2) Cons.prems(2)] Cons.prems(3) obtain e2 where e2: "free_done_inputs e1 r ids = Inr e2"
      "encoder_cache_inv R e2" "get_cached_input_ids e2 r = get_cached_input_ids e1 r - {i \<in> set ids. input_done r i}"
      "\<forall>rid. rid \<noteq> request_id r \<longrightarrow> cached e2 rid = cached e1 rid" by auto
  have "free_done_inputs e r (i # ids) = Inr e2"
    using i(2) e1(1) e2(1) by (simp add: input_done_def Let_def)
  moreover have "get_cached_input_ids e2 r = get_cached_input_ids e r - {j \<in> set (i # ids). input_done r j}"
    using e1(3) e2(3) by auto
  ultimately show ?case using e1(4) e2(2,4) by auto
qed simp

section \<open>Removing a request\<close>

lemma sched_inv_cong:
  assumes "sched_inv s" "kv_cache_manager s' = kv_cache_manager s" "s_block_size s' = s_block_size s"
    "s_max_model_len s' = s_max_model_len s" "running s' = running s" "waiting s' = waiting s" "requests s' = requests s"
    "max_num_running_reqs s' = max_num_running_reqs s" "encoder_cache_manager s' = encoder_cache_manager s"
    "encoder_cache s' = encoder_cache s"
  shows "sched_inv s'"
proof -
  have "req_status_ok s' r = req_status_ok s r" for r using assms by (simp add: req_status_ok_def)
  then show ?thesis using assms by (simp add: sched_inv_def)
qed

text \<open>A request whose blocks and encoder inputs are gone leaves the tables.\<close>

lemma sched_inv_remove:
  assumes inv: "sched_inv s" and rid: "requests s rid = Some r"
    and kv: "kvm_good kv'" "same_conf (kv_cache_manager s) kv'" "blocks_of kv' rid = []"
      "\<forall>i. i \<noteq> rid \<longrightarrow> kv_same_for (kv_cache_manager s) kv' i"
    and enc: "cached (encoder_cache_manager s) rid = None"
    and q: "run = filter (\<lambda>i. i \<noteq> rid) (running s)" "wait = filter (\<lambda>i. i \<noteq> rid) (waiting s)"
  shows "sched_inv (s\<lparr>kv_cache_manager := kv', requests := (requests s)(rid := None), running := run, waiting := wait\<rparr>)"
proof -
  define t where "t = s\<lparr>kv_cache_manager := kv', requests := (requests s)(rid := None), running := run, waiting := wait\<rparr>"
  have sel: "kv_cache_manager t = kv'" "s_block_size t = s_block_size s" "s_max_model_len t = s_max_model_len s"
      "running t = run" "waiting t = wait" "max_num_running_reqs t = max_num_running_reqs s"
      "encoder_cache_manager t = encoder_cache_manager s" "encoder_cache t = encoder_cache s"
      "requests t = (requests s)(rid := None)"
    by (simp_all add: t_def)
  have each: "request_id x = i \<and> req_ok kv' x \<and> req_status_ok t x" if "requests t i = Some x" for i x
  proof -
    have x: "requests s i = Some x" "i \<noteq> rid" using that sel(9) by (auto split: if_splits)
    note D = sched_invD [OF inv x(1)]
    have "kv_same_for (kv_cache_manager s) kv' (request_id x)" using kv(4) x(2) D(1) by simp
    from req_ok_cong [OF this kv(2)] D x(2) q(1) sel(4) show ?thesis by (simp add: req_status_ok_def)
  qed
  have blocks: "\<forall>i. i \<notin> set run \<longrightarrow> blocks_of kv' i = []"
  proof (intro allI impI)
    fix i assume "i \<notin> set run"
    then show "blocks_of kv' i = []" using kv(3,4) inv q(1) by (cases "i = rid") (auto simp: sched_inv_def kv_same_for_def)
  qed
  have dom: "dom (requests t) = set run \<union> set wait"
    using inv q sel(9) by (auto simp: sched_inv_def)
  have "encoder_cache_inv (requests t) (encoder_cache_manager s) = encoder_cache_inv (requests s) (encoder_cache_manager s)"
    by (rule encoder_cache_inv_cong) (use enc sel(9) in auto)
  then have enc': "encoder_cache_inv (requests t) (encoder_cache_manager s)" using inv by (simp add: sched_inv_def)
  have dist: "distinct (run @ wait)" using inv q by (auto simp: sched_inv_def)
  have "length run \<le> length (running s)" "int (length (running s)) \<le> max_num_running_reqs s"
    using q inv by (simp_all add: sched_inv_def)
  then have len: "int (length run) \<le> max_num_running_reqs s" by linarith
  have "sched_inv t"
    unfolding sched_inv_def sel(1-8)
    using inv kv(1,2) blocks dom each enc' dist len unfolding sched_inv_def same_conf_def by (intro conjI) (blast | simp)+
  then show ?thesis by (simp add: t_def)
qed

section \<open>One generated token\<close>

definition mro_covers :: "ModelRunnerOutput \<Rightarrow> string \<Rightarrow> bool" where
  "mro_covers mro rid \<longleftrightarrow> (\<exists>k t. req_id_to_index mro rid = Some k \<and> py_index (sampled_token_ids mro) k = Inr t)"

text \<open>\<open>check_stop\<close> after a token was appended: the three ways to stop, in the order of the code.\<close>

definition stops :: "Scheduler \<Rightarrow> Request \<Rightarrow> bool" where
  "stops s r \<longleftrightarrow>
     num_tokens r \<ge> s_max_model_len s \<or> num_output_tokens r \<ge> max_tokens r \<or>
     (\<not> sp_ignore_eos (sampling_params r) \<and> Some (last (output_token_ids r)) = eos_token_id r) \<or>
     last (output_token_ids r) \<in> set (or_empty (sp_stop_token_ids (sampling_params r)))"

lemma check_stop_cases:
  assumes "output_token_ids r \<noteq> []"
  shows "\<exists>r'. check_stop s r = Inr (stops s r, r') \<and> request_id r' = request_id r \<and> mm_positions r' = mm_positions r \<and>
     (stops s r \<longrightarrow> is_finished r') \<and> (\<not> stops s r \<longrightarrow> r' = r)"
  using assms by (auto simp: check_stop_def stops_def Let_def is_finished_def)

text \<open>
  While \<open>update_from_output\<close> walks the running queue, \<open>self.running\<close> still lists the requests that
  stopped; the invariant holds for the queue \<open>run0\<close> of those that remain.
\<close>

lemma free_request_ok:
  assumes inv: "sched_inv (s\<lparr>running := run0\<rparr>)" and ord: "set_order_ok ord"
    and rid: "requests s rid = Some r" "request_id r' = rid"
    and fin: "is_finished r'" and enc: "cached (encoder_cache_manager s) rid = None"
    and q: "run = filter (\<lambda>i. i \<noteq> rid) run0" "wait = filter (\<lambda>i. i \<noteq> rid) (waiting s)"
  shows "\<exists>s'. free_request ord (put_req s r') r' = Inr s' \<and> sched_inv (s'\<lparr>running := run, waiting := wait\<rparr>) \<and>
     running s' = running s \<and> waiting s' = waiting s \<and> requests s' = (requests s)(rid := None) \<and>
     encoder_cache_manager s' = encoder_cache_manager s \<and> same_conf (kv_cache_manager s) (kv_cache_manager s') \<and>
     (\<forall>i. i \<noteq> rid \<longrightarrow> kv_same_for (kv_cache_manager s) (kv_cache_manager s') i) \<and>
     finished_req_ids s' = insert rid (finished_req_ids s) \<and> max_num_scheduled_tokens s' = max_num_scheduled_tokens s \<and>
     encoder_cache s' = encoder_cache s"
proof -
  obtain kv where kv: "free (kv_cache_manager s) rid = Inr kv" "kvm_good kv" "same_conf (kv_cache_manager s) kv"
      "blocks_of kv rid = []" "\<forall>i. i \<noteq> rid \<longrightarrow> kv_same_for (kv_cache_manager s) kv i"
    using free_step [of "kv_cache_manager s" rid] inv by (auto simp: sched_inv_def)
  have "encoder_free ord (encoder_cache_manager s) r' = Inr (encoder_cache_manager s)"
    using enc rid(2) by (intro encoder_free_empty [OF ord]) (simp add: get_cached_input_ids_def)
  then have f: "free_request ord (put_req s r') r' = Inr (s\<lparr>kv_cache_manager := kv,
      cached_reqs_data := (cached_reqs_data s)(rid := None), requests := (requests s)(rid := None),
      finished_req_ids := insert rid (finished_req_ids s)\<rparr>)"
    using fin kv(1) rid(2) by (simp add: free_request_def put_req_def)
  have "sched_inv ((s\<lparr>running := run0\<rparr>)\<lparr>kv_cache_manager := kv, requests := (requests (s\<lparr>running := run0\<rparr>))(rid := None),
      running := run, waiting := wait\<rparr>)"
    by (rule sched_inv_remove [OF inv, of rid r]) (use rid kv enc q in simp_all)
  then have "sched_inv (s\<lparr>kv_cache_manager := kv, cached_reqs_data := (cached_reqs_data s)(rid := None),
      requests := (requests s)(rid := None), finished_req_ids := insert rid (finished_req_ids s),
      running := run, waiting := wait\<rparr>)" by (rule sched_inv_cong) simp_all
  with f kv show ?thesis by simp
qed

lemma update_req_ok:
  assumes inv: "sched_inv (s\<lparr>running := run\<rparr>)" and r: "requests s rid = Some r" and rid: "rid \<in> set run"
    and e: "encoder_cache_inv (requests s) e"
    and r': "request_id r' = rid" "mm_positions r' = mm_positions r" "status r' = RUNNING" "req_ok (kv_cache_manager s) r'"
  shows "sched_inv ((put_req (s\<lparr>encoder_cache_manager := e\<rparr>) r')\<lparr>running := run\<rparr>)"
proof -
  let ?S = "(s\<lparr>running := run\<rparr>)\<lparr>encoder_cache_manager := e\<rparr>"
  have S: "sched_inv ?S" using sched_inv_set_ecm [OF inv] e by simp
  have "sched_inv ((put_req (?S\<lparr>kv_cache_manager := kv_cache_manager ?S\<rparr>) r')\<lparr>running := run, waiting := waiting s\<rparr>)"
    by (rule sched_inv_step [OF S, of rid r]) (use S r rid r' in \<open>auto simp: sched_inv_def\<close>)
  then show ?thesis by (rule sched_inv_cong) simp_all
qed

text \<open>The request after a token was appended and it did not stop.\<close>

lemma req_ok_appended:
  fixes kv :: KVCacheManager and r0 :: Request and t :: int
  assumes ok: "req_ok kv r0" and tok: "sched_ok kv r0 n" and full: "num_computed_tokens r0 + n = num_tokens r0"
    and len: "num_tokens r0 + 1 < max_model_len kv + 1"
  defines "r1 \<equiv> append_output_token_ids (r0\<lparr>num_computed_tokens := num_computed_tokens r0 + n\<rparr>) [t]"
  shows "req_ok kv r1"
proof -
  have "num_tokens (r0\<lparr>num_computed_tokens := k\<rparr>) = num_tokens r0" "request_wf (r0\<lparr>num_computed_tokens := k\<rparr>) = request_wf r0" for k
    by (simp_all add: num_tokens_def request_wf_def)
  then have sel: "num_tokens r1 = num_tokens r0 + 1" "request_wf r1" "num_computed_tokens r1 = num_tokens r0"
      "mm_positions r1 = mm_positions r0" "kv_block_hashes r1 = kv_block_hashes r0" "request_id r1 = request_id r0"
      "mm_hashes r1 = mm_hashes r0" "num_prompt_tokens r1 = num_prompt_tokens r0"
    using ok full by (simp_all add: r1_def req_ok_def append_output_wf) (simp add: append_output_token_ids_def)
  have "hashes_cover kv r1 (num_tokens r0)"
    using tok full sel(5,6) by (simp add: sched_ok_def hashes_cover_def)
  moreover have "mm_keys_ok r1 = mm_keys_ok r0" using sel by (simp add: mm_keys_ok_def)
  ultimately show ?thesis using ok sel tok len full by (auto simp: req_ok_def)
qed

lemma req_ok_advanced:
  assumes ok: "req_ok kv r0" and tok: "sched_ok kv r0 n" and part: "num_computed_tokens r0 + n < num_tokens r0"
  shows "req_ok kv (r0\<lparr>num_computed_tokens := num_computed_tokens r0 + n\<rparr>)"
proof -
  let ?r = "r0\<lparr>num_computed_tokens := num_computed_tokens r0 + n\<rparr>"
  have "num_tokens ?r = num_tokens r0" "request_wf ?r = request_wf r0" "mm_keys_ok ?r = mm_keys_ok r0"
      "hashes_cover kv ?r k = hashes_cover kv r0 k" for k
    by (simp_all add: num_tokens_def request_wf_def mm_keys_ok_def hashes_cover_def)
  then show ?thesis using assms by (simp add: req_ok_def sched_ok_def)
qed

lemma filter_rid:
  assumes "distinct ((dn @ rid # rids) @ wait)"
  shows "filter (\<lambda>i. i \<noteq> rid) (dn @ rid # rids) = dn @ rids" "filter (\<lambda>i. i \<noteq> rid) wait = wait"
proof -
  have "filter (\<lambda>i. i \<noteq> rid) dn = dn" "filter (\<lambda>i. i \<noteq> rid) rids = rids"
    using assms by (auto intro!: filter_True)
  then show "filter (\<lambda>i. i \<noteq> rid) (dn @ rid # rids) = dn @ rids" by simp
  show "filter (\<lambda>i. i \<noteq> rid) wait = wait" using assms by (auto intro!: filter_True)
qed

text \<open>What one processed request leaves of the rest of the state.\<close>

definition upd_frame :: "string \<Rightarrow> Scheduler \<Rightarrow> Scheduler \<Rightarrow> bool" where
  "upd_frame rid s s' \<longleftrightarrow>
     (\<forall>i. i \<noteq> rid \<longrightarrow> requests s' i = requests s i \<and> kv_same_for (kv_cache_manager s) (kv_cache_manager s') i) \<and>
     same_conf (kv_cache_manager s) (kv_cache_manager s') \<and> waiting s' = waiting s \<and>
     max_num_scheduled_tokens s' = max_num_scheduled_tokens s"

lemma py_slice_last: "xs \<noteq> [] \<Longrightarrow> py_slice xs (- 1) (int (length xs)) = [last xs]"
  by (cases xs rule: rev_cases) (simp_all add: py_slice_def py_clip_def)

lemma generate_token_ok:
  fixes s :: Scheduler and r0 :: Request
  defines "r \<equiv> \<lambda>n. r0\<lparr>num_computed_tokens := num_computed_tokens r0 + n\<rparr>"
  assumes inv: "sched_inv (s\<lparr>running := dn @ rid # rids\<rparr>)" and ord: "set_order_ok ord"
    and r0: "requests s rid = Some r0" and tok: "sched_ok (kv_cache_manager s) r0 n"
    and full: "num_computed_tokens r0 + n = num_tokens r0" and mro: "mro_covers mro rid"
    and e: "encoder_cache_inv (requests s) e" "cached e rid = None"
  shows "\<exists>out st s2. generate_token ord (put_req (s\<lparr>encoder_cache_manager := e\<rparr>) (r n)) (r n) mro = Inr (out, st, s2) \<and>
     sched_inv (s2\<lparr>running := (if st then dn @ rids else dn @ rid # rids)\<rparr>) \<and> upd_frame rid s s2 \<and>
     eco_request_id out = rid \<and> eco_finished out = st \<and> length (eco_new_token_ids out) = 1 \<and>
     finished_req_ids s2 = (if st then insert rid (finished_req_ids s) else finished_req_ids s)"
proof -
  note D = sched_invD [OF inv, of rid r0, simplified, OF r0]
  let ?s = "s\<lparr>encoder_cache_manager := e\<rparr>"
  obtain k t where t: "req_id_to_index mro rid = Some k" "py_index (sampled_token_ids mro) k = Inr t"
    using mro by (auto simp: mro_covers_def)
  define r1 where "r1 = append_output_token_ids (r n) [t]"
  have r1: "request_id r1 = rid" "mm_positions r1 = mm_positions r0" "output_token_ids r1 \<noteq> []" "status r1 = RUNNING"
      "num_tokens r1 = num_tokens r0 + 1"
    using D by (simp_all add: r1_def r_def append_output_token_ids_def req_status_ok_def num_tokens_def)
  obtain r2 where c: "check_stop ?s r1 = Inr (stops ?s r1, r2)" "request_id r2 = rid" "mm_positions r2 = mm_positions r0"
      "stops ?s r1 \<longrightarrow> is_finished r2" "\<not> stops ?s r1 \<longrightarrow> r2 = r1"
    using check_stop_cases [OF r1(3), of ?s] r1(1,2) by auto
  have out2: "output_token_ids r2 = output_token_ids r1"
    using c(1) by (auto simp: check_stop_def Let_def split: if_splits)
  have ch: "check_stop (put_req ?s (r n)) r1 = Inr (stops ?s r1, r2)" using c(1) by (simp add: check_stop_def)
  have put: "put_req (put_req ?s (r n)) r2 = put_req ?s r2" using c(2) D(1) by (intro put_req_twice) (simp add: r_def)
  have rn: "request_id (r n) = rid" using D(1) by (simp add: r_def)
  let ?out = "\<lparr>eco_request_id = rid, eco_new_token_ids = [last (output_token_ids r2)], eco_finished = is_finished r2,
      eco_finish_reason = get_finished_reason r2, eco_stop_reason = stop_reason r2\<rparr>"
  have gen: "generate_token ord (put_req ?s (r n)) (r n) mro =
      py_bind (if stops ?s r1 then free_request ord (put_req ?s r2) r2 else Inr (put_req ?s r2))
        (\<lambda>s2. Inr (?out, stops ?s r1, s2))"
    using t ch c(2) out2 r1(3) rn py_slice_last [of "output_token_ids r2"]
    by (simp add: generate_token_def r1_def [symmetric] Let_def put)
  have dist: "distinct ((dn @ rid # rids) @ waiting s)" using inv unfolding sched_inv_def by simp
  show ?thesis
  proof (cases "stops ?s r1")
    case True
    have "sched_inv ((s\<lparr>running := dn @ rid # rids\<rparr>)\<lparr>encoder_cache_manager := e\<rparr>)"
      using sched_inv_set_ecm [OF inv, of e] e(1) by simp
    then have invs: "sched_inv (?s\<lparr>running := dn @ rid # rids\<rparr>)" by (rule sched_inv_cong) simp_all
    obtain s' where f: "free_request ord (put_req ?s r2) r2 = Inr s'" "sched_inv (s'\<lparr>running := dn @ rids, waiting := waiting s\<rparr>)"
        "waiting s' = waiting s" "requests s' = (requests s)(rid := None)" "same_conf (kv_cache_manager s) (kv_cache_manager s')"
        "\<forall>i. i \<noteq> rid \<longrightarrow> kv_same_for (kv_cache_manager s) (kv_cache_manager s') i"
        "finished_req_ids s' = insert rid (finished_req_ids s)" "max_num_scheduled_tokens s' = max_num_scheduled_tokens s"
      using free_request_ok [OF invs ord, of rid r0 r2 "dn @ rids" "waiting s"] filter_rid [OF dist] r0 c(2,4) True e(2) by auto
    have "sched_inv (s'\<lparr>running := dn @ rids\<rparr>)" using f(2) by (rule sched_inv_cong) (simp_all add: f(3))
    then show ?thesis using gen f True c(4) by (auto simp: upd_frame_def)
  next
    case False
    have "num_tokens r1 < max_model_len (kv_cache_manager s)"
      using False inv by (simp add: stops_def sched_inv_def)
    then have "req_ok (kv_cache_manager s) r1"
      using req_ok_appended [OF D(2) tok full, of t] r1(5) by (simp add: r1_def r_def)
    then have "sched_inv ((put_req ?s r1)\<lparr>running := dn @ rid # rids\<rparr>)"
      using update_req_ok [OF inv r0 _ e(1), of r1] r1 by simp
    moreover have "\<not> is_finished r1" using r1(4) by (simp add: is_finished_def)
    ultimately show ?thesis using gen False c(5) r1(1) by (auto simp: upd_frame_def)
  qed
qed

section \<open>The loop over the running queue\<close>

text \<open>The tokens of the requests that are still to be processed fit.\<close>

definition toks_ok :: "Scheduler \<Rightarrow> (string \<times> int) list \<Rightarrow> ModelRunnerOutput \<Rightarrow> string list \<Rightarrow> bool" where
  "toks_ok s toks mro rids \<longleftrightarrow>
     (\<forall>rid n. map_of toks rid = Some n \<longrightarrow> rid \<in> set rids \<longrightarrow>
        mro_covers mro rid \<and> (\<exists>r. requests s rid = Some r \<and> sched_ok (kv_cache_manager s) r n))"

lemma toks_ok_frame:
  assumes t: "toks_ok s toks mro (rid # rids)" and f: "upd_frame rid s s'" and nin: "rid \<notin> set rids"
    and id: "\<And>i r. requests s i = Some r \<Longrightarrow> request_id r = i"
  shows "toks_ok s' toks mro rids"
  unfolding toks_ok_def
proof (intro allI impI)
  fix i n assume m: "map_of toks i = Some n" and i: "i \<in> set rids"
  then obtain r where r: "mro_covers mro i" "requests s i = Some r" "sched_ok (kv_cache_manager s) r n"
    using t by (auto simp: toks_ok_def)
  have "i \<noteq> rid" using i nin by blast
  then have "requests s' i = Some r" "kv_same_for (kv_cache_manager s) (kv_cache_manager s') (request_id r)"
    "same_conf (kv_cache_manager s) (kv_cache_manager s')"
    using f r(2) id [OF r(2)] by (simp_all add: upd_frame_def)
  with r sched_ok_cong show "mro_covers mro i \<and> (\<exists>r. requests s' i = Some r \<and> sched_ok (kv_cache_manager s') r n)" by blast
qed

lemma free_done_ok:
  fixes s :: Scheduler and r0 :: Request
  defines "r \<equiv> \<lambda>n. r0\<lparr>num_computed_tokens := num_computed_tokens r0 + n\<rparr>"
  assumes inv: "encoder_cache_inv (requests s) (encoder_cache_manager s)" and ord: "set_order_ok ord"
    and r0: "requests s rid = Some r0" "request_id r0 = rid"
    and ends: "\<forall>p\<in>set (mm_positions r0). pr_offset p + pr_length p \<le> num_tokens r0"
  shows "\<exists>e. free_done_inputs (encoder_cache_manager s) (r n)
        (ord (get_cached_input_ids (encoder_cache_manager s) (r n))) = Inr e \<and>
     encoder_cache_inv (requests s) e \<and>
     (num_computed_tokens r0 + n = num_tokens r0 \<longrightarrow> cached e rid = None)"
proof -
  let ?R = "(requests s)(rid \<mapsto> r n)" and ?e = "encoder_cache_manager s"
  let ?S = "get_cached_input_ids ?e (r n)"
  have cong: "encoder_cache_inv ?R e = encoder_cache_inv (requests s) e" for e
    by (rule encoder_cache_inv_cong) (use r0 in \<open>auto simp: r_def\<close>)
  have R: "encoder_cache_inv ?R ?e" "?R (request_id (r n)) = Some (r n)" using inv cong r0 by (simp_all add: r_def)
  have S: "finite ?S" "\<forall>i\<in>?S. i < length (mm_positions r0)"
    using cached_ids_bound [OF R] by (simp_all add: r_def)
  obtain e where e: "free_done_inputs ?e (r n) (ord ?S) = Inr e" "encoder_cache_inv ?R e"
      "get_cached_input_ids e (r n) = ?S - {i \<in> set (ord ?S). input_done (r n) i}"
    using free_done_inputs_ok [OF R set_order_okD(1) [OF ord S(1)] equalityD1 [OF set_order_okD(2) [OF ord S(1)]]] by blast
  have "cached e rid = None" if full: "num_computed_tokens r0 + n = num_tokens r0"
  proof -
    have "input_done (r n) i" if "i \<in> ?S" for i
      using S(2) that ends full by (auto simp: input_done_def r_def)
    then have "get_cached_input_ids e (r n) = {}" using e(3) set_order_okD(2) [OF ord S(1)] by auto
    then show ?thesis
      using encoder_cache_invD [OF e(2), of rid "r n"] r0(2) by (cases "cached e rid") (auto simp: get_cached_input_ids_def r_def)
  qed
  with e cong show ?thesis by blast
qed

text \<open>The result of the walk: who stays, and one output of one token per request that caught up.\<close>

definition upd_post :: "Scheduler \<Rightarrow> string list \<Rightarrow> string list \<Rightarrow> string list \<Rightarrow> EngineCoreOutput list \<Rightarrow> Scheduler \<Rightarrow> bool" where
  "upd_post s dn rids nr outs s' \<longleftrightarrow>
     sched_inv (s'\<lparr>running := dn @ nr\<rparr>) \<and> waiting s' = waiting s \<and> set nr \<subseteq> set rids \<and>
     same_conf (kv_cache_manager s) (kv_cache_manager s') \<and>
     max_num_scheduled_tokens s' = max_num_scheduled_tokens s \<and>
     distinct (map eco_request_id outs) \<and> eco_request_id ` set outs \<subseteq> set rids \<and>
     (\<forall>out\<in>set outs. length (eco_new_token_ids out) = 1) \<and>
     set rids - set nr = {eco_request_id out | out. out \<in> set outs \<and> eco_finished out} \<and>
     finished_req_ids s' = finished_req_ids s \<union> (set rids - set nr)"

text \<open>One processed request, followed by the rest of the queue.\<close>

lemma upd_post_keep:
  assumes "upd_post s1 (dn @ [rid]) rids nr outs s'" and "rid \<notin> set rids"
    and "upd_frame rid s s1" and "finished_req_ids s1 = finished_req_ids s"
    and "outs' = outs \<or> (\<exists>out. outs' = out # outs \<and> eco_request_id out = rid \<and> \<not> eco_finished out \<and>
           length (eco_new_token_ids out) = 1)"
  shows "upd_post s dn (rid # rids) (rid # nr) outs' s'"
proof -
  have "set (rid # rids) - set (rid # nr) = set rids - set nr" using assms(2) by auto
  moreover have "{eco_request_id out | out. out \<in> set outs' \<and> eco_finished out} =
      {eco_request_id out | out. out \<in> set outs \<and> eco_finished out}" using assms(5) by auto
  moreover have "distinct (map eco_request_id outs')" "eco_request_id ` set outs' \<subseteq> set (rid # rids)"
      "\<forall>out\<in>set outs'. length (eco_new_token_ids out) = 1"
    using assms(1,2,5) unfolding upd_post_def by force+
  ultimately show ?thesis
    using assms(1,3,4) by (auto simp: upd_post_def upd_frame_def intro: same_conf_trans)
qed

lemma upd_post_stop:
  assumes "upd_post s1 dn rids nr outs s'" and "rid \<notin> set rids" and "upd_frame rid s s1"
    and "finished_req_ids s1 = insert rid (finished_req_ids s)"
    and "eco_request_id out = rid" "eco_finished out" "length (eco_new_token_ids out) = 1"
  shows "upd_post s dn (rid # rids) nr (out # outs) s'"
proof -
  have nr: "set nr \<subseteq> set rids" using assms(1) by (simp add: upd_post_def)
  then have "set (rid # rids) - set nr = insert rid (set rids - set nr)" using assms(2) by auto
  moreover have "{eco_request_id x | x. x \<in> set (out # outs) \<and> eco_finished x} =
      insert rid {eco_request_id x | x. x \<in> set outs \<and> eco_finished x}" using assms(5,6) by auto
  ultimately show ?thesis
    using assms by (auto simp: upd_post_def upd_frame_def intro: same_conf_trans)
qed

lemma update_some:
  assumes inv: "sched_inv (s\<lparr>running := dn @ rid # rids\<rparr>)" and ord: "set_order_ok ord" and r0: "requests s rid = Some r0"
    and D: "request_id r0 = rid" "req_ok (kv_cache_manager s) r0" "status r0 = RUNNING"
    and tok: "sched_ok (kv_cache_manager s) r0 n" and mro: "mro_covers mro rid" and nin: "rid \<notin> set rids"
    and rest: "\<And>s1 dn1. sched_inv (s1\<lparr>running := dn1 @ rids\<rparr>) \<Longrightarrow> upd_frame rid s s1 \<Longrightarrow>
      \<exists>nr outs s'. update_loop ord s1 toks mro rids = Inr (nr, outs, s') \<and> upd_post s1 dn1 rids nr outs s'"
    and n: "map_of toks rid = Some n" "n \<noteq> 0"
  shows "\<exists>nr outs s'. update_loop ord s toks mro (rid # rids) = Inr (nr, outs, s') \<and> upd_post s dn (rid # rids) nr outs s'"
proof -
  let ?r = "r0\<lparr>num_computed_tokens := num_computed_tokens r0 + n\<rparr>"
  have ei: "encoder_cache_inv (requests s) (encoder_cache_manager s)" using inv by (simp add: sched_inv_def)
  have wf: "request_wf r0" "\<forall>p\<in>set (mm_positions r0). pr_offset p + pr_length p \<le> num_prompt_tokens r0"
    using D(2) by (simp_all add: req_ok_def)
  have "num_prompt_tokens r0 \<le> num_tokens r0" using request_wf_num_tokens [OF wf(1)] by (simp add: num_output_tokens_def)
  then have ends: "\<forall>p\<in>set (mm_positions r0). pr_offset p + pr_length p \<le> num_tokens r0" using wf(2) by fastforce
  obtain e where e: "free_done_inputs (encoder_cache_manager s) ?r (ord (get_cached_input_ids (encoder_cache_manager s) ?r)) = Inr e"
      "encoder_cache_inv (requests s) e" "num_computed_tokens r0 + n = num_tokens r0 \<longrightarrow> cached e rid = None"
    using free_done_ok [OF ei ord r0 D(1) ends, of n] by blast
  let ?s1 = "put_req (s\<lparr>encoder_cache_manager := e\<rparr>) ?r"
  have nt: "num_tokens ?r = num_tokens r0" by (simp add: num_tokens_def)
  have le: "num_computed_tokens r0 + n \<le> num_tokens r0" using tok by (simp add: sched_ok_def)
  have unf: "update_loop ord s toks mro (rid # rids) =
      (if num_computed_tokens r0 + n = num_tokens r0 then
         py_bind (generate_token ord ?s1 ?r mro) (\<lambda>(out, stopped, s2).
           py_bind (update_loop ord s2 toks mro rids) (\<lambda>(nr, outs, s'). Inr (if stopped then nr else rid # nr, out # outs, s')))
       else py_bind (update_loop ord ?s1 toks mro rids) (\<lambda>(nr, outs, s'). Inr (rid # nr, outs, s')))"
    using r0 n e(1) le by (simp add: get_req_def Let_def nt)
  show ?thesis
  proof (cases "num_computed_tokens r0 + n = num_tokens r0")
    case True
    obtain out st s2 where g: "generate_token ord ?s1 ?r mro = Inr (out, st, s2)"
        "sched_inv (s2\<lparr>running := (if st then dn @ rids else dn @ rid # rids)\<rparr>)" "upd_frame rid s s2"
        "eco_request_id out = rid" "eco_finished out = st" "length (eco_new_token_ids out) = 1"
        "finished_req_ids s2 = (if st then insert rid (finished_req_ids s) else finished_req_ids s)"
      using generate_token_ok [OF inv ord r0 tok True mro e(2) e(3) [rule_format, OF True]] by (elim exE conjE)
    let ?dn = "if st then dn else dn @ [rid]"
    obtain nr outs s' where l: "update_loop ord s2 toks mro rids = Inr (nr, outs, s')" "upd_post s2 ?dn rids nr outs s'"
      using rest [of ?dn s2] g(2,3) by (cases st) auto
    have "upd_post s dn (rid # rids) (if st then nr else rid # nr) (out # outs) s'"
      using upd_post_stop [of s2 dn rids nr outs s' rid s out] upd_post_keep [of s2 dn rid rids nr outs s' s "out # outs"] l(2) nin g(3-7)
      by (cases st) auto
    then show ?thesis using unf True g(1) l(1) by auto
  next
    case False
    have "req_ok (kv_cache_manager s) ?r" using req_ok_advanced [OF D(2) tok] le False by simp
    then have "sched_inv (?s1\<lparr>running := dn @ rid # rids\<rparr>)"
      using update_req_ok [OF inv r0 _ e(2), of ?r] D by simp
    moreover have fr: "upd_frame rid s ?s1" using D(1) by (simp add: upd_frame_def)
    ultimately obtain nr outs s' where l: "update_loop ord ?s1 toks mro rids = Inr (nr, outs, s')"
        "upd_post ?s1 (dn @ [rid]) rids nr outs s'"
      using rest [of "dn @ [rid]" ?s1] by auto
    have "upd_post s dn (rid # rids) (rid # nr) outs s'" by (rule upd_post_keep [OF l(2) nin fr]) simp_all
    then show ?thesis using unf False l(1) by auto
  qed
qed

lemma update_loop_ok:
  "sched_inv (s\<lparr>running := dn @ rids\<rparr>) \<Longrightarrow> set_order_ok ord \<Longrightarrow> toks_ok s toks mro rids \<Longrightarrow>
   \<exists>nr outs s'. update_loop ord s toks mro rids = Inr (nr, outs, s') \<and> upd_post s dn rids nr outs s'"
proof (induction rids arbitrary: s dn)
  case Nil
  then show ?case by (simp add: upd_post_def)
next
  case (Cons rid rids)
  note inv = Cons.prems(1) and ord = Cons.prems(2)
  have dist: "distinct ((dn @ rid # rids) @ waiting s)" using inv unfolding sched_inv_def by simp
  then have nin: "rid \<notin> set rids" by simp
  obtain r0 where r0: "requests s rid = Some r0" using sched_inv_req [OF inv, of rid] by auto
  have D: "request_id r0 = rid" "req_ok (kv_cache_manager s) r0" "status r0 = RUNNING"
    using sched_invD [OF inv, of rid r0] r0 by (simp_all add: req_status_ok_def)
  have id: "\<And>i r. requests s i = Some r \<Longrightarrow> request_id r = i" using sched_invD(1) [OF inv] by simp
  have rest: "\<exists>nr outs s'. update_loop ord s1 toks mro rids = Inr (nr, outs, s') \<and> upd_post s1 dn1 rids nr outs s'"
    if "sched_inv (s1\<lparr>running := dn1 @ rids\<rparr>)" "upd_frame rid s s1" for s1 dn1
    by (rule Cons.IH [OF that(1) ord toks_ok_frame [OF Cons.prems(3) that(2) nin id]])
  show ?case
  proof (cases "case map_of toks rid of None \<Rightarrow> True | Some n \<Rightarrow> n = 0")
    case True
    have refl: "upd_frame rid s s" by (simp add: upd_frame_def)
    obtain nr outs s' where l: "update_loop ord s toks mro rids = Inr (nr, outs, s')" "upd_post s (dn @ [rid]) rids nr outs s'"
      using rest [of "dn @ [rid]" s] inv refl by auto
    have "upd_post s dn (rid # rids) (rid # nr) outs s'" by (rule upd_post_keep [OF l(2) nin refl]) simp_all
    then show ?thesis using True r0 l(1) by (auto simp: get_req_def split: option.splits)
  next
    case False
    then obtain n where n: "map_of toks rid = Some n" "n \<noteq> 0" by (auto split: option.splits)
    have tok: "sched_ok (kv_cache_manager s) r0 n" and mro: "mro_covers mro rid"
      using Cons.prems(3) n(1) r0 by (auto simp: toks_ok_def)
    show ?thesis
      by (rule update_some [OF inv ord r0 D tok mro nin rest n])
  qed
qed

end
