(* ===== verification/Transition.thy ===== *)
theory Transition
  imports Main
begin

text \<open>
  Transition systems: the contract between a component whose operations keep an invariant and the
  clients that run them in any order.  The components with a step relation interpret it.
\<close>

locale transition_invariant =
  fixes init :: "'s \<Rightarrow> bool" and step :: "'s \<Rightarrow> 's \<Rightarrow> bool" and inv :: "'s \<Rightarrow> bool"
  assumes init_inv: "init s \<Longrightarrow> inv s"
    and step_inv: "step s s' \<Longrightarrow> inv s \<Longrightarrow> inv s'"
begin

lemma steps_inv: "step\<^sup>*\<^sup>* s s' \<Longrightarrow> inv s \<Longrightarrow> inv s'"
  by (induction rule: rtranclp_induct) (auto intro: step_inv)

lemma reachable_inv: "init s \<Longrightarrow> step\<^sup>*\<^sup>* s s' \<Longrightarrow> inv s'"
  using init_inv steps_inv by blast

end

text \<open>A system that moreover has a measure no step decreases.\<close>

locale transition_monotone = transition_invariant init step inv
  for init :: "'s \<Rightarrow> bool" and step :: "'s \<Rightarrow> 's \<Rightarrow> bool" and inv :: "'s \<Rightarrow> bool" +
  fixes obs :: "'s \<Rightarrow> 'o::order"
  assumes step_mono: "step s s' \<Longrightarrow> inv s \<Longrightarrow> obs s \<le> obs s'"
begin

lemma steps_mono: "step\<^sup>*\<^sup>* s s' \<Longrightarrow> inv s \<Longrightarrow> obs s \<le> obs s'"
proof (induction rule: rtranclp_induct)
  case (step t u)
  then show ?case using steps_inv step_mono order_trans by metis
qed simp

end

end
