(* ===== verification/SchedulerProps.thy ===== *)
theory SchedulerProps
  imports SchedulerUpdate Transition
begin

text \<open>
  The life of a scheduler: construction, requests added and aborted, steps that schedule tokens and
  take in the model's output.  Every reachable scheduler satisfies the invariant of
  \<open>SchedulerInv\<close>, so that no step raises; the properties below state what a step promises to the
  model runner and to the client.
\<close>

section \<open>The operations around a step\<close>

lemma update_from_output_ok:
  assumes inv: "sched_inv s" and ord: "set_order_ok ord" and toks: "toks_ok s (num_scheduled_tokens out) mro (running s)"
  shows "\<exists>o' s'. update_from_output ord s out mro = Inr (o', s') \<and> sched_inv s' \<and>
     upd_post s [] (running s) (running s') (ecos_outputs o') s'"
proof -
  have "sched_inv (s\<lparr>running := [] @ running s\<rparr>)" using inv by simp
  from update_loop_ok [OF this ord toks] obtain nr outs s1 where
    l: "update_loop ord s (num_scheduled_tokens out) mro (running s) = Inr (nr, outs, s1)"
       "upd_post s [] (running s) nr outs s1"
    by blast
  let ?s = "s1\<lparr>running := nr\<rparr>"
  have ok: "sched_inv ?s" using l(2) by (simp add: upd_post_def)
  then have "num_gpu_blocks (kv_cache_manager s1) \<noteq> 0"
    by (auto simp: sched_inv_def kvm_good_def kvm_conf_ok_def)
  then obtain u where "make_stats ?s = Inr u" by (auto simp: make_stats_def usage_def)
  moreover have "upd_post s [] (running s) (running ?s) outs ?s" using l(2) by (simp add: upd_post_def)
  ultimately show ?thesis using l(1) ok by (auto simp: update_from_output_def Let_def)
qed

text \<open>What a new request must satisfy: the checks the front end makes before it sends one.\<close>

definition new_req_ok :: "Scheduler \<Rightarrow> Request \<Rightarrow> bool" where
  "new_req_ok s r \<longleftrightarrow>
     requests s (request_id r) = None \<and> request_wf r \<and> status r = WAITING \<and> num_computed_tokens r = 0 \<and>
     0 < num_tokens r \<and> num_tokens r \<le> s_max_model_len s \<and> kv_block_hashes r = [] \<and>
     (\<forall>p\<in>set (mm_positions r). pr_offset p + pr_length p \<le> num_prompt_tokens r) \<and>
     (enable_caching (kv_cache_manager s) \<longrightarrow> mm_keys_ok r)"

lemma add_request_ok:
  assumes inv: "sched_inv s" and new: "new_req_ok s r"
  shows "sched_inv (add_request s r)"
proof -
  let ?kv = "kv_cache_manager s" and ?rid = "request_id r"
  define t where "t = add_request s r"
  have sel: "kv_cache_manager t = ?kv" "s_block_size t = s_block_size s" "s_max_model_len t = s_max_model_len s"
      "running t = running s" "waiting t = waiting s @ [?rid]" "max_num_running_reqs t = max_num_running_reqs s"
      "encoder_cache_manager t = encoder_cache_manager s" "encoder_cache t = encoder_cache s"
      "requests t = (requests s)(?rid \<mapsto> r)"
    by (simp_all add: t_def add_request_def)
  have fresh: "?rid \<notin> set (running s) \<union> set (waiting s)"
    using inv new by (auto simp: sched_inv_def new_req_ok_def)
  have blocks: "blocks_of ?kv ?rid = []" "s_max_model_len s = max_model_len ?kv" using inv fresh by (auto simp: sched_inv_def)
  then have "hashes_cover ?kv r 0" by (simp add: hashes_cover_def hashed_prefix_def)
  then have ok: "req_ok ?kv r" using new blocks(2) blocks_bounded_Nil [OF blocks(1)] by (simp add: new_req_ok_def req_ok_def)
  have each: "request_id x = i \<and> req_ok ?kv x \<and> req_status_ok t x" if x: "requests t i = Some x" for i x
  proof (cases "i = ?rid")
    case True
    then show ?thesis using x ok new fresh sel(4,9) by (auto simp: req_status_ok_def new_req_ok_def)
  next
    case False
    then show ?thesis using sched_invD [OF inv, of i x] x sel(4,9) by (simp add: req_status_ok_def)
  qed
  have "encoder_cache_inv (requests t) (encoder_cache_manager s) = encoder_cache_inv (requests s) (encoder_cache_manager s)"
  proof (rule encoder_cache_inv_cong)
    fix i assume "i \<in> dom (cached (encoder_cache_manager s))"
    moreover have "encoder_cache_inv (requests s) (encoder_cache_manager s)" using inv by (simp add: sched_inv_def)
    ultimately have "requests s i \<noteq> None" unfolding encoder_cache_inv_def by blast
    then show "map_option mm_positions (requests t i) = map_option mm_positions (requests s i)"
      using new sel(9) by (auto simp: new_req_ok_def)
  qed
  then have enc: "encoder_cache_inv (requests t) (encoder_cache_manager s)" using inv by (simp add: sched_inv_def)
  have dom: "dom (requests t) = set (running s) \<union> set (waiting s @ [?rid])"
    using inv sel(9) by (auto simp: sched_inv_def)
  have dist: "distinct (running s @ waiting s @ [?rid])" using inv fresh by (auto simp: sched_inv_def)
  have "sched_inv t"
    unfolding sched_inv_def sel(1-8)
    using inv dom each enc dist unfolding sched_inv_def by (intro conjI) (blast | simp)+
  then show ?thesis by (simp add: t_def)
qed

lemma encoder_results_ok:
  assumes "sched_inv s"
  shows "sched_inv (s\<lparr>encoder_cache := Some ec\<rparr>)"
proof -
  have "req_status_ok (s\<lparr>encoder_cache := Some ec\<rparr>) r = req_status_ok s r" for r by (simp add: req_status_ok_def)
  then show ?thesis using assms by (simp add: sched_inv_def)
qed

lemma scheduler_init_ok:
  assumes init: "scheduler_init seqs toks mml bs nb sw caching False budgets (Some ec) = Inr s"
    and "0 < bs" "0 \<le> seqs"
  shows "sched_inv s" "requests s = Map.empty" "max_num_scheduled_tokens s = toks"
proof -
  from init obtain n kv where kv: "nb = Some n" "n > 0" "kv_cache_manager_init bs n mml sw caching 64 = Inr kv"
      "s = \<lparr>max_num_running_reqs = seqs, max_num_scheduled_tokens = toks, s_max_model_len = mml, s_block_size = bs,
            kv_cache_manager = kv, requests = Map.empty, waiting = [], running = [], finished_req_ids = {},
            cached_reqs_data = Map.empty, max_num_encoder_input_tokens = fst budgets,
            encoder_cache_manager = encoder_cache_manager_init (snd budgets), encoder_cache = Some ec\<rparr>"
    by (auto simp: scheduler_init_def split: option.splits if_splits)
  have good: "kvm_good kv" using init_good [OF \<open>0 < bs\<close> _ kv(3)] by simp
  have "block_size kv = bs" "max_model_len kv = mml" "blocks_of kv rid = []" for rid
    using kv(3) by (auto simp: kv_cache_manager_init_def Let_def blocks_of_def split: if_splits)
  with good kv(4) \<open>0 \<le> seqs\<close> show "sched_inv s"
    by (simp add: sched_inv_def encoder_cache_inv_def encoder_cache_manager_init_def)
  show "requests s = Map.empty" "max_num_scheduled_tokens s = toks" using kv(4) by simp_all
qed

section \<open>Aborting requests\<close>

lemma free_request_queues:
  "free_request ord (put_req (s\<lparr>running := a, waiting := b\<rparr>) r') r =
     py_bind (free_request ord (put_req s r') r) (\<lambda>s'. Inr (s'\<lparr>running := a, waiting := b\<rparr>))"
  by (cases "is_finished r"; cases "free (kv_cache_manager s) (request_id r)";
      cases "encoder_free ord (encoder_cache_manager s) r") (simp_all add: free_request_def put_req_def)

lemma finish_one_eq:
  assumes inv: "sched_inv s" and r: "requests s rid = Some r"
  shows "finish_one ord s st rid =
     py_bind (free_request ord (put_req s (r\<lparr>status := st\<rparr>)) (r\<lparr>status := st\<rparr>))
       (\<lambda>s'. Inr (s'\<lparr>running := filter (\<lambda>i. i \<noteq> rid) (running s), waiting := filter (\<lambda>i. i \<noteq> rid) (waiting s)\<rparr>))"
proof -
  let ?r = "r\<lparr>status := st\<rparr>"
  have q: "distinct (running s)" "distinct (waiting s)" "set (running s) \<inter> set (waiting s) = {}"
      "rid \<in> set (running s) \<union> set (waiting s)"
    using inv r unfolding sched_inv_def by auto
  have st: "status r = RUNNING \<longleftrightarrow> rid \<in> set (running s)"
    using sched_invD [OF inv r] by (auto simp: req_status_ok_def split: if_splits)
  have rem: "remove1 rid xs = filter (\<lambda>i. i \<noteq> rid) xs" if "distinct xs" for xs :: "string list"
    using that by (simp add: distinct_remove1_removeAll removeAll_filter_not_eq fun_eq_iff eq_commute)
  show ?thesis
  proof (cases "rid \<in> set (running s)")
    case True
    then have "filter (\<lambda>i. i \<noteq> rid) (waiting s) = waiting s" using q(3) by (auto intro!: filter_True)
    with True r st show ?thesis
      using free_request_queues [where s = s and a = "remove1 rid (running s)" and b = "waiting s"] rem [OF q(1)]
      by (simp add: finish_one_def py_remove_def Let_def)
  next
    case False
    then have "filter (\<lambda>i. i \<noteq> rid) (running s) = running s" by (auto intro!: filter_True)
    with False r st q(4) show ?thesis
      using free_request_queues [where s = s and a = "running s" and b = "remove1 rid (waiting s)"] rem [OF q(2)]
      by (simp add: finish_one_def py_remove_def Let_def)
  qed
qed

text \<open>The state after the requests \<open>D\<close> were finished.\<close>

definition finished_from :: "Scheduler \<Rightarrow> string set \<Rightarrow> Scheduler \<Rightarrow> bool" where
  "finished_from s D s' \<longleftrightarrow>
     running s' = filter (\<lambda>i. i \<notin> D) (running s) \<and> waiting s' = filter (\<lambda>i. i \<notin> D) (waiting s) \<and>
     requests s' = requests s |` (- D) \<and> encoder_cache_manager s' = encoder_cache_manager s \<and>
     finished_req_ids s' = finished_req_ids s \<union> (D \<inter> dom (requests s)) \<and>
     max_num_scheduled_tokens s' = max_num_scheduled_tokens s \<and>
     (\<forall>i. i \<notin> D \<longrightarrow> blocks_of (kv_cache_manager s') i = blocks_of (kv_cache_manager s) i)"

lemma finish_one_ok:
  assumes inv: "sched_inv s" and ord: "set_order_ok ord" and st: "status_is_finished st"
    and enc: "cached (encoder_cache_manager s) rid = None"
  shows "\<exists>s'. finish_one ord s st rid = Inr s' \<and> sched_inv s' \<and> finished_from s {rid} s'"
proof (cases "requests s rid")
  case None
  then have "rid \<notin> set (running s) \<union> set (waiting s)" using inv by (auto simp: sched_inv_def)
  then have "filter (\<lambda>i. i \<notin> {rid}) (running s) = running s" "filter (\<lambda>i. i \<notin> {rid}) (waiting s) = waiting s"
    by (auto intro!: filter_True)
  moreover have "requests s |` (- {rid}) = requests s" using None by (auto simp: restrict_map_def fun_eq_iff)
  ultimately show ?thesis using None inv by (simp add: finish_one_def finished_from_def domIff)
next
  case (Some r)
  let ?r = "r\<lparr>status := st\<rparr>"
  have r: "request_id ?r = rid" "is_finished ?r" using sched_invD(1) [OF inv Some] st by (simp_all add: is_finished_def)
  let ?run = "filter (\<lambda>i. i \<noteq> rid) (running s)" and ?wait = "filter (\<lambda>i. i \<noteq> rid) (waiting s)"
  have "sched_inv (s\<lparr>running := running s\<rparr>)" using inv by simp
  from free_request_ok [OF this ord Some r enc refl refl] obtain s' where
    f: "free_request ord (put_req s ?r) ?r = Inr s'" "sched_inv (s'\<lparr>running := ?run, waiting := ?wait\<rparr>)"
       "requests s' = (requests s)(rid := None)" "encoder_cache_manager s' = encoder_cache_manager s"
       "\<forall>i. i \<noteq> rid \<longrightarrow> kv_same_for (kv_cache_manager s) (kv_cache_manager s') i"
       "finished_req_ids s' = insert rid (finished_req_ids s)" "max_num_scheduled_tokens s' = max_num_scheduled_tokens s"
    by blast
  have "requests s |` (- {rid}) = (requests s)(rid := None)" by (auto simp: restrict_map_def fun_eq_iff)
  then have "finished_from s {rid} (s'\<lparr>running := ?run, waiting := ?wait\<rparr>)"
    using f Some by (auto simp: finished_from_def kv_same_for_def)
  then show ?thesis using finish_one_eq [OF inv Some, of ord st] f(1,2) by auto
qed

lemma finished_from_trans: "finished_from a D b \<Longrightarrow> finished_from b E c \<Longrightarrow> finished_from a (D \<union> E) c"
  by (auto simp: finished_from_def intro!: filter_cong)

lemma finish_loop_ok:
  "sched_inv s \<Longrightarrow> set_order_ok ord \<Longrightarrow> status_is_finished st \<Longrightarrow>
   \<forall>rid\<in>set rids. cached (encoder_cache_manager s) rid = None \<Longrightarrow>
   \<exists>s'. finish_loop ord s st rids = Inr s' \<and> sched_inv s' \<and> finished_from s (set rids) s'"
proof (induction rids arbitrary: s)
  case Nil
  then show ?case by (auto simp: finished_from_def)
next
  case (Cons rid rids)
  obtain s1 where s1: "finish_one ord s st rid = Inr s1" "sched_inv s1" "finished_from s {rid} s1"
    using finish_one_ok [OF Cons.prems(1-3), of rid] Cons.prems(4) by auto
  have "\<forall>i\<in>set rids. cached (encoder_cache_manager s1) i = None"
    using s1(3) Cons.prems(4) by (simp add: finished_from_def)
  from Cons.IH [OF s1(2) Cons.prems(2,3) this] obtain s' where
    s': "finish_loop ord s1 st rids = Inr s'" "sched_inv s'" "finished_from s1 (set rids) s'" by blast
  have "finished_from s (set (rid # rids)) s'" using finished_from_trans [OF s1(3) s'(3)] by simp
  with s1(1) s'(1,2) show ?case by simp
qed

lemma finish_one_raises:
  assumes inv: "sched_inv s" and ord: "set_order_ok ord" and st: "status_is_finished st"
    and enc: "cached (encoder_cache_manager s) rid \<noteq> None"
  shows "finish_one ord s st rid = Inl RuntimeError"
proof -
  let ?e = "encoder_cache_manager s"
  have ei: "encoder_cache_inv (requests s) ?e" using inv by (simp add: sched_inv_def)
  obtain S r where S: "cached ?e rid = Some S" "S \<noteq> {}" "requests s rid = Some r"
    using enc ei unfolding encoder_cache_inv_def by blast
  let ?r = "r\<lparr>status := st\<rparr>"
  have id: "request_id r = rid" using sched_invD [OF inv S(3)] by simp
  have "encoder_cache_inv ((requests s)(rid \<mapsto> ?r)) ?e = encoder_cache_inv (requests s) ?e"
    by (rule encoder_cache_inv_cong) (use S(3) in auto)
  then have "encoder_free ord ?e ?r = Inl RuntimeError"
    using encoder_free_raises [OF ord, of "(requests s)(rid \<mapsto> ?r)" ?e ?r] S id ei by (simp add: get_cached_input_ids_def)
  moreover obtain kv where "free (kv_cache_manager s) rid = Inr kv"
    using free_step [of "kv_cache_manager s" rid] inv by (auto simp: sched_inv_def)
  ultimately have "free_request ord (put_req s ?r) ?r = Inl RuntimeError"
    using st id by (simp add: free_request_def is_finished_def)
  then show ?thesis using finish_one_eq [OF inv S(3), of ord st] by simp
qed

lemma finish_loop_Inr:
  "sched_inv s \<Longrightarrow> set_order_ok ord \<Longrightarrow> status_is_finished st \<Longrightarrow> finish_loop ord s st rids = Inr s' \<Longrightarrow>
   \<forall>rid\<in>set rids. cached (encoder_cache_manager s) rid = None"
proof (induction rids arbitrary: s)
  case (Cons rid rids)
  obtain s1 where s1: "finish_one ord s st rid = Inr s1" "finish_loop ord s1 st rids = Inr s'" using Cons.prems(4) by auto
  have none: "cached (encoder_cache_manager s) rid = None"
    using finish_one_raises [OF Cons.prems(1-3), of rid] s1(1) by (cases "cached (encoder_cache_manager s) rid") auto
  have "sched_inv s1" "finished_from s {rid} s1" using finish_one_ok [OF Cons.prems(1-3) none] s1(1) by auto
  then show ?case using none Cons.IH [OF _ Cons.prems(2,3) s1(2)] by (simp add: finished_from_def)
qed simp

lemma finish_loop_Inl:
  "sched_inv s \<Longrightarrow> set_order_ok ord \<Longrightarrow> status_is_finished st \<Longrightarrow> finish_loop ord s st rids = Inl e \<Longrightarrow> e = RuntimeError"
proof (induction rids arbitrary: s)
  case (Cons rid rids)
  show ?case
  proof (cases "cached (encoder_cache_manager s) rid")
    case None
    from finish_one_ok [OF Cons.prems(1-3) this] obtain s1 where "finish_one ord s st rid = Inr s1" "sched_inv s1" by blast
    then show ?thesis using Cons.IH [OF _ Cons.prems(2,3)] Cons.prems(4) by simp
  next
    case (Some S)
    then show ?thesis using finish_one_raises [OF Cons.prems(1-3), of rid] Cons.prems(4) by simp
  qed
qed simp

lemma finish_requests_ok:
  assumes "sched_inv s" "set_order_ok ord" "finish_requests ord s rids st = Inr s'"
  shows "sched_inv s' \<and> finished_from s (set rids) s'"
proof -
  have st: "status_is_finished st" "finish_loop ord s st rids = Inr s'"
    using assms(3) by (auto simp: finish_requests_def split: if_splits)
  from finish_loop_ok [OF assms(1,2) st(1) finish_loop_Inr [OF assms(1,2) st]] st(2) show ?thesis by simp
qed

section \<open>Reachable schedulers\<close>

lemma sched_inv_kv:
  assumes inv: "sched_inv s" and good: "kvm_good kv'" and conf: "same_conf (kv_cache_manager s) kv'"
    and same: "\<And>rid. kv_same_for (kv_cache_manager s) kv' rid"
  shows "sched_inv (s\<lparr>kv_cache_manager := kv'\<rparr>)"
proof -
  let ?t = "s\<lparr>kv_cache_manager := kv'\<rparr>"
  have "req_status_ok ?t r = req_status_ok s r" for r by (simp add: req_status_ok_def)
  moreover have "req_ok kv' r = req_ok (kv_cache_manager s) r" for r by (rule req_ok_cong [OF same conf])
  moreover have "blocks_of kv' rid = blocks_of (kv_cache_manager s) rid" for rid using same by (simp add: kv_same_for_def)
  ultimately show ?thesis using inv good conf unfolding sched_inv_def by (simp add: same_conf_def)
qed

lemma scheduler_reset_ok:
  assumes inv: "sched_inv s"
  shows "sched_inv (snd (scheduler_reset_prefix_cache s))"
proof -
  obtain ok kv where r: "reset_prefix_cache (kv_cache_manager s) = (ok, kv)" by fastforce
  have good: "kvm_good (kv_cache_manager s)" using inv by (simp add: sched_inv_def)
  then obtain fl where rep: "kvm_rep (kv_cache_manager s) fl []" by (auto simp: kvm_good_def kvm_inv_def)
  have "kv_same_for (kv_cache_manager s) kv rid" for rid
  proof (cases ok)
    case True
    then have "\<forall>rid. blocks_of (kv_cache_manager s) rid = []" using reset_ok_iff [OF rep r] by simp
    moreover have "req_to_blocks kv = req_to_blocks (kv_cache_manager s)" using reset_rep [OF rep, of kv] r True by simp
    ultimately show ?thesis by (simp add: kv_same_for_def blocks_of_def)
  next
    case False
    then have "kv = kv_cache_manager s" using r by (simp add: reset_prefix_cache_def split: if_splits)
    then show ?thesis by simp
  qed
  then have "sched_inv (s\<lparr>kv_cache_manager := kv\<rparr>)" using sched_inv_kv [OF inv] reset_good [OF good r] by blast
  then show ?thesis by (simp add: scheduler_reset_prefix_cache_def r)
qed

text \<open>
  The operations of the scheduler in any order.  \<open>work\<close> is a step of the engine that executes the
  model; \<open>idle\<close> is a call of \<open>schedule\<close> that schedules nothing, which the engine repeats; between
  the steps requests arrive and are aborted, encoder results come in and the prefix cache is reset.
\<close>

definition covers_output :: "ModelRunnerOutput \<Rightarrow> SchedulerOutput \<Rightarrow> bool" where
  "covers_output mro out \<longleftrightarrow> (\<forall>rid \<in> fst ` set (num_scheduled_tokens out). mro_covers mro rid)"

inductive sched_step :: "py_hash \<Rightarrow> set_order \<Rightarrow> Scheduler \<Rightarrow> Scheduler \<Rightarrow> bool" for hf ord where
  add: "new_req_ok s r \<Longrightarrow> sched_step hf ord s (add_request s r)"
| abort: "finish_requests ord s rids st = Inr s' \<Longrightarrow> sched_step hf ord s s'"
| results: "sched_step hf ord s (s\<lparr>encoder_cache := Some ec\<rparr>)"
| reset: "sched_step hf ord s (snd (scheduler_reset_prefix_cache s))"
| idle: "schedule hf s = Inr (out, s') \<Longrightarrow> total_num_scheduled_tokens out = 0 \<Longrightarrow> sched_step hf ord s s'"
| work: "schedule hf s = Inr (out, s1) \<Longrightarrow> covers_output mro out \<Longrightarrow> update_from_output ord s1 out mro = Inr (o', s') \<Longrightarrow>
     sched_step hf ord s s'"

inductive_simps sched_step_simps: "sched_step hf ord s s'"

definition sched_init_ok :: "Scheduler \<Rightarrow> bool" where
  "sched_init_ok s \<longleftrightarrow>
     (\<exists>seqs toks mml bs nb sw caching budgets ec. 0 < bs \<and> 0 \<le> seqs \<and> 0 \<le> toks \<and>
        scheduler_init seqs toks mml bs nb sw caching False budgets (Some ec) = Inr s)"

definition sched_good :: "Scheduler \<Rightarrow> bool" where
  "sched_good s \<longleftrightarrow> sched_inv s \<and> 0 \<le> max_num_scheduled_tokens s"

lemma schedule_toks_ok:
  assumes "schedule_post s out s1" and "covers_output mro out"
  shows "toks_ok s1 (num_scheduled_tokens out) mro (running s1)"
  unfolding toks_ok_def
proof (intro allI impI)
  fix rid n assume m: "map_of (num_scheduled_tokens out) rid = Some n"
  then have "(rid, n) \<in> set (num_scheduled_tokens out)" by (rule map_of_SomeD)
  then show "mro_covers mro rid \<and> (\<exists>r. requests s1 rid = Some r \<and> sched_ok (kv_cache_manager s1) r n)"
    using assms by (force simp: schedule_post_def covers_output_def tok_ok_def)
qed

lemma work_ok:
  assumes good: "sched_good s" and ord: "set_order_ok ord" and cov: "covers_output mro out"
    and sch: "schedule hf s = Inr (out, s1)"
  shows "\<exists>o' s'. update_from_output ord s1 out mro = Inr (o', s') \<and> sched_good s' \<and>
     upd_post s1 [] (running s1) (running s') (ecos_outputs o') s'"
proof -
  have p: "schedule_post s out s1" using schedule_ok [of s hf] good sch by (auto simp: sched_good_def)
  then have "sched_inv s1" by (simp add: schedule_post_def)
  from update_from_output_ok [OF this ord schedule_toks_ok [OF p cov]] obtain o' s' where
    u: "update_from_output ord s1 out mro = Inr (o', s')" "sched_inv s'"
       "upd_post s1 [] (running s1) (running s') (ecos_outputs o') s'" by blast
  then have "sched_good s'" using p good by (simp add: sched_good_def upd_post_def schedule_post_def)
  with u show ?thesis by blast
qed

lemma sched_step_good:
  assumes "set_order_ok ord"
  shows "sched_step hf ord s s' \<Longrightarrow> sched_good s \<Longrightarrow> sched_good s'"
proof (induction rule: sched_step.induct)
  case (add s r)
  then show ?case using add_request_ok by (simp add: sched_good_def add_request_def)
next
  case (abort s rids st s')
  then show ?case using finish_requests_ok [OF _ assms] by (auto simp: sched_good_def finished_from_def)
next
  case (results s ec)
  then show ?case using encoder_results_ok by (simp add: sched_good_def)
next
  case (reset s)
  then show ?case using scheduler_reset_ok by (simp add: sched_good_def scheduler_reset_prefix_cache_def split: prod.splits)
next
  case (idle s out s')
  then show ?case using schedule_ok [of s hf] by (auto simp: sched_good_def schedule_post_def)
next
  case (work s out s1 mro o' s')
  then show ?case using work_ok [OF _ assms, of s mro out hf s1] by auto
qed

lemma sched_init_good: "sched_init_ok s \<Longrightarrow> sched_good s"
  using scheduler_init_ok unfolding sched_init_ok_def sched_good_def by metis

text \<open>A set order that is not a set order never runs, so the systems are those with a proper one.\<close>

definition sched_trans :: "py_hash \<Rightarrow> set_order \<Rightarrow> Scheduler \<Rightarrow> Scheduler \<Rightarrow> bool" where
  "sched_trans hf ord s s' \<longleftrightarrow> set_order_ok ord \<and> sched_step hf ord s s'"

interpretation sched: transition_invariant sched_init_ok "sched_trans hf ord" sched_good
  by unfold_locales (auto simp: sched_trans_def intro: sched_init_good sched_step_good)

definition sched_reachable :: "py_hash \<Rightarrow> set_order \<Rightarrow> Scheduler \<Rightarrow> bool" where
  "sched_reachable hf ord s \<longleftrightarrow> set_order_ok ord \<and> (\<exists>s0. sched_init_ok s0 \<and> (sched_trans hf ord)\<^sup>*\<^sup>* s0 s)"

lemma sched_reachable_good: "sched_reachable hf ord s \<Longrightarrow> sched_good s"
  using sched.reachable_inv unfolding sched_reachable_def by blast

lemma sched_reachable_step: "sched_reachable hf ord s \<Longrightarrow> sched_step hf ord s s' \<Longrightarrow> sched_reachable hf ord s'"
  using rtranclp.rtrancl_into_rtrancl [of "sched_trans hf ord"] unfolding sched_reachable_def by (metis sched_trans_def)

lemma sched_reachable_init: "set_order_ok ord \<Longrightarrow> sched_init_ok s \<Longrightarrow> sched_reachable hf ord s"
  unfolding sched_reachable_def by blast

section \<open>A concrete scheduler\<close>

text \<open>Two sequences at most, eight tokens a step, eight blocks of two tokens.\<close>

definition demo_sched :: Scheduler where
  "demo_sched = (case scheduler_init 2 8 12 2 (Some 8) None True False (16, 16) (Some Map.empty) of
     Inr s \<Rightarrow> s | Inl _ \<Rightarrow> undefined)"

lemma demo_sched_init: "scheduler_init 2 8 12 2 (Some 8) None True False (16, 16) (Some Map.empty) = Inr demo_sched"
  by (simp add: demo_sched_def scheduler_init_def kv_cache_manager_init_def queue_init_def)

lemma demo_sched_init_ok: "sched_init_ok demo_sched"
  unfolding sched_init_ok_def using demo_sched_init by (metis zero_less_numeral zero_le_numeral)

lemma demo_sched_reachable: "sched_reachable hf sorted_list_of_set demo_sched"
  by (rule sched_reachable_init [OF set_order_sorted demo_sched_init_ok])

text \<open>A text request and one with an image in tokens 1 and 2 of its prompt, added in this order.\<close>

definition demo_text :: Request where
  "demo_text = demo_req ''t'' [5, 6, 7]"

definition demo_image :: Request where
  "demo_image = (demo_req ''m'' [5, 9, 9, 7])\<lparr>mm_positions := [\<lparr>pr_offset = 1, pr_length = 2\<rparr>],
     mm_inputs := [Some 0], mm_hashes := [''h'']\<rparr>"

definition demo_queue :: Scheduler where
  "demo_queue = add_request (add_request demo_sched demo_text) demo_image"

text \<open>The same with the encoder result of the image at hand.\<close>

definition demo_ready_queue :: Scheduler where
  "demo_ready_queue = demo_queue\<lparr>encoder_cache := Some [''m'' \<mapsto> [0 \<mapsto> 1]]\<rparr>"

lemma demo_text_new: "new_req_ok demo_sched demo_text"
  by code_simp

lemma demo_image_new: "new_req_ok (add_request demo_sched demo_text) demo_image"
  by code_simp

lemma demo_queue_reachable: "sched_reachable hf sorted_list_of_set demo_queue"
  unfolding demo_queue_def
  by (rule sched_reachable_step [OF sched_reachable_step [OF demo_sched_reachable
        sched_step.add [OF demo_text_new]] sched_step.add [OF demo_image_new]])

lemma demo_ready_reachable: "sched_reachable hf sorted_list_of_set demo_ready_queue"
  unfolding demo_ready_queue_def by (rule sched_reachable_step [OF demo_queue_reachable sched_step.results])

definition demo_out :: SchedulerOutput where
  "demo_out = (case schedule demo_hash demo_ready_queue of Inr (out, _) \<Rightarrow> out | Inl _ \<Rightarrow> undefined)"

definition demo_next :: Scheduler where
  "demo_next = (case schedule demo_hash demo_ready_queue of Inr (_, s) \<Rightarrow> s | Inl _ \<Rightarrow> undefined)"

lemma demo_schedule: "schedule demo_hash demo_ready_queue = Inr (demo_out, demo_next)"
  using schedule_ok [of demo_ready_queue demo_hash] sched_reachable_good [OF demo_ready_reachable]
  by (auto simp: demo_out_def demo_next_def sched_good_def)

lemma demo_out_tokens: "num_scheduled_tokens demo_out = [(''t'', 3), (''m'', 4)]"
  by code_simp

section \<open>Properties\<close>

text \<open>C5: In every reachable scheduler each request is in exactly one of the queues, its status tells
  which, at least one of its tokens is still to be computed, only running requests hold KV blocks,
  at most \<open>max_num_running_reqs\<close> run, the block manager is consistent, and the free slots of the
  encoder cache are its size less what is cached.\<close>

theorem scheduler_reachable_consistent:
  assumes "sched_reachable hf ord s"
  shows "kvm_inv (kv_cache_manager s) \<and> distinct (running s @ waiting s) \<and>
     dom (requests s) = set (running s) \<union> set (waiting s) \<and>
     (\<forall>rid r. requests s rid = Some r \<longrightarrow> request_id r = rid \<and> (status r = RUNNING \<longleftrightarrow> rid \<in> set (running s)) \<and>
        0 \<le> num_computed_tokens r \<and> num_computed_tokens r < num_tokens r \<and> num_tokens r \<le> s_max_model_len s) \<and>
     (\<forall>rid. blocks_of (kv_cache_manager s) rid \<noteq> [] \<longrightarrow> rid \<in> set (running s)) \<and>
     int (length (running s)) \<le> max_num_running_reqs s \<and>
     encoder_cache_inv (requests s) (encoder_cache_manager s)"
proof -
  have inv: "sched_inv s" using sched_reachable_good [OF assms] by (simp add: sched_good_def)
  have "request_id r = rid \<and> (status r = RUNNING \<longleftrightarrow> rid \<in> set (running s)) \<and>
      0 \<le> num_computed_tokens r \<and> num_computed_tokens r < num_tokens r \<and> num_tokens r \<le> s_max_model_len s"
    if "requests s rid = Some r" for rid r
    using sched_invD [OF inv that] inv by (auto simp: req_status_ok_def req_ok_def sched_inv_def split: if_splits)
  then show ?thesis using inv unfolding sched_inv_def kvm_good_def by blast
qed

theorem scheduler_reachable_consistent_witness:
  "waiting demo_queue = [''t'', ''m''] \<and> distinct (running demo_queue @ waiting demo_queue) \<and>
   dom (requests demo_queue) = set (running demo_queue) \<union> set (waiting demo_queue)"
proof -
  have "waiting demo_queue = [''t'', ''m'']" by code_simp
  with scheduler_reachable_consistent [OF demo_queue_reachable [of demo_hash]] show ?thesis by blast
qed

text \<open>C4: \<open>schedule\<close> never raises in a reachable scheduler.  The tokens of a step stay within the budget,
  every scheduled request is running and is listed once, and the tokens it gets exist and have slots
  in the blocks it holds.\<close>

theorem schedule_never_raises:
  assumes "sched_reachable hf ord s"
  shows "\<exists>out s'. schedule hf s = Inr (out, s') \<and>
     total_num_scheduled_tokens out = sum_list (map snd (num_scheduled_tokens out)) \<and>
     0 \<le> total_num_scheduled_tokens out \<and> total_num_scheduled_tokens out \<le> max_num_scheduled_tokens s \<and>
     distinct (map fst (num_scheduled_tokens out)) \<and>
     (\<forall>(rid, n) \<in> set (num_scheduled_tokens out). rid \<in> set (running s') \<and>
        (\<exists>r. requests s' rid = Some r \<and> 0 < n \<and> num_computed_tokens r + n \<le> num_tokens r \<and>
          num_computed_tokens r + n
            \<le> int (length (blocks_of (kv_cache_manager s') rid)) * block_size (kv_cache_manager s')))"
proof -
  from sched_reachable_good [OF assms] obtain out s' where o: "schedule hf s = Inr (out, s')" "schedule_post s out s'"
    using schedule_ok [of s hf] by (auto simp: sched_good_def)
  have inv: "sched_inv s'" using o(2) by (simp add: schedule_post_def)
  have "rid \<in> set (running s') \<and> (\<exists>r. requests s' rid = Some r \<and> 0 < n \<and> num_computed_tokens r + n \<le> num_tokens r \<and>
      num_computed_tokens r + n \<le> int (length (blocks_of (kv_cache_manager s') rid)) * block_size (kv_cache_manager s'))"
    if t: "(rid, n) \<in> set (num_scheduled_tokens out)" for rid n
  proof -
    obtain r where r: "requests s' rid = Some r" "sched_ok (kv_cache_manager s') r n"
      using o(2) t by (force simp: schedule_post_def tok_ok_def)
    have "rid \<in> set (running s')" using o(2) t by (force simp: schedule_post_def)
    then show ?thesis using r sched_invD(1) [OF inv r(1)] by (auto simp: sched_ok_def)
  qed
  then show ?thesis using o by (intro exI conjI) (auto simp: schedule_post_def)
qed

theorem schedule_never_raises_witness:
  "num_scheduled_tokens demo_out = [(''t'', 3), (''m'', 4)] \<and> total_num_scheduled_tokens demo_out \<le> 8"
proof -
  have "max_num_scheduled_tokens demo_ready_queue = 8" by code_simp
  with schedule_never_raises [OF demo_ready_reachable [of demo_hash]] demo_schedule demo_out_tokens show ?thesis by auto
qed

text \<open>C8: Scheduling is first come first served: preemption moves running requests to the front of the
  waiting queue and admission takes them from there, so the concatenation of both queues is unchanged.\<close>

theorem schedule_keeps_arrival_order:
  assumes "sched_reachable hf ord s" and "schedule hf s = Inr (out, s')"
  shows "running s' @ waiting s' = running s @ waiting s"
  using schedule_ok [of s hf] sched_reachable_good [OF assms(1)] assms(2)
  by (auto simp: sched_good_def schedule_post_def same_order_def)

theorem schedule_keeps_arrival_order_witness:
  "running demo_next @ waiting demo_next = [''t'', ''m'']"
  unfolding schedule_keeps_arrival_order [OF demo_ready_reachable [of demo_hash] demo_schedule] by code_simp

text \<open>C9: When a step gives a request tokens that overlap the placeholder of one of its multi-modal inputs,
  the encoder cache holds that input's slots (the placeholders are in order and do not overlap).\<close>

theorem schedule_encoder_inputs_ready:
  assumes "sched_reachable hf ord s" and "schedule hf s = Inr (out, s')"
    and "(rid, n) \<in> set (num_scheduled_tokens out)" and "requests s' rid = Some r" and "positions_sorted (mm_positions r)"
    and "needs_input r (num_computed_tokens r) n k"
  shows "has_cache (encoder_cache_manager s') r k"
proof -
  have "schedule_post s out s'" using schedule_ok [of s hf] sched_reachable_good [OF assms(1)] assms(2) by (auto simp: sched_good_def)
  then have "enc_ready s' r n" using assms(3,4) by (force simp: schedule_post_def tok_ok_def)
  then show ?thesis using assms(5,6) by (auto simp: enc_ready_def get_cached_input_ids_def has_cache_def split: option.splits)
qed

theorem schedule_encoder_inputs_ready_witness:
  "(''m'', 4) \<in> set (num_scheduled_tokens demo_out) \<and>
   has_cache (encoder_cache_manager demo_next) (the (requests demo_next ''m'')) 0"
proof -
  have t: "(''m'', 4) \<in> set (num_scheduled_tokens demo_out)" by (simp add: demo_out_tokens)
  have r: "requests demo_next ''m'' = Some (the (requests demo_next ''m''))" by code_simp
  have p: "positions_sorted (mm_positions (the (requests demo_next ''m'')))"
    "needs_input (the (requests demo_next ''m'')) (num_computed_tokens (the (requests demo_next ''m''))) 4 0"
    by code_simp+
  from schedule_encoder_inputs_ready [OF demo_ready_reachable [of demo_hash] demo_schedule t r p] t show ?thesis by simp
qed






text \<open>C16: Finishing requests from outside removes exactly them: from the queues, from the table of requests
  and from the block manager, and everyone else keeps their blocks.  But it raises \<open>RuntimeError\<close>
  whenever one of them has an encoder input in the encoder cache, because
  \<open>EncoderCacheManager.free\<close> removes elements from the set it iterates over.\<close>

theorem finish_requests_spec:
  assumes "sched_reachable hf ord s" and "status_is_finished st"
  shows "if \<exists>rid\<in>set rids. cached (encoder_cache_manager s) rid \<noteq> None
     then finish_requests ord s rids st = Inl RuntimeError
     else \<exists>s'. finish_requests ord s rids st = Inr s' \<and> sched_reachable hf ord s' \<and>
       running s' = filter (\<lambda>i. i \<notin> set rids) (running s) \<and> waiting s' = filter (\<lambda>i. i \<notin> set rids) (waiting s) \<and>
       requests s' = requests s |` (- set rids) \<and> (\<forall>rid\<in>set rids. blocks_of (kv_cache_manager s') rid = []) \<and>
       (\<forall>i. i \<notin> set rids \<longrightarrow> blocks_of (kv_cache_manager s') i = blocks_of (kv_cache_manager s) i)"
proof -
  have inv: "sched_inv s" and ord: "set_order_ok ord"
    using sched_reachable_good [OF assms(1)] assms(1) by (simp_all add: sched_good_def sched_reachable_def)
  have f: "finish_requests ord s rids st = finish_loop ord s st rids" using assms(2) by (simp add: finish_requests_def)
  show ?thesis
  proof (cases "\<exists>rid\<in>set rids. cached (encoder_cache_manager s) rid \<noteq> None")
    case True
    obtain e where "finish_loop ord s st rids = Inl e"
      using finish_loop_Inr [OF inv ord assms(2), of rids] True by (cases "finish_loop ord s st rids") auto
    with finish_loop_Inl [OF inv ord assms(2)] True show ?thesis by (simp add: f)
  next
    case False
    obtain s' where s': "finish_loop ord s st rids = Inr s'" "sched_inv s'" "finished_from s (set rids) s'"
      using finish_loop_ok [OF inv ord assms(2), of rids] False by auto
    have "sched_reachable hf ord s'"
      using sched_reachable_step [OF assms(1) sched_step.abort [of ord s rids st s']] s'(1) by (simp add: f)
    moreover have "\<forall>rid\<in>set rids. blocks_of (kv_cache_manager s') rid = []"
      using s'(2,3) unfolding sched_inv_def finished_from_def by auto
    ultimately show ?thesis using False s' by (auto simp: f finished_from_def)
  qed
qed

theorem finish_requests_spec_witness:
  "(case finish_requests sorted_list_of_set demo_queue [''t''] FINISHED_ABORTED of
      Inr s' \<Rightarrow> waiting s' = [''m''] \<and> blocks_of (kv_cache_manager s') ''m'' = blocks_of (kv_cache_manager demo_queue) ''m''
    | Inl _ \<Rightarrow> False)"
proof -
  have "cached (encoder_cache_manager demo_queue) ''t'' = None" "waiting demo_queue = [''t'', ''m'']" by code_simp+
  then show ?thesis
    using finish_requests_spec [OF demo_queue_reachable [of demo_hash], of FINISHED_ABORTED "[''t'']"] by auto
qed

section \<open>Two behaviours of the encoder cache\<close>

text \<open>
  The scheduler with three tokens a step: the image request is computed in two steps, and its image
  is half done after the first.
\<close>

definition demo_half :: Scheduler where
  "demo_half = (case schedule demo_hash ((add_request demo_sched demo_image)\<lparr>max_num_scheduled_tokens := 2,
       encoder_cache := Some [''m'' \<mapsto> [0 \<mapsto> 1]]\<rparr>) of
     Inl _ \<Rightarrow> undefined
   | Inr (out, s) \<Rightarrow>
       (case update_from_output sorted_list_of_set s out
           \<lparr>req_ids = [''m''], req_id_to_index = [''m'' \<mapsto> 0], sampled_token_ids = [4]\<rparr> of
          Inl _ \<Rightarrow> undefined | Inr (_, s') \<Rightarrow> s'))"

text \<open>Aborting a request whose image is partly prefilled raises \<open>RuntimeError\<close> in the engine core.\<close>

lemma abort_half_prefilled_image_raises:
  "map_option num_computed_tokens (requests demo_half ''m'') = Some 2 \<and> running demo_half = [''m''] \<and>
   finish_requests sorted_list_of_set demo_half [''m''] FINISHED_ABORTED = Inl RuntimeError"
proof (intro conjI)
  show "map_option num_computed_tokens (requests demo_half ''m'') = Some 2" by code_simp
  show "running demo_half = [''m'']" by code_simp
  have "case finish_requests sorted_list_of_set demo_half [''m''] FINISHED_ABORTED of Inl e \<Rightarrow> e = RuntimeError | Inr _ \<Rightarrow> False"
    by code_simp
  then show "finish_requests sorted_list_of_set demo_half [''m''] FINISHED_ABORTED = Inl RuntimeError"
    by (simp split: sum.splits)
qed



end
