(* ===== verification/StepData.thy ===== *)
theory StepData
  imports SchedulerProps
begin

text \<open>
  What the output of a scheduling step says about each request, and what \<open>update_from_output\<close> makes of the
  model's answer: the facts the model runner relies on to mirror the scheduler's requests and block tables
  from the outputs alone.
\<close>

section \<open>The data of cached requests\<close>

text \<open>Every object of \<open>_cached_reqs_data\<close> is stored under its request id.\<close>

definition crd_ok :: "Scheduler \<Rightarrow> bool" where
  "crd_ok s \<longleftrightarrow> (\<forall>rid d. cached_reqs_data s rid = Some d \<longrightarrow> cr_req_id d = rid)"

lemma make_cached_request_data_id:
  assumes "crd_ok s" and "make_cached_request_data s r b k resumed = (d, s')"
  shows "cr_req_id d = request_id r" "crd_ok s'"
proof -
  have d: "cr_req_id d = request_id r \<and> s' = s\<lparr>cached_reqs_data := (cached_reqs_data s)(request_id r \<mapsto> d)\<rparr>"
    using assms by (auto simp: crd_ok_def make_cached_request_data_def cached_request_data_def Let_def split: option.splits)
  then show "cr_req_id d = request_id r" by simp
  have "s' = s\<lparr>cached_reqs_data := (cached_reqs_data s)(request_id r \<mapsto> d)\<rparr>" using d by blast
  then show "crd_ok s'" using d assms(1) by (simp add: crd_ok_def)
qed

lemma cached_data_ids:
  assumes "crd_ok s" and "\<And>rid r. requests s rid = Some r \<Longrightarrow> request_id r = rid"
    and "cached_data s bl resumed rids = Inr (ds, s')"
  shows "map cr_req_id ds = rids \<and> crd_ok s'"
  using assms
proof (induction rids arbitrary: s ds)
  case (Cons rid rids)
  obtain r b d s1 ds' where r: "requests s rid = Some r" "bl rid = Some b"
      "make_cached_request_data s r b (num_computed_tokens r) resumed = (d, s1)"
      "cached_data s1 bl resumed rids = Inr (ds', s')" "ds = d # ds'"
    using Cons.prems(3) by (auto simp: get_req_def split: option.splits prod.splits)
  note d = make_cached_request_data_id [OF Cons.prems(1) r(3)]
  have "requests s1 = requests s"
    using r(3) by (auto simp: make_cached_request_data_def Let_def split: option.splits)
  then show ?case using Cons.IH [OF d(2) _ r(4)] d(1) r(1,5) Cons.prems(2) by simp
qed simp

lemma cached_data_frame:
  "cached_data s bl resumed rids = Inr (ds, s') \<Longrightarrow> requests s' = requests s \<and> kv_cache_manager s' = kv_cache_manager s \<and>
   encoder_cache_manager s' = encoder_cache_manager s \<and> encoder_cache s' = encoder_cache s"
proof (induction rids arbitrary: s ds)
  case (Cons rid rids)
  then obtain r b d s1 ds' where "make_cached_request_data s r b (num_computed_tokens r) resumed = (d, s1)"
      "cached_data s1 bl resumed rids = Inr (ds', s')"
    by (auto simp: get_req_def split: option.splits prod.splits)
  with Cons.IH [of s1 ds'] show ?case by (auto simp: make_cached_request_data_def Let_def split: option.splits)
qed simp

section \<open>The output of a step\<close>

text \<open>The limits of a scheduler, which no operation changes.\<close>

definition same_sizes :: "Scheduler \<Rightarrow> Scheduler \<Rightarrow> bool" where
  "same_sizes s s' \<longleftrightarrow>
     s_max_model_len s' = s_max_model_len s \<and> max_num_running_reqs s' = max_num_running_reqs s \<and>
     s_block_size s' = s_block_size s \<and> max_num_scheduled_tokens s' = max_num_scheduled_tokens s"

lemma same_sizes_refl [simp]: "same_sizes s s"
  by (simp add: same_sizes_def)

lemma same_sizes_trans: "same_sizes a b \<Longrightarrow> same_sizes b c \<Longrightarrow> same_sizes a c"
  by (simp add: same_sizes_def)


text \<open>
  The data sent with each request: a new request comes with all of its blocks, a resumed one too, a running
  one with the blocks appended to those it had.  Unscheduled running requests keep their blocks.
\<close>

definition new_entry_ok :: "Scheduler \<Rightarrow> Scheduler \<Rightarrow> NewRequestData \<Rightarrow> bool" where
  "new_entry_ok s s' d \<longleftrightarrow>
     (\<exists>r0 r. requests s (nr_req_id d) = Some r0 \<and> requests s' (nr_req_id d) = Some r \<and> carried r0 r \<and>
        status r0 = WAITING \<and>
        d = new_request_data r (blocks_of (kv_cache_manager s') (nr_req_id d)) (num_computed_tokens r))"

definition cached_entry_ok :: "Scheduler \<Rightarrow> Scheduler \<Rightarrow> CachedRequestData \<Rightarrow> bool" where
  "cached_entry_ok s s' d \<longleftrightarrow>
     (\<exists>r0 r. requests s (cr_req_id d) = Some r0 \<and> requests s' (cr_req_id d) = Some r \<and> carried r0 r \<and>
        status r0 \<noteq> WAITING \<and> cr_num_computed_tokens d = num_computed_tokens r \<and>
        (let now = blocks_of (kv_cache_manager s') (cr_req_id d) in
         if cr_resumed_from_preemption d then cr_new_block_ids d = now
         else cr_req_id d \<in> set (running s) \<and>
              now = blocks_of (kv_cache_manager s) (cr_req_id d) @ cr_new_block_ids d))"

definition idle_req_ok :: "Scheduler \<Rightarrow> Scheduler \<Rightarrow> string \<Rightarrow> Request \<Rightarrow> bool" where
  "idle_req_ok s s' rid r \<longleftrightarrow>
     (\<exists>r0. requests s rid = Some r0 \<and> carried r0 r \<and>
        (if rid \<in> set (running s') then status r0 \<noteq> WAITING \<and> rid \<in> set (running s) \<and>
           blocks_of (kv_cache_manager s') rid = blocks_of (kv_cache_manager s) rid
         else (status r = WAITING \<longleftrightarrow> status r0 = WAITING)))"

definition scheduled_ids :: "SchedulerOutput \<Rightarrow> string list" where
  "scheduled_ids out = map nr_req_id (scheduled_new_reqs out) @ map cr_req_id (scheduled_cached_reqs out)"

definition step_data :: "Scheduler \<Rightarrow> SchedulerOutput \<Rightarrow> Scheduler \<Rightarrow> bool" where
  "step_data s out s' \<longleftrightarrow>
     distinct (scheduled_ids out) \<and> set (scheduled_ids out) = fst ` set (num_scheduled_tokens out) \<and>
     (\<forall>d \<in> set (scheduled_new_reqs out). new_entry_ok s s' d) \<and>
     (\<forall>d \<in> set (scheduled_cached_reqs out). cached_entry_ok s s' d) \<and>
     (\<forall>rid r. requests s' rid = Some r \<longrightarrow> rid \<notin> set (scheduled_ids out) \<longrightarrow> idle_req_ok s s' rid r)"


lemma init_tracks: "sched_inv s \<Longrightarrow> tracks s s (init_locals s)"
  using sched_invD(1,3) [of s] by (fastforce simp: tracks_def req_track_def init_locals_def req_status_ok_def Let_def)

lemma finish_schedule_data:
  assumes inv: "sched_inv s" and ok: "locals_ok s l" and tr: "tracks s0 s l" and crd: "crd_ok s"
    and fin: "finish_schedule s l = Inr (out, s')"
  shows "step_data s0 out s' \<and> crd_ok s' \<and> same_sizes s s'"
proof -
  obtain k kv where c: "common_prefix_of_running s = Inr (k, s\<lparr>kv_cache_manager := kv\<rparr>)"
     "\<forall>rid. kv_same_for (kv_cache_manager s) kv rid"
    using common_prefix_ok [OF inv] by blast
  let ?s1 = "s\<lparr>kv_cache_manager := kv\<rparr>"
  have L: "distinct (scheduled l)" "set (scheduled l) \<subseteq> set (running s)" "fst ` set (l_tokens l) = set (scheduled l)"
     "dom (l_blocks l) = set (scheduled l)"
    using ok by (simp_all add: locals_ok_def)
  have dom: "set (running s) \<subseteq> dom (requests s)" and ids: "\<And>rid r. requests s rid = Some r \<Longrightarrow> request_id r = rid"
    using inv by (auto simp: sched_inv_def)
  have sub: "set (l_new l) \<subseteq> dom (requests s)" "set (l_resumed l) \<subseteq> dom (requests s)" "set (l_running l) \<subseteq> dom (requests s)"
     "set (l_new l) \<subseteq> dom (l_blocks l)" "set (l_resumed l) \<subseteq> dom (l_blocks l)" "set (l_running l) \<subseteq> dom (l_blocks l)"
    using L(2,4) dom by (auto simp: scheduled_def)
  obtain d1 c1 where d1: "cached_data ?s1 (l_blocks l) True (l_resumed l) = Inr (d1, ?s1\<lparr>cached_reqs_data := c1\<rparr>)"
      "length d1 = length (l_resumed l)"
      "\<forall>i < length (l_resumed l). cr_new_block_ids (d1 ! i) = the (l_blocks l (l_resumed l ! i)) \<and>
         cr_resumed_from_preemption (d1 ! i) \<and>
         cr_num_computed_tokens (d1 ! i) = num_computed_tokens (the (requests s (l_resumed l ! i)))"
    using cached_data_ok [of "l_resumed l" ?s1 "l_blocks l" True] sub by auto
  obtain d2 c2 where d2: "cached_data (?s1\<lparr>cached_reqs_data := c1\<rparr>) (l_blocks l) False (l_running l) =
      Inr (d2, ?s1\<lparr>cached_reqs_data := c2\<rparr>)" "length d2 = length (l_running l)"
      "\<forall>i < length (l_running l). cr_new_block_ids (d2 ! i) = the (l_blocks l (l_running l ! i)) \<and>
         \<not> cr_resumed_from_preemption (d2 ! i) \<and>
         cr_num_computed_tokens (d2 ! i) = num_computed_tokens (the (requests s (l_running l ! i)))"
    using cached_data_ok [of "l_running l" "?s1\<lparr>cached_reqs_data := c1\<rparr>" "l_blocks l" False] sub by auto
  have crd1: "crd_ok ?s1" using crd by (simp add: crd_ok_def)
  have i1: "map cr_req_id d1 = l_resumed l" "crd_ok (?s1\<lparr>cached_reqs_data := c1\<rparr>)"
    using cached_data_ids [OF crd1 _ d1(1)] ids by simp_all
  have i2: "map cr_req_id d2 = l_running l" "crd_ok (?s1\<lparr>cached_reqs_data := c2\<rparr>)"
    using cached_data_ids [OF i1(2) _ d2(1)] ids by simp_all
  let ?nd = "map (\<lambda>rid. new_request_data (the (requests s rid)) (the (l_blocks l rid))
        (num_computed_tokens (the (requests s rid)))) (l_new l)"
  have nd: "new_reqs_data ?s1 (l_blocks l) (l_new l) = Inr ?nd"
    using new_reqs_data_ok [of "l_new l" ?s1 "l_blocks l"] sub by simp
  have out: "scheduled_new_reqs out = ?nd" "scheduled_cached_reqs out = d1 @ d2" "num_scheduled_tokens out = l_tokens l"
    and s': "requests s' = requests s" "running s' = running s" "kv_cache_manager s' = kv" "cached_reqs_data s' = c2"
      "same_sizes s s'"
    using fin by (auto simp: same_sizes_def finish_schedule_def Let_def c(1) nd d1(1) d2(1) get_freed_ids_def split: if_splits)
  have nids: "map nr_req_id ?nd = l_new l"
    using sub(1) ids by (intro nth_equalityI) (force simp: new_request_data_def subset_iff in_set_conv_nth)+
  have sched: "scheduled_ids out = scheduled l"
    using nids i1(1) i2(1) by (simp add: scheduled_ids_def out scheduled_def del: map_map)
  have blk: "blocks_of kv rid = blocks_of (kv_cache_manager s) rid" for rid using c(2) by (simp add: kv_same_for_def)
  have track: "\<exists>r0 r. requests s rid = Some r \<and> requests s0 rid = Some r0 \<and> req_track s0 s l rid r0 r"
    if "rid \<in> set (scheduled l)" for rid
    using that L(2) dom tr unfolding tracks_def by blast
  have "new_entry_ok s0 s' d" if "d \<in> set (scheduled_new_reqs out)" for d
  proof -
    obtain rid where rid: "rid \<in> set (l_new l)" and d: "d = new_request_data (the (requests s rid)) (the (l_blocks l rid))
        (num_computed_tokens (the (requests s rid)))"
      using \<open>d \<in> set (scheduled_new_reqs out)\<close> out(1) by auto
    obtain r0 r where r: "requests s rid = Some r" "requests s0 rid = Some r0" "req_track s0 s l rid r0 r"
      using track [of rid] rid by (auto simp: scheduled_def)
    have "nr_req_id d = rid" using d r(1) ids by (simp add: new_request_data_def)
    with r rid d show ?thesis by (auto simp: new_entry_ok_def req_track_def Let_def s' blk)
  qed
  moreover have "cached_entry_ok s0 s' d" if d: "d \<in> set (scheduled_cached_reqs out)" for d
  proof (cases "d \<in> set d1")
    case True
    then obtain i where i: "i < length (l_resumed l)" "d = d1 ! i" using d1(2) by (metis in_set_conv_nth)
    have id: "cr_req_id d = l_resumed l ! i" using i1(1) i d1(2) by (metis nth_map)
    have mem: "l_resumed l ! i \<in> set (l_resumed l)" using i(1) by simp
    then obtain r0 r where r: "requests s (l_resumed l ! i) = Some r" "requests s0 (l_resumed l ! i) = Some r0"
        "req_track s0 s l (l_resumed l ! i) r0 r"
      using track [of "l_resumed l ! i"] by (auto simp: scheduled_def)
    have "l_resumed l ! i \<notin> set (l_new l)" using L(1) mem by (auto simp: scheduled_def)
    with r mem d1(3) i id show ?thesis by (auto simp: cached_entry_ok_def req_track_def Let_def s' blk)
  next
    case False
    then obtain i where i: "i < length (l_running l)" "d = d2 ! i" using d d2(2) out(2) by (auto simp: in_set_conv_nth)
    have id: "cr_req_id d = l_running l ! i" using i2(1) i d2(2) by (metis nth_map)
    have mem: "l_running l ! i \<in> set (l_running l)" using i(1) by simp
    then obtain r0 r where r: "requests s (l_running l ! i) = Some r" "requests s0 (l_running l ! i) = Some r0"
        "req_track s0 s l (l_running l ! i) r0 r"
      using track [of "l_running l ! i"] by (auto simp: scheduled_def)
    have "l_running l ! i \<notin> set (l_new l) \<union> set (l_resumed l)" using L(1) mem by (auto simp: scheduled_def)
    with r mem d2(3) i id show ?thesis by (auto simp: cached_entry_ok_def req_track_def Let_def s' blk)
  qed
  moreover have "idle_req_ok s0 s' rid r" if r: "requests s' rid = Some r" and nin: "rid \<notin> set (scheduled_ids out)" for rid r
  proof -
    obtain r0 where "requests s0 rid = Some r0" "req_track s0 s l rid r0 r" using tr r s'(1) by (auto simp: tracks_def)
    then show ?thesis using nin sched by (auto simp: idle_req_ok_def req_track_def Let_def s' blk scheduled_def)
  qed
  moreover have "crd_ok s'" using i2(2) s'(4) by (simp add: crd_ok_def)
  ultimately show ?thesis unfolding step_data_def using sched L(1,3) out(3) s'(5) by simp
qed

text \<open>The two loops of a step, before the output is put together.\<close>

lemma schedule_loops:
  assumes good: "sched_good s" and sch: "schedule hf s = Inr (out, s')"
  shows "\<exists>s2 l2. loop_post s (init_locals s) s2 l2 \<and> finish_schedule s2 l2 = Inr (out, s')"
proof -
  let ?l = "init_locals s"
  have inv: "sched_inv s" and budget: "0 \<le> max_num_scheduled_tokens s" using good by (simp_all add: sched_good_def)
  have new: "l_new ?l = []" "l_resumed ?l = []" "set (l_running ?l) \<subseteq> set (take 0 (running s))"
    by (simp_all add: init_locals_def)
  obtain s1 l1 where r: "running_loop hf s ?l 0 = Inr (s1, l1)" "loop_post s ?l s1 l1"
    using running_loop_ok [OF inv init_locals_ok [OF budget] new, of hf] by blast
  obtain s2 l2 where w: "(if l_preempted l1 = [] then waiting_loop hf s1 l1 else Inr (s1, l1)) = Inr (s2, l2)"
      "loop_post s1 l1 s2 l2"
    using waiting_loop_ok [of s1 l1 hf] loop_post_refl [of s1 l1] r(2) by (cases "l_preempted l1 = []") (auto simp: loop_post_def)
  have "finish_schedule s2 l2 = Inr (out, s')" using sch r(1) w(1) by (simp add: schedule_def)
  then show ?thesis using loop_post_trans [OF r(2) w(2)] by blast
qed

lemma schedule_data:
  assumes good: "sched_good s" and crd: "crd_ok s" and sch: "schedule hf s = Inr (out, s')"
  shows "step_data s out s' \<and> crd_ok s' \<and> same_sizes s s'"
proof -
  have inv: "sched_inv s" using good by (simp add: sched_good_def)
  obtain s2 l2 where post: "loop_post s (init_locals s) s2 l2" and fin: "finish_schedule s2 l2 = Inr (out, s')"
    using schedule_loops [OF good sch] by blast
  have p: "sched_inv s2" "locals_ok s2 l2" "tracks s s2 l2" "cached_reqs_data s2 = cached_reqs_data s" "same_sizes s s2"
    using post init_tracks [OF inv] by (auto simp: loop_post_def sched_conf_def same_sizes_def)
  have "crd_ok s2" using crd p(4) by (simp add: crd_ok_def)
  then show ?thesis using finish_schedule_data [OF p(1-3) _ fin] same_sizes_trans [OF p(5)] by blast
qed

text \<open>No two requests write to the same block after a step.\<close>

lemma schedule_writes:
  assumes good: "sched_good s" and w: "writes_ok s" and sch: "schedule hf s = Inr (out, s')"
  shows "writes_ok s'"
proof -
  let ?l = "init_locals s"
  have inv: "sched_inv s" and budget: "0 \<le> max_num_scheduled_tokens s" using good by (simp_all add: sched_good_def)
  obtain s2 l2 where p: "loop_post s ?l s2 l2" and fin: "finish_schedule s2 l2 = Inr (out, s')"
    using schedule_loops [OF good sch] by blast
  have inv2: "sched_inv s2" and w2: "writes_ok s2" using p w by (simp_all add: loop_post_def)
  obtain k kv where c: "common_prefix_of_running s2 = Inr (k, s2\<lparr>kv_cache_manager := kv\<rparr>)"
     "\<forall>rid. kv_same_for (kv_cache_manager s2) kv rid" "same_conf (kv_cache_manager s2) kv"
    using common_prefix_ok [OF inv2] by blast
  have s': "requests s' = requests s2" "kv_cache_manager s' = kv"
    using fin by (auto simp: finish_schedule_def Let_def c(1) get_freed_ids_def split: if_splits dest!: cached_data_frame)
  have "own_blocks s' i = own_blocks s2 i" for i
    by (rule own_blocks_cong) (use s' c(2,3) in \<open>simp_all add: kv_same_for_def same_conf_def\<close>)
  then show ?thesis by (intro writes_ok_mono [OF w2] own_blocks_same)
qed

lemma schedule_no_gain:
  assumes good: "sched_good s" and sch: "schedule hf s = Inr (out, s')"
  shows "no_gain s s'"
proof -
  obtain s2 l2 where p: "loop_post s (init_locals s) s2 l2" and fin: "finish_schedule s2 l2 = Inr (out, s')"
    using schedule_loops [OF good sch] by blast
  have "sched_inv s2" using p by (simp add: loop_post_def)
  then obtain n kv where n: "common_prefix_of_running s2 = Inr (n, s2\<lparr>kv_cache_manager := kv\<rparr>)"
    using common_prefix_ok by blast
  have "requests s' = requests s2"
    using fin by (auto simp: finish_schedule_def Let_def n get_freed_ids_def split: if_splits dest!: cached_data_frame)
  then show ?thesis using p by (simp add: loop_post_def no_gain_def)
qed

text \<open>
  The encoder outputs a step relies on are there: a cached input has its result, and it is not among the inputs
  the output tells the runner to free.
\<close>

lemma schedule_sync:
  assumes good: "sched_good s" and sync: "enc_sync s []" and sch: "schedule hf s = Inr (out, s')"
  shows "freed (encoder_cache_manager s') = []" "encoder_cache s' = encoder_cache s"
    "k \<in> inputs_of (encoder_cache_manager s') rid \<Longrightarrow>
       has_encoder_result (encoder_cache s) rid k = Inr True \<and> (rid, k) \<notin> set (free_encoder_input_ids out)"
proof -
  obtain s2 l2 where p: "loop_post s (init_locals s) s2 l2" and fin: "finish_schedule s2 l2 = Inr (out, s')"
    using schedule_loops [OF good sch] by blast
  have "l_preempted (init_locals s) = []" by (simp add: init_locals_def)
  then have inv2: "sched_inv s2" and y: "enc_sync s2 (l_preempted l2)" and c: "encoder_cache s2 = encoder_cache s"
    using p sync by (simp_all add: loop_post_def sched_conf_def)
  obtain n kv where n: "common_prefix_of_running s2 = Inr (n, s2\<lparr>kv_cache_manager := kv\<rparr>)"
    using common_prefix_ok [OF inv2] by blast
  have e: "free_encoder_input_ids out = freed (encoder_cache_manager s2)"
      "encoder_cache_manager s' = (encoder_cache_manager s2)\<lparr>freed := []\<rparr>" "encoder_cache s' = encoder_cache s2"
    using fin by (auto simp: finish_schedule_def Let_def n get_freed_ids_def split: if_splits dest!: cached_data_frame)
  then show "freed (encoder_cache_manager s') = []" "encoder_cache s' = encoder_cache s" using c by simp_all
  have "inputs_of (encoder_cache_manager s') rid = inputs_of (encoder_cache_manager s2) rid"
    unfolding e(2) by (intro inputs_of_cong) simp
  then show "has_encoder_result (encoder_cache s) rid k = Inr True \<and> (rid, k) \<notin> set (free_encoder_input_ids out)"
    if "k \<in> inputs_of (encoder_cache_manager s') rid"
    using that y c e(1) by (auto simp: enc_sync_def freed_ok_def)
qed

section \<open>The model's answer\<close>

lemma free_loop_rtb: "free_loop m bs = Inr m' \<Longrightarrow> req_to_blocks m' = req_to_blocks m"
proof (induction m bs rule: free_loop.induct)
  case (2 m b bs)
  then show ?case by (auto simp: Let_def upd_block_def set_qst_def split: if_splits)
qed simp

lemma free_frame: "free m rid = Inr m' \<Longrightarrow> i \<noteq> rid \<Longrightarrow> blocks_of m' i = blocks_of m i"
  by (auto simp: free_def Let_def blocks_of_def dest!: free_loop_rtb)

lemma free_loop_caching: "free_loop m bs = Inr m' \<Longrightarrow> enable_caching m' = enable_caching m"
proof (induction bs arbitrary: m)
  case (Cons b bs)
  from Cons.prems have "\<exists>m1. free_loop m1 bs = Inr m' \<and> enable_caching m1 = enable_caching m"
    by (cases "ref_cnt (block_pool (upd_block m b decr_ref) ! b) = 0") (auto simp: Let_def upd_block_def set_qst_def)
  then obtain m1 where m1: "free_loop m1 bs = Inr m'" "enable_caching m1 = enable_caching m" by blast
  show ?case using Cons.IH [OF m1(1)] m1(2) by (rule trans)
qed simp

lemma free_caching:
  assumes "free m rid = Inr m'"
  shows "enable_caching m' = enable_caching m"
proof -
  have "\<exists>bs. free_loop (m\<lparr>req_to_blocks := (req_to_blocks m)(rid := None)\<rparr>) bs = Inr m'"
    using assms unfolding free_def Let_def by blast
  then show ?thesis using free_loop_caching by fastforce
qed

text \<open>Freeing some inputs of one request.\<close>

definition enc_freed :: "EncoderCacheManager \<Rightarrow> string \<Rightarrow> (nat \<Rightarrow> bool) \<Rightarrow> EncoderCacheManager \<Rightarrow> bool" where
  "enc_freed e rid P e' \<longleftrightarrow>
     (\<forall>i. inputs_of e' i \<subseteq> inputs_of e i) \<and>
     (\<forall>(i, k) \<in> set (freed e'). (i, k) \<in> set (freed e) \<or> i = rid \<and> P k \<and> k \<notin> inputs_of e' rid)"

lemma enc_freed_refl: "enc_freed e rid P e"
  by (auto simp: enc_freed_def)

lemma enc_freed_trans:
  assumes "enc_freed e rid P e1" and "enc_freed e1 rid P e2"
  shows "enc_freed e rid P e2"
  unfolding enc_freed_def
proof (intro conjI allI ballI, safe)
  show "\<And>i x. x \<in> inputs_of e2 i \<Longrightarrow> x \<in> inputs_of e i" using assms unfolding enc_freed_def by blast
  fix i k assume "(i, k) \<in> set (freed e2)"
  then have "(i, k) \<in> set (freed e1) \<or> i = rid \<and> P k \<and> k \<notin> inputs_of e2 rid" using assms(2) by (auto simp: enc_freed_def)
  moreover have "inputs_of e2 rid \<subseteq> inputs_of e1 rid" using assms(2) by (simp add: enc_freed_def)
  ultimately have *: "(i, k) \<in> set (freed e) \<or> i = rid \<and> P k \<and> k \<notin> inputs_of e2 rid"
    using assms(1) by (auto simp: enc_freed_def)
  assume "(i, k) \<notin> set (freed e)"
  then show "i = rid" "P k" "k \<in> inputs_of e2 rid \<Longrightarrow> False" using * by blast+
qed

lemma free_encoder_input_freed:
  assumes "free_encoder_input e r k = Inr e'" and "P k"
  shows "enc_freed e (request_id r) P e'"
  using assms
  by (auto simp: free_encoder_input_def Let_def enc_freed_def inputs_of_def split: option.splits if_splits)

lemma free_done_inputs_freed:
  "free_done_inputs e r is = Inr e' \<Longrightarrow> enc_freed e (request_id r) (input_done r) e'"
proof (induction "is" arbitrary: e)
  case (Cons i "is")
  then obtain e1 where e1: "(if pr_offset (mm_positions r ! i) + pr_length (mm_positions r ! i) \<le> num_computed_tokens r
      then free_encoder_input e r i else Inr e) = Inr e1" "free_done_inputs e1 r is = Inr e'"
    by (auto simp: Let_def split: if_splits)
  have "enc_freed e (request_id r) (input_done r) e1"
    using e1(1) free_encoder_input_freed [of e r i e1 "input_done r"] enc_freed_refl
    by (auto simp: input_done_def split: if_splits)
  then show ?case using Cons.IH [OF e1(2)] enc_freed_trans by blast
qed (simp add: enc_freed_refl)

lemma encoder_free_freed:
  assumes "encoder_free ord e r = Inr e'"
  shows "enc_freed e (request_id r) (\<lambda>_. True) e'"
proof -
  have "free_inputs_loop e r n xs = Inr e' \<Longrightarrow> enc_freed e (request_id r) (\<lambda>_. True) e'" for n xs
  proof (induction xs arbitrary: e)
    case (Cons i xs)
    then obtain e1 where e1: "free_encoder_input e r i = Inr e1" "free_inputs_loop e1 r n xs = Inr e'"
      by (auto split: if_splits)
    show ?case
      using enc_freed_trans [OF free_encoder_input_freed [OF e1(1)] Cons.IH [OF e1(2)]] by simp
  qed (auto simp: enc_freed_refl split: if_splits)
  then show ?thesis using assms by (simp add: encoder_free_def Let_def)
qed

text \<open>What the update of some requests leaves of the encoder cache.\<close>

definition enc_rel :: "Scheduler \<Rightarrow> string list \<Rightarrow> Scheduler \<Rightarrow> bool" where
  "enc_rel s rids s' \<longleftrightarrow>
     encoder_cache s' = encoder_cache s \<and>
     (\<forall>i. inputs_of (encoder_cache_manager s') i \<subseteq> inputs_of (encoder_cache_manager s) i) \<and>
     (\<forall>(i, k) \<in> set (freed (encoder_cache_manager s')). (i, k) \<in> set (freed (encoder_cache_manager s)) \<or>
        i \<in> set rids \<and> k \<notin> inputs_of (encoder_cache_manager s') i \<and>
        (\<forall>r'. requests s' i = Some r' \<longrightarrow> input_done r' k))"

lemma enc_rel_refl: "enc_rel s rids s"
  by (auto simp: enc_rel_def)

lemma enc_rel_freed:
  assumes "enc_freed (encoder_cache_manager s) rid P (encoder_cache_manager s')" and "encoder_cache s' = encoder_cache s"
    and "\<And>r' k. requests s' rid = Some r' \<Longrightarrow> P k \<Longrightarrow> input_done r' k"
  shows "enc_rel s [rid] s'"
  using assms unfolding enc_rel_def enc_freed_def by fastforce

lemma enc_rel_Cons:
  assumes one: "enc_rel s [rid] s1" and rest: "enc_rel s1 rids s'" and keep: "requests s' rid = requests s1 rid"
  shows "enc_rel s (rid # rids) s'"
  unfolding enc_rel_def
proof (intro conjI ballI, goal_cases)
  case 1
  then show ?case using one rest by (simp add: enc_rel_def)
next
  case 2
  then show ?case using one rest unfolding enc_rel_def by blast
next
  case (3 x)
  obtain i k where x: "x = (i, k)" by fastforce
  have sub: "inputs_of (encoder_cache_manager s') i \<subseteq> inputs_of (encoder_cache_manager s1) i"
    using rest by (simp add: enc_rel_def)
  have "(i, k) \<in> set (freed (encoder_cache_manager s1)) \<or> i \<in> set rids \<and> k \<notin> inputs_of (encoder_cache_manager s') i \<and>
      (\<forall>r'. requests s' i = Some r' \<longrightarrow> input_done r' k)"
    using rest 3 x by (auto simp: enc_rel_def)
  moreover have "(i, k) \<in> set (freed (encoder_cache_manager s)) \<or> i = rid \<and> k \<notin> inputs_of (encoder_cache_manager s1) i \<and>
      (\<forall>r'. requests s1 i = Some r' \<longrightarrow> input_done r' k)" if "(i, k) \<in> set (freed (encoder_cache_manager s1))"
    using one that by (auto simp: enc_rel_def)
  ultimately show ?case using sub keep x by auto
qed

lemma free_request_frame:
  assumes "free_request ord s r = Inr s'"
  shows "requests s' = (requests s)(request_id r := None)" "same_sizes s s'" "crd_ok s \<Longrightarrow> crd_ok s'"
    "i \<noteq> request_id r \<Longrightarrow> blocks_of (kv_cache_manager s') i = blocks_of (kv_cache_manager s) i"
    "enc_freed (encoder_cache_manager s) (request_id r) (\<lambda>_. True) (encoder_cache_manager s')" "encoder_cache s' = encoder_cache s"
    "enable_caching (kv_cache_manager s') = enable_caching (kv_cache_manager s)"
proof -
  show "requests s' = (requests s)(request_id r := None)" "same_sizes s s'" "crd_ok s \<Longrightarrow> crd_ok s'"
    "i \<noteq> request_id r \<Longrightarrow> blocks_of (kv_cache_manager s') i = blocks_of (kv_cache_manager s) i"
    "enc_freed (encoder_cache_manager s) (request_id r) (\<lambda>_. True) (encoder_cache_manager s')" "encoder_cache s' = encoder_cache s"
    using assms free_frame encoder_free_freed by (auto simp: free_request_def same_sizes_def crd_ok_def split: if_splits)
  obtain m' where "free (kv_cache_manager s) (request_id r) = Inr m'" "kv_cache_manager s' = m'"
    using assms by (auto simp: free_request_def split: if_splits)
  then show "enable_caching (kv_cache_manager s') = enable_caching (kv_cache_manager s)"
    using free_caching by blast
qed

text \<open>A running request that is still there after the update: it has advanced by its tokens, and has the
  sampled token appended when it caught up.\<close>

definition advanced :: "Scheduler \<Rightarrow> (string \<times> int) list \<Rightarrow> ModelRunnerOutput \<Rightarrow> Request \<Rightarrow> Request \<Rightarrow> bool" where
  "advanced s toks mro r r' \<longleftrightarrow>
     (case map_of toks (request_id r) of
        None \<Rightarrow> r' = r
      | Some n \<Rightarrow>
          (let r1 = r\<lparr>num_computed_tokens := num_computed_tokens r + n\<rparr> in
           if n = 0 then r' = r
           else if num_computed_tokens r + n = num_tokens r then
             \<exists>k t. req_id_to_index mro (request_id r) = Some k \<and> py_index (sampled_token_ids mro) k = Inr t \<and>
               r' = append_output_token_ids r1 [t] \<and> num_tokens r' < s_max_model_len s
           else r' = r1))"

lemma check_stop_False:
  "check_stop s r = Inr (False, r') \<Longrightarrow> r' = r \<and> num_tokens r < s_max_model_len s"
  by (auto simp: check_stop_def Let_def split: if_splits)

lemma check_stop_id: "check_stop s r = Inr (b, r') \<Longrightarrow> request_id r' = request_id r"
  by (auto simp: check_stop_def Let_def split: if_splits)

lemma generate_token_frame:
  assumes "generate_token ord s r mro = Inr (out, stopped, s')"
  shows "same_sizes s s'" "crd_ok s \<Longrightarrow> crd_ok s'"
    "i \<noteq> request_id r \<Longrightarrow> requests s' i = requests s i \<and> blocks_of (kv_cache_manager s') i = blocks_of (kv_cache_manager s) i"
    "if stopped then requests s' (request_id r) = None
     else \<exists>k t. req_id_to_index mro (request_id r) = Some k \<and> py_index (sampled_token_ids mro) k = Inr t \<and>
       requests s' (request_id r) = Some (append_output_token_ids r [t]) \<and>
       num_tokens (append_output_token_ids r [t]) < s_max_model_len s \<and>
       blocks_of (kv_cache_manager s') (request_id r) = blocks_of (kv_cache_manager s) (request_id r)"
    "encoder_cache s' = encoder_cache s"
    "enc_freed (encoder_cache_manager s) (request_id r) (\<lambda>_. stopped) (encoder_cache_manager s')"
proof -
  from assms obtain k t r2 where k: "req_id_to_index mro (request_id r) = Some k" "py_index (sampled_token_ids mro) k = Inr t"
      "check_stop s (append_output_token_ids r [t]) = Inr (stopped, r2)"
      "(if stopped then free_request ord (put_req s r2) r2 else Inr (put_req s r2)) = Inr s'"
    by (auto simp: generate_token_def Let_def split: option.splits)
  have id: "request_id r2 = request_id r" using check_stop_id [OF k(3)] by simp
  have put: "same_sizes s (put_req s r2)" "crd_ok s \<Longrightarrow> crd_ok (put_req s r2)" by (simp_all add: same_sizes_def crd_ok_def)
  show "same_sizes s s'" "crd_ok s \<Longrightarrow> crd_ok s'"
    using k(4) free_request_frame(2,3) [of ord "put_req s r2" r2 s'] put same_sizes_trans by (auto split: if_splits)
  show "i \<noteq> request_id r \<Longrightarrow> requests s' i = requests s i \<and> blocks_of (kv_cache_manager s') i = blocks_of (kv_cache_manager s) i"
    using k(4) free_request_frame(1,4) [of ord "put_req s r2" r2 s'] id by (auto split: if_splits)
  show "encoder_cache s' = encoder_cache s"
    "enc_freed (encoder_cache_manager s) (request_id r) (\<lambda>_. stopped) (encoder_cache_manager s')"
    using k(4) free_request_frame(5,6) [of ord "put_req s r2" r2 s'] id enc_freed_refl by (auto split: if_splits)
  show "if stopped then requests s' (request_id r) = None
     else \<exists>k t. req_id_to_index mro (request_id r) = Some k \<and> py_index (sampled_token_ids mro) k = Inr t \<and>
       requests s' (request_id r) = Some (append_output_token_ids r [t]) \<and>
       num_tokens (append_output_token_ids r [t]) < s_max_model_len s \<and>
       blocks_of (kv_cache_manager s') (request_id r) = blocks_of (kv_cache_manager s) (request_id r)"
  proof (cases stopped)
    case True
    then show ?thesis using k(4) free_request_frame(1) [of ord "put_req s r2" r2 s'] id by simp
  next
    case False
    with check_stop_False [of s "append_output_token_ids r [t]" r2] k(3)
    have "r2 = append_output_token_ids r [t]" "num_tokens (append_output_token_ids r [t]) < s_max_model_len s" by simp_all
    with False k id show ?thesis by auto
  qed
qed

text \<open>The walk over the running queue, request by request.\<close>

definition upd_rel :: "Scheduler \<Rightarrow> (string \<times> int) list \<Rightarrow> ModelRunnerOutput \<Rightarrow> string list \<Rightarrow> Scheduler \<Rightarrow> bool" where
  "upd_rel s toks mro rids s' \<longleftrightarrow>
     same_sizes s s' \<and> (crd_ok s \<longrightarrow> crd_ok s') \<and> enc_rel s rids s' \<and>
     (\<forall>i. i \<notin> set rids \<longrightarrow> requests s' i = requests s i \<and>
        blocks_of (kv_cache_manager s') i = blocks_of (kv_cache_manager s) i) \<and>
     (\<forall>i r'. i \<in> set rids \<longrightarrow> requests s' i = Some r' \<longrightarrow>
        (\<exists>r. requests s i = Some r \<and> advanced s toks mro r r' \<and>
           blocks_of (kv_cache_manager s') i = blocks_of (kv_cache_manager s) i))"

lemma advanced_sizes: "same_sizes s s' \<Longrightarrow> advanced s' toks mro r r' = advanced s toks mro r r'"
  unfolding same_sizes_def advanced_def by (elim conjE) (simp only:)

text \<open>One request, then the others.\<close>

lemma upd_rel_Cons:
  assumes "upd_rel s1 toks mro rids s'" and "rid \<notin> set rids" and "same_sizes s s1" and "crd_ok s \<Longrightarrow> crd_ok s1"
    and enc: "enc_rel s [rid] s1"
    and "\<And>i. i \<noteq> rid \<Longrightarrow> requests s1 i = requests s i \<and> blocks_of (kv_cache_manager s1) i = blocks_of (kv_cache_manager s) i"
    and "\<And>r'. requests s1 rid = Some r' \<Longrightarrow> \<exists>r. requests s rid = Some r \<and> advanced s toks mro r r' \<and>
      blocks_of (kv_cache_manager s1) rid = blocks_of (kv_cache_manager s) rid"
  shows "upd_rel s toks mro (rid # rids) s'"
proof -
  have "\<exists>r. requests s i = Some r \<and> advanced s toks mro r r' \<and>
      blocks_of (kv_cache_manager s') i = blocks_of (kv_cache_manager s) i"
    if i: "i \<in> set (rid # rids)" "requests s' i = Some r'" for i r'
  proof (cases "i = rid")
    case True
    then show ?thesis using assms(1,2,7) i(2) by (simp add: upd_rel_def)
  next
    case False
    then have mem: "i \<in> set rids" using i(1) by simp
    obtain r where "requests s1 i = Some r" "advanced s1 toks mro r r'"
        "blocks_of (kv_cache_manager s') i = blocks_of (kv_cache_manager s1) i"
      using assms(1) i(2) mem unfolding upd_rel_def by blast
    then show ?thesis using assms(6) [OF False] advanced_sizes [OF assms(3)] by auto
  qed
  moreover have "same_sizes s s'" "crd_ok s \<Longrightarrow> crd_ok s'"
    using assms(1,3,4) same_sizes_trans by (auto simp: upd_rel_def)
  moreover have "requests s' i = requests s i \<and> blocks_of (kv_cache_manager s') i = blocks_of (kv_cache_manager s) i"
    if "i \<notin> set (rid # rids)" for i
    using that assms(1,6) by (simp add: upd_rel_def)
  moreover have "enc_rel s (rid # rids) s'"
    by (rule enc_rel_Cons [OF enc]) (use assms(1,2) in \<open>simp_all add: upd_rel_def\<close>)
  ultimately show ?thesis unfolding upd_rel_def by blast
qed

lemma update_loop_rel:
  assumes "update_loop ord s toks mro rids = Inr (nr, outs, s')" and "distinct rids"
    and "\<And>rid r. requests s rid = Some r \<Longrightarrow> request_id r = rid"
  shows "upd_rel s toks mro rids s'"
  using assms
proof (induction rids arbitrary: s nr outs)
  case Nil
  then show ?case by (simp add: upd_rel_def enc_rel_refl)
next
  case (Cons rid rids)
  have nin: "rid \<notin> set rids" "distinct rids" using Cons.prems(2) by simp_all
  obtain r where r: "requests s rid = Some r" using Cons.prems(1) by (auto simp: get_req_def split: option.splits)
  have id: "request_id r = rid" using Cons.prems(3) r by blast
  show ?case
  proof (cases "case map_of toks rid of None \<Rightarrow> True | Some n \<Rightarrow> n = 0")
    case True
    then obtain nr' outs' where "update_loop ord s toks mro rids = Inr (nr', outs', s')"
      using Cons.prems(1) r by (auto simp: get_req_def split: option.splits)
    from Cons.IH [OF this nin(2) Cons.prems(3)] show ?thesis
      by (rule upd_rel_Cons [OF _ nin(1)]) (use r id True enc_rel_refl in \<open>auto simp: advanced_def split: option.splits\<close>)
  next
    case False
    then obtain n where n: "map_of toks rid = Some n" "n \<noteq> 0" by (auto split: option.splits)
    let ?r = "r\<lparr>num_computed_tokens := num_computed_tokens r + n\<rparr>"
    have nt: "num_tokens ?r = num_tokens r" by (simp add: num_tokens_def)
    obtain e where e: "free_done_inputs (encoder_cache_manager s) ?r
        (ord (get_cached_input_ids (encoder_cache_manager s) ?r)) = Inr e"
      using Cons.prems(1) r n by (auto simp: get_req_def Let_def)
    let ?s1 = "put_req (s\<lparr>encoder_cache_manager := e\<rparr>) ?r"
    have sz: "same_sizes s ?s1" "crd_ok s \<Longrightarrow> crd_ok ?s1" by (simp_all add: same_sizes_def crd_ok_def)
    have fr: "enc_freed (encoder_cache_manager s) rid (input_done ?r) (encoder_cache_manager ?s1)"
      using free_done_inputs_freed [OF e] id by simp
    show ?thesis
    proof (cases "num_computed_tokens r + n = num_tokens r")
      case full: True
      obtain out st s2 nr' outs' where g: "generate_token ord ?s1 ?r mro = Inr (out, st, s2)"
          "update_loop ord s2 toks mro rids = Inr (nr', outs', s')"
        using Cons.prems(1) r n e full nt by (auto simp: get_req_def Let_def split: if_splits)
      note f = generate_token_frame [OF g(1)]
      have keep: "requests s2 i = requests s i \<and> blocks_of (kv_cache_manager s2) i = blocks_of (kv_cache_manager s) i"
        if "i \<noteq> rid" for i using f(3) [of i] that id by simp
      have one: "\<exists>x. requests s rid = Some x \<and> advanced s toks mro x r' \<and>
          blocks_of (kv_cache_manager s2) rid = blocks_of (kv_cache_manager s) rid" if "requests s2 rid = Some r'" for r'
        using f(4) that id r n full by (auto simp: advanced_def Let_def split: if_splits)
      have ids: "request_id x = i" if "requests s2 i = Some x" for i x
        using that keep [of i] Cons.prems(3) f(4) id by (cases "i = rid") (auto split: if_splits)
      have enc: "enc_rel s [rid] s2"
      proof (rule enc_rel_freed)
        let ?P = "\<lambda>k. input_done ?r k \<or> st"
        have "enc_freed (encoder_cache_manager s) rid ?P (encoder_cache_manager ?s1)"
          "enc_freed (encoder_cache_manager ?s1) rid ?P (encoder_cache_manager s2)"
          using fr f(6) id by (auto simp: enc_freed_def)
        then show "enc_freed (encoder_cache_manager s) rid ?P (encoder_cache_manager s2)" by (rule enc_freed_trans)
        show "encoder_cache s2 = encoder_cache s" using f(5) by simp
        show "input_done r' k" if "requests s2 rid = Some r'" "?P k" for r' k
          using f(4) that id by (auto simp: input_done_def append_output_token_ids_def split: if_splits)
      qed
      show ?thesis
        by (rule upd_rel_Cons [OF Cons.IH [OF g(2) nin(2) ids] nin(1) same_sizes_trans [OF sz(1) f(1)] f(2) enc keep one])
          (use sz(2) in blast)+
    next
      case part: False
      obtain nr' outs' where g: "update_loop ord ?s1 toks mro rids = Inr (nr', outs', s')"
        using Cons.prems(1) r n e part nt by (auto simp: get_req_def Let_def split: if_splits)
      have ids: "request_id x = i" if "requests ?s1 i = Some x" for i x
        using that Cons.prems(3) id by (auto split: if_splits)
      show ?thesis
        by (rule upd_rel_Cons [OF Cons.IH [OF g nin(2) ids] nin(1) sz enc_rel_freed [OF fr]])
          (use r id n part in \<open>auto simp: advanced_def Let_def\<close>)
    qed
  qed
qed

lemma update_from_output_rel:
  assumes "sched_inv s" and "update_from_output ord s out mro = Inr (o', s')"
  shows "upd_rel s (num_scheduled_tokens out) mro (running s) s'"
proof -
  from assms(2) obtain nr outs s1 where "update_loop ord s (num_scheduled_tokens out) mro (running s) = Inr (nr, outs, s1)"
      "s' = s1\<lparr>running := nr\<rparr>"
    by (auto simp: update_from_output_def Let_def)
  moreover have "distinct (running s)" "\<And>rid r. requests s rid = Some r \<Longrightarrow> request_id r = rid"
    using assms(1) by (auto simp: sched_inv_def)
  ultimately have u: "upd_rel s (num_scheduled_tokens out) mro (running s) s1"
    using update_loop_rel by blast
  have "requests s' = requests s1" "kv_cache_manager s' = kv_cache_manager s1" "same_sizes s s' = same_sizes s s1"
    "crd_ok s' = crd_ok s1"
    using \<open>s' = s1\<lparr>running := nr\<rparr>\<close> by (simp_all add: same_sizes_def crd_ok_def)
  moreover have "enc_rel s (running s) s' = enc_rel s (running s) s1"
    using \<open>s' = s1\<lparr>running := nr\<rparr>\<close> by (simp add: enc_rel_def)
  ultimately show ?thesis using u unfolding upd_rel_def by simp
qed

text \<open>The update frees blocks and moves requests past blocks; it gives none out.\<close>

lemma advanced_computed: "advanced s toks mro r r' \<Longrightarrow> (\<forall>n \<in> snd ` set toks. 0 \<le> n) \<Longrightarrow>
   num_computed_tokens r \<le> num_computed_tokens r'"
  by (auto simp: advanced_def Let_def append_output_token_ids_def split: option.splits if_splits dest!: map_of_SomeD)

lemma update_writes:
  assumes rel: "upd_rel s toks mro rids s'" and w: "writes_ok s" and pos: "\<forall>n \<in> snd ` set toks. 0 \<le> n"
    and bs: "block_size (kv_cache_manager s') = block_size (kv_cache_manager s)" "0 < block_size (kv_cache_manager s)"
  shows "writes_ok s'"
proof (rule writes_ok_mono [OF w])
  fix i
  show "\<exists>k. own_blocks s' i = drop k (own_blocks s i)"
  proof (cases "i \<in> set rids \<and> requests s' i \<noteq> None")
    case True
    then obtain r' where r': "requests s' i = Some r'" by blast
    then obtain r where r: "requests s i = Some r" "advanced s toks mro r r'"
        "blocks_of (kv_cache_manager s') i = blocks_of (kv_cache_manager s) i"
      using rel True unfolding upd_rel_def by blast
    let ?a = "nat (num_computed_tokens r div block_size (kv_cache_manager s))"
      and ?b = "nat (num_computed_tokens r' div block_size (kv_cache_manager s))"
    have "?a \<le> ?b" using advanced_computed [OF r(2) pos] bs(2) by (intro nat_mono zdiv_mono1)
    then have "own_blocks s' i = drop (?b - ?a) (own_blocks s i)" using r r' bs(1) by (simp add: own_blocks_def)
    then show ?thesis by blast
  next
    case False
    show ?thesis
    proof (cases "requests s' i")
      case None
      then show ?thesis by (intro own_blocks_gone) (simp add: own_blocks_def)
    next
      case (Some r)
      then have "i \<notin> set rids" using False by simp
      then show ?thesis using rel bs(1) by (intro own_blocks_same own_blocks_cong) (simp_all add: upd_rel_def)
    qed
  qed
qed

end
