(* ===== verification/InputBatch.thy ===== *)
theory InputBatch
  imports Request "HOL-Library.AList"
begin

text \<open>
  The persistent batch of the model runner (\<open>vllm/v1/worker/gpu_input_batch.py\<close>) and its block table
  (\<open>vllm/v1/worker/block_table.py\<close>): one row per request in a set of arrays that are kept from step to
  step, with requests added to free rows, removed, and moved down to close gaps (\<open>condense\<close>).

  A NumPy array is the list of its rows, a torch tensor that shares its memory is the same list.  The
  copies on the device are separate lists.  Dictionaries are association lists with distinct keys.
  Token and block ids are assumed to fit 32 bits.  A generator is the seed it was created with.
  \<open>torch.empty\<close> and \<open>np.empty\<close> leave arbitrary values, the arguments \<open>jr\<close> and \<open>ji\<close> of the
  constructor.
\<close>

section \<open>NumPy rows\<close>

text \<open>
  \<open>row[start:start + len(vals)] = vals\<close>: the slice is clipped to the row, a list of another length does
  not fit, except that a single value is broadcast into the empty slice, which changes nothing.
\<close>

definition np_assign :: "'a list \<Rightarrow> nat \<Rightarrow> 'a list \<Rightarrow> 'a list py" where
  "np_assign row start vals =
     (let lo = min (length row) start; hi = min (length row) (start + length vals) in
      if hi - lo = length vals then Inr (take lo row @ vals @ drop hi row)
      else if length vals = 1 then Inr row
      else Inl ValueError)"

text \<open>\<open>dst[:n] = src[:n]\<close> for rows of equal length.\<close>

definition np_copy_prefix :: "nat \<Rightarrow> 'a list \<Rightarrow> 'a list \<Rightarrow> 'a list" where
  "np_copy_prefix n src dst = take n src @ drop n dst"

section \<open>The block table\<close>

record BlockTable =
  bt_device :: "nat list list"
  bt_cpu :: "nat list list"
  num_blocks_per_row :: "nat list"

definition block_table_init :: "nat \<Rightarrow> nat \<Rightarrow> BlockTable" where
  "block_table_init max_num_reqs max_blocks =
     \<lparr>bt_device = replicate max_num_reqs (replicate max_blocks 0),
      bt_cpu = replicate max_num_reqs (replicate max_blocks 0),
      num_blocks_per_row = replicate max_num_reqs 0\<rparr>"

definition append_row :: "BlockTable \<Rightarrow> nat \<Rightarrow> nat \<Rightarrow> nat list \<Rightarrow> BlockTable py" where
  "append_row bt i start block_ids =
     (if block_ids = [] then Inr bt
      else if i \<ge> length (bt_cpu bt) then Inl IndexError
      else
        py_bind (np_assign (bt_cpu bt ! i) start block_ids) (\<lambda>row.
          Inr (bt\<lparr>bt_cpu := (bt_cpu bt)[i := row],
                  num_blocks_per_row := (num_blocks_per_row bt)[i := start + length block_ids]\<rparr>)))"

definition add_row :: "BlockTable \<Rightarrow> nat \<Rightarrow> nat list \<Rightarrow> BlockTable py" where
  "add_row bt i block_ids = append_row bt i 0 block_ids"

definition move_row :: "BlockTable \<Rightarrow> nat \<Rightarrow> nat \<Rightarrow> BlockTable" where
  "move_row bt src tgt =
     (let n = num_blocks_per_row bt ! src in
      bt\<lparr>bt_cpu := (bt_cpu bt)[tgt := np_copy_prefix n (bt_cpu bt ! src) (bt_cpu bt ! tgt)],
         num_blocks_per_row := (num_blocks_per_row bt)[tgt := n]\<rparr>)"

definition bt_commit :: "BlockTable \<Rightarrow> nat \<Rightarrow> BlockTable" where
  "bt_commit bt n = bt\<lparr>bt_device := np_copy_prefix n (bt_cpu bt) (bt_device bt)\<rparr>"

definition bt_clear :: "BlockTable \<Rightarrow> BlockTable" where
  "bt_clear bt =
     bt\<lparr>bt_device := map (\<lambda>row. replicate (length row) 0) (bt_device bt),
        bt_cpu := map (\<lambda>row. replicate (length row) 0) (bt_cpu bt)\<rparr>"

section \<open>The batch\<close>

record CachedRequestState =
  cs_req_id :: string
  cs_prompt_token_ids :: "int list"
  cs_prompt :: "string option"
  cs_mm_inputs :: "mm_kwargs option list"
  cs_mm_positions :: "PlaceholderRange list"
  cs_sampling_params :: SamplingParams
  cs_generator :: "int option"
  cs_block_ids :: "nat list"
  cs_num_computed_tokens :: int
  cs_output_token_ids :: "int list"

definition cs_num_tokens :: "CachedRequestState \<Rightarrow> nat" where
  "cs_num_tokens r = length (cs_prompt_token_ids r) + length (cs_output_token_ids r)"

record InputBatch =
  ib_max_num_reqs :: nat
  ib_max_model_len :: nat
  ib_max_num_blocks_per_req :: nat
  ib_vocab_size :: int
  ib_req_ids :: "string option list"
  ib_req_id_to_index :: "(string \<times> nat) list"
  token_ids_cpu :: "int list list"
  ib_num_tokens :: "nat list"
  ib_num_prompt_tokens :: "nat list"
  num_computed_tokens_cpu :: "int list"
  ib_block_table :: BlockTable
  temperature :: "rat list"
  temperature_cpu :: "rat list"
  greedy_reqs :: "string set"
  random_reqs :: "string set"
  top_p :: "rat list"
  top_p_cpu :: "rat list"
  top_p_reqs :: "string set"
  top_k :: "int list"
  top_k_cpu :: "int list"
  top_k_reqs :: "string set"
  frequency_penalties :: "rat list"
  frequency_penalties_cpu :: "rat list"
  frequency_penalties_reqs :: "string set"
  presence_penalties :: "rat list"
  presence_penalties_cpu :: "rat list"
  presence_penalties_reqs :: "string set"
  repetition_penalties :: "rat list"
  repetition_penalties_cpu :: "rat list"
  repetition_penalties_reqs :: "string set"
  ib_min_tokens :: "int list"
  ib_stop_token_ids :: "int set list"
  ib_prompt_token_ids :: "int list list option"
  generators :: "(nat \<times> int) list"
  ib_num_logprobs :: "(string \<times> int) list"
  prompt_logprob_reqs :: "string set"

definition input_batch_init :: "rat \<Rightarrow> int \<Rightarrow> nat \<Rightarrow> nat \<Rightarrow> nat \<Rightarrow> int \<Rightarrow> InputBatch" where
  "input_batch_init jr ji n mml max_blocks vocab =
     \<lparr>ib_max_num_reqs = n, ib_max_model_len = mml, ib_max_num_blocks_per_req = max_blocks, ib_vocab_size = vocab,
      ib_req_ids = replicate n None, ib_req_id_to_index = [],
      token_ids_cpu = replicate n (replicate mml 0), ib_num_tokens = replicate n 0,
      ib_num_prompt_tokens = replicate n 0, num_computed_tokens_cpu = replicate n ji,
      ib_block_table = block_table_init n max_blocks,
      temperature = replicate n jr, temperature_cpu = replicate n jr, greedy_reqs = {}, random_reqs = {},
      top_p = replicate n jr, top_p_cpu = replicate n jr, top_p_reqs = {},
      top_k = replicate n ji, top_k_cpu = replicate n ji, top_k_reqs = {},
      frequency_penalties = replicate n jr, frequency_penalties_cpu = replicate n jr,
      frequency_penalties_reqs = {},
      presence_penalties = replicate n jr, presence_penalties_cpu = replicate n jr,
      presence_penalties_reqs = {},
      repetition_penalties = replicate n jr, repetition_penalties_cpu = replicate n jr,
      repetition_penalties_reqs = {},
      ib_min_tokens = replicate n 0, ib_stop_token_ids = replicate n {}, ib_prompt_token_ids = None,
      generators = [], ib_num_logprobs = [], prompt_logprob_reqs = {}\<rparr>"

definition ib_num_reqs :: "InputBatch \<Rightarrow> nat" where
  "ib_num_reqs ib = length (ib_req_id_to_index ib)"

definition all_greedy :: "InputBatch \<Rightarrow> bool" where
  "all_greedy ib \<longleftrightarrow> random_reqs ib = {}"

definition all_random :: "InputBatch \<Rightarrow> bool" where
  "all_random ib \<longleftrightarrow> greedy_reqs ib = {}"

definition no_top_p :: "InputBatch \<Rightarrow> bool" where
  "no_top_p ib \<longleftrightarrow> top_p_reqs ib = {}"

definition no_top_k :: "InputBatch \<Rightarrow> bool" where
  "no_top_k ib \<longleftrightarrow> top_k_reqs ib = {}"

definition no_penalties :: "InputBatch \<Rightarrow> bool" where
  "no_penalties ib \<longleftrightarrow>
     presence_penalties_reqs ib = {} \<and> frequency_penalties_reqs ib = {} \<and> repetition_penalties_reqs ib = {}"

definition max_num_logprobs :: "InputBatch \<Rightarrow> int" where
  "max_num_logprobs ib =
     (if ib_num_logprobs ib = [] then 0 else Max (snd ` set (ib_num_logprobs ib)))"

definition no_logprob :: "InputBatch \<Rightarrow> bool" where
  "no_logprob ib \<longleftrightarrow> ib_num_logprobs ib = []"

definition no_prompt_logprob :: "InputBatch \<Rightarrow> bool" where
  "no_prompt_logprob ib \<longleftrightarrow> prompt_logprob_reqs ib = {}"

text \<open>\<open>s.add(x)\<close> under a condition.\<close>

definition add_if :: "bool \<Rightarrow> 'a \<Rightarrow> 'a set \<Rightarrow> 'a set" where
  "add_if b x A = (if b then insert x A else A)"

text \<open>
  The writes of \<open>add_request\<close> to row \<open>i\<close>; \<open>row\<close> is the new row of token ids and \<open>bt\<close> the new block table.
\<close>

definition put_request :: "InputBatch \<Rightarrow> CachedRequestState \<Rightarrow> nat \<Rightarrow> int list \<Rightarrow> BlockTable \<Rightarrow> InputBatch" where
  "put_request ib rq i row bt =
     (let rid = cs_req_id rq; sp = cs_sampling_params rq in
      ib\<lparr>
       ib_req_ids := (ib_req_ids ib)[i := Some rid],
       ib_req_id_to_index := AList.update rid i (ib_req_id_to_index ib),
       token_ids_cpu := (token_ids_cpu ib)[i := row],
       ib_num_tokens := (ib_num_tokens ib)[i := cs_num_tokens rq],
       ib_num_prompt_tokens := (ib_num_prompt_tokens ib)[i := length (cs_prompt_token_ids rq)],
       num_computed_tokens_cpu := (num_computed_tokens_cpu ib)[i := cs_num_computed_tokens rq],
       ib_block_table := bt,
       temperature_cpu := (temperature_cpu ib)[i := sp_temperature sp],
       greedy_reqs := add_if (sampling_type sp = GREEDY) rid (greedy_reqs ib),
       random_reqs := add_if (sampling_type sp \<noteq> GREEDY) rid (random_reqs ib),
       top_p_cpu := (top_p_cpu ib)[i := sp_top_p sp],
       top_p_reqs := add_if (sp_top_p sp < 1) rid (top_p_reqs ib),
       top_k_cpu := (top_k_cpu ib)[i := sp_top_k sp],
       top_k_reqs := add_if (sp_top_k sp > 0) rid (top_k_reqs ib),
       frequency_penalties_cpu := (frequency_penalties_cpu ib)[i := sp_frequency_penalty sp],
       frequency_penalties_reqs := add_if (sp_frequency_penalty sp \<noteq> 0) rid (frequency_penalties_reqs ib),
       presence_penalties_cpu := (presence_penalties_cpu ib)[i := sp_presence_penalty sp],
       presence_penalties_reqs := add_if (sp_presence_penalty sp \<noteq> 0) rid (presence_penalties_reqs ib),
       repetition_penalties_cpu := (repetition_penalties_cpu ib)[i := sp_repetition_penalty sp],
       repetition_penalties_reqs := add_if (sp_repetition_penalty sp \<noteq> 1) rid (repetition_penalties_reqs ib),
       ib_min_tokens := (ib_min_tokens ib)[i := sp_min_tokens sp],
       ib_stop_token_ids := (ib_stop_token_ids ib)[i := sp_all_stop_token_ids sp],
       generators := (case cs_generator rq of
                        None \<Rightarrow> generators ib | Some g \<Rightarrow> AList.update i g (generators ib)),
       ib_num_logprobs := (case sp_logprobs sp of
                             None \<Rightarrow> ib_num_logprobs ib
                           | Some k \<Rightarrow> if k > 0 then AList.update rid k (ib_num_logprobs ib)
                                      else ib_num_logprobs ib),
       prompt_logprob_reqs := add_if (truthy (sp_prompt_logprobs sp)) rid (prompt_logprob_reqs ib)\<rparr>)"

definition ib_add_request :: "InputBatch \<Rightarrow> CachedRequestState \<Rightarrow> nat option \<Rightarrow> InputBatch py" where
  "ib_add_request ib rq req_index =
     (let i = (case req_index of None \<Rightarrow> ib_num_reqs ib | Some j \<Rightarrow> j) in
      py_assert (i < ib_max_num_reqs ib)
        (py_bind (np_assign (token_ids_cpu ib ! i) 0 (cs_prompt_token_ids rq)) (\<lambda>row1.
         py_bind (np_assign row1 (length (cs_prompt_token_ids rq)) (cs_output_token_ids rq)) (\<lambda>row2.
         py_bind (add_row (ib_block_table ib) i (cs_block_ids rq)) (\<lambda>bt.
           Inr (put_request ib rq i row2 bt))))))"

definition ib_remove_request :: "InputBatch \<Rightarrow> string \<Rightarrow> nat option \<times> InputBatch" where
  "ib_remove_request ib rid =
     (case map_of (ib_req_id_to_index ib) rid of
        None \<Rightarrow> (None, ib)
      | Some i \<Rightarrow>
          (Some i,
           ib\<lparr>ib_req_id_to_index := AList.delete rid (ib_req_id_to_index ib),
              ib_req_ids := (ib_req_ids ib)[i := None],
              greedy_reqs := greedy_reqs ib - {rid},
              random_reqs := random_reqs ib - {rid},
              top_p_reqs := top_p_reqs ib - {rid},
              top_k_reqs := top_k_reqs ib - {rid},
              frequency_penalties_reqs := frequency_penalties_reqs ib - {rid},
              presence_penalties_reqs := presence_penalties_reqs ib - {rid},
              repetition_penalties_reqs := repetition_penalties_reqs ib - {rid},
              generators := AList.delete i (generators ib),
              ib_num_logprobs := AList.delete rid (ib_num_logprobs ib),
              prompt_logprob_reqs := prompt_logprob_reqs ib - {rid}\<rparr>))"

definition ib_clear :: "InputBatch \<Rightarrow> InputBatch" where
  "ib_clear ib =
     ib\<lparr>ib_req_ids := replicate (ib_max_num_reqs ib) None, ib_req_id_to_index := [],
        greedy_reqs := {}, random_reqs := {}, top_p_reqs := {}, top_k_reqs := {},
        frequency_penalties_reqs := {}, presence_penalties_reqs := {}, repetition_penalties_reqs := {},
        generators := [], ib_num_logprobs := [], prompt_logprob_reqs := {}\<rparr>"

text \<open>The state of row \<open>l\<close> moves to row \<open>e\<close>.\<close>

definition move_state :: "InputBatch \<Rightarrow> string \<Rightarrow> nat \<Rightarrow> nat \<Rightarrow> InputBatch" where
  "move_state ib rid l e =
     ib\<lparr>ib_req_ids := (ib_req_ids ib)[e := Some rid, l := None],
        ib_req_id_to_index := AList.update rid e (ib_req_id_to_index ib),
        token_ids_cpu := (token_ids_cpu ib)
          [e := np_copy_prefix (ib_num_tokens ib ! l) (token_ids_cpu ib ! l) (token_ids_cpu ib ! e)],
        ib_num_tokens := (ib_num_tokens ib)[e := ib_num_tokens ib ! l],
        ib_num_prompt_tokens := (ib_num_prompt_tokens ib)[e := ib_num_prompt_tokens ib ! l],
        num_computed_tokens_cpu := (num_computed_tokens_cpu ib)[e := num_computed_tokens_cpu ib ! l],
        ib_block_table := move_row (ib_block_table ib) l e,
        temperature_cpu := (temperature_cpu ib)[e := temperature_cpu ib ! l],
        top_p_cpu := (top_p_cpu ib)[e := top_p_cpu ib ! l],
        top_k_cpu := (top_k_cpu ib)[e := top_k_cpu ib ! l],
        frequency_penalties_cpu := (frequency_penalties_cpu ib)[e := frequency_penalties_cpu ib ! l],
        presence_penalties_cpu := (presence_penalties_cpu ib)[e := presence_penalties_cpu ib ! l],
        repetition_penalties_cpu := (repetition_penalties_cpu ib)[e := repetition_penalties_cpu ib ! l],
        ib_min_tokens := (ib_min_tokens ib)[e := ib_min_tokens ib ! l],
        ib_stop_token_ids := (ib_stop_token_ids ib)[e := ib_stop_token_ids ib ! l],
        generators := (case map_of (generators ib) l of
                         None \<Rightarrow> AList.delete l (generators ib)
                       | Some g \<Rightarrow> AList.update e g (AList.delete l (generators ib)))\<rparr>"

text \<open>\<open>while last_req_index in empty_req_indices: last_req_index -= 1\<close>.\<close>

function skip_empty :: "int \<Rightarrow> nat list \<Rightarrow> int" where
  "skip_empty cur es = (if 0 \<le> cur \<and> nat cur \<in> set es then skip_empty (cur - 1) es else cur)"
  by auto
termination by (relation "measure (\<lambda>(cur, es). nat (cur + 1))") auto

declare skip_empty.simps [simp del]

text \<open>The loop of \<open>condense\<close>; \<open>empty_req_indices.pop()\<close> takes the cur element.\<close>

function condense_loop :: "InputBatch \<Rightarrow> int \<Rightarrow> nat list \<Rightarrow> InputBatch py" where
  "condense_loop ib cur es =
     (if es = [] then Inr ib
      else
        let l = skip_empty cur es; e = last es in
        if int e \<ge> l then Inr ib
        else if nat l \<ge> length (ib_req_ids ib) then Inl IndexError
        else
          (case ib_req_ids ib ! nat l of
             None \<Rightarrow> Inl AssertionError
           | Some rid \<Rightarrow> condense_loop (move_state ib rid (nat l) e) (l - 1) (butlast es)))"
  by auto
termination by (relation "measure (\<lambda>(ib, cur, es). length es)") auto

declare condense_loop.simps [simp del]

definition condense :: "InputBatch \<Rightarrow> nat list \<Rightarrow> InputBatch py" where
  "condense ib es =
     (if ib_num_reqs ib = 0 then Inr ib
      else condense_loop ib (int (ib_num_reqs ib) + int (length es) - 1) es)"

section \<open>Sampling metadata\<close>

record SamplingMetadata =
  sm_temperature :: "rat list"
  sm_all_greedy :: bool
  sm_all_random :: bool
  sm_top_p :: "rat list"
  sm_top_k :: "int list"
  sm_no_top_p :: bool
  sm_no_top_k :: bool
  sm_generators :: "(nat \<times> int) list"
  sm_max_num_logprobs :: int
  sm_no_penalties :: bool
  sm_prompt_token_ids :: "int list list option"
  sm_frequency_penalties :: "rat list"
  sm_presence_penalties :: "rat list"
  sm_repetition_penalties :: "rat list"
  sm_output_token_ids :: "int list list"
  sm_min_tokens :: "int list"
  sm_stop_token_ids :: "int set list"

definition make_prompt_token_ids_tensor :: "InputBatch \<Rightarrow> int list list py" where
  "make_prompt_token_ids_tensor ib =
     (let n = ib_num_reqs ib in
      if n = 0 then Inl ValueError
      else
        let m = Max (set (take n (ib_num_prompt_tokens ib))) in
        Inr (map (\<lambda>i. take (ib_num_prompt_tokens ib ! i) (take m (token_ids_cpu ib ! i)) @
                      replicate (m - ib_num_prompt_tokens ib ! i) (ib_vocab_size ib)) [0..<n]))"

text \<open>The copies to the device at the start of \<open>make_sampling_metadata\<close>.\<close>

definition copy_sampling_tensors :: "InputBatch \<Rightarrow> InputBatch py" where
  "copy_sampling_tensors ib =
     (let n = ib_num_reqs ib;
          ib1 = ib\<lparr>temperature := np_copy_prefix n (temperature_cpu ib) (temperature ib),
                   top_p := np_copy_prefix n (top_p_cpu ib) (top_p ib),
                   top_k := np_copy_prefix n (top_k_cpu ib) (top_k ib)\<rparr> in
      if no_penalties ib then Inr ib1
      else
        py_bind (make_prompt_token_ids_tensor ib1) (\<lambda>pt.
          Inr (ib1\<lparr>
            frequency_penalties := np_copy_prefix n (frequency_penalties_cpu ib1) (frequency_penalties ib1),
            presence_penalties := np_copy_prefix n (presence_penalties_cpu ib1) (presence_penalties ib1),
            repetition_penalties := np_copy_prefix n (repetition_penalties_cpu ib1) (repetition_penalties ib1),
            ib_prompt_token_ids := Some pt\<rparr>)))"

fun collect_output_tokens :: "(string \<Rightarrow> int list option) \<Rightarrow> string option list \<Rightarrow> int list list py" where
  "collect_output_tokens outs [] = Inr []"
| "collect_output_tokens outs (r # rs) =
     (case r of
        None \<Rightarrow> Inl AssertionError
      | Some rid \<Rightarrow>
          (case outs rid of
             None \<Rightarrow> Inl KeyError
           | Some ts \<Rightarrow> py_bind (collect_output_tokens outs rs) (\<lambda>tss. Inr (ts # tss))))"

definition make_sampling_metadata ::
  "InputBatch \<Rightarrow> (string \<Rightarrow> int list option) \<Rightarrow> bool \<Rightarrow> (SamplingMetadata \<times> InputBatch) py" where
  "make_sampling_metadata ib outs skip_copy =
     py_bind (if skip_copy then Inr ib else copy_sampling_tensors ib) (\<lambda>ib.
       let n = ib_num_reqs ib in
       py_bind (collect_output_tokens outs (take n (ib_req_ids ib))) (\<lambda>tss.
         Inr (\<lparr>sm_temperature = take n (temperature ib), sm_all_greedy = all_greedy ib,
               sm_all_random = all_random ib, sm_top_p = take n (top_p ib), sm_top_k = take n (top_k ib),
               sm_no_top_p = no_top_p ib, sm_no_top_k = no_top_k ib, sm_generators = generators ib,
               sm_max_num_logprobs = max_num_logprobs ib, sm_no_penalties = no_penalties ib,
               sm_prompt_token_ids = ib_prompt_token_ids ib,
               sm_frequency_penalties = take n (frequency_penalties ib),
               sm_presence_penalties = take n (presence_penalties ib),
               sm_repetition_penalties = take n (repetition_penalties ib),
               sm_output_token_ids = tss, sm_min_tokens = take n (ib_min_tokens ib),
               sm_stop_token_ids = take n (ib_stop_token_ids ib)\<rparr>, ib)))"

end
