(* ===== verification/InputBatchProps.thy ===== *)
theory InputBatchProps
  imports InputBatch
begin

text \<open>
  The persistent batch implements a finite map from request ids to request states.  \<open>batch_rep ib M\<close>
  says that the rows, the request sets and the dictionaries of \<open>ib\<close> hold exactly the requests of \<open>M\<close>;
  adding, removing and condensing are proved to be an update, a deletion and the identity on \<open>M\<close>.
\<close>

section \<open>The abstraction\<close>

text \<open>What a row says about its request, and what it should say.\<close>

record BatchRow =
  br_num_tokens :: nat
  br_tokens :: "int list"
  br_num_prompt_tokens :: nat
  br_num_computed_tokens :: int
  br_num_blocks :: nat
  br_blocks :: "nat list"
  br_temperature :: rat
  br_top_p :: rat
  br_top_k :: int
  br_penalties :: "rat \<times> rat \<times> rat"
  br_min_tokens :: int
  br_stop_token_ids :: "int set"
  br_generator :: "int option"

text \<open>The dictionaries as maps.\<close>

definition index_of :: "InputBatch \<Rightarrow> string \<Rightarrow> nat option" where
  "index_of ib = map_of (ib_req_id_to_index ib)"

definition gen_of :: "InputBatch \<Rightarrow> nat \<Rightarrow> int option" where
  "gen_of ib = map_of (generators ib)"

definition batch_row :: "InputBatch \<Rightarrow> nat \<Rightarrow> BatchRow" where
  "batch_row ib i =
     (let bt = ib_block_table ib in
      \<lparr>br_num_tokens = ib_num_tokens ib ! i,
       br_tokens = take (ib_num_tokens ib ! i) (token_ids_cpu ib ! i),
       br_num_prompt_tokens = ib_num_prompt_tokens ib ! i,
       br_num_computed_tokens = num_computed_tokens_cpu ib ! i,
       br_num_blocks = num_blocks_per_row bt ! i,
       br_blocks = take (num_blocks_per_row bt ! i) (bt_cpu bt ! i),
       br_temperature = temperature_cpu ib ! i, br_top_p = top_p_cpu ib ! i, br_top_k = top_k_cpu ib ! i,
       br_penalties = (frequency_penalties_cpu ib ! i, presence_penalties_cpu ib ! i, repetition_penalties_cpu ib ! i),
       br_min_tokens = ib_min_tokens ib ! i, br_stop_token_ids = ib_stop_token_ids ib ! i,
       br_generator = gen_of ib i\<rparr>)"

definition state_row :: "CachedRequestState \<Rightarrow> BatchRow" where
  "state_row rq =
     (let sp = cs_sampling_params rq in
      \<lparr>br_num_tokens = cs_num_tokens rq, br_tokens = cs_prompt_token_ids rq @ cs_output_token_ids rq,
       br_num_prompt_tokens = length (cs_prompt_token_ids rq),
       br_num_computed_tokens = cs_num_computed_tokens rq,
       br_num_blocks = length (cs_block_ids rq), br_blocks = cs_block_ids rq,
       br_temperature = sp_temperature sp, br_top_p = sp_top_p sp, br_top_k = sp_top_k sp,
       br_penalties = (sp_frequency_penalty sp, sp_presence_penalty sp, sp_repetition_penalty sp),
       br_min_tokens = sp_min_tokens sp, br_stop_token_ids = sp_all_stop_token_ids sp,
       br_generator = cs_generator rq\<rparr>)"

type_synonym batch_map = "string \<Rightarrow> CachedRequestState option"

text \<open>All arrays have one entry per row, and the rows of the two tables have their fixed lengths.\<close>

definition ib_shape :: "InputBatch \<Rightarrow> bool" where
  "ib_shape ib \<longleftrightarrow>
     (\<forall>k \<in> {length (ib_req_ids ib), length (token_ids_cpu ib), length (ib_num_tokens ib),
            length (ib_num_prompt_tokens ib), length (num_computed_tokens_cpu ib),
            length (bt_cpu (ib_block_table ib)), length (num_blocks_per_row (ib_block_table ib)),
            length (temperature ib), length (temperature_cpu ib), length (top_p ib), length (top_p_cpu ib),
            length (top_k ib), length (top_k_cpu ib), length (frequency_penalties ib),
            length (frequency_penalties_cpu ib), length (presence_penalties ib),
            length (presence_penalties_cpu ib), length (repetition_penalties ib),
            length (repetition_penalties_cpu ib), length (ib_min_tokens ib), length (ib_stop_token_ids ib)}.
        k = ib_max_num_reqs ib) \<and>
     (\<forall>row \<in> set (token_ids_cpu ib). length row = ib_max_model_len ib) \<and>
     (\<forall>row \<in> set (bt_cpu (ib_block_table ib)). length row = ib_max_num_blocks_per_req ib)"

definition ib_keys_ok :: "InputBatch \<Rightarrow> bool" where
  "ib_keys_ok ib \<longleftrightarrow>
     distinct (map fst (ib_req_id_to_index ib)) \<and> distinct (map fst (generators ib)) \<and>
     distinct (map fst (ib_num_logprobs ib))"

text \<open>\<open>req_ids\<close> and \<open>req_id_to_index\<close> are inverse to each other.\<close>

definition ib_index_ok :: "InputBatch \<Rightarrow> bool" where
  "ib_index_ok ib \<longleftrightarrow>
     (\<forall>rid i. index_of ib rid = Some i \<longleftrightarrow> i < ib_max_num_reqs ib \<and> ib_req_ids ib ! i = Some rid) \<and>
     (\<forall>i g. gen_of ib i = Some g \<longrightarrow> i < ib_max_num_reqs ib \<and> ib_req_ids ib ! i \<noteq> None)"

definition ib_rows_ok :: "InputBatch \<Rightarrow> batch_map \<Rightarrow> bool" where
  "ib_rows_ok ib M \<longleftrightarrow>
     dom (index_of ib) = dom M \<and>
     (\<forall>rid i rq. index_of ib rid = Some i \<longrightarrow> M rid = Some rq \<longrightarrow>
        cs_req_id rq = rid \<and> batch_row ib i = state_row rq)"

definition reqs_with :: "batch_map \<Rightarrow> (SamplingParams \<Rightarrow> bool) \<Rightarrow> string set" where
  "reqs_with M P = {rid. \<exists>rq. M rid = Some rq \<and> P (cs_sampling_params rq)}"

definition logprobs_of :: "SamplingParams \<Rightarrow> int option" where
  "logprobs_of sp = (case sp_logprobs sp of None \<Rightarrow> None | Some k \<Rightarrow> if k > 0 then Some k else None)"

definition ib_sets_ok :: "InputBatch \<Rightarrow> batch_map \<Rightarrow> bool" where
  "ib_sets_ok ib M \<longleftrightarrow>
     greedy_reqs ib = reqs_with M (\<lambda>sp. sampling_type sp = GREEDY) \<and>
     random_reqs ib = reqs_with M (\<lambda>sp. sampling_type sp \<noteq> GREEDY) \<and>
     top_p_reqs ib = reqs_with M (\<lambda>sp. sp_top_p sp < 1) \<and>
     top_k_reqs ib = reqs_with M (\<lambda>sp. sp_top_k sp > 0) \<and>
     frequency_penalties_reqs ib = reqs_with M (\<lambda>sp. sp_frequency_penalty sp \<noteq> 0) \<and>
     presence_penalties_reqs ib = reqs_with M (\<lambda>sp. sp_presence_penalty sp \<noteq> 0) \<and>
     repetition_penalties_reqs ib = reqs_with M (\<lambda>sp. sp_repetition_penalty sp \<noteq> 1) \<and>
     prompt_logprob_reqs ib = reqs_with M (\<lambda>sp. truthy (sp_prompt_logprobs sp)) \<and>
     (\<forall>rid. map_of (ib_num_logprobs ib) rid = Option.bind (M rid) (logprobs_of \<circ> cs_sampling_params))"

definition batch_rep :: "InputBatch \<Rightarrow> batch_map \<Rightarrow> bool" where
  "batch_rep ib M \<longleftrightarrow> ib_shape ib \<and> ib_keys_ok ib \<and> ib_index_ok ib \<and> ib_rows_ok ib M \<and> ib_sets_ok ib M"

lemmas batch_rep_defs = batch_rep_def ib_keys_ok_def ib_index_ok_def ib_rows_ok_def ib_sets_ok_def

definition occupied :: "InputBatch \<Rightarrow> nat set" where
  "occupied ib = {i. i < ib_max_num_reqs ib \<and> ib_req_ids ib ! i \<noteq> None}"

lemma finite_occupied [simp]: "finite (occupied ib)"
  by (simp add: occupied_def)

section \<open>Generic facts\<close>

lemma np_copy_prefix_length: "length (np_copy_prefix n xs ys) = max (min n (length xs)) (length ys - n + min n (length xs))"
  by (simp add: np_copy_prefix_def)

lemma np_copy_prefix_length_eq [simp]: "length xs = length ys \<Longrightarrow> length (np_copy_prefix n xs ys) = length ys"
  by (simp add: np_copy_prefix_def)

lemma take_np_copy_prefix [simp]: "length xs = length ys \<Longrightarrow> take n (np_copy_prefix n xs ys) = take n xs"
  by (cases "n \<le> length xs") (simp_all add: np_copy_prefix_def)

lemma np_assign_fits:
  "start + length vals \<le> length row \<Longrightarrow>
   np_assign row start vals = Inr (take start row @ vals @ drop (start + length vals) row)"
  by (simp add: np_assign_def min_def)

lemma reqs_with_upd:
  "reqs_with (M(rid \<mapsto> rq)) P = (if P (cs_sampling_params rq) then insert rid (reqs_with M P) else reqs_with M P - {rid})"
  by (auto simp: reqs_with_def)

lemma reqs_with_del: "reqs_with (M(rid := None)) P = reqs_with M P - {rid}"
  by (auto simp: reqs_with_def)

lemma reqs_with_fresh: "M rid = None \<Longrightarrow> reqs_with M P - {rid} = reqs_with M P"
  by (auto simp: reqs_with_def)

lemma map_of_update [simp]: "map_of (AList.update k v al) = (map_of al)(k \<mapsto> v)"
  by (rule update_conv')

lemma map_of_delete [simp]: "map_of (AList.delete k al) = (map_of al)(k := None)"
  by (rule delete_conv')

lemma ib_index_iff:
  "ib_index_ok ib \<Longrightarrow> index_of ib rid = Some i \<longleftrightarrow> i < ib_max_num_reqs ib \<and> ib_req_ids ib ! i = Some rid"
  by (simp add: ib_index_ok_def)

lemma occupied_iff: "ib_index_ok ib \<Longrightarrow> i \<in> occupied ib \<longleftrightarrow> (\<exists>rid. index_of ib rid = Some i)"
  by (simp add: ib_index_iff occupied_def)

text \<open>A map and a list of slots that are inverse to each other, and their updates.\<close>

definition slots_of :: "('a \<Rightarrow> nat option) \<Rightarrow> 'a option list \<Rightarrow> bool" where
  "slots_of m xs \<longleftrightarrow> (\<forall>r j. m r = Some j \<longleftrightarrow> j < length xs \<and> xs ! j = Some r)"

lemma slots_ofD: "slots_of m xs \<Longrightarrow> m r = Some j \<longleftrightarrow> j < length xs \<and> xs ! j = Some r"
  by (simp add: slots_of_def)

lemma slots_of_delete:
  assumes "slots_of m xs" and "m r = Some i"
  shows "slots_of (m(r := None)) (xs[i := None])"
  unfolding slots_of_def
proof (intro allI)
  fix r' j
  show "(m(r := None)) r' = Some j \<longleftrightarrow> j < length (xs[i := None]) \<and> xs[i := None] ! j = Some r'"
    using assms slots_ofD [OF assms(1), of r' j] slots_ofD [OF assms(1), of r j] slots_ofD [OF assms(1), of r' i]
    by (cases "j = i"; cases "r' = r") auto
qed

lemma slots_of_insert:
  assumes "slots_of m xs" and "m r = None" and "i < length xs" and "xs ! i = None"
  shows "slots_of (m(r \<mapsto> i)) (xs[i := Some r])"
  unfolding slots_of_def
proof (intro allI)
  fix r' j
  show "(m(r \<mapsto> i)) r' = Some j \<longleftrightarrow> j < length (xs[i := Some r]) \<and> xs[i := Some r] ! j = Some r'"
    using assms slots_ofD [OF assms(1), of r' j] slots_ofD [OF assms(1), of r j] slots_ofD [OF assms(1), of r' i]
    by (cases "j = i"; cases "r' = r") auto
qed

lemma ib_index_slots:
  "length (ib_req_ids ib) = ib_max_num_reqs ib \<Longrightarrow>
   ib_index_ok ib \<longleftrightarrow> slots_of (index_of ib) (ib_req_ids ib) \<and>
     (\<forall>i. i \<notin> occupied ib \<longrightarrow> gen_of ib i = None)"
  by (auto simp: ib_index_ok_def slots_of_def occupied_def)

lemma num_reqs_card:
  assumes "ib_keys_ok ib" and ok: "ib_index_ok ib"
  shows "ib_num_reqs ib = card (occupied ib)"
proof -
  let ?m = "index_of ib"
  have inj: "inj_on (the \<circ> ?m) (dom ?m)"
    by (rule inj_onI) (auto simp: ib_index_iff [OF ok])
  have "(the \<circ> ?m) ` dom ?m = occupied ib"
    by (force simp: occupied_iff [OF ok] image_iff Bex_def)
  then have "card (occupied ib) = card (dom ?m)"
    using card_image [OF inj] by simp
  also have "\<dots> = ib_num_reqs ib"
    using assms(1) distinct_card [of "map fst (ib_req_id_to_index ib)"]
    by (simp add: ib_num_reqs_def index_of_def dom_map_of_conv_image_fst ib_keys_ok_def)
  finally show ?thesis by simp
qed

section \<open>Construction, removal and addition\<close>

lemma input_batch_init_rep: "batch_rep (input_batch_init jr ji n mml k vocab) Map.empty"
  by (simp add: batch_rep_defs ib_shape_def input_batch_init_def block_table_init_def reqs_with_def
      index_of_def gen_of_def)

lemma ib_shapeD:
  assumes "ib_shape ib"
  shows "length (ib_req_ids ib) = ib_max_num_reqs ib" "length (token_ids_cpu ib) = ib_max_num_reqs ib"
    "length (bt_cpu (ib_block_table ib)) = ib_max_num_reqs ib"
    "length (num_blocks_per_row (ib_block_table ib)) = ib_max_num_reqs ib"
    "i < ib_max_num_reqs ib \<Longrightarrow> length (token_ids_cpu ib ! i) = ib_max_model_len ib"
    "i < ib_max_num_reqs ib \<Longrightarrow> length (bt_cpu (ib_block_table ib) ! i) = ib_max_num_blocks_per_req ib"
    "length (ib_num_tokens ib) = ib_max_num_reqs ib" "length (ib_num_prompt_tokens ib) = ib_max_num_reqs ib"
    "length (num_computed_tokens_cpu ib) = ib_max_num_reqs ib" "length (temperature_cpu ib) = ib_max_num_reqs ib"
    "length (top_p_cpu ib) = ib_max_num_reqs ib" "length (top_k_cpu ib) = ib_max_num_reqs ib"
    "length (frequency_penalties_cpu ib) = ib_max_num_reqs ib"
    "length (presence_penalties_cpu ib) = ib_max_num_reqs ib"
    "length (repetition_penalties_cpu ib) = ib_max_num_reqs ib"
    "length (ib_min_tokens ib) = ib_max_num_reqs ib" "length (ib_stop_token_ids ib) = ib_max_num_reqs ib"
  using assms by (simp_all add: ib_shape_def)

lemma batch_row_cong:
  assumes "batch_row ib i = r"
    and "gen_of ib' i = gen_of ib i"
    and "ib_num_tokens ib' = ib_num_tokens ib" "token_ids_cpu ib' = token_ids_cpu ib"
    "ib_num_prompt_tokens ib' = ib_num_prompt_tokens ib" "num_computed_tokens_cpu ib' = num_computed_tokens_cpu ib"
    "ib_block_table ib' = ib_block_table ib" "temperature_cpu ib' = temperature_cpu ib"
    "top_p_cpu ib' = top_p_cpu ib" "top_k_cpu ib' = top_k_cpu ib"
    "frequency_penalties_cpu ib' = frequency_penalties_cpu ib"
    "presence_penalties_cpu ib' = presence_penalties_cpu ib"
    "repetition_penalties_cpu ib' = repetition_penalties_cpu ib"
    "ib_min_tokens ib' = ib_min_tokens ib" "ib_stop_token_ids ib' = ib_stop_token_ids ib"
  shows "batch_row ib' i = r"
  using assms by (simp add: batch_row_def)

lemma remove_request_rep:
  assumes rep: "batch_rep ib M"
  shows "batch_rep (snd (ib_remove_request ib rid)) (M(rid := None))"
    and "fst (ib_remove_request ib rid) = index_of ib rid"
    and "occupied (snd (ib_remove_request ib rid)) = occupied ib - set_option (index_of ib rid)"
proof -
  let ?ib = "snd (ib_remove_request ib rid)"
  show "fst (ib_remove_request ib rid) = index_of ib rid"
    by (simp add: ib_remove_request_def index_of_def split: option.split)
  have sh: "ib_shape ib" and ks: "ib_keys_ok ib" and ix: "ib_index_ok ib"
    and rows: "ib_rows_ok ib M" and sets: "ib_sets_ok ib M"
    using rep by (simp_all add: batch_rep_def)
  note len = ib_shapeD(1) [OF sh]
  have "batch_rep ?ib (M(rid := None)) \<and> occupied ?ib = occupied ib - set_option (index_of ib rid)"
  proof (cases "index_of ib rid")
    case None
    moreover from None have "M rid = None"
      using rows by (auto simp: ib_rows_ok_def domIff)
    ultimately show ?thesis
      using rep by (simp add: ib_remove_request_def index_of_def fun_upd_idem)
  next
    case (Some i)
    note R = ib_remove_request_def Some [unfolded index_of_def]
    have at: "i < ib_max_num_reqs ib" "ib_req_ids ib ! i = Some rid"
      using Some by (simp_all add: ib_index_iff [OF ix])
    have io: "index_of ?ib = (index_of ib)(rid := None)" and go: "gen_of ?ib = (gen_of ib)(i := None)"
      and ro: "ib_req_ids ?ib = (ib_req_ids ib)[i := None]" and mo: "ib_max_num_reqs ?ib = ib_max_num_reqs ib"
      by (simp_all add: R index_of_def gen_of_def)
    have occ: "occupied ?ib = occupied ib - {i}"
      unfolding occupied_def ro mo by (auto simp: nth_list_update_cases len at)
    have "ib_shape ?ib"
      using sh by (simp add: R ib_shape_def)
    moreover have "ib_keys_ok ?ib"
      using ks by (simp add: R ib_keys_ok_def distinct_delete)
    moreover have "ib_index_ok ?ib"
      using slots_of_delete [where m = "index_of ib" and xs = "ib_req_ids ib" and r = rid and i = i] Some ix
      by (simp add: ib_index_slots len io ro mo go occ)
    moreover have "ib_rows_ok ?ib (M(rid := None))"
      unfolding ib_rows_ok_def io
    proof (intro conjI allI impI)
      show "dom ((index_of ib)(rid := None)) = dom (M(rid := None))"
        using rows by (simp add: ib_rows_ok_def)
      fix r j rq
      assume j: "((index_of ib)(rid := None)) r = Some j" and rq: "(M(rid := None)) r = Some rq"
      then have r: "index_of ib r = Some j" "M r = Some rq" "r \<noteq> rid"
        by (simp_all split: if_splits)
      then show "cs_req_id rq = r"
        using rows by (simp add: ib_rows_ok_def)
      have "j \<noteq> i"
        using r at by (auto simp: ib_index_iff [OF ix])
      moreover have "batch_row ib j = state_row rq"
        using r rows by (simp add: ib_rows_ok_def)
      ultimately show "batch_row ?ib j = state_row rq"
        by (auto intro!: batch_row_cong [where ib = ib] simp: go) (simp_all add: R)
    qed
    moreover have "ib_sets_ok ?ib (M(rid := None))"
      using sets by (simp add: R ib_sets_ok_def reqs_with_del)
    ultimately show ?thesis by (simp add: batch_rep_def Some occ)
  qed
  then show "batch_rep ?ib (M(rid := None))" "occupied ?ib = occupied ib - set_option (index_of ib rid)"
    by blast+
qed


text \<open>A request is added to a free row.\<close>

lemma add_row_fits:
  assumes "i < length (bt_cpu bt)" and "ids \<noteq> []" and "length ids \<le> length (bt_cpu bt ! i)"
  shows "add_row bt i ids =
    Inr (bt\<lparr>bt_cpu := (bt_cpu bt)[i := ids @ drop (length ids) (bt_cpu bt ! i)],
            num_blocks_per_row := (num_blocks_per_row bt)[i := length ids]\<rparr>)"
  using assms by (simp add: add_row_def append_row_def np_assign_fits)

definition request_fits :: "InputBatch \<Rightarrow> CachedRequestState \<Rightarrow> bool" where
  "request_fits ib rq \<longleftrightarrow>
     cs_num_tokens rq \<le> ib_max_model_len ib \<and> cs_block_ids rq \<noteq> [] \<and>
     length (cs_block_ids rq) \<le> ib_max_num_blocks_per_req ib"

lemma ib_shape_upd:
  assumes "ib_shape ib"
  shows "length row = ib_max_model_len ib \<Longrightarrow> \<forall>r \<in> set ((token_ids_cpu ib)[i := row]). length r = ib_max_model_len ib"
    and "length brow = ib_max_num_blocks_per_req ib \<Longrightarrow>
         \<forall>r \<in> set ((bt_cpu (ib_block_table ib))[i := brow]). length r = ib_max_num_blocks_per_req ib"
  using assms set_update_subset_insert [of "token_ids_cpu ib" i row]
    set_update_subset_insert [of "bt_cpu (ib_block_table ib)" i brow]
  by (auto simp: ib_shape_def)

lemma batch_row_eq:
  assumes "gen_of ib' j = gen_of ib k" "ib_num_tokens ib' ! j = ib_num_tokens ib ! k"
    "take (ib_num_tokens ib ! k) (token_ids_cpu ib' ! j) = take (ib_num_tokens ib ! k) (token_ids_cpu ib ! k)"
    "ib_num_prompt_tokens ib' ! j = ib_num_prompt_tokens ib ! k"
    "num_computed_tokens_cpu ib' ! j = num_computed_tokens_cpu ib ! k"
    "num_blocks_per_row (ib_block_table ib') ! j = num_blocks_per_row (ib_block_table ib) ! k"
    "take (num_blocks_per_row (ib_block_table ib) ! k) (bt_cpu (ib_block_table ib') ! j) =
     take (num_blocks_per_row (ib_block_table ib) ! k) (bt_cpu (ib_block_table ib) ! k)"
    "temperature_cpu ib' ! j = temperature_cpu ib ! k" "top_p_cpu ib' ! j = top_p_cpu ib ! k"
    "top_k_cpu ib' ! j = top_k_cpu ib ! k" "frequency_penalties_cpu ib' ! j = frequency_penalties_cpu ib ! k"
    "presence_penalties_cpu ib' ! j = presence_penalties_cpu ib ! k"
    "repetition_penalties_cpu ib' ! j = repetition_penalties_cpu ib ! k"
    "ib_min_tokens ib' ! j = ib_min_tokens ib ! k" "ib_stop_token_ids ib' ! j = ib_stop_token_ids ib ! k"
  shows "batch_row ib' j = batch_row ib k"
  unfolding batch_row_def Let_def assms ..

lemma add_request_rep:
  assumes rep: "batch_rep ib M" and fits: "request_fits ib rq" and new: "M (cs_req_id rq) = None"
    and i: "i = (case io of None \<Rightarrow> ib_num_reqs ib | Some j \<Rightarrow> j)" "i < ib_max_num_reqs ib" "i \<notin> occupied ib"
  shows "\<exists>ib'. ib_add_request ib rq io = Inr ib' \<and> batch_rep ib' (M(cs_req_id rq \<mapsto> rq)) \<and>
     occupied ib' = insert i (occupied ib) \<and> ib_max_num_reqs ib' = ib_max_num_reqs ib \<and>
     ib_max_model_len ib' = ib_max_model_len ib \<and> ib_max_num_blocks_per_req ib' = ib_max_num_blocks_per_req ib"
proof -
  let ?rid = "cs_req_id rq" and ?p = "cs_prompt_token_ids rq" and ?o = "cs_output_token_ids rq"
  let ?row = "token_ids_cpu ib ! i" and ?bt = "ib_block_table ib"
  have sh: "ib_shape ib" and ks: "ib_keys_ok ib" and ix: "ib_index_ok ib"
    and rows: "ib_rows_ok ib M" and sets: "ib_sets_ok ib M"
    using rep by (simp_all add: batch_rep_def)
  note len = ib_shapeD [OF sh]
  have free: "ib_req_ids ib ! i = None" and nogen: "gen_of ib i = None"
    using i ix by (auto simp: occupied_def ib_index_slots len)
  have fresh: "index_of ib ?rid = None"
    using rows new by (auto simp: ib_rows_ok_def domIff)
  define row2 where "row2 = ?p @ ?o @ drop (cs_num_tokens rq) ?row"
  define brow where "brow = cs_block_ids rq @ drop (length (cs_block_ids rq)) (bt_cpu ?bt ! i)"
  have r2: "length row2 = ib_max_model_len ib" "take (cs_num_tokens rq) row2 = ?p @ ?o"
    and b2: "length brow = ib_max_num_blocks_per_req ib" "take (length (cs_block_ids rq)) brow = cs_block_ids rq"
    using fits len i(2) by (simp_all add: row2_def brow_def request_fits_def cs_num_tokens_def)
  have t1: "np_assign ?row 0 ?p = Inr (?p @ drop (length ?p) ?row)"
    and t2: "np_assign (?p @ drop (length ?p) ?row) (length ?p) ?o = Inr row2"
    using fits len i(2) by (simp_all add: np_assign_fits request_fits_def cs_num_tokens_def row2_def add.commute)
  have bt: "add_row ?bt i (cs_block_ids rq) =
      Inr (?bt\<lparr>bt_cpu := (bt_cpu ?bt)[i := brow],
            num_blocks_per_row := (num_blocks_per_row ?bt)[i := length (cs_block_ids rq)]\<rparr>)"
    using fits len i(2) by (simp add: add_row_fits request_fits_def brow_def)
  define bt' where "bt' = ?bt\<lparr>bt_cpu := (bt_cpu ?bt)[i := brow],
            num_blocks_per_row := (num_blocks_per_row ?bt)[i := length (cs_block_ids rq)]\<rparr>"
  define ib' where "ib' = put_request ib rq i row2 bt'"
  have ib': "ib_add_request ib rq io = Inr ib'"
    unfolding ib_add_request_def Let_def i(1) [symmetric] t1 py_bind_simps t2 bt bt'_def [symmetric] ib'_def
    using i(2) by simp
  note put = ib'_def put_request_def Let_def
  have io: "index_of ib' = (index_of ib)(?rid \<mapsto> i)"
    by (simp add: put index_of_def)
  have go: "gen_of ib' = (gen_of ib)(i := cs_generator rq)"
    using nogen by (cases "cs_generator rq") (simp_all add: put gen_of_def fun_upd_idem)
  have ro: "ib_req_ids ib' = (ib_req_ids ib)[i := Some ?rid]"
    and mo: "ib_max_num_reqs ib' = ib_max_num_reqs ib" "ib_max_model_len ib' = ib_max_model_len ib"
      "ib_max_num_blocks_per_req ib' = ib_max_num_blocks_per_req ib"
    by (simp_all add: put)
  have occ: "occupied ib' = insert i (occupied ib)"
    unfolding occupied_def ro mo using i(2) by (auto simp: nth_list_update_cases len)
  have "ib_shape ib'"
    using sh ib_shape_upd(1) [OF sh r2(1)] ib_shape_upd(2) [OF sh b2(1)] by (simp add: put bt'_def ib_shape_def)
  moreover have "ib_keys_ok ib'"
    using ks by (simp add: put ib_keys_ok_def distinct_update split: option.split)
  moreover have "ib_index_ok ib'"
    using slots_of_insert [where m = "index_of ib" and xs = "ib_req_ids ib" and r = ?rid and i = i] ix fresh free i(2)
    by (simp add: ib_index_slots len io go ro mo occ)
  moreover have "ib_rows_ok ib' (M(?rid \<mapsto> rq))"
    unfolding ib_rows_ok_def io
  proof (intro conjI allI impI)
    show "dom ((index_of ib)(?rid \<mapsto> i)) = dom (M(?rid \<mapsto> rq))"
      using rows by (simp add: ib_rows_ok_def)
    fix r j rq'
    assume j: "((index_of ib)(?rid \<mapsto> i)) r = Some j" and rq': "(M(?rid \<mapsto> rq)) r = Some rq'"
    show "cs_req_id rq' = r"
      using j rq' rows by (auto simp: ib_rows_ok_def split: if_splits)
    have own: "batch_row ib' i = state_row rq"
      unfolding batch_row_def state_row_def Let_def go
      by (simp add: put bt'_def len i(2) r2(2) b2(2))
    have "batch_row ib' j = batch_row ib j" if "j \<noteq> i"
      using that by (intro batch_row_eq) (simp_all add: go, simp_all add: put bt'_def)
    moreover have "j \<noteq> i" if "r \<noteq> ?rid"
      using j that free by (auto simp: ib_index_iff [OF ix])
    ultimately show "batch_row ib' j = state_row rq'"
      using own j rq' rows by (auto simp: ib_rows_ok_def split: if_splits)
  qed
  moreover have "ib_sets_ok ib' (M(?rid \<mapsto> rq))"
    using sets
    by (simp add: put ib_sets_ok_def reqs_with_upd reqs_with_fresh new add_if_def logprobs_of_def split: option.split)
  ultimately show ?thesis
    by (simp add: batch_rep_def ib' occ mo)
qed


section \<open>Condensing\<close>

lemma slots_of_move:
  assumes "slots_of m xs" and "m r = Some l" and "e < length xs" and "xs ! e = None"
  shows "slots_of (m(r \<mapsto> e)) (xs[e := Some r, l := None])"
proof -
  have "l \<noteq> e" using assms by (auto simp: slots_of_def)
  have "slots_of ((m(r := None))(r \<mapsto> e)) (xs[l := None, e := Some r])"
    using assms slots_of_delete [OF assms(1,2)] by (intro slots_of_insert) (auto simp: nth_list_update_cases)
  then show ?thesis
    using \<open>l \<noteq> e\<close> by (simp add: list_update_swap)
qed

lemma move_state_rep:
  assumes rep: "batch_rep ib M" and l: "l < ib_max_num_reqs ib" "ib_req_ids ib ! l = Some rid"
    and e: "e < ib_max_num_reqs ib" "ib_req_ids ib ! e = None"
  shows "batch_rep (move_state ib rid l e) M"
    and "occupied (move_state ib rid l e) = insert e (occupied ib - {l})"
    and "ib_max_num_reqs (move_state ib rid l e) = ib_max_num_reqs ib"
    and "ib_max_model_len (move_state ib rid l e) = ib_max_model_len ib"
    and "ib_max_num_blocks_per_req (move_state ib rid l e) = ib_max_num_blocks_per_req ib"
proof -
  let ?ib = "move_state ib rid l e"
  have sh: "ib_shape ib" and ks: "ib_keys_ok ib" and ix: "ib_index_ok ib"
    and rows: "ib_rows_ok ib M" and sets: "ib_sets_ok ib M"
    using rep by (simp_all add: batch_rep_def)
  note len = ib_shapeD [OF sh]
  have le: "l \<noteq> e" using l e by auto
  have at: "index_of ib rid = Some l"
    using l by (simp add: ib_index_iff [OF ix])
  have nogen: "gen_of ib e = None"
    using e ix by (auto simp: occupied_def ib_index_slots len)
  have io: "index_of ?ib = (index_of ib)(rid \<mapsto> e)"
    by (simp add: move_state_def index_of_def)
  have go: "gen_of ?ib = (gen_of ib)(l := None, e := gen_of ib l)"
    using nogen le by (auto simp: move_state_def gen_of_def fun_upd_idem split: option.split)
  have ro: "ib_req_ids ?ib = (ib_req_ids ib)[e := Some rid, l := None]"
    by (simp add: move_state_def)
  show mo: "ib_max_num_reqs ?ib = ib_max_num_reqs ib" "ib_max_model_len ?ib = ib_max_model_len ib"
    "ib_max_num_blocks_per_req ?ib = ib_max_num_blocks_per_req ib"
    by (simp_all add: move_state_def)
  show occ: "occupied ?ib = insert e (occupied ib - {l})"
    unfolding occupied_def ro mo using l e le by (auto simp: nth_list_update_cases len)
  let ?row = "np_copy_prefix (ib_num_tokens ib ! l) (token_ids_cpu ib ! l) (token_ids_cpu ib ! e)"
  let ?bt = "ib_block_table ib"
  let ?brow = "np_copy_prefix (num_blocks_per_row ?bt ! l) (bt_cpu ?bt ! l) (bt_cpu ?bt ! e)"
  have r: "length ?row = ib_max_model_len ib" and b: "length ?brow = ib_max_num_blocks_per_req ib"
    using l e by (simp_all add: len)
  have "ib_shape ?ib"
    using sh ib_shape_upd(1) [OF sh r] ib_shape_upd(2) [OF sh b]
    by (simp add: move_state_def move_row_def Let_def ib_shape_def)
  moreover have "ib_keys_ok ?ib"
    using ks by (simp add: move_state_def ib_keys_ok_def distinct_update distinct_delete split: option.split)
  moreover have "ib_index_ok ?ib"
    using slots_of_move [where m = "index_of ib" and xs = "ib_req_ids ib" and r = rid and l = l and e = e] at e ix le
    by (simp add: ib_index_slots len io go ro mo occ)
  moreover have "ib_rows_ok ?ib M"
    unfolding ib_rows_ok_def io
  proof (intro conjI allI impI)
    show "dom ((index_of ib)(rid \<mapsto> e)) = dom M"
      using rows at by (auto simp: ib_rows_ok_def)
    fix r j rq
    assume j: "((index_of ib)(rid \<mapsto> e)) r = Some j" and rq: "M r = Some rq"
    then show "cs_req_id rq = r"
      using rows at by (auto simp: ib_rows_ok_def split: if_splits)
    have own: "batch_row ?ib e = batch_row ib l"
      using le e l by (intro batch_row_eq) (simp_all add: go, simp_all add: move_state_def move_row_def Let_def len)
    have other: "batch_row ?ib j = batch_row ib j" if "j \<noteq> e" "j \<noteq> l"
      using that by (intro batch_row_eq) (simp_all add: go, simp_all add: move_state_def move_row_def Let_def)
    show "batch_row ?ib j = state_row rq"
    proof (cases "r = rid")
      case True
      then show ?thesis using own j rq at rows by (auto simp: ib_rows_ok_def)
    next
      case False
      then have "index_of ib r = Some j" using j by simp
      moreover from this have "j \<noteq> e" "j \<noteq> l"
        using False e l by (auto simp: ib_index_iff [OF ix])
      ultimately show ?thesis using other rq rows by (auto simp: ib_rows_ok_def)
    qed
  qed
  moreover have "ib_sets_ok ?ib M"
    using sets by (simp add: move_state_def ib_sets_ok_def)
  ultimately show "batch_rep ?ib M" by (simp add: batch_rep_def)
qed

lemma skip_empty_spec:
  "skip_empty cur es \<le> cur" "\<not> (0 \<le> skip_empty cur es \<and> nat (skip_empty cur es) \<in> set es)"
  "skip_empty cur es < int j \<Longrightarrow> int j \<le> cur \<Longrightarrow> j \<in> set es"
proof (induction cur es rule: skip_empty.induct)
  case (1 cur es)
  { case 1
    show ?case
    proof (cases "0 \<le> cur \<and> nat cur \<in> set es")
      case True
      then have "skip_empty cur es = skip_empty (cur - 1) es" by (subst skip_empty.simps) simp
      then show ?thesis using "1.IH"(1) [OF True] by simp
    qed (subst skip_empty.simps, auto) }
  { case 2 then show ?case using "1.IH"(2) by (subst skip_empty.simps, subst (2) skip_empty.simps) auto }
  { case 3
    then show ?case
      using "1.IH"(3) by (cases "int j = cur") (auto simp: skip_empty.simps [of cur es] split: if_splits) }
qed

lemma last_le_sorted:
  "sorted_wrt (>) es \<Longrightarrow> x \<in> set es \<Longrightarrow> last es \<le> (x :: nat)"
proof (induction es)
  case (Cons a es)
  show ?case
  proof (cases "es = []")
    case False
    then have "last es \<in> set es" by simp
    then have "last es < a" using Cons.prems(1) by auto
    then show ?thesis using Cons False by (auto intro: less_imp_le)
  qed (use Cons in auto)
qed simp

lemma move_down_set:
  assumes "int l \<le> cur" and "e < l" and "e \<in> A" and "\<And>j. int l < int j \<Longrightarrow> int j \<le> cur \<Longrightarrow> j \<in> A"
  shows "insert e ({j. int j \<le> cur \<and> j \<notin> A} - {l}) = {j. int j \<le> int l - 1 \<and> j \<notin> A - {e}}"
proof (rule set_eqI)
  fix j
  show "j \<in> insert e ({j. int j \<le> cur \<and> j \<notin> A} - {l}) \<longleftrightarrow> j \<in> {j. int j \<le> int l - 1 \<and> j \<notin> A - {e}}"
    using assms(1-3) assms(4) [of j] by (cases "j = e"; cases "j \<le> l") auto
qed

lemma condense_loop_rep:
  assumes "batch_rep ib M" and "sorted_wrt (>) es"
    and "occupied ib = {j. int j \<le> cur \<and> j \<notin> set es}" and "set es \<subseteq> {..<ib_max_num_reqs ib}"
  shows "\<exists>ib' k. condense_loop ib cur es = Inr ib' \<and> batch_rep ib' M \<and> occupied ib' = {..<k} \<and>
     ib_max_num_reqs ib' = ib_max_num_reqs ib \<and> ib_max_model_len ib' = ib_max_model_len ib \<and>
     ib_max_num_blocks_per_req ib' = ib_max_num_blocks_per_req ib"
  using assms
proof (induction ib cur es rule: condense_loop.induct)
  case (1 ib cur es)
  let ?l = "skip_empty cur es" and ?e = "last es"
  note sk = skip_empty_spec [of cur es]
  show ?case
  proof (cases "es = []")
    case True
    then have "occupied ib = {..<nat (cur + 1)}" using "1.prems"(3) by auto
    then show ?thesis using True "1.prems"(1) by (subst condense_loop.simps) auto
  next
    case ne: False
    show ?thesis
    proof (cases "int ?e \<ge> ?l")
      case True
      have occ: "j \<in> occupied ib \<longleftrightarrow> int j \<le> ?l" for j
      proof
        assume "j \<in> occupied ib"
        then have "int j \<le> cur" "j \<notin> set es" using "1.prems"(3) by auto
        then show "int j \<le> ?l" using sk(3) [of j] by (cases "?l < int j") auto
      next
        assume j: "int j \<le> ?l"
        have "j \<notin> set es"
        proof
          assume "j \<in> set es"
          then have "?e \<le> j" using last_le_sorted "1.prems"(2) by blast
          then have "int j = ?l" using True j by simp
          then have "nat ?l = j" "0 \<le> ?l" by auto
          then show False using sk(2) \<open>j \<in> set es\<close> by simp
        qed
        then show "j \<in> occupied ib" using "1.prems"(3) sk(1) j by auto
      qed
      have "int j \<le> ?l \<longleftrightarrow> j < nat (?l + 1)" for j by linarith
      then have "occupied ib = {..<nat (?l + 1)}" by (simp add: set_eq_iff occ)
      then show ?thesis using True ne "1.prems"(1) by (subst condense_loop.simps) (auto simp: Let_def)
    next
      case False
      define l where "l = nat ?l"
      have l: "?l = int l" using False by (simp add: l_def)
      have lo: "l \<in> occupied ib" using "1.prems"(3) sk(1,2) l by auto
      then obtain rid where rid: "l < ib_max_num_reqs ib" "ib_req_ids ib ! l = Some rid"
        by (auto simp: occupied_def)
      have ein: "?e \<in> set es" using ne by simp
      then have e: "?e < ib_max_num_reqs ib" "ib_req_ids ib ! ?e = None"
        using "1.prems"(3,4) by (auto simp: occupied_def)
      note mv = move_state_rep [OF "1.prems"(1) rid e]
      have srt: "sorted_wrt (>) (butlast es)" and setb: "set (butlast es) = set es - {?e}"
      proof -
        have ap: "es = butlast es @ [?e]" using ne by simp
        have "sorted_wrt (>) (butlast es @ [?e])" using "1.prems"(2) ap by simp
        then show "sorted_wrt (>) (butlast es)" by (simp add: sorted_wrt_append)
        have "set es = insert ?e (set (butlast es))" by (subst ap) simp
        moreover have "?e \<notin> set (butlast es)"
          using \<open>sorted_wrt (>) (butlast es @ [?e])\<close> by (auto simp: sorted_wrt_append)
        ultimately show "set (butlast es) = set es - {?e}" by auto
      qed
      have occ: "occupied (move_state ib rid l ?e) = {j. int j \<le> ?l - 1 \<and> j \<notin> set (butlast es)}"
        unfolding mv(2) setb "1.prems"(3) l
        by (rule move_down_set) (use False l sk(1,3) ein in auto)
      have len: "length (ib_req_ids ib) = ib_max_num_reqs ib"
        using "1.prems"(1) by (simp add: batch_rep_def ib_shapeD)
      have step: "condense_loop ib cur es = condense_loop (move_state ib rid l ?e) (?l - 1) (butlast es)"
        using ne False rid by (subst condense_loop.simps) (simp add: Let_def l len)
      show ?thesis
        unfolding step
        using "1.IH" [OF ne refl refl False _ rid(2) [unfolded l_def] mv(1) [unfolded l_def] srt occ [unfolded l_def]]
          rid(1) setb "1.prems"(4)
        by (auto simp: mv [unfolded l_def] len l_def)
    qed
  qed
qed

text \<open>Rows \<open>es\<close> are free among the first rows, all others are in use.\<close>

definition gaps :: "InputBatch \<Rightarrow> nat list \<Rightarrow> bool" where
  "gaps ib es \<longleftrightarrow>
     distinct es \<and> set es \<inter> occupied ib = {} \<and> occupied ib \<union> set es = {..<ib_num_reqs ib + length es}"

definition dense :: "InputBatch \<Rightarrow> bool" where
  "dense ib \<longleftrightarrow> occupied ib = {..<ib_num_reqs ib}"


lemma dense_iff_gaps: "dense ib \<longleftrightarrow> gaps ib []"
  by (simp add: dense_def gaps_def)

lemma batch_rep_card: "batch_rep ib M \<Longrightarrow> ib_num_reqs ib = card (occupied ib)"
  by (simp add: batch_rep_def num_reqs_card)

lemma batch_rep_num_reqs: "batch_rep ib M \<Longrightarrow> ib_num_reqs ib = card (dom M)"
  using distinct_card [of "map fst (ib_req_id_to_index ib)"]
  by (simp add: ib_num_reqs_def index_of_def dom_map_of_conv_image_fst batch_rep_def ib_keys_ok_def ib_rows_ok_def)

lemma condense_rep:
  assumes rep: "batch_rep ib M" and g: "gaps ib es" and srt: "sorted_wrt (>) es"
    and le: "ib_num_reqs ib + length es \<le> ib_max_num_reqs ib"
  shows "\<exists>ib'. condense ib es = Inr ib' \<and> batch_rep ib' M \<and> dense ib' \<and>
     ib_max_num_reqs ib' = ib_max_num_reqs ib \<and> ib_max_model_len ib' = ib_max_model_len ib \<and>
     ib_max_num_blocks_per_req ib' = ib_max_num_blocks_per_req ib"
proof (cases "ib_num_reqs ib = 0")
  case True
  then have "dense ib"
    using batch_rep_card [OF rep] by (simp add: dense_def)
  with True rep show ?thesis by (simp add: condense_def)
next
  case False
  have "occupied ib = {..<ib_num_reqs ib + length es} - set es" and sub: "set es \<subseteq> {..<ib_num_reqs ib + length es}"
    using g unfolding gaps_def by blast+
  moreover have "int j \<le> int n + int m - 1 \<longleftrightarrow> j < n + m" for j n m by linarith
  ultimately have "occupied ib = {j. int j \<le> int (ib_num_reqs ib) + int (length es) - 1 \<and> j \<notin> set es}"
    by (simp add: set_eq_iff)
  moreover have "set es \<subseteq> {..<ib_max_num_reqs ib}"
    using sub le by auto
  ultimately obtain ib' k where "condense_loop ib (int (ib_num_reqs ib) + int (length es) - 1) es = Inr ib'"
    "batch_rep ib' M" "occupied ib' = {..<k}" "ib_max_num_reqs ib' = ib_max_num_reqs ib"
    "ib_max_model_len ib' = ib_max_model_len ib" "ib_max_num_blocks_per_req ib' = ib_max_num_blocks_per_req ib"
    using condense_loop_rep [OF rep srt] by metis
  then show ?thesis
    using False batch_rep_card [of ib' M] by (simp add: condense_def dense_def)
qed


lemma gaps_remove:
  assumes rep: "batch_rep ib M" and g: "gaps ib es" and i: "index_of ib rid = Some i"
  shows "gaps (snd (ib_remove_request ib rid)) (i # es)"
proof -
  let ?ib = "snd (ib_remove_request ib rid)"
  note rm = remove_request_rep [OF rep, of rid]
  have occ: "occupied ?ib = occupied ib - {i}" using rm(3) i by simp
  have i: "i \<in> occupied ib"
    using rep i by (auto simp: batch_rep_def occupied_iff)
  then have "Suc (ib_num_reqs ?ib) = ib_num_reqs ib"
    using batch_rep_card [OF rm(1)] batch_rep_card [OF rep] occ card_Suc_Diff1 [of "occupied ib" i] by simp
  then have "ib_num_reqs ?ib + length (i # es) = ib_num_reqs ib + length es" by simp
  moreover have "occupied ?ib \<union> set (i # es) = occupied ib \<union> set es"
    using i occ by auto
  ultimately show ?thesis
    using g i unfolding gaps_def by (auto simp: occ)
qed

lemma gaps_add:
  assumes rep: "batch_rep ib M" and rep': "batch_rep ib' M'" and g: "gaps ib (es @ [i])"
    and occ: "occupied ib' = insert i (occupied ib)"
  shows "gaps ib' es"
proof -
  have i: "i \<notin> occupied ib" using g by (auto simp: gaps_def)
  then have "ib_num_reqs ib' = Suc (ib_num_reqs ib)"
    using batch_rep_card [OF rep] batch_rep_card [OF rep'] occ by simp
  then show ?thesis
    using g i unfolding gaps_def occ by auto
qed

lemma gaps_append:
  assumes rep: "batch_rep ib M" and rep': "batch_rep ib' M'" and g: "gaps ib []"
    and occ: "occupied ib' = insert (ib_num_reqs ib) (occupied ib)"
  shows "gaps ib' []"
proof -
  have "ib_num_reqs ib \<notin> occupied ib" using g by (simp add: gaps_def)
  then have "ib_num_reqs ib' = Suc (ib_num_reqs ib)"
    using batch_rep_card [OF rep] batch_rep_card [OF rep'] occ by simp
  then show ?thesis
    using g unfolding gaps_def occ by (simp add: lessThan_Suc)
qed

lemma clear_rep: "batch_rep ib M \<Longrightarrow> batch_rep (ib_clear ib) Map.empty"
  by (simp add: batch_rep_defs ib_shape_def ib_clear_def reqs_with_def index_of_def gen_of_def)

lemma batch_rowD:
  assumes rep: "batch_rep ib M" and at: "index_of ib rid = Some i" "M rid = Some rq"
  shows "ib_num_tokens ib ! i = cs_num_tokens rq"
    "take (cs_num_tokens rq) (token_ids_cpu ib ! i) = cs_prompt_token_ids rq @ cs_output_token_ids rq"
    "ib_num_prompt_tokens ib ! i = length (cs_prompt_token_ids rq)"
    "num_computed_tokens_cpu ib ! i = cs_num_computed_tokens rq"
    "num_blocks_per_row (ib_block_table ib) ! i = length (cs_block_ids rq)"
    "take (length (cs_block_ids rq)) (bt_cpu (ib_block_table ib) ! i) = cs_block_ids rq"
    "temperature_cpu ib ! i = sp_temperature (cs_sampling_params rq)"
    "top_p_cpu ib ! i = sp_top_p (cs_sampling_params rq)"
    "top_k_cpu ib ! i = sp_top_k (cs_sampling_params rq)"
    "frequency_penalties_cpu ib ! i = sp_frequency_penalty (cs_sampling_params rq)"
    "presence_penalties_cpu ib ! i = sp_presence_penalty (cs_sampling_params rq)"
    "repetition_penalties_cpu ib ! i = sp_repetition_penalty (cs_sampling_params rq)"
    "ib_min_tokens ib ! i = sp_min_tokens (cs_sampling_params rq)"
    "ib_stop_token_ids ib ! i = sp_all_stop_token_ids (cs_sampling_params rq)"
    "gen_of ib i = cs_generator rq"
proof -
  have "batch_row ib i = state_row rq"
    using rep at by (simp add: batch_rep_def ib_rows_ok_def)
  note row = this [unfolded batch_row_def state_row_def Let_def, simplified]
  show "take (cs_num_tokens rq) (token_ids_cpu ib ! i) = cs_prompt_token_ids rq @ cs_output_token_ids rq"
    "take (length (cs_block_ids rq)) (bt_cpu (ib_block_table ib) ! i) = cs_block_ids rq"
    using row by metis+
qed (use assms in \<open>simp_all add: batch_rep_def ib_rows_ok_def batch_row_def state_row_def Let_def\<close>)

section \<open>Properties\<close>

text \<open>C39: The persistent batch implements a map from request ids to request states: a new batch is empty,
  \<open>add_request\<close> into a free row is an update, \<open>remove_request\<close> a deletion that returns the row, \<open>clear\<close> empties
  it, and the number of requests is the size of the map.\<close>

theorem input_batch_refines_map:
  assumes rep: "batch_rep ib M"
  shows "batch_rep (input_batch_init jr ji n mml k vocab) Map.empty \<and>
    (request_fits ib rq \<and> M (cs_req_id rq) = None \<and> i = (case io of None \<Rightarrow> ib_num_reqs ib | Some j \<Rightarrow> j) \<and>
       i < ib_max_num_reqs ib \<and> i \<notin> occupied ib \<longrightarrow>
     (\<exists>ib'. ib_add_request ib rq io = Inr ib' \<and> batch_rep ib' (M(cs_req_id rq \<mapsto> rq)) \<and>
            index_of ib' (cs_req_id rq) = Some i)) \<and>
    fst (ib_remove_request ib rid) = index_of ib rid \<and>
    batch_rep (snd (ib_remove_request ib rid)) (M(rid := None)) \<and>
    batch_rep (ib_clear ib) Map.empty \<and> ib_num_reqs ib = card (dom M)"
proof -
  have "\<exists>ib'. ib_add_request ib rq io = Inr ib' \<and> batch_rep ib' (M(cs_req_id rq \<mapsto> rq)) \<and>
           index_of ib' (cs_req_id rq) = Some i"
    if fit: "request_fits ib rq" "M (cs_req_id rq) = None"
      and i: "i = (case io of None \<Rightarrow> ib_num_reqs ib | Some j \<Rightarrow> j)" "i < ib_max_num_reqs ib" "i \<notin> occupied ib"
  proof -
    obtain ib' where ib': "ib_add_request ib rq io = Inr ib'" "batch_rep ib' (M(cs_req_id rq \<mapsto> rq))"
      using add_request_rep [OF rep fit i] by blast
    then have "index_of ib' (cs_req_id rq) = Some i"
      by (auto simp: ib_add_request_def Let_def put_request_def index_of_def simp flip: i(1))
    with ib' show ?thesis by blast
  qed
  then show ?thesis
    using input_batch_init_rep remove_request_rep [OF rep] clear_rep [OF rep] batch_rep_num_reqs [OF rep] by blast
qed

text \<open>C38: \<open>condense\<close> closes the gaps left by removed requests: when the given rows, in descending order, are
  exactly the free ones among the rows in use, it returns, the requests then fill the first rows, and every
  request keeps its tokens, blocks, sampling parameters and generator.\<close>

theorem condense_keeps_requests:
  assumes "batch_rep ib M" and "gaps ib es" and "sorted_wrt (>) es"
    and "ib_num_reqs ib + length es \<le> ib_max_num_reqs ib"
  shows "\<exists>ib'. condense ib es = Inr ib' \<and> batch_rep ib' M \<and> occupied ib' = {..<card (dom M)}"
  using condense_rep [OF assms] batch_rep_num_reqs by (auto simp: dense_def)

end
