(* ===== verification/BatchSampling.thy ===== *)
theory BatchSampling
  imports InputBatchProps
begin

text \<open>
  The sampling metadata built from the persistent batch: with fresh copies on the device every request
  is sampled with its own parameters, and the summary flags say what they promise.
\<close>

lemma occupied_code [code]:
  "occupied ib = set (filter (\<lambda>i. ib_req_ids ib ! i \<noteq> None) [0..<ib_max_num_reqs ib])"
  by (auto simp: occupied_def)

lemma collect_output_tokens_all:
  "(\<And>r. r \<in> set rs \<Longrightarrow> \<exists>rid. r = Some rid \<and> outs rid \<noteq> None) \<Longrightarrow>
   collect_output_tokens outs rs = Inr (map (\<lambda>r. the (outs (the r))) rs)"
proof (induction rs)
  case (Cons r rs)
  from Cons.prems [of r] obtain rid ts where "r = Some rid" "outs rid = Some ts" by auto
  with Cons show ?case by simp
qed simp

lemma reqs_with_empty_iff: "reqs_with M P = {} \<longleftrightarrow> (\<forall>rq\<in>ran M. \<not> P (cs_sampling_params rq))"
  by (auto simp: reqs_with_def ran_def)

definition prompt_row :: "InputBatch \<Rightarrow> nat \<Rightarrow> nat \<Rightarrow> int list" where
  "prompt_row ib m i =
     take (ib_num_prompt_tokens ib ! i) (take m (token_ids_cpu ib ! i)) @
     replicate (m - ib_num_prompt_tokens ib ! i) (ib_vocab_size ib)"

lemma prompt_row_eq:
  assumes rep: "batch_rep ib M" and at: "index_of ib rid = Some i" "M rid = Some rq"
    and m: "length (cs_prompt_token_ids rq) \<le> m"
  shows "prompt_row ib m i =
    cs_prompt_token_ids rq @ replicate (m - length (cs_prompt_token_ids rq)) (ib_vocab_size ib)"
proof -
  let ?p = "cs_prompt_token_ids rq"
  note row = batch_rowD [OF rep at]
  have "take (length ?p) (token_ids_cpu ib ! i) = take (length ?p) (take (cs_num_tokens rq) (token_ids_cpu ib ! i))"
    by (simp add: cs_num_tokens_def min_def)
  also have "\<dots> = ?p" by (simp add: row(2))
  finally show ?thesis using m by (simp add: prompt_row_def row(3) min_absorb2 min_absorb1)
qed

lemma prompt_tensor_eq:
  "make_prompt_token_ids_tensor ib =
     (if ib_num_reqs ib = 0 then Inl ValueError
      else Inr (map (prompt_row ib (Max (set (take (ib_num_reqs ib) (ib_num_prompt_tokens ib))))) [0..<ib_num_reqs ib]))"
  by (simp add: make_prompt_token_ids_tensor_def prompt_row_def [abs_def] Let_def)

text \<open>Copying to the device keeps the batch, and afterwards the first rows agree with the host.\<close>

definition synced :: "InputBatch \<Rightarrow> bool" where
  "synced ib \<longleftrightarrow>
     (let n = ib_num_reqs ib in
      take n (temperature ib) = take n (temperature_cpu ib) \<and> take n (top_p ib) = take n (top_p_cpu ib) \<and>
      take n (top_k ib) = take n (top_k_cpu ib) \<and>
      (\<not> no_penalties ib \<longrightarrow>
         take n (frequency_penalties ib) = take n (frequency_penalties_cpu ib) \<and>
         take n (presence_penalties ib) = take n (presence_penalties_cpu ib) \<and>
         take n (repetition_penalties ib) = take n (repetition_penalties_cpu ib) \<and>
         ib_prompt_token_ids ib =
           Some (map (prompt_row ib (Max (set (take n (ib_num_prompt_tokens ib))))) [0..<n])))"

lemma no_penalties_if_empty: "batch_rep ib M \<Longrightarrow> ib_num_reqs ib = 0 \<Longrightarrow> no_penalties ib"
proof -
  assume rep: "batch_rep ib M" and z: "ib_num_reqs ib = 0"
  have "dom M = dom (map_of (ib_req_id_to_index ib))"
    using rep by (simp add: batch_rep_def ib_rows_ok_def index_of_def)
  then have "M = Map.empty"
    using z by (simp add: ib_num_reqs_def)
  then show ?thesis
    using rep by (simp add: no_penalties_def batch_rep_def ib_sets_ok_def reqs_with_def)
qed

lemma copy_sampling_tensors_ok:
  assumes rep: "batch_rep ib M"
  shows "\<exists>ib'. copy_sampling_tensors ib = Inr ib' \<and> batch_rep ib' M \<and> synced ib' \<and>
     ib_req_ids ib' = ib_req_ids ib \<and> ib_req_id_to_index ib' = ib_req_id_to_index ib \<and>
     ib_max_num_reqs ib' = ib_max_num_reqs ib"
proof -
  let ?n = "ib_num_reqs ib"
  define ib1 where "ib1 = ib\<lparr>temperature := np_copy_prefix ?n (temperature_cpu ib) (temperature ib),
                   top_p := np_copy_prefix ?n (top_p_cpu ib) (top_p ib),
                   top_k := np_copy_prefix ?n (top_k_cpu ib) (top_k ib)\<rparr>"
  have sh: "ib_shape ib" using rep by (simp add: batch_rep_def)
  have n1: "ib_num_reqs ib1 = ?n" "no_penalties ib1 = no_penalties ib"
    by (simp_all add: ib1_def ib_num_reqs_def no_penalties_def)
  have fr: "frequency_penalties_cpu ib1 = frequency_penalties_cpu ib" "frequency_penalties ib1 = frequency_penalties ib"
    "presence_penalties_cpu ib1 = presence_penalties_cpu ib" "presence_penalties ib1 = presence_penalties ib"
    "repetition_penalties_cpu ib1 = repetition_penalties_cpu ib" "repetition_penalties ib1 = repetition_penalties ib"
    by (simp_all add: ib1_def)
  have rep1: "batch_rep ib1 M"
    using rep by (simp add: ib1_def batch_rep_defs ib_shape_def index_of_def gen_of_def batch_row_def)
  have dev: "take ?n (temperature ib1) = take ?n (temperature_cpu ib1)" "take ?n (top_p ib1) = take ?n (top_p_cpu ib1)"
    "take ?n (top_k ib1) = take ?n (top_k_cpu ib1)"
    using sh by (simp_all add: ib1_def ib_shape_def)
  show ?thesis
  proof (cases "no_penalties ib")
    case True
    then have "copy_sampling_tensors ib = Inr ib1"
      by (simp add: copy_sampling_tensors_def Let_def flip: ib1_def)
    moreover have "synced ib1"
      using True n1 dev by (simp add: synced_def Let_def)
    ultimately show ?thesis
      using rep1 by (simp add: ib1_def)
  next
    case False
    then have nz: "ib_num_reqs ib \<noteq> 0" using no_penalties_if_empty [OF rep] by blast
    define pt where "pt = map (prompt_row ib1 (Max (set (take ?n (ib_num_prompt_tokens ib1))))) [0..<?n]"
    define ib2 where "ib2 = ib1\<lparr>
            frequency_penalties := np_copy_prefix ?n (frequency_penalties_cpu ib1) (frequency_penalties ib1),
            presence_penalties := np_copy_prefix ?n (presence_penalties_cpu ib1) (presence_penalties ib1),
            repetition_penalties := np_copy_prefix ?n (repetition_penalties_cpu ib1) (repetition_penalties ib1),
            ib_prompt_token_ids := Some pt\<rparr>"
    have n2: "ib_num_reqs ib2 = ?n"
      using n1 by (simp add: ib2_def ib_num_reqs_def)
    have "copy_sampling_tensors ib = Inr ib2"
      using False nz n1
      by (simp add: copy_sampling_tensors_def Let_def prompt_tensor_eq ib2_def pt_def fr flip: ib1_def)
    moreover have "batch_rep ib2 M"
      using rep1 by (simp add: ib2_def batch_rep_defs ib_shape_def index_of_def gen_of_def batch_row_def)
    moreover have "synced ib2"
      using dev rep1 n1 unfolding synced_def n2 Let_def
      by (simp add: ib2_def batch_rep_def ib_shape_def pt_def prompt_row_def [abs_def])
    ultimately show ?thesis
      by (simp add: ib2_def ib1_def)
  qed
qed


lemma dense_index: "batch_rep ib M \<Longrightarrow> dense ib \<Longrightarrow> index_of ib rid = Some i \<Longrightarrow> i < ib_num_reqs ib"
proof -
  assume "batch_rep ib M" "dense ib" "index_of ib rid = Some i"
  then have "i \<in> occupied ib" by (auto simp: batch_rep_def occupied_iff)
  with \<open>dense ib\<close> show ?thesis by (simp add: dense_def)
qed

lemma dense_le_max: "dense ib \<Longrightarrow> ib_num_reqs ib \<le> ib_max_num_reqs ib"
proof -
  assume "dense ib"
  moreover have "occupied ib \<subseteq> {..<ib_max_num_reqs ib}" by (auto simp: occupied_def)
  ultimately show ?thesis by (simp add: dense_def)
qed

lemma dense_req_ids:
  assumes rep: "batch_rep ib M" and d: "dense ib" and i: "i < ib_num_reqs ib"
  obtains rid where "ib_req_ids ib ! i = Some rid" "index_of ib rid = Some i" "rid \<in> dom M"
proof -
  have "i \<in> occupied ib" using d i by (simp add: dense_def)
  then obtain rid where rid: "index_of ib rid = Some i"
    using rep by (auto simp: batch_rep_def occupied_iff)
  moreover from this have "rid \<in> dom M" using rep by (auto simp: batch_rep_def ib_rows_ok_def)
  ultimately show thesis using that rep ib_index_iff [of ib rid i] by (simp add: batch_rep_def)
qed

text \<open>What the metadata of a batch should say.\<close>

definition metadata_ok :: "SamplingMetadata \<Rightarrow> InputBatch \<Rightarrow> batch_map \<Rightarrow> (string \<Rightarrow> int list option) \<Rightarrow> bool" where
  "metadata_ok md ib M outs \<longleftrightarrow>
     (\<forall>rid rq i. M rid = Some rq \<longrightarrow> index_of ib rid = Some i \<longrightarrow>
        (let sp = cs_sampling_params rq in
         sm_temperature md ! i = sp_temperature sp \<and> sm_top_p md ! i = sp_top_p sp \<and>
         sm_top_k md ! i = sp_top_k sp \<and> sm_min_tokens md ! i = sp_min_tokens sp \<and>
         sm_stop_token_ids md ! i = sp_all_stop_token_ids sp \<and>
         sm_output_token_ids md ! i = the (outs rid) \<and> map_of (sm_generators md) i = cs_generator rq \<and>
         (\<not> sm_no_penalties md \<longrightarrow>
            sm_frequency_penalties md ! i = sp_frequency_penalty sp \<and>
            sm_presence_penalties md ! i = sp_presence_penalty sp \<and>
            sm_repetition_penalties md ! i = sp_repetition_penalty sp \<and>
            (\<exists>k. the (sm_prompt_token_ids md) ! i = cs_prompt_token_ids rq @ replicate k (ib_vocab_size ib)))))"

lemma metadata_row:
  assumes rep: "batch_rep ib M" and d: "dense ib" and sy: "synced ib" and outs: "dom M \<subseteq> dom outs"
    and md: "make_sampling_metadata ib outs True = Inr (md, ib)"
  shows "metadata_ok md ib M outs"
  unfolding metadata_ok_def
proof (intro allI impI)
  fix rid rq i
  assume at: "M rid = Some rq" "index_of ib rid = Some i"
  note row = batch_rowD [OF rep at(2,1)]
  have i: "i < ib_num_reqs ib" by (rule dense_index [OF rep d at(2)])
  have id: "ib_req_ids ib ! i = Some rid" "i < length (ib_req_ids ib)"
    using rep at ib_index_iff [of ib rid i] by (simp_all add: batch_rep_def ib_shapeD)
  let ?n = "ib_num_reqs ib"
  let ?m = "Max (set (take ?n (ib_num_prompt_tokens ib)))"
  have out: "sm_output_token_ids md ! i = the (outs rid)"
  proof -
    have "\<exists>rid. r = Some rid \<and> outs rid \<noteq> None" if r: "r \<in> set (take ?n (ib_req_ids ib))" for r
    proof -
      from r obtain j where "j < ?n" "r = ib_req_ids ib ! j" by (auto simp: in_set_conv_nth)
      then show ?thesis using outs dense_req_ids [OF rep d \<open>j < ?n\<close>] by (metis domD domIff subsetD)
    qed
    from collect_output_tokens_all [OF this]
    have "sm_output_token_ids md = map (\<lambda>r. the (outs (the r))) (take ?n (ib_req_ids ib))"
      using md by (auto simp: make_sampling_metadata_def Let_def)
    then show ?thesis using i id by simp
  qed
  have pen: "\<not> sm_no_penalties md \<longleftrightarrow> \<not> no_penalties ib"
    using md by (auto simp: make_sampling_metadata_def Let_def)
  have host: "sm_temperature md = take ?n (temperature_cpu ib)" "sm_top_p md = take ?n (top_p_cpu ib)"
    "sm_top_k md = take ?n (top_k_cpu ib)" "sm_min_tokens md = take ?n (ib_min_tokens ib)"
    "sm_stop_token_ids md = take ?n (ib_stop_token_ids ib)" "sm_generators md = generators ib"
    using sy md by (auto simp: make_sampling_metadata_def synced_def Let_def)
  have hostp: "sm_frequency_penalties md = take ?n (frequency_penalties_cpu ib)"
    "sm_presence_penalties md = take ?n (presence_penalties_cpu ib)"
    "sm_repetition_penalties md = take ?n (repetition_penalties_cpu ib)"
    "sm_prompt_token_ids md = Some (map (prompt_row ib ?m) [0..<?n])" if "\<not> no_penalties ib"
    using sy md that by (auto simp: make_sampling_metadata_def synced_def Let_def)
  have prompt: "map (prompt_row ib ?m) [0..<?n] ! i =
      cs_prompt_token_ids rq @ replicate (?m - length (cs_prompt_token_ids rq)) (ib_vocab_size ib)"
  proof -
    have len: "i < length (take ?n (ib_num_prompt_tokens ib))"
      using i dense_le_max [OF d] rep by (simp add: batch_rep_def ib_shapeD)
    then have "ib_num_prompt_tokens ib ! i \<in> set (take ?n (ib_num_prompt_tokens ib))"
      by (metis i nth_mem nth_take)
    then have "length (cs_prompt_token_ids rq) \<le> ?m"
      using row(3) by (metis List.finite_set Max_ge)
    then show ?thesis using i prompt_row_eq [OF rep at(2,1)] by simp
  qed
  show "let sp = cs_sampling_params rq in
         sm_temperature md ! i = sp_temperature sp \<and> sm_top_p md ! i = sp_top_p sp \<and>
         sm_top_k md ! i = sp_top_k sp \<and> sm_min_tokens md ! i = sp_min_tokens sp \<and>
         sm_stop_token_ids md ! i = sp_all_stop_token_ids sp \<and>
         sm_output_token_ids md ! i = the (outs rid) \<and> map_of (sm_generators md) i = cs_generator rq \<and>
         (\<not> sm_no_penalties md \<longrightarrow>
            sm_frequency_penalties md ! i = sp_frequency_penalty sp \<and>
            sm_presence_penalties md ! i = sp_presence_penalty sp \<and>
            sm_repetition_penalties md ! i = sp_repetition_penalty sp \<and>
            (\<exists>k. the (sm_prompt_token_ids md) ! i = cs_prompt_token_ids rq @ replicate k (ib_vocab_size ib)))"
    using i out prompt row host hostp by (auto simp: Let_def pen gen_of_def)
qed


section \<open>An example batch\<close>

definition demo_state :: "string \<Rightarrow> rat \<Rightarrow> nat \<Rightarrow> CachedRequestState" where
  "demo_state rid t b =
     \<lparr>cs_req_id = rid, cs_prompt_token_ids = [7, 8, 9], cs_prompt = None, cs_mm_inputs = [], cs_mm_positions = [],
      cs_sampling_params = default_params\<lparr>sp_temperature := t\<rparr>, cs_generator = None, cs_block_ids = [b],
      cs_num_computed_tokens = 0, cs_output_token_ids = []\<rparr>"

definition demo_empty :: InputBatch where
  "demo_empty = input_batch_init 0 0 4 8 4 100"

definition demo_batch1 :: InputBatch where
  "demo_batch1 = (case ib_add_request demo_empty (demo_state ''a'' 1 0) None of Inr ib \<Rightarrow> ib | Inl _ \<Rightarrow> demo_empty)"

definition demo_batch :: InputBatch where
  "demo_batch = (case ib_add_request demo_batch1 (demo_state ''b'' 0 1) None of Inr ib \<Rightarrow> ib | Inl _ \<Rightarrow> demo_empty)"

definition demo_gap :: InputBatch where
  "demo_gap = snd (ib_remove_request demo_batch ''a'')"

lemma demo_state_id [simp]: "cs_req_id (demo_state rid t b) = rid"
  by (simp add: demo_state_def)

lemma demo_empty_rep: "batch_rep demo_empty Map.empty"
  unfolding demo_empty_def by (rule input_batch_init_rep)

lemma demo_batch1_rep: "batch_rep demo_batch1 [''a'' \<mapsto> demo_state ''a'' 1 0]"
proof -
  have "0 = (case None of None \<Rightarrow> ib_num_reqs demo_empty | Some j \<Rightarrow> j)" "0 < ib_max_num_reqs demo_empty"
    "0 \<notin> occupied demo_empty" "request_fits demo_empty (demo_state ''a'' 1 0)"
    by code_simp+
  from add_request_rep [OF demo_empty_rep this(4) _ this(1,2,3)]
  show ?thesis by (auto simp: demo_batch1_def)
qed

lemma demo_batch_rep: "batch_rep demo_batch [''a'' \<mapsto> demo_state ''a'' 1 0, ''b'' \<mapsto> demo_state ''b'' 0 1]"
proof -
  have "1 = (case None of None \<Rightarrow> ib_num_reqs demo_batch1 | Some j \<Rightarrow> j)" "1 < ib_max_num_reqs demo_batch1"
    "1 \<notin> occupied demo_batch1" "request_fits demo_batch1 (demo_state ''b'' 0 1)"
    by code_simp+
  from add_request_rep [OF demo_batch1_rep this(4) _ this(1,2,3)]
  show ?thesis by (auto simp: demo_batch_def)
qed

lemma demo_gap_rep: "batch_rep demo_gap [''b'' \<mapsto> demo_state ''b'' 0 1]"
proof -
  have "[''a'' \<mapsto> x, ''b'' \<mapsto> y](''a'' := None) = [''b'' \<mapsto> y]" for x y :: CachedRequestState
    by (simp add: fun_eq_iff)
  then show ?thesis
    using remove_request_rep(1) [OF demo_batch_rep, of "''a''"] by (simp add: demo_gap_def)
qed

text \<open>C40: With the parameters copied to the device, the sampling metadata of a gap-free batch gives every
  request its own temperature, top-p, top-k, penalties, prompt, stop tokens, generator and output tokens, and
  the summary flags are true exactly when all requests allow it.\<close>

theorem sampling_metadata_spec:
  assumes "batch_rep ib M" and "dense ib" and "dom M \<subseteq> dom outs"
  shows "\<exists>md ib'. make_sampling_metadata ib outs False = Inr (md, ib') \<and> batch_rep ib' M \<and>
     index_of ib' = index_of ib \<and> metadata_ok md ib' M outs \<and>
     (sm_all_greedy md \<longleftrightarrow> (\<forall>rq \<in> ran M. sampling_type (cs_sampling_params rq) = GREEDY)) \<and>
     (sm_all_random md \<longleftrightarrow> (\<forall>rq \<in> ran M. sampling_type (cs_sampling_params rq) \<noteq> GREEDY)) \<and>
     (sm_no_top_p md \<longleftrightarrow> (\<forall>rq \<in> ran M. 1 \<le> sp_top_p (cs_sampling_params rq))) \<and>
     (sm_no_top_k md \<longleftrightarrow> (\<forall>rq \<in> ran M. sp_top_k (cs_sampling_params rq) \<le> 0))"
proof -
  obtain ib' where ib': "copy_sampling_tensors ib = Inr ib'" "batch_rep ib' M" "synced ib'"
    "ib_req_ids ib' = ib_req_ids ib" "ib_req_id_to_index ib' = ib_req_id_to_index ib"
    "ib_max_num_reqs ib' = ib_max_num_reqs ib"
    using copy_sampling_tensors_ok [OF assms(1)] by blast
  have d: "dense ib'"
    using assms(2) ib' by (simp add: dense_def occupied_def ib_num_reqs_def)
  have "\<exists>rid. r = Some rid \<and> outs rid \<noteq> None" if r: "r \<in> set (take (ib_num_reqs ib') (ib_req_ids ib'))" for r
  proof -
    from r obtain j where j: "j < ib_num_reqs ib'" "r = ib_req_ids ib' ! j" by (auto simp: in_set_conv_nth)
    show ?thesis using assms(3) j(2) dense_req_ids [OF ib'(2) d j(1)] by (metis domD domIff subsetD)
  qed
  from collect_output_tokens_all [OF this]
  obtain md where md: "make_sampling_metadata ib' outs True = Inr (md, ib')"
    "make_sampling_metadata ib outs False = Inr (md, ib')"
    by (auto simp: make_sampling_metadata_def Let_def ib'(1))
  have "metadata_ok md ib' M outs"
    by (rule metadata_row [OF ib'(2) d ib'(3) assms(3) md(1)])
  moreover have "ib_sets_ok ib' M" using ib'(2) by (simp add: batch_rep_def)
  then have "sm_all_greedy md \<longleftrightarrow> (\<forall>rq \<in> ran M. sampling_type (cs_sampling_params rq) = GREEDY)"
    "sm_all_random md \<longleftrightarrow> (\<forall>rq \<in> ran M. sampling_type (cs_sampling_params rq) \<noteq> GREEDY)"
    "sm_no_top_p md \<longleftrightarrow> (\<forall>rq \<in> ran M. 1 \<le> sp_top_p (cs_sampling_params rq))"
    "sm_no_top_k md \<longleftrightarrow> (\<forall>rq \<in> ran M. sp_top_k (cs_sampling_params rq) \<le> 0)"
    using md(1)
    by (auto simp: make_sampling_metadata_def Let_def all_greedy_def all_random_def no_top_p_def no_top_k_def
        ib_sets_ok_def reqs_with_empty_iff not_less)
  ultimately show ?thesis
    using md ib' by (auto simp: index_of_def)
qed

theorem sampling_metadata_spec_witness:
  "\<exists>md ib'. make_sampling_metadata demo_batch (\<lambda>_. Some []) False = Inr (md, ib') \<and>
     metadata_ok md ib' [''a'' \<mapsto> demo_state ''a'' 1 0, ''b'' \<mapsto> demo_state ''b'' 0 1] (\<lambda>_. Some [])"
proof -
  have "dense demo_batch" unfolding dense_def by code_simp
  from sampling_metadata_spec [OF demo_batch_rep this, of "\<lambda>_. Some []"]
  show ?thesis by (auto simp: dom_def)
qed

theorem input_batch_refines_map_witness:
  "\<exists>ib'. ib_add_request demo_empty (demo_state ''a'' 1 0) None = Inr ib' \<and>
     batch_rep ib' [''a'' \<mapsto> demo_state ''a'' 1 0] \<and> index_of ib' ''a'' = Some 0"
proof -
  have "0 = (case None of None \<Rightarrow> ib_num_reqs demo_empty | Some j \<Rightarrow> j)" "0 < ib_max_num_reqs demo_empty"
    "0 \<notin> occupied demo_empty" "request_fits demo_empty (demo_state ''a'' 1 0)"
    by code_simp+
  then show ?thesis
    using input_batch_refines_map [OF demo_empty_rep, where rq = "demo_state ''a'' 1 0" and io = None and i = 0] by simp
qed

theorem condense_keeps_requests_witness:
  "\<exists>ib'. condense demo_gap [0] = Inr ib' \<and> batch_rep ib' [''b'' \<mapsto> demo_state ''b'' 0 1] \<and> occupied ib' = {..<1}"
proof -
  have "gaps demo_gap [0]" "sorted_wrt (>) [0 :: nat]"
    "ib_num_reqs demo_gap + length [0 :: nat] \<le> ib_max_num_reqs demo_gap"
    unfolding gaps_def by code_simp+
  from condense_keeps_requests [OF demo_gap_rep this]
  show ?thesis by simp
qed

end
