(* ===== verification/EncoderScheduler.thy ===== *)
theory EncoderScheduler
  imports Scheduler Transition
begin

text \<open>
  The scheduler of the encoder process (\<open>vllm/v1/core/encoder_scheduler.py\<close>): SpaceServe runs the
  vision encoder in a process of its own, which picks at most one waiting request per step and
  encodes as many of its leading inputs as the encoder budget allows.

  The module has its own copies of the data classes of the engine's scheduler.  Its
  \<open>SchedulerOutput\<close> leaves most fields \<open>None\<close>; such fields are options here.  There is no KV cache
  manager, so \<open>reset_prefix_cache\<close> raises \<open>AttributeError\<close>.
\<close>

section \<open>Data\<close>

record EncNewRequestData =
  enr_req_id :: string
  enr_prompt_token_ids :: "int list"
  enr_prompt :: "string option"
  enr_mm_inputs :: "mm_kwargs option list"
  enr_mm_hashes :: "string list"
  enr_mm_positions :: "PlaceholderRange list"
  enr_sampling_params :: SamplingParams
  enr_block_ids :: "nat list option"
  enr_num_computed_tokens :: int

record EncSchedulerOutput =
  eo_scheduled_new_reqs :: "EncNewRequestData list"
  eo_scheduled_cached_reqs :: "CachedRequestData list option"
  eo_num_scheduled_tokens :: "(string \<times> int) list option"
  eo_total_num_scheduled_tokens :: int
  eo_scheduled_encoder_inputs :: "(string \<times> nat list) list"
  eo_num_common_prefix_blocks :: int
  eo_finished_req_ids :: "string set option"
  eo_free_encoder_input_ids :: "(string \<times> nat) list option"

record EncoderScheduler =
  es_max_num_running_reqs :: int
  es_max_num_scheduled_tokens :: int
  es_max_model_len :: int
  es_requests :: "string \<Rightarrow> Request option"
  es_waiting :: "string list"
  es_running :: "string list"
  es_finished_req_ids :: "string set"
  es_cached_reqs_data :: "string \<Rightarrow> CachedRequestData option"
  es_max_num_encoder_input_tokens :: int
  es_encoder_cache_manager :: EncoderCacheManager

definition encoder_scheduler_init :: "int \<Rightarrow> int \<Rightarrow> int \<Rightarrow> bool \<Rightarrow> int \<times> int \<Rightarrow> EncoderScheduler py" where
  "encoder_scheduler_init max_num_seqs max_num_batched_tokens mml lora budgets =
     py_assert (\<not> lora)
       (Inr \<lparr>es_max_num_running_reqs = max_num_seqs, es_max_num_scheduled_tokens = max_num_batched_tokens,
             es_max_model_len = mml, es_requests = Map.empty, es_waiting = [], es_running = [],
             es_finished_req_ids = {}, es_cached_reqs_data = Map.empty,
             es_max_num_encoder_input_tokens = fst budgets,
             es_encoder_cache_manager = encoder_cache_manager_init (snd budgets)\<rparr>)"

definition enc_new_request_data :: "Request \<Rightarrow> nat list option \<Rightarrow> int \<Rightarrow> EncNewRequestData" where
  "enc_new_request_data r bids nct =
     \<lparr>enr_req_id = request_id r, enr_prompt_token_ids = prompt_token_ids r, enr_prompt = prompt r,
      enr_mm_inputs = mm_inputs r, enr_mm_hashes = mm_hashes r, enr_mm_positions = mm_positions r,
      enr_sampling_params = sampling_params r, enr_block_ids = bids, enr_num_computed_tokens = nct\<rparr>"

definition es_get_req :: "EncoderScheduler \<Rightarrow> string \<Rightarrow> Request py" where
  "es_get_req s rid = (case es_requests s rid of None \<Rightarrow> Inl KeyError | Some r \<Rightarrow> Inr r)"

definition es_put_req :: "EncoderScheduler \<Rightarrow> Request \<Rightarrow> EncoderScheduler" where
  "es_put_req s r = s\<lparr>es_requests := (es_requests s)(request_id r \<mapsto> r)\<rparr>"

definition es_make_cached_request_data ::
  "EncoderScheduler \<Rightarrow> Request \<Rightarrow> nat list \<Rightarrow> int \<Rightarrow> bool \<Rightarrow> CachedRequestData \<times> EncoderScheduler" where
  "es_make_cached_request_data s r bids nct resumed =
     (let d = (case es_cached_reqs_data s (request_id r) of
                 Some d0 \<Rightarrow> d0\<lparr>cr_resumed_from_preemption := resumed, cr_new_block_ids := bids, cr_num_computed_tokens := nct\<rparr>
               | None \<Rightarrow> cached_request_data r resumed bids nct)
      in (d, s\<lparr>es_cached_reqs_data := (es_cached_reqs_data s)(request_id r \<mapsto> d)\<rparr>))"

section \<open>Scheduling\<close>

fun es_inputs_loop :: "nat \<Rightarrow> PlaceholderRange list \<Rightarrow> int \<Rightarrow> nat list \<Rightarrow> nat list \<times> int" where
  "es_inputs_loop i [] budget acc = (acc, budget)"
| "es_inputs_loop i (p # ps) budget acc =
     (if pr_length p \<le> budget then es_inputs_loop (Suc i) ps (budget - pr_length p) (acc @ [i])
      else (acc, budget))"

definition es_try_schedule_encoder_inputs :: "Request \<Rightarrow> int \<Rightarrow> nat list \<times> int" where
  "es_try_schedule_encoder_inputs r budget = es_inputs_loop 0 (mm_positions r) budget []"

text \<open>
  The \<open>while\<close> loop of \<open>schedule\<close> ends in \<open>break\<close> on every path, so its body runs at most once; the
  remaining budget is not used again.
\<close>

definition encoder_schedule :: "EncoderScheduler \<Rightarrow> (EncSchedulerOutput \<times> EncoderScheduler) py" where
  "encoder_schedule s =
     (let out = (\<lambda>new inputs.
            \<lparr>eo_scheduled_new_reqs = map (\<lambda>r. enc_new_request_data r None (- 1)) new,
             eo_scheduled_cached_reqs = None, eo_num_scheduled_tokens = None, eo_total_num_scheduled_tokens = 0,
             eo_scheduled_encoder_inputs = inputs, eo_num_common_prefix_blocks = 0,
             eo_finished_req_ids = None, eo_free_encoder_input_ids = None\<rparr>) in
      if es_waiting s = [] \<or> \<not> es_max_num_encoder_input_tokens s > 0 then Inr (out [] [], s)
      else if int (length (es_running s)) = es_max_num_running_reqs s then Inr (out [] [], s)
      else
        py_bind (es_get_req s (hd (es_waiting s))) (\<lambda>r.
          let (ids, _) = es_try_schedule_encoder_inputs r (es_max_num_encoder_input_tokens s) in
          if ids = [] then Inr (out [] [], s)
          else
            py_bind (allocate_encoder_inputs (es_encoder_cache_manager s) r ids) (\<lambda>e.
              let r1 = r\<lparr>status := RUNNING\<rparr>;
                  s1 = es_put_req (s\<lparr>es_encoder_cache_manager := e, es_waiting := tl (es_waiting s),
                                     es_running := es_running s @ [request_id r]\<rparr>) r1
              in Inr (out [r1] [(request_id r, ids)], s1))))"

section \<open>The operations kept from the engine's scheduler\<close>

definition es_check_stop :: "EncoderScheduler \<Rightarrow> Request \<Rightarrow> (bool \<times> Request) py" where
  "es_check_stop s r =
     (if num_tokens r \<ge> es_max_model_len s \<or> num_output_tokens r \<ge> max_tokens r then
        Inr (True, r\<lparr>status := FINISHED_LENGTH_CAPPED\<rparr>)
      else if output_token_ids r = [] then Inl IndexError
      else
        let t = last (output_token_ids r); sp = sampling_params r in
        if \<not> sp_ignore_eos sp \<and> Some t = eos_token_id r then Inr (True, r\<lparr>status := FINISHED_STOPPED\<rparr>)
        else if t \<in> set (or_empty (sp_stop_token_ids sp)) then
          Inr (True, r\<lparr>status := FINISHED_STOPPED, stop_reason := Some (StopToken t)\<rparr>)
        else Inr (False, r))"

definition es_free_request :: "set_order \<Rightarrow> EncoderScheduler \<Rightarrow> Request \<Rightarrow> EncoderScheduler py" where
  "es_free_request ord s r =
     py_assert (is_finished r)
       (py_bind (encoder_free ord (es_encoder_cache_manager s) r) (\<lambda>e.
         if es_requests s (request_id r) = None then Inl KeyError
         else Inr (s\<lparr>es_encoder_cache_manager := e,
                     es_cached_reqs_data := (es_cached_reqs_data s)(request_id r := None),
                     es_requests := (es_requests s)(request_id r := None),
                     es_finished_req_ids := insert (request_id r) (es_finished_req_ids s)\<rparr>)))"

definition es_generate_token ::
  "set_order \<Rightarrow> EncoderScheduler \<Rightarrow> Request \<Rightarrow> ModelRunnerOutput \<Rightarrow> (EngineCoreOutput \<times> bool \<times> EncoderScheduler) py" where
  "es_generate_token ord s r mro =
     (case req_id_to_index mro (request_id r) of
        None \<Rightarrow> Inl KeyError
      | Some k \<Rightarrow>
          py_bind (py_index (sampled_token_ids mro) k) (\<lambda>t.
            let r1 = append_output_token_ids r [t] in
            py_bind (es_check_stop s r1) (\<lambda>(stopped, r2).
              py_bind (if stopped then es_free_request ord (es_put_req s r2) r2 else Inr (es_put_req s r2)) (\<lambda>s2.
                Inr (\<lparr>eco_request_id = request_id r2,
                      eco_new_token_ids = py_slice (output_token_ids r2) (- 1) (int (length (output_token_ids r2))),
                      eco_finished = is_finished r2, eco_finish_reason = get_finished_reason r2,
                      eco_stop_reason = stop_reason r2\<rparr>, stopped, s2)))))"

text \<open>\<open>num_scheduled_tokens.get\<close> of the \<open>None\<close> this scheduler puts into its output raises.\<close>

fun es_update_loop ::
  "set_order \<Rightarrow> EncoderScheduler \<Rightarrow> (string \<times> int) list option \<Rightarrow> ModelRunnerOutput \<Rightarrow> string list \<Rightarrow>
   (string list \<times> EngineCoreOutput list \<times> EncoderScheduler) py" where
  "es_update_loop ord s toks mro [] = Inr ([], [], s)"
| "es_update_loop ord s toks mro (rid # rids) =
     py_bind (es_get_req s rid) (\<lambda>r0.
       case toks of
         None \<Rightarrow> Inl AttributeError
       | Some ts \<Rightarrow>
           let n = (case map_of ts rid of None \<Rightarrow> 0 | Some n \<Rightarrow> n) in
           if n = 0 then
             py_bind (es_update_loop ord s toks mro rids) (\<lambda>(nr, outs, s'). Inr (rid # nr, outs, s'))
           else
             let r = r0\<lparr>num_computed_tokens := num_computed_tokens r0 + n\<rparr> in
             py_assert (num_computed_tokens r \<le> num_tokens r)
             (py_bind (free_done_inputs (es_encoder_cache_manager s) r
                 (ord (get_cached_input_ids (es_encoder_cache_manager s) r)))
               (\<lambda>e.
                 let s1 = es_put_req (s\<lparr>es_encoder_cache_manager := e\<rparr>) r in
                 if num_computed_tokens r = num_tokens r then
                   py_bind (es_generate_token ord s1 r mro) (\<lambda>(out, stopped, s2).
                     py_bind (es_update_loop ord s2 toks mro rids) (\<lambda>(nr, outs, s').
                       Inr (if stopped then nr else rid # nr, out # outs, s')))
                 else
                   py_bind (es_update_loop ord s1 toks mro rids) (\<lambda>(nr, outs, s'). Inr (rid # nr, outs, s')))))"

definition es_make_stats :: "EncoderScheduler \<Rightarrow> SchedulerStats" where
  "es_make_stats s =
     \<lparr>num_running_reqs = int (length (es_running s)), num_waiting_reqs = int (length (es_waiting s)), gpu_cache_usage = 0\<rparr>"

definition es_update_from_output ::
  "set_order \<Rightarrow> EncoderScheduler \<Rightarrow> EncSchedulerOutput \<Rightarrow> ModelRunnerOutput \<Rightarrow> (EngineCoreOutputs \<times> EncoderScheduler) py" where
  "es_update_from_output ord s out mro =
     py_bind (es_update_loop ord s (eo_num_scheduled_tokens out) mro (es_running s)) (\<lambda>(nr, outs, s1).
       let s2 = s1\<lparr>es_running := nr\<rparr> in Inr (\<lparr>ecos_outputs = outs, ecos_scheduler_stats = es_make_stats s2\<rparr>, s2))"

definition es_add_request :: "EncoderScheduler \<Rightarrow> Request \<Rightarrow> EncoderScheduler" where
  "es_add_request s r =
     s\<lparr>es_waiting := es_waiting s @ [request_id r], es_requests := (es_requests s)(request_id r \<mapsto> r)\<rparr>"

definition es_finish_one :: "set_order \<Rightarrow> EncoderScheduler \<Rightarrow> RequestStatus \<Rightarrow> string \<Rightarrow> EncoderScheduler py" where
  "es_finish_one ord s st rid =
     (case es_requests s rid of
        None \<Rightarrow> Inr s
      | Some r \<Rightarrow>
          py_bind
            (if status r = RUNNING then py_bind (py_remove rid (es_running s)) (\<lambda>q. Inr (s\<lparr>es_running := q\<rparr>))
             else py_bind (py_remove rid (es_waiting s)) (\<lambda>q. Inr (s\<lparr>es_waiting := q\<rparr>)))
            (\<lambda>s1. let r1 = r\<lparr>status := st\<rparr> in es_free_request ord (es_put_req s1 r1) r1))"

fun es_finish_loop :: "set_order \<Rightarrow> EncoderScheduler \<Rightarrow> RequestStatus \<Rightarrow> string list \<Rightarrow> EncoderScheduler py" where
  "es_finish_loop ord s st [] = Inr s"
| "es_finish_loop ord s st (rid # rids) = py_bind (es_finish_one ord s st rid) (\<lambda>s'. es_finish_loop ord s' st rids)"

definition es_finish_requests :: "set_order \<Rightarrow> EncoderScheduler \<Rightarrow> string list \<Rightarrow> RequestStatus \<Rightarrow> EncoderScheduler py" where
  "es_finish_requests ord s rids st = py_assert (status_is_finished st) (es_finish_loop ord s st rids)"

definition es_get_num_unfinished_requests :: "EncoderScheduler \<Rightarrow> int" where
  "es_get_num_unfinished_requests s = int (length (es_waiting s)) + int (length (es_running s))"

definition es_has_unfinished_requests :: "EncoderScheduler \<Rightarrow> bool" where
  "es_has_unfinished_requests s \<longleftrightarrow> es_get_num_unfinished_requests s > 0"

definition es_reset_prefix_cache :: "EncoderScheduler \<Rightarrow> bool py" where
  "es_reset_prefix_cache s = Inl AttributeError"

section \<open>What one step does\<close>

definition es_ok :: "EncoderScheduler \<Rightarrow> bool" where
  "es_ok s \<longleftrightarrow>
     (\<forall>rid \<in> set (es_waiting s). \<exists>r. es_requests s rid = Some r \<and> request_id r = rid) \<and>
     int (length (es_running s)) \<le> es_max_num_running_reqs s"

lemma es_inputs_loop_spec:
  "es_inputs_loop i ps budget acc = (ids, left) \<Longrightarrow>
   \<exists>k \<le> length ps. ids = acc @ [i..<i + k] \<and> left = budget - sum_list (map pr_length (take k ps)) \<and>
     (0 \<le> budget \<longrightarrow> 0 \<le> left) \<and> (k < length ps \<longrightarrow> left < pr_length (ps ! k))"
proof (induction i ps budget acc rule: es_inputs_loop.induct)
  case (1 i budget acc)
  then show ?case by simp
next
  case (2 i p ps budget acc)
  show ?case
  proof (cases "pr_length p \<le> budget")
    case True
    have "es_inputs_loop (Suc i) ps (budget - pr_length p) (acc @ [i]) = (ids, left)" using 2(2) True by simp
    from 2(1) [OF True this] obtain k where k: "k \<le> length ps" "ids = (acc @ [i]) @ [Suc i..<Suc i + k]"
        "left = budget - pr_length p - sum_list (map pr_length (take k ps))"
        "0 \<le> budget - pr_length p \<longrightarrow> 0 \<le> left" "k < length ps \<longrightarrow> left < pr_length (ps ! k)"
      by blast
    then have "ids = acc @ [i..<i + Suc k]" by (simp add: upt_conv_Cons)
    with k True show ?thesis by (intro exI [of _ "Suc k"]) auto
  next
    case False
    then show ?thesis using 2 by (intro exI [of _ 0]) auto
  qed
qed

lemma try_inputs_spec:
  assumes "es_try_schedule_encoder_inputs r budget = (ids, left)" and "0 \<le> budget"
  shows "\<exists>k \<le> length (mm_positions r). ids = [0..<k] \<and> sum_list (map pr_length (take k (mm_positions r))) \<le> budget \<and>
     (k < length (mm_positions r) \<longrightarrow> budget < sum_list (map pr_length (take (Suc k) (mm_positions r))))"
proof -
  obtain k where k: "k \<le> length (mm_positions r)" "ids = [] @ [0..<0 + k]" "left = budget - sum_list (map pr_length (take k (mm_positions r)))"
      "0 \<le> left" "k < length (mm_positions r) \<longrightarrow> left < pr_length (mm_positions r ! k)"
    using es_inputs_loop_spec [OF assms(1) [unfolded es_try_schedule_encoder_inputs_def]] assms(2) by blast
  then show ?thesis by (intro exI [of _ k]) (auto simp: take_Suc_conv_app_nth)
qed

lemma allocate_total:
  "\<forall>i\<in>set ids. i < length (mm_positions r) \<Longrightarrow> \<exists>e'. allocate_encoder_inputs e r ids = Inr e'"
  by (induction ids arbitrary: e) (auto simp: allocate_def get_num_encoder_tokens_def Let_def)

text \<open>When nothing can be scheduled.\<close>

definition es_blocked :: "EncoderScheduler \<Rightarrow> bool" where
  "es_blocked s \<longleftrightarrow>
     es_waiting s = [] \<or> es_max_num_encoder_input_tokens s \<le> 0 \<or> int (length (es_running s)) = es_max_num_running_reqs s \<or>
     (\<exists>r. es_requests s (hd (es_waiting s)) = Some r \<and>
        (mm_positions r = [] \<or> es_max_num_encoder_input_tokens s < pr_length (hd (mm_positions r))))"

lemma encoder_schedule_blocked:
  assumes "es_blocked s"
  shows "\<exists>out. encoder_schedule s = Inr (out, s) \<and> eo_scheduled_new_reqs out = [] \<and> eo_scheduled_encoder_inputs out = []"
proof (cases "es_waiting s = [] \<or> es_max_num_encoder_input_tokens s \<le> 0 \<or> int (length (es_running s)) = es_max_num_running_reqs s")
  case True
  then show ?thesis by (auto simp: encoder_schedule_def Let_def)
next
  case False
  then obtain r where r: "es_requests s (hd (es_waiting s)) = Some r"
      "mm_positions r = [] \<or> es_max_num_encoder_input_tokens s < pr_length (hd (mm_positions r))"
    using assms by (auto simp: es_blocked_def)
  then have "es_try_schedule_encoder_inputs r (es_max_num_encoder_input_tokens s) = ([], es_max_num_encoder_input_tokens s)"
    by (cases "mm_positions r") (auto simp: es_try_schedule_encoder_inputs_def)
  with r(1) False show ?thesis by (simp add: encoder_schedule_def es_get_req_def Let_def)
qed

lemma encoder_schedule_admits:
  assumes ok: "es_ok s" and free: "\<not> es_blocked s"
  shows "\<exists>r k out s'. encoder_schedule s = Inr (out, s') \<and> es_requests s (hd (es_waiting s)) = Some r \<and>
     0 < k \<and> k \<le> length (mm_positions r) \<and>
     eo_scheduled_new_reqs out = [enc_new_request_data (r\<lparr>status := RUNNING\<rparr>) None (- 1)] \<and>
     eo_scheduled_encoder_inputs out = [(request_id r, [0..<k])] \<and>
     sum_list (map pr_length (take k (mm_positions r))) \<le> es_max_num_encoder_input_tokens s \<and>
     (k < length (mm_positions r) \<longrightarrow>
        es_max_num_encoder_input_tokens s < sum_list (map pr_length (take (Suc k) (mm_positions r)))) \<and>
     es_waiting s' = tl (es_waiting s) \<and> es_running s' = es_running s @ [request_id r] \<and>
     es_requests s' = (es_requests s)(request_id r \<mapsto> r\<lparr>status := RUNNING\<rparr>) \<and>
     es_max_num_running_reqs s' = es_max_num_running_reqs s \<and>
     es_max_num_encoder_input_tokens s' = es_max_num_encoder_input_tokens s"
proof -
  let ?B = "es_max_num_encoder_input_tokens s"
  have w: "es_waiting s \<noteq> []" "0 < ?B" "int (length (es_running s)) \<noteq> es_max_num_running_reqs s" using free by (auto simp: es_blocked_def)
  then obtain r where r: "es_requests s (hd (es_waiting s)) = Some r" "request_id r = hd (es_waiting s)"
    using ok by (fastforce simp: es_ok_def)
  have p: "mm_positions r \<noteq> []" "pr_length (hd (mm_positions r)) \<le> ?B" using free r(1) w by (auto simp: es_blocked_def)
  obtain ids left where t: "es_try_schedule_encoder_inputs r ?B = (ids, left)" by fastforce
  obtain k where k: "k \<le> length (mm_positions r)" "ids = [0..<k]" "sum_list (map pr_length (take k (mm_positions r))) \<le> ?B"
      "k < length (mm_positions r) \<longrightarrow> ?B < sum_list (map pr_length (take (Suc k) (mm_positions r)))"
    using try_inputs_spec [OF t] w(2) by auto
  have pos: "0 < k" using k(4) p by (cases "mm_positions r"; cases k) auto
  obtain e where e: "allocate_encoder_inputs (es_encoder_cache_manager s) r ids = Inr e"
    using allocate_total [of ids r "es_encoder_cache_manager s"] k(1,2) by auto
  show ?thesis
    using w r(1) t e pos k by (auto simp: encoder_schedule_def es_get_req_def es_put_req_def Let_def intro!: exI [of _ k])
qed

section \<open>The encoder process\<close>

text \<open>
  What happens to the scheduler of the encoder process: the front end sends it every request (text
  requests too) and no aborts, and the process schedules.  It never calls \<open>update_from_output\<close>.
\<close>

inductive es_step :: "EncoderScheduler \<Rightarrow> EncoderScheduler \<Rightarrow> bool" where
  add: "es_requests s (request_id r) = None \<Longrightarrow> es_step s (es_add_request s r)"
| sched: "encoder_schedule s = Inr (out, s') \<Longrightarrow> es_step s s'"

definition es_init_ok :: "EncoderScheduler \<Rightarrow> bool" where
  "es_init_ok s \<longleftrightarrow> (\<exists>seqs toks mml budgets. 0 \<le> seqs \<and> encoder_scheduler_init seqs toks mml False budgets = Inr s)"

text \<open>A request that waits never runs: ids are unique.\<close>

definition es_good :: "EncoderScheduler \<Rightarrow> bool" where
  "es_good s \<longleftrightarrow> es_ok s \<and> distinct (es_waiting s) \<and> set (es_waiting s) \<union> set (es_running s) \<subseteq> dom (es_requests s)"

lemma es_step_good:
  assumes "es_step s s'" and good: "es_good s"
  shows "es_good s' \<and> es_max_num_running_reqs s' = es_max_num_running_reqs s \<and>
    es_max_num_encoder_input_tokens s' = es_max_num_encoder_input_tokens s \<and> (\<exists>xs. es_running s' = es_running s @ xs)"
  using assms(1)
proof (cases rule: es_step.cases)
  case (add r)
  have "request_id r \<notin> set (es_waiting s) \<union> set (es_running s)" using good add by (auto simp: es_good_def)
  then show ?thesis using good add by (auto simp: es_good_def es_ok_def es_add_request_def)
next
  case (sched out)
  show ?thesis
  proof (cases "es_blocked s")
    case True
    then have "s' = s" using encoder_schedule_blocked [of s] sched by auto
    then show ?thesis using good by simp
  next
    case False
    have ok: "es_ok s" using good by (simp add: es_good_def)
    obtain r where r: "es_requests s (hd (es_waiting s)) = Some r" "es_waiting s' = tl (es_waiting s)" "es_running s' = es_running s @ [request_id r]"
       "es_requests s' = (es_requests s)(request_id r \<mapsto> r\<lparr>status := RUNNING\<rparr>)" "es_max_num_running_reqs s' = es_max_num_running_reqs s"
       "es_max_num_encoder_input_tokens s' = es_max_num_encoder_input_tokens s"
      using encoder_schedule_admits [OF ok False] sched by auto
    have w: "es_waiting s \<noteq> []" "int (length (es_running s)) \<noteq> es_max_num_running_reqs s" using False by (auto simp: es_blocked_def)
    have "hd (es_waiting s) \<in> set (es_waiting s)" using w(1) by simp
    then have id: "request_id r = hd (es_waiting s)" using ok r(1) unfolding es_ok_def by force
    have sub: "set (tl (es_waiting s)) \<subseteq> set (es_waiting s)" by (cases "es_waiting s") auto
    then have ok': "es_ok s'" using ok r w by (auto simp: es_ok_def)
    have "distinct (es_waiting s')" using good r(2) by (simp add: es_good_def distinct_tl)
    moreover have "set (es_waiting s') \<union> set (es_running s') \<subseteq> dom (es_requests s')" using good r(2-4) sub by (auto simp: es_good_def)
    ultimately show ?thesis using ok' r by (simp add: es_good_def)
  qed
qed

interpretation enc: transition_monotone es_init_ok es_step es_good "\<lambda>s. length (es_running s)"
proof
  show "es_init_ok s \<Longrightarrow> es_good s" for s
    by (auto simp: es_init_ok_def es_good_def es_ok_def encoder_scheduler_init_def)
  show "es_step s s' \<Longrightarrow> es_good s \<Longrightarrow> es_good s'" for s s' using es_step_good by blast
  show "es_step s s' \<Longrightarrow> es_good s \<Longrightarrow> length (es_running s) \<le> length (es_running s')" for s s'
    using es_step_good [of s s'] by auto
qed

lemma es_steps_conf: "es_step\<^sup>*\<^sup>* s s' \<Longrightarrow> es_good s \<Longrightarrow> es_max_num_running_reqs s' = es_max_num_running_reqs s"
proof (induction rule: rtranclp_induct)
  case (step t u)
  then have "es_good t" using enc.steps_inv by blast
  with step es_step_good [of t u] show ?case by simp
qed simp

section \<open>Properties\<close>

text \<open>C22: A step of the encoder never raises.  Unless it is blocked (nothing waits, the slots for
  running requests are used up, or the first input of the first waiting request does not fit the
  budget or does not exist) it takes exactly the first waiting request and its longest prefix of
  inputs that fits the budget.\<close>

theorem encoder_schedule_spec:
  assumes "es_ok s"
  shows "\<exists>out s'. encoder_schedule s = Inr (out, s') \<and>
     (if es_blocked s then s' = s \<and> eo_scheduled_new_reqs out = [] \<and> eo_scheduled_encoder_inputs out = []
      else \<exists>r k. es_requests s (hd (es_waiting s)) = Some r \<and> 0 < k \<and> k \<le> length (mm_positions r) \<and>
        eo_scheduled_encoder_inputs out = [(request_id r, [0..<k])] \<and> map enr_req_id (eo_scheduled_new_reqs out) = [request_id r] \<and>
        sum_list (map pr_length (take k (mm_positions r))) \<le> es_max_num_encoder_input_tokens s \<and>
        (k < length (mm_positions r) \<longrightarrow>
           es_max_num_encoder_input_tokens s < sum_list (map pr_length (take (Suc k) (mm_positions r)))) \<and>
        es_waiting s' = tl (es_waiting s) \<and> es_running s' = es_running s @ [request_id r])"
proof (cases "es_blocked s")
  case True
  then show ?thesis using encoder_schedule_blocked [OF True] by auto
next
  case False
  from encoder_schedule_admits [OF assms False] obtain r k out s' where
    "encoder_schedule s = Inr (out, s')" "es_requests s (hd (es_waiting s)) = Some r" "0 < k" "k \<le> length (mm_positions r)"
    "eo_scheduled_new_reqs out = [enc_new_request_data (r\<lparr>status := RUNNING\<rparr>) None (- 1)]"
    "eo_scheduled_encoder_inputs out = [(request_id r, [0..<k])]"
    "sum_list (map pr_length (take k (mm_positions r))) \<le> es_max_num_encoder_input_tokens s"
    "k < length (mm_positions r) \<longrightarrow> es_max_num_encoder_input_tokens s < sum_list (map pr_length (take (Suc k) (mm_positions r)))"
    "es_waiting s' = tl (es_waiting s)" "es_running s' = es_running s @ [request_id r]" by blast
  with False show ?thesis by (auto simp: enc_new_request_data_def)
qed

definition enc_demo_req :: "string \<Rightarrow> PlaceholderRange list \<Rightarrow> Request" where
  "enc_demo_req rid ps =
     \<lparr>request_id = rid, prompt = None, prompt_token_ids = [1, 2, 3],
      sampling_params = default_params\<lparr>sp_max_tokens := Some 8\<rparr>,
      eos_token_id = Some 0, status = WAITING, stop_reason = None, max_tokens = 8,
      num_prompt_tokens = 3, output_token_ids = [], all_token_ids = [1, 2, 3], num_computed_tokens = 0,
      mm_positions = ps, mm_inputs = map (\<lambda>_. Some 0) ps, mm_hashes = [], kv_block_hashes = []\<rparr>"

definition enc_demo_init :: EncoderScheduler where
  "enc_demo_init = (case encoder_scheduler_init 1 8 32 False (5, 5) of Inr s \<Rightarrow> s | Inl _ \<Rightarrow> undefined)"

lemma enc_demo_init_ok: "es_init_ok enc_demo_init"
  unfolding es_init_ok_def
  by (intro exI [of _ 1] exI [of _ 8] exI [of _ 32] exI [of _ "(5, 5)"]) (simp add: enc_demo_init_def encoder_scheduler_init_def)

text \<open>A request with three images of two tokens; the budget of five admits two of them.\<close>

definition enc_demo_images :: Request where
  "enc_demo_images = enc_demo_req ''i'' (map (\<lambda>k. \<lparr>pr_offset = k, pr_length = 2\<rparr>) [0, 2, 4])"

definition enc_demo :: EncoderScheduler where
  "enc_demo = es_add_request enc_demo_init enc_demo_images"

lemma enc_demo_good: "es_good enc_demo"
proof -
  have "es_step enc_demo_init enc_demo" unfolding enc_demo_def by (rule es_step.add) code_simp
  then show ?thesis using enc.reachable_inv [OF enc_demo_init_ok] by blast
qed

theorem encoder_schedule_spec_witness:
  "case encoder_schedule enc_demo of Inl _ \<Rightarrow> False
   | Inr (out, s') \<Rightarrow> eo_scheduled_encoder_inputs out = [(''i'', [0, 1])] \<and> es_running s' = [''i'']"
proof -
  have nb: "\<not> es_blocked enc_demo"
    by (simp add: es_blocked_def enc_demo_def enc_demo_init_def encoder_scheduler_init_def es_add_request_def
        enc_demo_images_def enc_demo_req_def)
  have "es_running enc_demo = []" "map_option request_id (es_requests enc_demo (hd (es_waiting enc_demo))) = Some ''i''" by code_simp+
  moreover have "case encoder_schedule enc_demo of Inl _ \<Rightarrow> False | Inr (out, s') \<Rightarrow> eo_scheduled_encoder_inputs out = [(''i'', [0, 1])]"
    by code_simp
  ultimately show ?thesis
    using encoder_schedule_spec [of enc_demo] enc_demo_good nb by (auto simp: es_good_def)
qed

text \<open>C23: The slots of the encoder process are never given back: once \<open>max_num_running_reqs\<close> requests were
  encoded, no request that arrives later is ever encoded.\<close>

theorem encoder_slots_exhausted:
  assumes "es_good s" and "int (length (es_running s)) = es_max_num_running_reqs s" and "es_step\<^sup>*\<^sup>* s s'"
  shows "length (es_running s') = length (es_running s) \<and>
     (\<exists>out. encoder_schedule s' = Inr (out, s') \<and> eo_scheduled_new_reqs out = [])"
proof -
  have "es_good s'" using enc.steps_inv [OF assms(3,1)] .
  moreover have "length (es_running s) \<le> length (es_running s')" using enc.steps_mono [OF assms(3,1)] .
  moreover have "es_max_num_running_reqs s' = es_max_num_running_reqs s"
    by (rule es_steps_conf [OF assms(3,1)])
  ultimately have "int (length (es_running s')) = es_max_num_running_reqs s'" "length (es_running s') = length (es_running s)"
    using assms(2) by (auto simp: es_good_def es_ok_def)
  moreover have "es_blocked s'" using calculation(1) by (simp add: es_blocked_def)
  ultimately show ?thesis using encoder_schedule_blocked [of s'] by auto
qed

definition enc_demo_full :: EncoderScheduler where
  "enc_demo_full = (case encoder_schedule enc_demo of Inr (_, s) \<Rightarrow> s | Inl _ \<Rightarrow> undefined)"

lemma enc_demo_full_step: "es_step enc_demo enc_demo_full"
proof -
  obtain out s' where s': "encoder_schedule enc_demo = Inr (out, s')"
    using enc_demo_good encoder_schedule_blocked [of enc_demo] encoder_schedule_admits [of enc_demo]
    by (cases "es_blocked enc_demo") (auto simp: es_good_def)
  then have "s' = enc_demo_full" by (simp add: enc_demo_full_def)
  then show ?thesis using es_step.sched [OF s'] by simp
qed

theorem encoder_slots_exhausted_witness:
  "\<exists>out. encoder_schedule (es_add_request enc_demo_full (enc_demo_req ''j'' [\<lparr>pr_offset = 0, pr_length = 2\<rparr>])) =
     Inr (out, es_add_request enc_demo_full (enc_demo_req ''j'' [\<lparr>pr_offset = 0, pr_length = 2\<rparr>])) \<and> eo_scheduled_new_reqs out = []"
proof -
  have "es_good enc_demo_full" using enc.steps_inv enc_demo_full_step enc_demo_good by blast
  moreover have "int (length (es_running enc_demo_full)) = es_max_num_running_reqs enc_demo_full" by code_simp
  moreover have "es_step enc_demo_full (es_add_request enc_demo_full (enc_demo_req ''j'' [\<lparr>pr_offset = 0, pr_length = 2\<rparr>]))"
    by (rule es_step.add) code_simp
  ultimately show ?thesis using encoder_slots_exhausted r_into_rtranclp [of es_step] by metis
qed

text \<open>A request at the head of the queue that has nothing to encode, and the requests encoded before it.\<close>

definition es_stuck :: "string \<Rightarrow> string list \<Rightarrow> EncoderScheduler \<Rightarrow> bool" where
  "es_stuck rid run s \<longleftrightarrow>
     es_good s \<and> es_running s = run \<and> (\<exists>ws. es_waiting s = rid # ws) \<and>
     (\<exists>r. es_requests s rid = Some r \<and> mm_positions r = [])"

lemma es_stuck_blocked: "es_stuck rid run s \<Longrightarrow> es_blocked s"
  by (auto simp: es_stuck_def es_blocked_def)

lemma es_stuck_step:
  assumes st: "es_step s s'" "es_stuck rid run s"
  shows "es_stuck rid run s'"
  using st(1)
proof (cases rule: es_step.cases)
  case (add r)
  have "es_good s'" using es_step_good st by (auto simp: es_stuck_def)
  with st(2) add show ?thesis by (auto simp: es_stuck_def es_add_request_def)
next
  case (sched out)
  then have "s' = s" using encoder_schedule_blocked [OF es_stuck_blocked [OF st(2)]] by auto
  with st(2) show ?thesis by simp
qed

interpretation stuck: transition_invariant "es_stuck rid run" es_step "es_stuck rid run"
  by unfold_locales (auto intro: es_stuck_step)

text \<open>C24: A text request blocks the encoder process: while it is first in the queue (and it is never
  removed), no image of any later request is encoded.\<close>

theorem encoder_head_of_line_blocking:
  assumes "es_good s" and "es_waiting s = rid # ws" and "es_requests s rid = Some r" and "mm_positions r = []"
    and "es_step\<^sup>*\<^sup>* s s'"
  shows "es_running s' = es_running s \<and> hd (es_waiting s') = rid \<and>
     (\<exists>out. encoder_schedule s' = Inr (out, s') \<and> eo_scheduled_encoder_inputs out = [])"
proof -
  have "es_stuck rid (es_running s) s" using assms(1-4) by (simp add: es_stuck_def)
  then have st: "es_stuck rid (es_running s) s'" using stuck.reachable_inv assms(5) by blast
  then have "es_running s' = es_running s" "hd (es_waiting s') = rid" by (auto simp: es_stuck_def)
  then show ?thesis using encoder_schedule_blocked [OF es_stuck_blocked [OF st]] by auto
qed

definition enc_demo_text :: EncoderScheduler where
  "enc_demo_text = es_add_request enc_demo_init (enc_demo_req ''t'' [])"

theorem encoder_head_of_line_blocking_witness:
  "es_running (es_add_request enc_demo_text enc_demo_images) = [] \<and>
   (\<exists>out. encoder_schedule (es_add_request enc_demo_text enc_demo_images) = Inr (out, es_add_request enc_demo_text enc_demo_images) \<and>
      eo_scheduled_encoder_inputs out = [])"
proof -
  have "es_step enc_demo_init enc_demo_text" unfolding enc_demo_text_def by (rule es_step.add) code_simp
  then have g: "es_good enc_demo_text" using enc.reachable_inv [OF enc_demo_init_ok] by blast
  have e: "es_waiting enc_demo_text = [''t'']" "es_running enc_demo_text = []" by code_simp+
  have r: "es_requests enc_demo_text ''t'' = Some (enc_demo_req ''t'' [])"
    by (simp add: enc_demo_text_def es_add_request_def enc_demo_req_def)
  have "es_step enc_demo_text (es_add_request enc_demo_text enc_demo_images)" by (rule es_step.add) code_simp
  from encoder_head_of_line_blocking [OF g e(1) r _ r_into_rtranclp [of es_step, OF this]] e(2) show ?thesis
    by (simp add: enc_demo_req_def)
qed

text \<open>\<open>update_from_output\<close> cannot be applied to the output of this scheduler: it raises
  \<open>AttributeError\<close> as soon as a request runs.\<close>

lemma encoder_update_raises:
  assumes "encoder_schedule s = Inr (out, s')" and "es_running s' = rid # rids" and "es_requests s' rid \<noteq> None"
  shows "es_update_from_output ord s' out mro = Inl AttributeError"
proof -
  have "eo_num_scheduled_tokens out = None"
    using assms(1) by (auto simp: encoder_schedule_def Let_def case_prod_beta split: if_splits)
  then show ?thesis using assms(2,3) by (auto simp: es_update_from_output_def es_get_req_def)
qed

lemma encoder_update_raises_witness:
  "es_update_from_output sorted_list_of_set enc_demo_full
     (case encoder_schedule enc_demo of Inr (out, _) \<Rightarrow> out | Inl _ \<Rightarrow> undefined)
     \<lparr>req_ids = [], req_id_to_index = Map.empty, sampled_token_ids = []\<rparr> = Inl AttributeError"
proof (rule encoder_update_raises)
  show "encoder_schedule enc_demo = Inr (case encoder_schedule enc_demo of Inr (out, _) \<Rightarrow> out | Inl _ \<Rightarrow> undefined, enc_demo_full)"
    using enc_demo_full_step enc_demo_good encoder_schedule_blocked [of enc_demo] encoder_schedule_admits [of enc_demo]
    by (cases "es_blocked enc_demo") (auto simp: es_good_def enc_demo_full_def)
  show "es_running enc_demo_full = ''i'' # []" by code_simp
  show "es_requests enc_demo_full ''i'' \<noteq> None" by code_simp
qed

end
