(* ===== verification/ModelRunner.thy ===== *)
theory ModelRunner
  imports BatchSampling EncoderScheduler
begin

text \<open>
  The model runner (\<open>vllm/v1/worker/gpu_model_runner.py\<close>) around the neural network: it mirrors the
  scheduler's decisions in its cached request states and in the persistent batch (\<open>_update_states\<close>),
  lays out the tokens of a step (\<open>_prepare_inputs\<close>), collects the encoder outputs the step needs
  (\<open>_gather_encoder_outputs\<close>), and records the sampled tokens.  In the encoder process it runs the vision
  encoder (\<open>_execute_encoder\<close>).

  Parameters: \<open>sord\<close> is the order in which Python iterates over a set of strings; the network itself is
  the list of sampled tokens given to \<open>record_samples\<close>, and the outputs of the vision encoder given to
  \<open>cache_encoder_outputs\<close>.  M-RoPE positions, CUDA graphs and the choice of attention kernels are not
  modelled.  The dictionary of encoder outputs is an association list.
\<close>

section \<open>State\<close>

type_synonym str_order = "string set \<Rightarrow> string list"
type_synonym enc_dict = "(string \<times> (nat \<times> enc_handle) list) list"

record GPUModelRunner =
  mr_block_size :: nat
  mr_max_num_blocks_per_req :: nat
  mr_max_num_tokens :: nat
  mr_encoder_cache :: enc_dict
  mr_requests :: "string \<Rightarrow> CachedRequestState option"
  mr_input_batch :: InputBatch

text \<open>
  The constructor, from the configured block size, model length and limits of a step.  \<open>jr\<close> and \<open>ji\<close> are the
  contents of freshly allocated tensors.
\<close>

definition model_runner_init :: "rat \<Rightarrow> int \<Rightarrow> int \<Rightarrow> nat \<Rightarrow> nat \<Rightarrow> nat \<Rightarrow> nat \<Rightarrow> enc_dict option \<Rightarrow> GPUModelRunner" where
  "model_runner_init jr ji vocab bs mml max_num_tokens max_num_reqs ecache =
     (let max_blocks = nat (cdiv (int mml) (int bs)) in
      \<lparr>mr_block_size = bs, mr_max_num_blocks_per_req = max_blocks, mr_max_num_tokens = max_num_tokens,
       mr_encoder_cache = (case ecache of None \<Rightarrow> [] | Some c \<Rightarrow> c), mr_requests = Map.empty,
       mr_input_batch = input_batch_init jr ji max_num_reqs mml max_blocks vocab\<rparr>)"

section \<open>Updating the states\<close>

text \<open>Remove finished requests from the batch and collect the rows that become free.\<close>

fun remove_finished :: "InputBatch \<Rightarrow> nat list \<Rightarrow> string list \<Rightarrow> InputBatch \<times> nat list" where
  "remove_finished ib removed [] = (ib, removed)"
| "remove_finished ib removed (rid # rids) =
     (case ib_remove_request ib rid of
        (None, ib') \<Rightarrow> remove_finished ib' removed rids
      | (Some i, ib') \<Rightarrow> remove_finished ib' (removed @ [i]) rids)"

definition free_encoder_output :: "string \<times> nat \<Rightarrow> enc_dict \<Rightarrow> enc_dict" where
  "free_encoder_output ri c =
     (case map_of c (fst ri) of
        None \<Rightarrow> c
      | Some m \<Rightarrow>
          (let m' = AList.delete (snd ri) m in
           if m' = [] then AList.delete (fst ri) c else AList.update (fst ri) m' c))"

fun remove_unscheduled :: "InputBatch \<Rightarrow> nat list \<Rightarrow> string list \<Rightarrow> (InputBatch \<times> nat list) py" where
  "remove_unscheduled ib removed [] = Inr (ib, removed)"
| "remove_unscheduled ib removed (rid # rids) =
     (case ib_remove_request ib rid of
        (None, ib') \<Rightarrow> Inl AssertionError
      | (Some i, ib') \<Rightarrow> remove_unscheduled ib' (removed @ [i]) rids)"

definition new_cached_state :: "NewRequestData \<Rightarrow> CachedRequestState" where
  "new_cached_state d =
     \<lparr>cs_req_id = nr_req_id d, cs_prompt_token_ids = nr_prompt_token_ids d, cs_prompt = nr_prompt d,
      cs_mm_inputs = nr_mm_inputs d, cs_mm_positions = nr_mm_positions d,
      cs_sampling_params = nr_sampling_params d,
      cs_generator = (if sampling_type (nr_sampling_params d) = RANDOM_SEED
                      then sp_seed (nr_sampling_params d) else None),
      cs_block_ids = nr_block_ids d, cs_num_computed_tokens = nr_num_computed_tokens d,
      cs_output_token_ids = []\<rparr>"

definition cache_new_request :: "NewRequestData \<Rightarrow> batch_map \<Rightarrow> batch_map" where
  "cache_new_request d reqs = reqs(nr_req_id d \<mapsto> new_cached_state d)"

text \<open>The cached state of a running or resumed request after the scheduler's update.\<close>

definition update_cached_state :: "CachedRequestData \<Rightarrow> CachedRequestState \<Rightarrow> CachedRequestState" where
  "update_cached_state d rq =
     rq\<lparr>cs_num_computed_tokens := cr_num_computed_tokens d,
        cs_block_ids := (if cr_resumed_from_preemption d then cr_new_block_ids d
                         else cs_block_ids rq @ cr_new_block_ids d)\<rparr>"

fun update_cached_reqs ::
  "batch_map \<Rightarrow> InputBatch \<Rightarrow> string list \<Rightarrow> CachedRequestData list \<Rightarrow> (batch_map \<times> InputBatch \<times> string list) py" where
  "update_cached_reqs reqs ib to_add [] = Inr (reqs, ib, to_add)"
| "update_cached_reqs reqs ib to_add (d # ds) =
     (case reqs (cr_req_id d) of
        None \<Rightarrow> Inl KeyError
      | Some rq \<Rightarrow>
          let rq' = update_cached_state d rq; reqs' = reqs(cr_req_id d \<mapsto> rq') in
          (case map_of (ib_req_id_to_index ib) (cr_req_id d) of
             None \<Rightarrow> update_cached_reqs reqs' ib (to_add @ [cr_req_id d]) ds
           | Some i \<Rightarrow>
               py_bind (append_row (ib_block_table ib) i
                          (length (cs_block_ids rq') - length (cr_new_block_ids d)) (cr_new_block_ids d)) (\<lambda>bt.
                 update_cached_reqs reqs'
                   (ib\<lparr>num_computed_tokens_cpu := (num_computed_tokens_cpu ib)[i := cr_num_computed_tokens d],
                       ib_block_table := bt\<rparr>) to_add ds)))"

text \<open>Add the new and resumed requests; the smallest free row is at the end of \<open>removed\<close>.\<close>

fun add_pending :: "batch_map \<Rightarrow> InputBatch \<Rightarrow> nat list \<Rightarrow> string list \<Rightarrow> (InputBatch \<times> nat list) py" where
  "add_pending reqs ib removed [] = Inr (ib, removed)"
| "add_pending reqs ib removed (rid # rids) =
     (case reqs rid of
        None \<Rightarrow> Inl KeyError
      | Some rq \<Rightarrow>
          if removed \<noteq> [] then
            py_bind (ib_add_request ib rq (Some (last removed))) (\<lambda>ib'. add_pending reqs ib' (butlast removed) rids)
          else
            py_bind (ib_add_request ib rq None) (\<lambda>ib'. add_pending reqs ib' [] rids))"

definition update_states :: "str_order \<Rightarrow> GPUModelRunner \<Rightarrow> SchedulerOutput \<Rightarrow> (bool \<times> GPUModelRunner) py" where
  "update_states sord mr out =
     (let finished = sord (out_finished_req_ids out);
          reqs1 = fold (\<lambda>rid m. m(rid := None)) finished (mr_requests mr);
          cache1 = fold AList.delete finished (mr_encoder_cache mr);
          (ib1, removed1) = remove_finished (mr_input_batch mr) [] finished;
          cache2 = fold free_encoder_output (free_encoder_input_ids out) cache1;
          unscheduled = sord (fst ` set (ib_req_id_to_index ib1) - fst ` set (num_scheduled_tokens out)) in
      py_bind (remove_unscheduled ib1 removed1 unscheduled) (\<lambda>(ib2, removed2).
        let reqs2 = fold cache_new_request (scheduled_new_reqs out) reqs1 in
        py_bind (update_cached_reqs reqs2 ib2 (map nr_req_id (scheduled_new_reqs out)) (scheduled_cached_reqs out))
          (\<lambda>(reqs3, ib3, to_add).
            py_bind (add_pending reqs3 ib3 (rev (sort removed2)) to_add) (\<lambda>(ib4, removed3).
              py_bind (if removed3 \<noteq> [] then condense ib4 removed3 else Inr ib4) (\<lambda>ib5.
                Inr (unscheduled \<noteq> [] \<or> to_add \<noteq> [],
                     mr\<lparr>mr_encoder_cache := cache2, mr_requests := reqs3, mr_input_batch := ib5\<rparr>))))))"

section \<open>Preparing the inputs\<close>

text \<open>\<open>np.repeat\<close>, \<open>np.cumsum\<close>, and indexing that raises.\<close>

definition np_repeat :: "'a list \<Rightarrow> nat list \<Rightarrow> 'a list" where
  "np_repeat xs ns = concat (map (\<lambda>(x, n). replicate n x) (zip xs ns))"

fun np_cumsum :: "nat \<Rightarrow> nat list \<Rightarrow> nat list" where
  "np_cumsum acc [] = []"
| "np_cumsum acc (n # ns) = (acc + n) # np_cumsum (acc + n) ns"

fun index_select :: "'a list \<Rightarrow> int list \<Rightarrow> 'a list py" where
  "index_select xs [] = Inr []"
| "index_select xs (i # is) =
     (if 0 \<le> i \<and> nat i < length xs then py_bind (index_select xs is) (\<lambda>ys. Inr (xs ! nat i # ys))
      else Inl IndexError)"

record PreparedInputs =
  pi_req_indices :: "nat list"
  pi_positions :: "int list"
  pi_input_ids :: "int list"
  pi_slot_mapping :: "int list"
  pi_query_start_loc :: "nat list"
  pi_seq_lens :: "int list"
  pi_max_query_len :: nat
  pi_max_seq_len :: int
  pi_common_prefix_len :: int
  pi_logits_indices :: "int list"

fun scheduled_counts :: "(string \<times> int) list \<Rightarrow> string option list \<Rightarrow> int list py" where
  "scheduled_counts toks [] = Inr []"
| "scheduled_counts toks (r # rs) =
     (case r of
        None \<Rightarrow> Inl AssertionError
      | Some rid \<Rightarrow>
          (case map_of toks rid of
             None \<Rightarrow> Inl KeyError
           | Some n \<Rightarrow> py_bind (scheduled_counts toks rs) (\<lambda>ns. Inr (n # ns))))"

definition common_prefix_len :: "nat \<Rightarrow> nat \<Rightarrow> int list \<Rightarrow> int" where
  "common_prefix_len bs nblocks computed =
     (let len = int (nblocks * bs) in
      if len = 0 then 0 else min len (Min (set computed)) div int bs * int bs)"

definition prepare_inputs :: "GPUModelRunner \<Rightarrow> SchedulerOutput \<Rightarrow> (PreparedInputs \<times> GPUModelRunner) py" where
  "prepare_inputs mr out =
     (let total = nat (total_num_scheduled_tokens out); ib0 = mr_input_batch mr; n = ib_num_reqs ib0 in
      py_assert (total_num_scheduled_tokens out > 0) (py_assert (n > 0)
        (let ib = ib0\<lparr>ib_block_table := bt_commit (ib_block_table ib0) n\<rparr>;
             computed = num_computed_tokens_cpu ib in
         py_bind (scheduled_counts (num_scheduled_tokens out) (take n (ib_req_ids ib))) (\<lambda>counts.
           py_assert (Max (set counts) > 0)
             (let ns = map nat counts;
                  req_indices = np_repeat [0..<n] ns;
                  cu = np_cumsum 0 ns;
                  offsets = np_repeat (map2 (-) cu ns) ns in
              if list_ex (\<lambda>k. k < 0) counts \<or> length offsets \<noteq> total \<or> total > mr_max_num_tokens mr
              then Inl ValueError
              else
                let arange = map2 (-) [0..<total] offsets;
                    positions = map2 (\<lambda>i k. computed ! i + int k) req_indices arange;
                    token_indices = map2 (\<lambda>p i. p + int (i * ib_max_model_len ib)) positions req_indices;
                    table_indices = map2 (\<lambda>p i. int (i * mr_max_num_blocks_per_req mr) + p div int (mr_block_size mr))
                                      positions req_indices in
                py_bind (index_select (concat (token_ids_cpu ib)) token_indices) (\<lambda>input_ids.
                py_bind (index_select (concat (bt_cpu (ib_block_table ib))) table_indices) (\<lambda>block_numbers.
                  let slots = map2 (\<lambda>b p. int b * int (mr_block_size mr) + p mod int (mr_block_size mr))
                                block_numbers positions;
                      seq_lens = map2 (\<lambda>c k. c + int k) (take n computed) ns in
                  Inr (\<lparr>pi_req_indices = req_indices, pi_positions = positions, pi_input_ids = input_ids,
                        pi_slot_mapping = slots, pi_query_start_loc = 0 # cu, pi_seq_lens = seq_lens,
                        pi_max_query_len = Max (set ns), pi_max_seq_len = Max (set seq_lens),
                        pi_common_prefix_len =
                          common_prefix_len (mr_block_size mr) (num_common_prefix_blocks out) (take n computed),
                        pi_logits_indices = map (\<lambda>c. int c - 1) cu\<rparr>,
                       mr\<lparr>mr_input_batch := ib\<rparr>))))))))"

section \<open>Encoder outputs\<close>

text \<open>
  An encoder output has one row per placeholder token; the slice of it a step needs is given by its
  request, input, and first and last row.
\<close>

type_synonym enc_slice = "enc_handle \<times> int \<times> int"

fun gather_positions ::
  "enc_dict \<Rightarrow> string \<Rightarrow> int \<Rightarrow> int \<Rightarrow> nat \<Rightarrow> PlaceholderRange list \<Rightarrow> enc_slice list py" where
  "gather_positions c rid computed n i [] = Inr []"
| "gather_positions c rid computed n i (p # ps) =
     (let start = pr_offset p; len = pr_length p in
      if start \<ge> computed + n then Inr []
      else if start + len \<le> computed then gather_positions c rid computed n (Suc i) ps
      else
        let lo = max (computed - start) 0; hi = min (computed - start + n) len in
        py_assert (lo < hi)
          (case map_of c rid of
             None \<Rightarrow> Inl AssertionError
           | Some m \<Rightarrow>
               (case map_of m i of
                  None \<Rightarrow> Inl AssertionError
                | Some h \<Rightarrow>
                    py_bind (gather_positions c rid computed n (Suc i) ps) (\<lambda>rest. Inr ((h, lo, hi) # rest)))))"

fun gather_requests ::
  "enc_dict \<Rightarrow> batch_map \<Rightarrow> (string \<times> int) list \<Rightarrow> string option list \<Rightarrow> enc_slice list py" where
  "gather_requests c reqs toks [] = Inr []"
| "gather_requests c reqs toks (r # rs) =
     (case r of
        None \<Rightarrow> Inl AssertionError
      | Some rid \<Rightarrow>
          (case map_of toks rid of
             None \<Rightarrow> Inl KeyError
           | Some n \<Rightarrow>
               (case reqs rid of
                  None \<Rightarrow> Inl KeyError
                | Some rq \<Rightarrow>
                    py_bind (gather_positions c rid (cs_num_computed_tokens rq) n 0 (cs_mm_positions rq)) (\<lambda>xs.
                      py_bind (gather_requests c reqs toks rs) (\<lambda>ys. Inr (xs @ ys))))))"

definition gather_encoder_outputs :: "GPUModelRunner \<Rightarrow> SchedulerOutput \<Rightarrow> enc_slice list py" where
  "gather_encoder_outputs mr out =
     (let ib = mr_input_batch mr in
      gather_requests (mr_encoder_cache mr) (mr_requests mr) (num_scheduled_tokens out)
        (take (ib_num_reqs ib) (ib_req_ids ib)))"

section \<open>Recording the sampled tokens\<close>

text \<open>
  The loops at the end of \<open>execute_model\<close>: row \<open>i\<close> of request \<open>rid\<close> has run up to \<open>seq_len\<close> tokens; when
  these are all tokens of the request, the sampled token is appended.  A rewound generator is the same
  generator.
\<close>

fun record_rows ::
  "int list \<Rightarrow> (string \<times> int) list \<Rightarrow> nat \<Rightarrow> string option list \<Rightarrow> batch_map \<Rightarrow> InputBatch \<Rightarrow> (batch_map \<times> InputBatch) py" where
  "record_rows sampled toks i [] reqs ib = Inr (reqs, ib)"
| "record_rows sampled toks i (r # rs) reqs ib =
     (case r of
        None \<Rightarrow> Inl AssertionError
      | Some rid \<Rightarrow>
          (case reqs rid of
             None \<Rightarrow> Inl KeyError
           | Some rq \<Rightarrow>
               (case map_of toks rid of
                  None \<Rightarrow> Inl KeyError
                | Some n \<Rightarrow>
                    let seq_len = cs_num_computed_tokens rq + n in
                    py_assert (seq_len \<le> int (cs_num_tokens rq))
                      (if seq_len = int (cs_num_tokens rq) then
                         if i \<ge> length sampled \<or> nat seq_len \<ge> length (token_ids_cpu ib ! i) then Inl IndexError
                         else
                           record_rows sampled toks (Suc i) rs
                             (reqs(rid \<mapsto> rq\<lparr>cs_output_token_ids := cs_output_token_ids rq @ [sampled ! i]\<rparr>))
                             (ib\<lparr>ib_num_tokens := (ib_num_tokens ib)[i := ib_num_tokens ib ! i + 1],
                                 token_ids_cpu := (token_ids_cpu ib)
                                   [i := (token_ids_cpu ib ! i)[nat seq_len := sampled ! i]]\<rparr>)
                       else record_rows sampled toks (Suc i) rs reqs ib))))"

definition record_samples :: "GPUModelRunner \<Rightarrow> SchedulerOutput \<Rightarrow> int list \<Rightarrow> (ModelRunnerOutput \<times> GPUModelRunner) py" where
  "record_samples mr out sampled =
     (let ib = mr_input_batch mr; n = ib_num_reqs ib in
      py_bind (record_rows sampled (num_scheduled_tokens out) 0 (take n (ib_req_ids ib)) (mr_requests mr) ib)
        (\<lambda>(reqs, ib').
          Inr (\<lparr>req_ids = map the (take n (ib_req_ids ib')),
                req_id_to_index = map_option int \<circ> map_of (ib_req_id_to_index ib'),
                sampled_token_ids = sampled\<rparr>,
               mr\<lparr>mr_requests := reqs, mr_input_batch := ib'\<rparr>)))"

text \<open>
  \<open>execute_model\<close>: \<open>net\<close> is the network with its sampler, a function of the gathered encoder outputs, the
  prepared inputs and the sampling metadata.
\<close>

definition execute_model ::
  "str_order \<Rightarrow> (enc_slice list \<Rightarrow> PreparedInputs \<Rightarrow> SamplingMetadata \<Rightarrow> int list) \<Rightarrow> bool \<Rightarrow> GPUModelRunner \<Rightarrow>
   SchedulerOutput \<Rightarrow> (ModelRunnerOutput \<times> GPUModelRunner) py" where
  "execute_model sord net is_multimodal mr out =
     py_bind (update_states sord mr out) (\<lambda>(changed, mr1).
     py_bind (if is_multimodal then gather_encoder_outputs mr1 out else Inr []) (\<lambda>enc.
     py_bind (prepare_inputs mr1 out) (\<lambda>(pinp, mr2).
     py_bind (make_sampling_metadata (mr_input_batch mr2)
                (\<lambda>rid. map_option cs_output_token_ids (mr_requests mr2 rid)) (\<not> changed)) (\<lambda>(md, ib).
       record_samples (mr2\<lparr>mr_input_batch := ib\<rparr>) out (net enc pinp md)))))"

section \<open>The vision encoder\<close>

text \<open>
  The end of \<open>_execute_encoder\<close>: the outputs are stored per request in a fresh dictionary.  The test that
  creates the entry of a request looks at \<open>self.encoder_cache\<close>, not at the new dictionary.
\<close>

definition store_encoder_output :: "enc_dict \<Rightarrow> (string \<times> nat) \<times> enc_handle \<Rightarrow> enc_dict \<Rightarrow> enc_dict py" where
  "store_encoder_output self_cache x c =
     (let rid = fst (fst x); i = snd (fst x);
          c' = (if map_of self_cache rid = None then AList.update rid [] c else c) in
      case map_of c' rid of
        None \<Rightarrow> Inl KeyError
      | Some m \<Rightarrow> Inr (AList.update rid (AList.update i (snd x) m) c'))"

fun store_encoder_outputs :: "enc_dict \<Rightarrow> ((string \<times> nat) \<times> enc_handle) list \<Rightarrow> enc_dict \<Rightarrow> enc_dict py" where
  "store_encoder_outputs self_cache [] c = Inr c"
| "store_encoder_outputs self_cache (x # xs) c =
     py_bind (store_encoder_output self_cache x c) (store_encoder_outputs self_cache xs)"

text \<open>The inputs of the batch, in the order of the scheduler's dictionary.\<close>

fun request_inputs :: "CachedRequestState \<Rightarrow> string \<Rightarrow> nat list \<Rightarrow> ((string \<times> nat) \<times> mm_kwargs option) list py" where
  "request_inputs rq rid [] = Inr []"
| "request_inputs rq rid (i # is) =
     (if i < length (cs_mm_inputs rq) then
        py_bind (request_inputs rq rid is) (\<lambda>xs. Inr (((rid, i), cs_mm_inputs rq ! i) # xs))
      else Inl IndexError)"

fun collect_encoder_inputs ::
  "batch_map \<Rightarrow> (string \<times> nat list) list \<Rightarrow> ((string \<times> nat) \<times> mm_kwargs option) list py" where
  "collect_encoder_inputs reqs [] = Inr []"
| "collect_encoder_inputs reqs ((rid, ids) # rest) =
     (case reqs rid of
        None \<Rightarrow> Inl KeyError
      | Some rq \<Rightarrow>
          py_bind (request_inputs rq rid ids) (\<lambda>xs.
            py_bind (collect_encoder_inputs reqs rest) (\<lambda>ys. Inr (xs @ ys))))"

text \<open>
  \<open>vision\<close> maps the batched inputs to their encoder outputs, one for each; grouping by modality keeps the
  order.  \<open>None\<close> is returned when nothing is scheduled.
\<close>

definition execute_encoder ::
  "(mm_kwargs option list \<Rightarrow> enc_handle list) \<Rightarrow> GPUModelRunner \<Rightarrow> (string \<times> nat list) list \<Rightarrow> enc_dict option py" where
  "execute_encoder vision mr scheduled =
     (if scheduled = [] then Inr None
      else
        py_bind (collect_encoder_inputs (mr_requests mr) scheduled) (\<lambda>xs.
          py_bind (store_encoder_outputs (mr_encoder_cache mr) (zip (map fst xs) (vision (map snd xs))) [])
            (\<lambda>c. Inr (Some c))))"


text \<open>
  \<open>update_for_encoder\<close>: the encoder's scheduler sends no block ids (\<open>None\<close>, here the empty list), and the
  encoder never reads them.
\<close>

definition new_encoder_state :: "EncNewRequestData \<Rightarrow> CachedRequestState" where
  "new_encoder_state d =
     \<lparr>cs_req_id = enr_req_id d, cs_prompt_token_ids = enr_prompt_token_ids d, cs_prompt = enr_prompt d,
      cs_mm_inputs = enr_mm_inputs d, cs_mm_positions = enr_mm_positions d,
      cs_sampling_params = enr_sampling_params d,
      cs_generator = (if sampling_type (enr_sampling_params d) = RANDOM_SEED
                      then sp_seed (enr_sampling_params d) else None),
      cs_block_ids = or_empty (enr_block_ids d), cs_num_computed_tokens = enr_num_computed_tokens d,
      cs_output_token_ids = []\<rparr>"

definition update_for_encoder :: "GPUModelRunner \<Rightarrow> EncSchedulerOutput \<Rightarrow> GPUModelRunner" where
  "update_for_encoder mr out =
     mr\<lparr>mr_requests := fold (\<lambda>d reqs. reqs(enr_req_id d \<mapsto> new_encoder_state d)) (eo_scheduled_new_reqs out)
                        (mr_requests mr)\<rparr>"

text \<open>\<open>execute_vision_encoder\<close> of the worker.\<close>

definition execute_vision_encoder ::
  "(mm_kwargs option list \<Rightarrow> enc_handle list) \<Rightarrow> GPUModelRunner \<Rightarrow> EncSchedulerOutput \<Rightarrow>
   (enc_dict option \<times> GPUModelRunner) py" where
  "execute_vision_encoder vision mr out =
     (let mr1 = update_for_encoder mr out in
      py_bind (execute_encoder vision mr1 (eo_scheduled_encoder_inputs out)) (\<lambda>c.
        Inr (if eo_scheduled_new_reqs out = [] then None else c, mr1)))"

end
