(* ===== verification/ModelRunnerProps.thy ===== *)
theory ModelRunnerProps
  imports ModelRunner
begin

text \<open>
  The model runner follows the scheduler: after \<open>_update_states\<close> the batch holds exactly the scheduled
  requests, without gaps and with the scheduler's block ids, and \<open>_prepare_inputs\<close> lays out the tokens of
  these requests with the slots of their blocks.
\<close>

section \<open>Batch sizes\<close>

definition same_size :: "InputBatch \<Rightarrow> InputBatch \<Rightarrow> bool" where
  "same_size ib ib' \<longleftrightarrow>
     ib_max_num_reqs ib' = ib_max_num_reqs ib \<and> ib_max_model_len ib' = ib_max_model_len ib \<and>
     ib_max_num_blocks_per_req ib' = ib_max_num_blocks_per_req ib"

lemma same_size_refl [simp]: "same_size ib ib"
  by (simp add: same_size_def)

lemma same_size_trans [trans]: "same_size a b \<Longrightarrow> same_size b c \<Longrightarrow> same_size a c"
  by (simp add: same_size_def)

lemma same_size_fits: "same_size a b \<Longrightarrow> request_fits b rq = request_fits a rq"
  by (simp add: same_size_def request_fits_def)

lemma remove_request_size [simp]: "same_size ib (snd (ib_remove_request ib rid))"
  by (simp add: ib_remove_request_def same_size_def split: option.split)

lemma gaps_rotate: "gaps ib (i # es) \<longleftrightarrow> gaps ib (es @ [i])"
  by (auto simp: gaps_def)

lemma batch_rep_dom: "batch_rep ib M \<Longrightarrow> dom (index_of ib) = dom M"
  by (simp add: batch_rep_def ib_rows_ok_def)

lemma remove_request_index:
  "index_of (snd (ib_remove_request ib rid)) = (index_of ib)(rid := None)"
  by (auto simp: ib_remove_request_def index_of_def split: option.split)

lemma gaps_size: "batch_rep ib M \<Longrightarrow> gaps ib es \<Longrightarrow> ib_num_reqs ib + length es = card (occupied ib \<union> set es)"
  by (simp add: gaps_def)

lemma restrict_map_UNIV [simp]: "m |` UNIV = m"
  by (simp add: fun_eq_iff)

lemma restrict_map_del: "(m(r := None)) |` (- set rs) = m |` (- set (r # rs))"
  by (auto simp: restrict_map_def fun_eq_iff)

section \<open>Removing requests\<close>

text \<open>Removing one request of the batch: the new state, its gaps and its size.\<close>

lemma remove_one:
  assumes "batch_rep ib M" and "gaps ib es" and "index_of ib rid = Some i" and "ib_remove_request ib rid = (x, ib')"
  shows "x = Some i" "batch_rep ib' (M(rid := None))" "gaps ib' (es @ [i])" "same_size ib ib'"
    "ib_num_reqs ib' + length (es @ [i]) = ib_num_reqs ib + length es"
    "index_of ib' = (index_of ib)(rid := None)"
proof -
  have ib': "ib' = snd (ib_remove_request ib rid)" "x = fst (ib_remove_request ib rid)"
    using assms(4) by simp_all
  note rm = remove_request_rep [OF assms(1), of rid]
  show x: "x = Some i" and rep': "batch_rep ib' (M(rid := None))"
    using rm assms(3) by (simp_all add: ib')
  show g: "gaps ib' (es @ [i])"
    using gaps_remove [OF assms(1,2,3)] by (simp add: ib' gaps_rotate)
  show "same_size ib ib'" "index_of ib' = (index_of ib)(rid := None)"
    by (simp_all add: ib' remove_request_index)
  have "i \<in> occupied ib"
    using assms by (auto simp: batch_rep_def occupied_iff)
  then have "occupied ib' \<union> set (es @ [i]) = occupied ib \<union> set es"
    using rm(3) assms(3) by (auto simp: ib')
  then show "ib_num_reqs ib' + length (es @ [i]) = ib_num_reqs ib + length es"
    using gaps_size [OF rep' g] gaps_size [OF assms(1,2)] by simp
qed

lemma remove_finished_rep:
  assumes "batch_rep ib M" and "gaps ib es" and "remove_finished ib es rids = (ib', es')"
  shows "batch_rep ib' (M |` (- set rids)) \<and> gaps ib' es' \<and> same_size ib ib' \<and>
     ib_num_reqs ib' + length es' = ib_num_reqs ib + length es \<and> index_of ib' = (index_of ib) |` (- set rids)"
  using assms
proof (induction rids arbitrary: ib es M)
  case (Cons rid rids)
  obtain x ib1 where r: "ib_remove_request ib rid = (x, ib1)" by fastforce
  show ?case
  proof (cases "index_of ib rid")
    case None
    then have x: "x = None" "ib1 = ib"
      using r by (auto simp: ib_remove_request_def index_of_def split: option.splits)
    have "M rid = None"
      using batch_rep_dom [OF Cons.prems(1)] None by (metis domIff)
    then have "M |` (- set (rid # rids)) = M |` (- set rids)"
      "index_of ib |` (- set (rid # rids)) = index_of ib |` (- set rids)"
      using None by (auto simp: restrict_map_def fun_eq_iff)
    moreover have "remove_finished ib es rids = (ib', es')"
      using Cons.prems(3) r x by simp
    ultimately show ?thesis
      using Cons.IH [OF Cons.prems(1,2)] by simp
  next
    case (Some i)
    note one = remove_one [OF Cons.prems(1,2) Some r]
    have f: "remove_finished ib1 (es @ [i]) rids = (ib', es')"
      using Cons.prems(3) r one(1) by simp
    show ?thesis
      using Cons.IH [OF one(2,3) f, unfolded one(6) restrict_map_del] one(4,5) by (auto intro: same_size_trans)
  qed
qed simp

lemma remove_unscheduled_rep:
  assumes "batch_rep ib M" and "gaps ib es" and "distinct rids" and "set rids \<subseteq> dom (index_of ib)"
  shows "\<exists>ib' es'. remove_unscheduled ib es rids = Inr (ib', es') \<and> batch_rep ib' (M |` (- set rids)) \<and> gaps ib' es' \<and>
     same_size ib ib' \<and> ib_num_reqs ib' + length es' = ib_num_reqs ib + length es \<and>
     index_of ib' = (index_of ib) |` (- set rids)"
  using assms
proof (induction rids arbitrary: ib es M)
  case (Cons rid rids)
  obtain x ib1 where r: "ib_remove_request ib rid = (x, ib1)" by fastforce
  obtain i where i: "index_of ib rid = Some i" using Cons.prems(4) by auto
  note one = remove_one [OF Cons.prems(1,2) i r]
  have "set rids \<subseteq> dom (index_of ib1)" using Cons.prems(3,4) one(6) by auto
  moreover have "distinct rids" using Cons.prems(3) by simp
  ultimately obtain ib' es' where IH: "remove_unscheduled ib1 (es @ [i]) rids = Inr (ib', es')"
    "batch_rep ib' (M |` (- set (rid # rids)))" "gaps ib' es'" "same_size ib1 ib'"
    "ib_num_reqs ib' + length es' = ib_num_reqs ib1 + length (es @ [i])"
    "index_of ib' = index_of ib |` (- set (rid # rids))"
    using Cons.IH [OF one(2,3)] unfolding one(6) restrict_map_del by blast
  then show ?case
    using one(1,5) r same_size_trans [OF one(4) IH(4)] by simp
qed simp

section \<open>Updating and adding requests\<close>

lemma append_row_extend:
  assumes i: "i < length (bt_cpu bt)" "i < length (num_blocks_per_row bt)"
    and old: "num_blocks_per_row bt ! i = length old" "take (length old) (bt_cpu bt ! i) = old"
    and fits: "start \<le> length old" "start + length new \<le> length (bt_cpu bt ! i)"
    and cut: "new = [] \<Longrightarrow> start = length old"
  shows "\<exists>row. append_row bt i start new =
      Inr (bt\<lparr>bt_cpu := (bt_cpu bt)[i := row], num_blocks_per_row := (num_blocks_per_row bt)[i := start + length new]\<rparr>) \<and>
      length row = length (bt_cpu bt ! i) \<and> take (start + length new) row = take start old @ new"
proof (cases "new = []")
  case True
  then have "start = length old" by (rule cut)
  then have "(num_blocks_per_row bt)[i := start] = num_blocks_per_row bt" "take start (bt_cpu bt ! i) = take start old"
    using old list_update_id [of "num_blocks_per_row bt" i] by simp_all
  then show ?thesis
    using True by (intro exI [of _ "bt_cpu bt ! i"]) (simp add: append_row_def)
next
  case False
  have "take start (bt_cpu bt ! i) = take start old"
    using old(2) fits(1) by (metis min.absorb1 take_take)
  then show ?thesis
    using False i fits
    by (intro exI [of _ "take start (bt_cpu bt ! i) @ new @ drop (start + length new) (bt_cpu bt ! i)"])
       (simp add: append_row_def np_assign_fits)
qed

text \<open>The batch after the update of one running request.\<close>

definition put_update :: "InputBatch \<Rightarrow> nat \<Rightarrow> CachedRequestData \<Rightarrow> BlockTable \<Rightarrow> InputBatch" where
  "put_update ib i d bt =
     ib\<lparr>num_computed_tokens_cpu := (num_computed_tokens_cpu ib)[i := cr_num_computed_tokens d], ib_block_table := bt\<rparr>"

lemma update_row_rep:
  assumes rep: "batch_rep ib M" and at: "index_of ib rid = Some i" "M rid = Some rq"
    and fits: "request_fits ib (update_cached_state d rq)"
  shows "\<exists>bt. append_row (ib_block_table ib) i
        (length (cs_block_ids (update_cached_state d rq)) - length (cr_new_block_ids d)) (cr_new_block_ids d) = Inr bt \<and>
      batch_rep (put_update ib i d bt) (M(rid \<mapsto> update_cached_state d rq)) \<and>
      same_size ib (put_update ib i d bt) \<and> occupied (put_update ib i d bt) = occupied ib \<and>
      index_of (put_update ib i d bt) = index_of ib \<and> ib_num_reqs (put_update ib i d bt) = ib_num_reqs ib"
proof -
  let ?bt = "ib_block_table ib" and ?rq = "update_cached_state d rq"
  let ?start = "length (cs_block_ids ?rq) - length (cr_new_block_ids d)"
  have sh: "ib_shape ib" and ks: "ib_keys_ok ib" and ix: "ib_index_ok ib"
    and rows: "ib_rows_ok ib M" and sets: "ib_sets_ok ib M"
    using rep by (simp_all add: batch_rep_def)
  note len = ib_shapeD [OF sh] and row = batch_rowD [OF rep at]
  have i: "i < ib_max_num_reqs ib" using at ix by (simp add: ib_index_iff)
  have st: "?start \<le> length (cs_block_ids rq)" "take ?start (cs_block_ids rq) @ cr_new_block_ids d = cs_block_ids ?rq"
    "?start + length (cr_new_block_ids d) = length (cs_block_ids ?rq)"
    by (auto simp: update_cached_state_def)
  have "\<exists>r. append_row ?bt i ?start (cr_new_block_ids d) =
      Inr (?bt\<lparr>bt_cpu := (bt_cpu ?bt)[i := r],
             num_blocks_per_row := (num_blocks_per_row ?bt)[i := ?start + length (cr_new_block_ids d)]\<rparr>) \<and>
      length r = length (bt_cpu ?bt ! i) \<and>
      take (?start + length (cr_new_block_ids d)) r = take ?start (cs_block_ids rq) @ cr_new_block_ids d"
    using i row(5,6) st fits
    by (intro append_row_extend) (auto simp: len request_fits_def update_cached_state_def split: if_splits)
  then obtain r where r: "append_row ?bt i ?start (cr_new_block_ids d) =
      Inr (?bt\<lparr>bt_cpu := (bt_cpu ?bt)[i := r], num_blocks_per_row := (num_blocks_per_row ?bt)[i := length (cs_block_ids ?rq)]\<rparr>)"
    "length r = ib_max_num_blocks_per_req ib" "take (length (cs_block_ids ?rq)) r = cs_block_ids ?rq"
    unfolding st using i by (auto simp: len)
  define bt' where "bt' = ?bt\<lparr>bt_cpu := (bt_cpu ?bt)[i := r],
      num_blocks_per_row := (num_blocks_per_row ?bt)[i := length (cs_block_ids ?rq)]\<rparr>"
  define ib' where "ib' = put_update ib i d bt'"
  note put = ib'_def put_update_def
  have io: "index_of ib' = index_of ib" and go: "gen_of ib' = gen_of ib"
    and fr: "ib_req_ids ib' = ib_req_ids ib" "ib_max_num_reqs ib' = ib_max_num_reqs ib"
    by (simp_all add: put index_of_def gen_of_def)
  have occ: "occupied ib' = occupied ib" by (simp add: occupied_def fr)
  have "ib_shape ib'"
    using sh ib_shape_upd(2) [OF sh r(2)] by (simp add: put bt'_def ib_shape_def)
  moreover have "ib_keys_ok ib'" using ks by (simp add: put ib_keys_ok_def)
  moreover have "ib_index_ok ib'"
    using ix by (simp add: ib_index_ok_def io go fr)
  moreover have "ib_rows_ok ib' (M(rid \<mapsto> ?rq))"
    unfolding ib_rows_ok_def io
  proof (intro conjI allI impI)
    show "dom (index_of ib) = dom (M(rid \<mapsto> ?rq))"
      using rows at by (auto simp: ib_rows_ok_def)
    fix s j rq'
    assume j: "index_of ib s = Some j" and rq': "(M(rid \<mapsto> ?rq)) s = Some rq'"
    have cid: "cs_req_id rq = rid" using rows at by (simp add: ib_rows_ok_def)
    show "cs_req_id rq' = s"
      using j rq' rows cid by (auto simp: ib_rows_ok_def update_cached_state_def split: if_splits)
    show "batch_row ib' j = state_row rq'"
    proof (cases "s = rid")
      case True
      then have "j = i" "rq' = ?rq" using j rq' at by simp_all
      then show ?thesis
        using row i r(3) unfolding batch_row_def state_row_def Let_def go
        by (simp add: put bt'_def len) (simp add: update_cached_state_def cs_num_tokens_def)
    next
      case False
      then have "j \<noteq> i" using j at by (auto simp: ib_index_iff [OF ix])
      then have "batch_row ib' j = batch_row ib j"
        by (intro batch_row_eq) (simp_all add: go, simp_all add: put bt'_def)
      then show ?thesis using j rq' False rows by (simp add: ib_rows_ok_def)
    qed
  qed
  moreover have "ib_sets_ok ib' (M(rid \<mapsto> ?rq))"
  proof -
    have "reqs_with (M(rid \<mapsto> ?rq)) P = reqs_with M P" for P
      using at by (auto simp: reqs_with_def update_cached_state_def)
    moreover have "Option.bind ((M(rid \<mapsto> ?rq)) s) f = Option.bind (M s) f"
      if "\<And>x. f (update_cached_state d x) = f x" for s and f :: "CachedRequestState \<Rightarrow> int option"
      using that at by simp
    ultimately show ?thesis
      using sets by (simp add: ib_sets_ok_def put update_cached_state_def)
  qed
  ultimately have "batch_rep ib' (M(rid \<mapsto> ?rq))" by (simp add: batch_rep_def)
  then show ?thesis
    using r(1) io occ by (auto simp: ib'_def bt'_def [symmetric] same_size_def put_update_def ib_num_reqs_def)
qed


text \<open>The cached states after the updates of the running and resumed requests.\<close>

definition updated_requests :: "batch_map \<Rightarrow> CachedRequestData list \<Rightarrow> batch_map" where
  "updated_requests reqs ds =
     fold (\<lambda>d m. m(cr_req_id d := map_option (update_cached_state d) (m (cr_req_id d)))) ds reqs"

lemma updated_requests_dom [simp]: "dom (updated_requests reqs ds) = dom reqs"
  unfolding updated_requests_def by (induction ds arbitrary: reqs) (auto split: if_splits)

lemma updated_requests_other: "rid \<notin> cr_req_id ` set ds \<Longrightarrow> updated_requests reqs ds rid = reqs rid"
  unfolding updated_requests_def by (induction ds arbitrary: reqs) auto

lemma gaps_cong: "occupied ib' = occupied ib \<Longrightarrow> ib_num_reqs ib' = ib_num_reqs ib \<Longrightarrow> gaps ib' es = gaps ib es"
  by (simp add: gaps_def)

lemma update_cached_reqs_rep:
  assumes "batch_rep ib (reqs |` D)" and "dom (index_of ib) = D"
    and "distinct (map cr_req_id ds)" and "cr_req_id ` set ds \<subseteq> dom reqs"
    and "\<forall>rid \<in> D. request_fits ib (the (updated_requests reqs ds rid))"
  shows "\<exists>ib'. update_cached_reqs reqs ib to_add ds =
       Inr (updated_requests reqs ds, ib', to_add @ filter (\<lambda>r. r \<notin> D) (map cr_req_id ds)) \<and>
     batch_rep ib' (updated_requests reqs ds |` D) \<and> same_size ib ib' \<and> occupied ib' = occupied ib \<and>
     ib_num_reqs ib' = ib_num_reqs ib \<and> index_of ib' = index_of ib"
  using assms
proof (induction ds arbitrary: reqs ib to_add)
  case (Cons d ds)
  let ?r = "cr_req_id d"
  obtain rq where rq: "reqs ?r = Some rq" using Cons.prems(4) by auto
  define reqs1 where "reqs1 = reqs(?r \<mapsto> update_cached_state d rq)"
  have u: "updated_requests reqs (d # ds) = updated_requests reqs1 ds"
    by (simp add: updated_requests_def reqs1_def rq)
  have at: "updated_requests reqs1 ds ?r = Some (update_cached_state d rq)"
    using Cons.prems(3) by (subst updated_requests_other) (auto simp: reqs1_def)
  have rest: "distinct (map cr_req_id ds)" "cr_req_id ` set ds \<subseteq> dom reqs1"
    using Cons.prems(3,4) by (auto simp: reqs1_def)
  show ?case
  proof (cases "index_of ib ?r")
    case None
    then have nd: "?r \<notin> D" using Cons.prems(2) by auto
    then have "reqs1 |` D = reqs |` D" by (auto simp: reqs1_def restrict_map_def fun_eq_iff)
    then have "batch_rep ib (reqs1 |` D)" using Cons.prems(1) by simp
    note IH = Cons.IH [OF this Cons.prems(2) rest Cons.prems(5) [unfolded u], of "to_add @ [?r]"]
    have "update_cached_reqs reqs ib to_add (d # ds) = update_cached_reqs reqs1 ib (to_add @ [?r]) ds"
      using None by (simp add: rq reqs1_def index_of_def)
    then show ?thesis
      using nd IH by (simp add: u)
  next
    case (Some i)
    then have d: "?r \<in> D" using Cons.prems(2) by auto
    have "(reqs |` D) ?r = Some rq" using d rq by simp
    moreover have "request_fits ib (update_cached_state d rq)"
      using Cons.prems(5) d at u by force
    ultimately obtain bt where bt: "append_row (ib_block_table ib) i
        (length (cs_block_ids (update_cached_state d rq)) - length (cr_new_block_ids d)) (cr_new_block_ids d) = Inr bt"
      "batch_rep (put_update ib i d bt) ((reqs |` D)(?r \<mapsto> update_cached_state d rq))"
      "same_size ib (put_update ib i d bt)" "occupied (put_update ib i d bt) = occupied ib"
      "index_of (put_update ib i d bt) = index_of ib" "ib_num_reqs (put_update ib i d bt) = ib_num_reqs ib"
      using update_row_rep [OF Cons.prems(1) Some] by blast
    have "(reqs |` D)(?r \<mapsto> update_cached_state d rq) = reqs1 |` D"
      using d by (auto simp: reqs1_def restrict_map_def fun_eq_iff)
    then have rep1: "batch_rep (put_update ib i d bt) (reqs1 |` D)" using bt(2) by simp
    have "\<forall>rid \<in> D. request_fits (put_update ib i d bt) (the (updated_requests reqs1 ds rid))"
      using Cons.prems(5) same_size_fits [OF bt(3)] u by auto
    from Cons.IH [OF rep1 _ rest this, of to_add] bt Cons.prems(2)
    obtain ib' where ib': "update_cached_reqs reqs1 (put_update ib i d bt) to_add ds =
        Inr (updated_requests reqs1 ds, ib', to_add @ filter (\<lambda>r. r \<notin> D) (map cr_req_id ds))"
      "batch_rep ib' (updated_requests reqs1 ds |` D)" "same_size (put_update ib i d bt) ib'" "occupied ib' = occupied ib"
      "ib_num_reqs ib' = ib_num_reqs ib" "index_of ib' = index_of ib" by auto
    have "update_cached_reqs reqs ib to_add (d # ds) = update_cached_reqs reqs1 (put_update ib i d bt) to_add ds"
      using Some bt(1) by (simp add: rq reqs1_def index_of_def put_update_def Let_def)
    then show ?thesis
      using d ib' same_size_trans [OF bt(3) ib'(3)] by (simp add: u)
  qed
qed (simp add: updated_requests_def)


lemma add_pending_rep:
  assumes "batch_rep ib (reqs |` D)" and "dom (index_of ib) = D" and "gaps ib es" and "sorted_wrt (>) es"
    and "distinct rids" and "set rids \<inter> D = {}"
    and "\<And>rid. rid \<in> set rids \<Longrightarrow> \<exists>rq. reqs rid = Some rq \<and> cs_req_id rq = rid \<and> request_fits ib rq"
    and "card D + length rids \<le> ib_max_num_reqs ib" and "ib_num_reqs ib + length es \<le> ib_max_num_reqs ib"
  shows "\<exists>ib' es'. add_pending reqs ib es rids = Inr (ib', es') \<and> batch_rep ib' (reqs |` (D \<union> set rids)) \<and>
     gaps ib' es' \<and> sorted_wrt (>) es' \<and> same_size ib ib' \<and> ib_num_reqs ib' + length es' \<le> ib_max_num_reqs ib'"
  using assms
proof (induction rids arbitrary: ib es D)
  case (Cons rid rids)
  obtain rq where rq: "reqs rid = Some rq" "cs_req_id rq = rid" "request_fits ib rq"
    using Cons.prems(7) by auto
  have nd: "rid \<notin> D" and new: "(reqs |` D) (cs_req_id rq) = None" using Cons.prems(6) rq(2) by auto
  have fin: "finite D"
    using Cons.prems(2) by (auto simp: index_of_def finite_dom_map_of)
  have M: "(reqs |` D)(cs_req_id rq \<mapsto> rq) = reqs |` insert rid D"
    using rq by (auto simp: restrict_map_def fun_eq_iff)
  have D1: "distinct rids" "set rids \<inter> insert rid D = {}" "card (insert rid D) + length rids \<le> ib_max_num_reqs ib"
    using Cons.prems(5,6,8) nd fin by auto
  define io where "io = (if es = [] then None else Some (last es))"
  define i where "i = (case io of None \<Rightarrow> ib_num_reqs ib | Some j \<Rightarrow> j)"
  have num: "ib_num_reqs ib = card D"
    using batch_rep_num_reqs [OF Cons.prems(1)] batch_rep_dom [OF Cons.prems(1)] Cons.prems(2) by simp
  have free: "i < ib_max_num_reqs ib" "i \<notin> occupied ib"
  proof -
    have "i < ib_max_num_reqs ib \<and> i \<notin> occupied ib"
    proof (cases "es = []")
      case True
      then show ?thesis
        using Cons.prems(3,8) num by (simp add: i_def io_def gaps_def)
    next
      case False
      then have "last es \<in> set es" by simp
      then have "last es \<notin> occupied ib" "last es \<in> {..<ib_num_reqs ib + length es}"
        using Cons.prems(3) unfolding gaps_def by blast+
      then show ?thesis using False Cons.prems(9) by (simp add: i_def io_def)
    qed
    then show "i < ib_max_num_reqs ib" "i \<notin> occupied ib" by simp_all
  qed
  obtain ib1 where ib1: "ib_add_request ib rq io = Inr ib1" "batch_rep ib1 (reqs |` insert rid D)"
    "occupied ib1 = insert i (occupied ib)" "same_size ib ib1"
    using add_request_rep [OF Cons.prems(1) rq(3) new i_def free] unfolding M same_size_def by blast
  have g1: "gaps ib1 (butlast es)"
  proof (cases "es = []")
    case True
    then show ?thesis
      using gaps_append [OF Cons.prems(1) ib1(2)] Cons.prems(3) ib1(3) by (simp add: i_def io_def)
  next
    case False
    then have "gaps ib (butlast es @ [i])" using Cons.prems(3) by (simp add: i_def io_def)
    then show ?thesis by (rule gaps_add [OF Cons.prems(1) ib1(2) _ ib1(3)])
  qed
  have s1: "sorted_wrt (>) (butlast es)"
  proof (cases "es = []")
    case False
    then have "sorted_wrt (>) (butlast es @ [last es])" using Cons.prems(4) by simp
    then show ?thesis by (simp add: sorted_wrt_append)
  qed simp
  have num1: "ib_num_reqs ib1 = Suc (ib_num_reqs ib)"
    using batch_rep_card [OF ib1(2)] batch_rep_card [OF Cons.prems(1)] ib1(3) free by simp
  have le1: "ib_num_reqs ib1 + length (butlast es) \<le> ib_max_num_reqs ib1"
    using num1 num Cons.prems(8,9) ib1(4) by (cases es) (auto simp: same_size_def)
  have dom1: "dom (index_of ib1) = insert rid D"
  proof -
    have "D \<subseteq> dom reqs"
      using batch_rep_dom [OF Cons.prems(1)] Cons.prems(2) by auto
    then show ?thesis using batch_rep_dom [OF ib1(2)] rq(1) by auto
  qed
  have fits1: "\<exists>rq. reqs r = Some rq \<and> cs_req_id rq = r \<and> request_fits ib1 rq" if "r \<in> set rids" for r
    using Cons.prems(7) [of r] that same_size_fits [OF ib1(4)] by simp
  have mx: "ib_max_num_reqs ib1 = ib_max_num_reqs ib" using ib1(4) by (simp add: same_size_def)
  obtain ib' es' where IH: "add_pending reqs ib1 (butlast es) rids = Inr (ib', es')"
    "batch_rep ib' (reqs |` (insert rid D \<union> set rids))" "gaps ib' es'" "sorted_wrt (>) es'" "same_size ib1 ib'"
    "ib_num_reqs ib' + length es' \<le> ib_max_num_reqs ib'"
    using Cons.IH [OF ib1(2) dom1 g1 s1 D1(1,2) fits1 _ le1] D1(3) mx by auto
  have "add_pending reqs ib es (rid # rids) = add_pending reqs ib1 (butlast es) rids"
    using rq(1) ib1(1) by (simp add: io_def split: if_splits)
  then show ?case
    using IH same_size_trans [OF ib1(4) IH(5)] by simp
qed simp

section \<open>The whole update\<close>

text \<open>\<open>sord\<close> lists a finite set, each element once.\<close>

definition lists_sets :: "str_order \<Rightarrow> bool" where
  "lists_sets sord \<longleftrightarrow> (\<forall>A. finite A \<longrightarrow> set (sord A) = A \<and> distinct (sord A))"

definition runner_ok :: "GPUModelRunner \<Rightarrow> bool" where
  "runner_ok mr \<longleftrightarrow>
     batch_rep (mr_input_batch mr) (mr_requests mr |` dom (index_of (mr_input_batch mr))) \<and>
     dense (mr_input_batch mr) \<and> (\<forall>rid rq. mr_requests mr rid = Some rq \<longrightarrow> cs_req_id rq = rid)"

text \<open>The cached states the scheduler's output asks for.\<close>

definition next_requests :: "GPUModelRunner \<Rightarrow> SchedulerOutput \<Rightarrow> batch_map" where
  "next_requests mr out =
     updated_requests (fold cache_new_request (scheduled_new_reqs out) (mr_requests mr |` (- out_finished_req_ids out)))
       (scheduled_cached_reqs out)"

text \<open>The encoder outputs that are kept: those of finished requests and those the scheduler frees are dropped.\<close>

definition next_encoder_cache :: "str_order \<Rightarrow> GPUModelRunner \<Rightarrow> SchedulerOutput \<Rightarrow> enc_dict" where
  "next_encoder_cache sord mr out =
     fold free_encoder_output (free_encoder_input_ids out)
       (fold AList.delete (sord (out_finished_req_ids out)) (mr_encoder_cache mr))"

text \<open>
  The output of a step fits the runner: the scheduled requests are the new ones, which are not in the
  batch, and the cached ones, which are known; all of them fit into the arrays.
\<close>

definition output_fits :: "GPUModelRunner \<Rightarrow> SchedulerOutput \<Rightarrow> bool" where
  "output_fits mr out \<longleftrightarrow>
     (let ib = mr_input_batch mr; news = map nr_req_id (scheduled_new_reqs out);
          cached = map cr_req_id (scheduled_cached_reqs out); S = fst ` set (num_scheduled_tokens out) in
      finite (out_finished_req_ids out) \<and> distinct (news @ cached) \<and> set (news @ cached) = S \<and>
      (\<forall>rid \<in> set news. rid \<in> out_finished_req_ids out \<or> index_of ib rid = None) \<and>
      (\<forall>rid \<in> set cached. rid \<notin> out_finished_req_ids out \<and> mr_requests mr rid \<noteq> None) \<and>
      card S \<le> ib_max_num_reqs ib \<and> (\<forall>rid \<in> S. request_fits ib (the (next_requests mr out rid))))"


lemma fold_remove: "fold (\<lambda>rid m. m(rid := None)) rids m = m |` (- set rids)"
  by (induction rids arbitrary: m) (simp_all only: fold_simps comp_apply list.set(1) Compl_empty_eq
      restrict_map_UNIV restrict_map_del id_apply)

lemma fold_new_other: "rid \<notin> nr_req_id ` set ds \<Longrightarrow> fold cache_new_request ds m rid = m rid"
  by (induction ds arbitrary: m) (auto simp: cache_new_request_def)

lemma fold_new_dom: "dom (fold cache_new_request ds m) = dom m \<union> nr_req_id ` set ds"
  by (induction ds arbitrary: m) (auto simp: cache_new_request_def)

text \<open>Every cached state carries the id it is stored under.\<close>

definition ids_ok :: "batch_map \<Rightarrow> bool" where
  "ids_ok m \<longleftrightarrow> (\<forall>rid rq. m rid = Some rq \<longrightarrow> cs_req_id rq = rid)"

lemma ids_ok_restrict: "ids_ok m \<Longrightarrow> ids_ok (m |` A)"
  by (auto simp: ids_ok_def restrict_map_def)

lemma ids_ok_upd: "ids_ok m \<Longrightarrow> cs_req_id rq = rid \<Longrightarrow> ids_ok (m(rid \<mapsto> rq))"
  by (simp add: ids_ok_def)

lemma ids_ok_new: "ids_ok m \<Longrightarrow> ids_ok (fold cache_new_request ds m)"
  by (induction ds arbitrary: m) (simp_all add: cache_new_request_def new_cached_state_def ids_ok_upd)

lemma ids_ok_upd_state: "ids_ok m \<Longrightarrow> ids_ok (m(rid := map_option (update_cached_state d) (m rid)))"
  by (cases "m rid") (simp_all add: ids_ok_def update_cached_state_def)

lemma ids_ok_updated: "ids_ok m \<Longrightarrow> ids_ok (updated_requests m ds)"
  unfolding updated_requests_def by (induction ds arbitrary: m) (simp_all add: ids_ok_upd_state)

lemma sorted_rev_sort: "distinct (xs :: nat list) \<Longrightarrow> sorted_wrt (>) (rev (sort xs))"
  using strict_sorted_iff [of "sort xs"] by (simp add: sorted_wrt_rev)

lemma gaps_sort: "gaps ib es \<Longrightarrow> gaps ib (rev (sort es))"
  by (simp add: gaps_def)

lemma index_keys: "fst ` set (ib_req_id_to_index ib) = dom (index_of ib)"
  by (simp add: index_of_def dom_map_of_conv_image_fst)

lemma finish_update:
  assumes "batch_rep ib M" and "gaps ib es" and "sorted_wrt (>) es" and "ib_num_reqs ib + length es \<le> ib_max_num_reqs ib"
  shows "\<exists>ib'. (if es \<noteq> [] then condense ib es else Inr ib) = Inr ib' \<and> batch_rep ib' M \<and> dense ib' \<and> same_size ib ib'"
  using condense_rep [OF assms] assms by (auto simp: same_size_def dense_iff_gaps)

lemma update_states_ok:
  assumes ok: "runner_ok mr" and sord: "lists_sets sord" and fit: "output_fits mr out"
  shows "\<exists>changed mr'. update_states sord mr out = Inr (changed, mr') \<and> runner_ok mr' \<and>
     mr_requests mr' = next_requests mr out \<and>
     dom (index_of (mr_input_batch mr')) = fst ` set (num_scheduled_tokens out) \<and>
     same_size (mr_input_batch mr) (mr_input_batch mr') \<and>
     mr_block_size mr' = mr_block_size mr \<and> mr_max_num_blocks_per_req mr' = mr_max_num_blocks_per_req mr \<and>
     mr_max_num_tokens mr' = mr_max_num_tokens mr \<and> mr_encoder_cache mr' = next_encoder_cache sord mr out"
proof -
  let ?ib = "mr_input_batch mr" and ?F = "out_finished_req_ids out" and ?fs = "sord (out_finished_req_ids out)"
  let ?news = "map nr_req_id (scheduled_new_reqs out)" and ?ds = "scheduled_cached_reqs out"
  let ?cached = "map cr_req_id ?ds" and ?S = "fst ` set (num_scheduled_tokens out)"
  define D0 where "D0 = dom (index_of ?ib)"
  define D1 where "D1 = D0 - ?F"
  define D2 where "D2 = D1 \<inter> ?S"
  define reqs1 where "reqs1 = mr_requests mr |` (- ?F)"
  define reqs2 where "reqs2 = fold cache_new_request (scheduled_new_reqs out) reqs1"
  define reqs3 where "reqs3 = updated_requests reqs2 ?ds"
  have F: "set ?fs = ?F" and dist: "distinct (?news @ ?cached)" and S: "set (?news @ ?cached) = ?S"
    and newD: "\<And>rid. rid \<in> set ?news \<Longrightarrow> rid \<in> ?F \<or> index_of ?ib rid = None"
    and cachedD: "\<And>rid. rid \<in> set ?cached \<Longrightarrow> rid \<notin> ?F \<and> mr_requests mr rid \<noteq> None"
    and cardS: "card ?S \<le> ib_max_num_reqs ?ib"
    and fits: "\<And>rid. rid \<in> ?S \<Longrightarrow> request_fits ?ib (the (reqs3 rid))"
    using fit sord by (auto simp: output_fits_def lists_sets_def Let_def next_requests_def reqs1_def reqs2_def reqs3_def)
  have rep0: "batch_rep ?ib (mr_requests mr |` D0)" and dense0: "gaps ?ib []" and ids0: "ids_ok (mr_requests mr)"
    using ok by (simp_all add: runner_ok_def D0_def dense_iff_gaps ids_ok_def)
  have le0: "ib_num_reqs ?ib \<le> ib_max_num_reqs ?ib"
    using ok dense_le_max by (simp add: runner_ok_def)
  obtain ib1 es1 where r1: "remove_finished ?ib [] ?fs = (ib1, es1)" by fastforce
  have rep1: "batch_rep ib1 (reqs1 |` D1)" and g1: "gaps ib1 es1" and sz1: "same_size ?ib ib1"
    and n1: "ib_num_reqs ib1 + length es1 = ib_num_reqs ?ib" and d1: "dom (index_of ib1) = D1"
  proof -
    note rf = remove_finished_rep [OF rep0 dense0 r1]
    have "(mr_requests mr |` D0) |` (- set ?fs) = reqs1 |` D1"
      by (auto simp: F reqs1_def D1_def restrict_map_def fun_eq_iff)
    then show "batch_rep ib1 (reqs1 |` D1)" "gaps ib1 es1" "same_size ?ib ib1"
      "ib_num_reqs ib1 + length es1 = ib_num_reqs ?ib" "dom (index_of ib1) = D1"
      using rf by (auto simp: F D1_def D0_def)
  qed
  have fin1: "finite D1" using d1 by (auto simp: index_of_def finite_dom_map_of)
  define us where "us = sord (D1 - ?S)"
  have us: "set us = D1 - ?S" "distinct us"
    using sord fin1 by (auto simp: us_def lists_sets_def)
  obtain ib2 es2 where r2: "remove_unscheduled ib1 es1 us = Inr (ib2, es2)"
    and rep2': "batch_rep ib2 ((reqs1 |` D1) |` (- set us))" and g2: "gaps ib2 es2" and sz2: "same_size ib1 ib2"
    and n2: "ib_num_reqs ib2 + length es2 = ib_num_reqs ib1 + length es1"
    and d2': "index_of ib2 = index_of ib1 |` (- set us)"
    using remove_unscheduled_rep [OF rep1 g1 us(2)] us(1) d1 by blast
  have d2: "dom (index_of ib2) = D2" using d2' d1 us by (auto simp: D2_def)
  have newsD2: "set ?news \<inter> D1 = {}" using newD by (fastforce simp: D1_def D0_def)
  have rep2: "batch_rep ib2 (reqs2 |` D2)"
  proof -
    have "reqs2 rid = reqs1 rid" if "rid \<in> D1" for rid
      using that newsD2 unfolding reqs2_def by (intro fold_new_other) auto
    then have "(reqs1 |` D1) |` (- set us) = reqs2 |` D2"
      using us(1) by (auto simp: D2_def restrict_map_def fun_eq_iff)
    then show ?thesis using rep2' by simp
  qed
  have sz02: "same_size ?ib ib2" using same_size_trans [OF sz1 sz2] .
  have dom2: "set ?cached \<subseteq> dom reqs2"
    using cachedD by (auto simp: reqs2_def fold_new_dom reqs1_def)
  have SD: "?S \<subseteq> dom reqs3"
    using dom2 unfolding S [symmetric] by (auto simp: reqs3_def reqs2_def fold_new_dom)
  obtain ib3 where r3: "update_cached_reqs reqs2 ib2 ?news ?ds = Inr (reqs3, ib3, ?news @ filter (\<lambda>r. r \<notin> D2) ?cached)"
    and rep3: "batch_rep ib3 (reqs3 |` D2)" and sz3: "same_size ib2 ib3" and o3: "occupied ib3 = occupied ib2"
    and n3: "ib_num_reqs ib3 = ib_num_reqs ib2" and d3: "index_of ib3 = index_of ib2"
  proof -
    have "\<forall>rid \<in> D2. request_fits ib2 (the (updated_requests reqs2 ?ds rid))"
      using fits same_size_fits [OF sz02] by (auto simp: D2_def reqs3_def)
    from update_cached_reqs_rep [OF rep2 d2 _ _ this, of ?news] dist dom2 that
    show thesis by (auto simp: reqs3_def)
  qed
  define add where "add = ?news @ filter (\<lambda>r. r \<notin> D2) ?cached"
  have add: "distinct add" "set add \<inter> D2 = {}" "D2 \<union> set add = ?S"
    using dist newsD2 S by (auto simp: add_def D2_def)
  have g3: "gaps ib3 (rev (sort es2))"
    using gaps_sort [OF g2] gaps_cong [OF o3 n3] by simp
  have sz03: "same_size ?ib ib3" using same_size_trans [OF sz02 sz3] .
  have card: "card D2 + length add \<le> ib_max_num_reqs ib3"
  proof -
    have "card D2 + card (set add) = card ?S"
      unfolding add(3) [symmetric]
      using add(2) fin1 by (intro card_Un_disjoint [symmetric]) (auto simp: D2_def)
    then show ?thesis using cardS add(1) sz03 by (simp add: distinct_card same_size_def)
  qed
  have le3: "ib_num_reqs ib3 + length (rev (sort es2)) \<le> ib_max_num_reqs ib3"
    using n1 n2 n3 le0 sz03 by (simp add: same_size_def)
  have addfits: "\<exists>rq. reqs3 rid = Some rq \<and> cs_req_id rq = rid \<and> request_fits ib3 rq" if "rid \<in> set add" for rid
  proof -
    have "rid \<in> ?S" using that add(3) by blast
    moreover from this obtain rq where "reqs3 rid = Some rq" using SD by blast
    moreover have "ids_ok reqs3"
      using ids0 unfolding reqs3_def reqs2_def reqs1_def by (intro ids_ok_updated ids_ok_new ids_ok_restrict)
    ultimately show ?thesis using fits [of rid] same_size_fits [OF sz03] by (simp add: ids_ok_def)
  qed
  have s3: "sorted_wrt (>) (rev (sort es2))"
    using g2 by (intro sorted_rev_sort) (simp add: gaps_def)
  obtain ib4 es4 where r4: "add_pending reqs3 ib3 (rev (sort es2)) add = Inr (ib4, es4)"
    and rep4: "batch_rep ib4 (reqs3 |` ?S)" and g4: "gaps ib4 es4" and s4: "sorted_wrt (>) es4"
    and sz4: "same_size ib3 ib4" and le4: "ib_num_reqs ib4 + length es4 \<le> ib_max_num_reqs ib4"
    using add_pending_rep [OF rep3 _ g3 s3 add(1,2) addfits card le3] d2 d3 add(3) by auto
  obtain ib5 where r5: "(if es4 \<noteq> [] then condense ib4 es4 else Inr ib4) = Inr ib5"
    and rep5: "batch_rep ib5 (reqs3 |` ?S)" and d5: "dense ib5" and sz5: "same_size ib4 ib5"
    using finish_update [OF rep4 g4 s4 le4] by blast
  have dom5: "dom (index_of ib5) = ?S"
    using batch_rep_dom [OF rep5] SD by auto
  have ids3: "ids_ok reqs3"
    using ids0 unfolding reqs3_def reqs2_def reqs1_def by (intro ids_ok_updated ids_ok_new ids_ok_restrict)
  have sz05: "same_size ?ib ib5"
    using same_size_trans [OF sz03 same_size_trans [OF sz4 sz5]] .
  have next3: "next_requests mr out = reqs3"
    by (simp add: next_requests_def reqs3_def reqs2_def reqs1_def)
  have "\<exists>changed. update_states sord mr out =
      Inr (changed, mr\<lparr>mr_encoder_cache := next_encoder_cache sord mr out, mr_requests := reqs3, mr_input_batch := ib5\<rparr>)"
    using r1 r2 r3 r4 r5
    by (auto simp: update_states_def next_encoder_cache_def Let_def fold_remove F index_keys d1 us_def [symmetric] add_def
        reqs1_def [symmetric] reqs2_def [symmetric])
  then show ?thesis
    using rep5 d5 ids3 dom5 sz05 by (auto simp: runner_ok_def ids_ok_def next3)
qed

end
