(* ===== verification/PrepareInputs.thy ===== *)
theory PrepareInputs
  imports ModelRunnerProps
begin

text \<open>
  The token layout of a step.  \<open>_prepare_inputs\<close> computes positions, token ids and slots with whole-array
  operations; here they are proved equal to the obvious loops over the requests and their tokens.
\<close>

section \<open>Array operations\<close>

lemma np_repeat_Nil [simp]: "np_repeat [] ns = []" "np_repeat xs [] = []"
  by (simp_all add: np_repeat_def)

lemma np_repeat_Cons [simp]: "np_repeat (x # xs) (n # ns) = replicate n x @ np_repeat xs ns"
  by (simp add: np_repeat_def)

lemma np_repeat_length: "length xs = length ns \<Longrightarrow> length (np_repeat xs ns) = sum_list ns"
  by (induction xs ns rule: list_induct2) simp_all

lemma np_repeat_map: "map f (np_repeat xs ns) = np_repeat (map f xs) ns"
proof (induction xs arbitrary: ns)
  case (Cons x xs)
  then show ?case by (cases ns) simp_all
qed simp

lemma np_cumsum_length [simp]: "length (np_cumsum a ns) = length ns"
  by (induction ns arbitrary: a) simp_all

lemma np_cumsum_nth: "i < length ns \<Longrightarrow> np_cumsum a ns ! i = a + sum_list (take (Suc i) ns)"
proof (induction ns arbitrary: a i)
  case (Cons n ns)
  then show ?case by (cases i) simp_all
qed simp

text \<open>The batched \<open>arange\<close>: subtracting the start of each request's range from \<open>0, 1, 2, ...\<close>.\<close>

lemma batched_arange:
  "map2 (-) [a..<a + sum_list ns] (np_repeat (map2 (-) (np_cumsum a ns) ns) ns) = concat (map (\<lambda>n. [0..<n]) ns)"
proof (induction ns arbitrary: a)
  case (Cons n ns)
  have upt: "[a..<a + sum_list (n # ns)] = [a..<a + n] @ [a + n..<(a + n) + sum_list ns]"
    using upt_add_eq_append [of a "a + n" "sum_list ns"] by (simp add: add.assoc)
  have "map2 (-) [a..<a + n] (replicate n a) = [0..<n]"
    by (rule nth_equalityI) simp_all
  then show ?case
    using Cons.IH [of "a + n"] unfolding upt by simp
qed simp

text \<open>Combining a repeated array with a concatenation of ranges, block by block.\<close>

lemma map2_repeat_concat:
  "length xs = length ns \<Longrightarrow>
   map2 f (np_repeat xs ns) (concat (map (\<lambda>n. [0..<n]) ns)) =
   concat (map2 (\<lambda>x n. map (f x) [0..<n]) xs ns)"
proof (induction xs ns rule: list_induct2)
  case (Cons x xs n ns)
  have "map2 f (replicate n x) [0..<n] = map (f x) [0..<n]"
    by (rule nth_equalityI) simp_all
  then show ?case using Cons by simp
qed simp

lemma map2_concat_repeat:
  "length xs = length ns \<Longrightarrow>
   map2 g (concat (map2 (\<lambda>x n. map (f x) [0..<n]) xs ns)) (np_repeat xs ns) =
   concat (map2 (\<lambda>x n. map (\<lambda>k. g (f x k) x) [0..<n]) xs ns)"
proof (induction xs ns rule: list_induct2)
  case (Cons x xs n ns)
  have "map2 g (map (f x) [0..<n]) (replicate n x) = map (\<lambda>k. g (f x k) x) [0..<n]"
    by (rule nth_equalityI) simp_all
  then show ?case using Cons by simp
qed simp

lemma map2_concat_concat:
  "length xs = length ns \<Longrightarrow>
   map2 h (concat (map2 (\<lambda>x n. map (f x) [0..<n]) xs ns)) (concat (map2 (\<lambda>x n. map (g x) [0..<n]) xs ns)) =
   concat (map2 (\<lambda>x n. map (\<lambda>k. h (f x k) (g x k)) [0..<n]) xs ns)"
proof (induction xs ns rule: list_induct2)
  case (Cons x xs n ns)
  have "map2 h (map (f x) [0..<n]) (map (g x) [0..<n]) = map (\<lambda>k. h (f x k) (g x k)) [0..<n]"
    by (rule nth_equalityI) simp_all
  then show ?case using Cons by simp
qed simp

lemma index_select_all:
  "(\<And>i. i \<in> set is \<Longrightarrow> 0 \<le> i \<and> nat i < length xs) \<Longrightarrow> index_select xs is = Inr (map (\<lambda>i. xs ! nat i) is)"
  by (induction "is") simp_all

text \<open>A flattened table.\<close>

lemma concat_nth_uniform:
  "(\<forall>row \<in> set rows. length row = m) \<Longrightarrow> i < length rows \<Longrightarrow> p < m \<Longrightarrow> concat rows ! (i * m + p) = rows ! i ! p"
proof (induction rows arbitrary: i)
  case (Cons row rows)
  then show ?case
    by (cases i) (simp_all add: nth_append)
qed simp

lemma concat_length_uniform: "(\<forall>row \<in> set rows. length row = m) \<Longrightarrow> length (concat rows) = length rows * m"
  by (induction rows) simp_all

lemma index_in_table: "i < r \<Longrightarrow> p < m \<Longrightarrow> i * m + p < r * (m :: nat)"
proof -
  assume "i < r" "p < m"
  then have "i * m + p < Suc i * m" by simp
  also have "\<dots> \<le> r * m" using \<open>i < r\<close> by (intro mult_le_mono1) simp
  finally show ?thesis .
qed

section \<open>The layout of a step\<close>

text \<open>
  The reference layout: for each row \<open>i\<close> of the batch, in order, its \<open>ns ! i\<close> tokens.
\<close>

definition layout :: "nat list \<Rightarrow> (nat \<Rightarrow> nat \<Rightarrow> 'a) \<Rightarrow> 'a list" where
  "layout ns f = concat (map (\<lambda>i. map (f i) [0..<ns ! i]) [0..<length ns])"

lemma layout_map2: "concat (map2 (\<lambda>x n. map (f x) [0..<n]) [0..<length ns] ns) = layout ns f"
  unfolding layout_def
  by (rule arg_cong [where f = concat], rule nth_equalityI) simp_all

lemma layout_cong: "(\<And>i k. i < length ns \<Longrightarrow> k < ns ! i \<Longrightarrow> f i k = g i k) \<Longrightarrow> layout ns f = layout ns g"
  unfolding layout_def by (intro arg_cong [where f = concat] map_cong) auto

lemma layout_length: "length (layout ns f) = sum_list ns"
  by (simp add: layout_def length_concat comp_def map_nth)

lemma set_layout: "set (layout ns f) = {f i k |i k. i < length ns \<and> k < ns ! i}"
  by (auto simp: layout_def) blast

lemma layout_Cons: "layout (n # ns) f = map (f 0) [0..<n] @ layout ns (\<lambda>i. f (Suc i))"
  by (simp add: layout_def upt_conv_Cons map_Suc_upt [symmetric] comp_def del: upt_Suc)

text \<open>Where token \<open>k\<close> of row \<open>i\<close> is.\<close>

lemma layout_nth:
  assumes "i < length ns" and "k < ns ! i"
  shows "layout ns f ! (sum_list (take i ns) + k) = f i k"
  using assms
proof (induction ns arbitrary: i f)
  case (Cons n ns)
  then show ?case
    using Cons.IH [of "i - 1" "\<lambda>i. f (Suc i)"] by (cases i) (simp_all add: layout_Cons nth_append add.assoc)
qed simp

lemma distinct_layout:
  assumes "\<And>i k j l. i < length ns \<Longrightarrow> k < ns ! i \<Longrightarrow> j < length ns \<Longrightarrow> l < ns ! j \<Longrightarrow> f i k = f j l \<Longrightarrow> i = j \<and> k = l"
  shows "distinct (layout ns f)"
  using assms
proof (induction ns arbitrary: f)
  case Nil
  then show ?case by (simp add: layout_def)
next
  case (Cons n ns)
  have "distinct (layout ns (\<lambda>i. f (Suc i)))"
    by (rule Cons.IH) (use Cons.prems [of "Suc _" _ "Suc _"] in auto)
  moreover have "distinct (map (f 0) [0..<n])"
    using Cons.prems [of 0 _ 0] by (auto simp: distinct_map inj_on_def)
  moreover have "set (map (f 0) [0..<n]) \<inter> set (layout ns (\<lambda>i. f (Suc i))) = {}"
    using Cons.prems [of 0 _ "Suc _"] by (auto simp: set_layout)
  ultimately show ?case by (simp add: layout_Cons)
qed

text \<open>
  The step fits the batch: every row has at least one token scheduled, the tokens exist, and the blocks of
  the request cover them.
\<close>

definition step_fits :: "GPUModelRunner \<Rightarrow> SchedulerOutput \<Rightarrow> bool" where
  "step_fits mr out \<longleftrightarrow>
     (let ib = mr_input_batch mr in
      0 < mr_block_size mr \<and> mr_max_num_blocks_per_req mr = ib_max_num_blocks_per_req ib \<and>
      0 < ib_num_reqs ib \<and> total_num_scheduled_tokens out \<le> int (mr_max_num_tokens mr) \<and>
      total_num_scheduled_tokens out = sum_list (map snd (num_scheduled_tokens out)) \<and>
      distinct (map fst (num_scheduled_tokens out)) \<and>
      fst ` set (num_scheduled_tokens out) = dom (index_of ib) \<and>
      (\<forall>(rid, n) \<in> set (num_scheduled_tokens out). \<exists>rq. mr_requests mr rid = Some rq \<and> 0 < n \<and>
         0 \<le> cs_num_computed_tokens rq \<and> cs_num_computed_tokens rq + n \<le> int (cs_num_tokens rq) \<and>
         cs_num_computed_tokens rq + n \<le> int (length (cs_block_ids rq) * mr_block_size mr)))"


lemma map_layout: "map g (layout ns f) = layout ns (\<lambda>i k. g (f i k))"
  by (simp add: layout_def map_concat comp_def)

lemma scheduled_counts_all:
  "(\<And>r. r \<in> set rs \<Longrightarrow> \<exists>rid. r = Some rid \<and> map_of toks rid \<noteq> None) \<Longrightarrow>
   scheduled_counts toks rs = Inr (map (\<lambda>r. the (map_of toks (the r))) rs)"
proof (induction rs)
  case (Cons r rs)
  from Cons.prems [of r] obtain rid n where "r = Some rid" "map_of toks rid = Some n" by auto
  with Cons show ?case by simp
qed simp

text \<open>The array code computes the reference layout, whatever the tables hold.\<close>

lemma positions_layout:
  assumes "length ns = n"
  shows "map2 (\<lambda>i k. c ! i + int k) (np_repeat [0..<n] ns)
           (map2 (-) [0..<sum_list ns] (np_repeat (map2 (-) (np_cumsum 0 ns) ns) ns)) = layout ns (\<lambda>i k. c ! i + int k)"
proof -
  have ar: "map2 (-) [0..<sum_list ns] (np_repeat (map2 (-) (np_cumsum 0 ns) ns) ns) = concat (map (\<lambda>n. [0..<n]) ns)"
    using batched_arange [of 0 ns] by simp
  show ?thesis
    unfolding ar using assms
    by (subst map2_repeat_concat) (simp_all add: layout_map2 [of "\<lambda>i k. c ! i + int k", symmetric])
qed

lemma layout_map2_repeat:
  assumes "length ns = n"
  shows "map2 g (layout ns f) (np_repeat [0..<n] ns) = layout ns (\<lambda>i k. g (f i k) i)"
  using map2_concat_repeat [of "[0..<length ns]" ns g f] by (simp add: layout_map2 flip: assms)

lemma layout_map2_layout: "map2 h (layout ns f) (layout ns g) = layout ns (\<lambda>i k. h (f i k) (g i k))"
  using map2_concat_concat [of "[0..<length ns]" ns h f g] by (simp add: layout_map2)

lemma index_select_layout:
  assumes "\<And>i k. i < length ns \<Longrightarrow> k < ns ! i \<Longrightarrow> 0 \<le> f i k \<and> nat (f i k) < length xs"
  shows "index_select xs (layout ns f) = Inr (layout ns (\<lambda>i k. xs ! nat (f i k)))"
  using assms by (subst index_select_all) (auto simp: set_layout map_layout)

text \<open>One row of a step: the request, its tokens and its place in the arrays.\<close>

lemma step_row:
  assumes ok: "runner_ok mr" and fit: "step_fits mr out" and i: "i < ib_num_reqs (mr_input_batch mr)"
  obtains rid rq n where "ib_req_ids (mr_input_batch mr) ! i = Some rid" "index_of (mr_input_batch mr) rid = Some i"
    "mr_requests mr rid = Some rq" "map_of (num_scheduled_tokens out) rid = Some n" "0 < n"
    "0 \<le> cs_num_computed_tokens rq" "cs_num_computed_tokens rq + n \<le> int (cs_num_tokens rq)"
    "cs_num_computed_tokens rq + n \<le> int (length (cs_block_ids rq) * mr_block_size mr)"
proof -
  let ?ib = "mr_input_batch mr"
  have rep: "batch_rep ?ib (mr_requests mr |` dom (index_of ?ib))" and d: "dense ?ib"
    using ok by (simp_all add: runner_ok_def)
  from dense_req_ids [OF rep d i] obtain rid where
    rid: "ib_req_ids ?ib ! i = Some rid" "index_of ?ib rid = Some i" by blast
  then have "rid \<in> fst ` set (num_scheduled_tokens out)"
    using fit by (auto simp: step_fits_def Let_def)
  then obtain n where n: "(rid, n) \<in> set (num_scheduled_tokens out)" by force
  then have "map_of (num_scheduled_tokens out) rid = Some n"
    using fit by (simp add: step_fits_def Let_def)
  with rid n show thesis
    using that fit unfolding step_fits_def Let_def by blast
qed


text \<open>What the arrays of a step should say about one request.\<close>

definition row_prepared :: "GPUModelRunner \<Rightarrow> PreparedInputs \<Rightarrow> nat \<Rightarrow> CachedRequestState \<Rightarrow> int \<Rightarrow> bool" where
  "row_prepared mr pinp i rq n \<longleftrightarrow>
     (let bs = int (mr_block_size mr); start = pi_query_start_loc pinp ! i in
      pi_seq_lens pinp ! i = cs_num_computed_tokens rq + n \<and>
      pi_query_start_loc pinp ! Suc i = start + nat n \<and>
      pi_logits_indices pinp ! i = int start + n - 1 \<and>
      (\<forall>k < nat n.
         let p = cs_num_computed_tokens rq + int k in
         pi_positions pinp ! (start + k) = p \<and>
         pi_input_ids pinp ! (start + k) = (cs_prompt_token_ids rq @ cs_output_token_ids rq) ! nat p \<and>
         pi_slot_mapping pinp ! (start + k) = int (cs_block_ids rq ! nat (p div bs)) * bs + p mod bs))"

text \<open>The counts of a step, row by row.\<close>

definition row_counts :: "GPUModelRunner \<Rightarrow> SchedulerOutput \<Rightarrow> nat list" where
  "row_counts mr out =
     map (\<lambda>i. nat (the (map_of (num_scheduled_tokens out) (the (ib_req_ids (mr_input_batch mr) ! i)))))
       [0..<ib_num_reqs (mr_input_batch mr)]"

lemma row_counts_length [simp]: "length (row_counts mr out) = ib_num_reqs (mr_input_batch mr)"
  by (simp add: row_counts_def)

lemma row_counts_total:
  assumes ok: "runner_ok mr" and fit: "step_fits mr out"
  shows "int (sum_list (row_counts mr out)) = total_num_scheduled_tokens out"
proof -
  let ?ib = "mr_input_batch mr" and ?toks = "num_scheduled_tokens out"
  let ?n = "ib_num_reqs ?ib" and ?rid = "\<lambda>i. the (ib_req_ids ?ib ! i)"
  have rep: "batch_rep ?ib (mr_requests mr |` dom (index_of ?ib))" and d: "dense ?ib"
    using ok by (simp_all add: runner_ok_def)
  have inj: "inj_on ?rid {0..<?n}"
  proof (rule inj_onI)
    fix i j assume ij: "i \<in> {0..<?n}" "j \<in> {0..<?n}" "?rid i = ?rid j"
    then show "i = j"
      by (auto elim!: dense_req_ids [OF rep d, of i] dense_req_ids [OF rep d, of j])
  qed
  have img: "?rid ` {0..<?n} = fst ` set ?toks"
  proof -
    have "?rid ` {0..<?n} = dom (index_of ?ib)"
    proof (intro set_eqI iffI)
      fix r assume "r \<in> ?rid ` {0..<?n}"
      then show "r \<in> dom (index_of ?ib)" by (auto elim!: dense_req_ids [OF rep d])
    next
      fix r assume "r \<in> dom (index_of ?ib)"
      then obtain i where i: "index_of ?ib r = Some i" by blast
      then have "i < ?n" by (rule dense_index [OF rep d])
      moreover have "ib_req_ids ?ib ! i = Some r"
        using i rep ib_index_iff [of ?ib r i] by (simp add: batch_rep_def)
      ultimately show "r \<in> ?rid ` {0..<?n}" by (auto intro: rev_image_eqI [of i])
    qed
    then show ?thesis using fit by (simp add: step_fits_def Let_def)
  qed
  have dk: "distinct (map fst ?toks)" using fit by (simp add: step_fits_def Let_def)
  have "int (sum_list (row_counts mr out)) = (\<Sum>i\<in>{0..<?n}. the (map_of ?toks (?rid i)))"
  proof -
    have "int (nat (the (map_of ?toks (?rid i)))) = the (map_of ?toks (?rid i))" if "i < ?n" for i
      using step_row [OF ok fit that] by (metis less_imp_le nat_0_le option.sel)
    then show ?thesis
      by (simp add: row_counts_def interv_sum_list_conv_sum_set_nat)
  qed
  also have "\<dots> = (\<Sum>r\<in>fst ` set ?toks. the (map_of ?toks r))"
    using sum.reindex [OF inj, of "\<lambda>r. the (map_of ?toks r)"] by (simp add: img)
  also have "\<dots> = sum_list (map (\<lambda>r. the (map_of ?toks r)) (map fst ?toks))"
    using sum_list_distinct_conv_sum_set [OF dk, of "\<lambda>r. the (map_of ?toks r)"] by simp
  also have "map (\<lambda>r. the (map_of ?toks r)) (map fst ?toks) = map snd ?toks"
    using dk by (auto simp: map_of_is_SomeI)
  finally show ?thesis using fit by (simp add: step_fits_def Let_def)
qed


lemma nth_of_take: "take m xs = ys \<Longrightarrow> i < length ys \<Longrightarrow> xs ! i = ys ! i"
  by auto

text \<open>The table entries of one token: its id in the token table and its block in the block table.\<close>

lemma token_cell:
  assumes ok: "runner_ok mr" and fit: "step_fits mr out"
    and at: "index_of (mr_input_batch mr) rid = Some i" "mr_requests mr rid = Some rq"
    and p: "0 \<le> p" "p < int (cs_num_tokens rq)" "p < int (length (cs_block_ids rq) * mr_block_size mr)"
  defines "ib \<equiv> mr_input_batch mr"
  shows "nat (p + int (i * ib_max_model_len ib)) < length (concat (token_ids_cpu ib))"
    and "concat (token_ids_cpu ib) ! nat (p + int (i * ib_max_model_len ib)) =
         (cs_prompt_token_ids rq @ cs_output_token_ids rq) ! nat p"
    and "nat (int (i * ib_max_num_blocks_per_req ib) + p div int (mr_block_size mr)) < length (concat (bt_cpu (ib_block_table ib)))"
    and "concat (bt_cpu (ib_block_table ib)) ! nat (int (i * ib_max_num_blocks_per_req ib) + p div int (mr_block_size mr)) =
         cs_block_ids rq ! nat (p div int (mr_block_size mr))"
proof -
  have rep: "batch_rep ib (mr_requests mr |` dom (index_of ib))"
    using ok by (simp add: runner_ok_def ib_def)
  have at': "index_of ib rid = Some i" "(mr_requests mr |` dom (index_of ib)) rid = Some rq"
    using at by (auto simp: ib_def restrict_map_def)
  note row = batch_rowD [OF rep at']
  have sh: "ib_shape ib" and ix: "ib_index_ok ib" using rep by (simp_all add: batch_rep_def)
  have i: "i < ib_max_num_reqs ib" using at' ib_index_iff [OF ix] by simp
  have tl: "\<forall>r \<in> set (token_ids_cpu ib). length r = ib_max_model_len ib"
    and bl: "\<forall>r \<in> set (bt_cpu (ib_block_table ib)). length r = ib_max_num_blocks_per_req ib"
    using sh by (simp_all add: ib_shape_def)
  have len: "length (token_ids_cpu ib) = ib_max_num_reqs ib" "length (bt_cpu (ib_block_table ib)) = ib_max_num_reqs ib"
    using sh by (simp_all add: ib_shapeD)
  define q where "q = nat p"
  define b where "b = q div mr_block_size mr"
  have pq: "p = int q" and bq: "p div int (mr_block_size mr) = int b"
    using p(1) by (simp_all add: q_def b_def zdiv_int)
  have q: "q < cs_num_tokens rq" using p(2) pq by simp
  have qm: "q < ib_max_model_len ib"
  proof -
    have "length (take (cs_num_tokens rq) (token_ids_cpu ib ! i)) = cs_num_tokens rq"
      unfolding row(2) by (simp add: cs_num_tokens_def)
    then have "cs_num_tokens rq \<le> ib_max_model_len ib"
      using ib_shapeD(5) [OF sh i] by simp
    then show ?thesis using q by simp
  qed
  have b: "b < length (cs_block_ids rq)"
  proof -
    have "q < length (cs_block_ids rq) * mr_block_size mr"
      using p(3) unfolding pq by (simp only: of_nat_less_iff)
    then show ?thesis by (simp add: b_def less_mult_imp_div_less)
  qed
  have bm: "b < ib_max_num_blocks_per_req ib"
  proof -
    have "length (take (length (cs_block_ids rq)) (bt_cpu (ib_block_table ib) ! i)) = length (cs_block_ids rq)"
      unfolding row(6) ..
    then have "length (cs_block_ids rq) \<le> ib_max_num_blocks_per_req ib"
      using ib_shapeD(6) [OF sh i] by simp
    then show ?thesis using b by simp
  qed
  have ti: "nat (p + int (i * ib_max_model_len ib)) = i * ib_max_model_len ib + q"
    and bi: "nat (int (i * ib_max_num_blocks_per_req ib) + p div int (mr_block_size mr)) = i * ib_max_num_blocks_per_req ib + b"
    unfolding bq by (simp_all add: pq nat_add_distrib flip: of_nat_mult of_nat_add)
  show "nat (p + int (i * ib_max_model_len ib)) < length (concat (token_ids_cpu ib))"
    unfolding ti using i qm by (simp add: concat_length_uniform [OF tl] len index_in_table del: length_concat)
  show "nat (int (i * ib_max_num_blocks_per_req ib) + p div int (mr_block_size mr)) < length (concat (bt_cpu (ib_block_table ib)))"
    unfolding bi using i bm by (simp add: concat_length_uniform [OF bl] len index_in_table)
  have "concat (token_ids_cpu ib) ! (i * ib_max_model_len ib + q) = token_ids_cpu ib ! i ! q"
    using concat_nth_uniform [OF tl] i qm len by simp
  also have "\<dots> = (cs_prompt_token_ids rq @ cs_output_token_ids rq) ! q"
    using nth_of_take [OF row(2)] q by (simp add: cs_num_tokens_def)
  finally show "concat (token_ids_cpu ib) ! nat (p + int (i * ib_max_model_len ib)) =
      (cs_prompt_token_ids rq @ cs_output_token_ids rq) ! nat p"
    by (simp only: ti q_def)
  have "concat (bt_cpu (ib_block_table ib)) ! (i * ib_max_num_blocks_per_req ib + b) = bt_cpu (ib_block_table ib) ! i ! b"
    using concat_nth_uniform [OF bl] i bm len by simp
  also have "\<dots> = cs_block_ids rq ! b"
    using nth_of_take [OF row(6)] b by simp
  finally show "concat (bt_cpu (ib_block_table ib)) ! nat (int (i * ib_max_num_blocks_per_req ib) + p div int (mr_block_size mr)) =
      cs_block_ids rq ! nat (p div int (mr_block_size mr))"
    unfolding bi by (simp add: bq)
qed


lemma commit_rep:
  assumes "batch_rep ib M"
  shows "batch_rep (ib\<lparr>ib_block_table := bt_commit (ib_block_table ib) n\<rparr>) M" (is "batch_rep ?ib _")
proof -
  have "index_of ?ib = index_of ib" "gen_of ?ib = gen_of ib"
    by (simp_all add: index_of_def gen_of_def)
  moreover have "batch_row ?ib j = batch_row ib j" for j
    by (simp add: batch_row_def bt_commit_def gen_of_def Let_def)
  ultimately show ?thesis
    using assms by (simp add: batch_rep_defs ib_shape_def) (simp add: bt_commit_def)
qed

text \<open>The runner after the block table has been committed: the only change \<open>prepare_inputs\<close> makes.\<close>

definition committed :: "GPUModelRunner \<Rightarrow> GPUModelRunner" where
  "committed mr =
     (let ib = mr_input_batch mr in
      mr\<lparr>mr_input_batch := ib\<lparr>ib_block_table := bt_commit (ib_block_table ib) (ib_num_reqs ib)\<rparr>\<rparr>)"

lemma committed_simps [simp]:
  "mr_requests (committed mr) = mr_requests mr" "mr_encoder_cache (committed mr) = mr_encoder_cache mr"
  "mr_block_size (committed mr) = mr_block_size mr" "mr_max_num_tokens (committed mr) = mr_max_num_tokens mr"
  "mr_max_num_blocks_per_req (committed mr) = mr_max_num_blocks_per_req mr"
  "index_of (mr_input_batch (committed mr)) = index_of (mr_input_batch mr)"
  "ib_num_reqs (mr_input_batch (committed mr)) = ib_num_reqs (mr_input_batch mr)"
  "same_size (mr_input_batch mr) (mr_input_batch (committed mr))"
  by (simp_all add: committed_def Let_def index_of_def ib_num_reqs_def same_size_def)

lemma committed_ok: "runner_ok mr \<Longrightarrow> runner_ok (committed mr)"
proof -
  let ?ib = "mr_input_batch mr"
  assume ok: "runner_ok mr"
  then have "batch_rep (mr_input_batch (committed mr)) (mr_requests mr |` dom (index_of ?ib))"
    by (simp add: runner_ok_def committed_def Let_def commit_rep)
  moreover have "dense (mr_input_batch (committed mr))"
    using ok by (simp add: runner_ok_def committed_def Let_def dense_def occupied_def ib_num_reqs_def)
  ultimately show ?thesis using ok by (simp add: runner_ok_def)
qed

text \<open>The rows of a step that fits: as many as the batch has requests, each with a token.\<close>

lemma row_counts_pos:
  assumes ok: "runner_ok mr" and fit: "step_fits mr out" and i: "i < ib_num_reqs (mr_input_batch mr)"
  shows "0 < row_counts mr out ! i"
  using step_row [OF ok fit i] i unfolding row_counts_def by force

lemma row_counts_Max:
  assumes ok: "runner_ok mr" and fit: "step_fits mr out"
  shows "0 < Max (set (map int (row_counts mr out)))" "0 < total_num_scheduled_tokens out"
proof -
  let ?ns = "row_counts mr out"
  have n0: "0 < ib_num_reqs (mr_input_batch mr)" using fit by (simp add: step_fits_def Let_def)
  note pos = row_counts_pos [OF ok fit n0]
  have mem: "?ns ! 0 \<in> set ?ns" using n0 by simp
  then have "int (?ns ! 0) \<le> Max (set (map int ?ns))" by (intro Max_ge) simp_all
  then show "0 < Max (set (map int ?ns))" using pos by linarith
  have "?ns ! 0 \<le> sum_list ?ns" using mem by (intro member_le_sum_list) simp_all
  then show "0 < total_num_scheduled_tokens out" using pos row_counts_total [OF ok fit] by linarith
qed

lemma row_counts_scheduled:
  assumes ok: "runner_ok mr" and fit: "step_fits mr out"
  shows "scheduled_counts (num_scheduled_tokens out)
      (take (ib_num_reqs (mr_input_batch mr)) (ib_req_ids (mr_input_batch mr))) = Inr (map int (row_counts mr out))"
proof -
  define ib where "ib = mr_input_batch mr"
  define n where "n = ib_num_reqs ib"
  let ?toks = "num_scheduled_tokens out" and ?ns = "row_counts mr out"
  have rep: "batch_rep ib (mr_requests mr |` dom (index_of ib))" and d: "dense ib"
    using ok by (simp_all add: runner_ok_def ib_def)
  have nl: "n \<le> length (ib_req_ids ib)"
    using dense_le_max [OF d] rep by (simp add: n_def batch_rep_def ib_shapeD)
  have len: "length ?ns = n" by (simp add: n_def ib_def)
  have eq: "the (map_of ?toks (the (ib_req_ids ib ! i))) = int (?ns ! i)" if "i < n" for i
    using that step_row [OF ok fit, of i] unfolding n_def ib_def row_counts_def
    by (metis (no_types, lifting) add.left_neutral diff_zero less_imp_le length_upt nat_0_le nth_map nth_upt option.sel)
  have "\<exists>rid. r = Some rid \<and> map_of ?toks rid \<noteq> None" if "r \<in> set (take n (ib_req_ids ib))" for r
    using that step_row [OF ok fit] by (auto simp: in_set_conv_nth n_def ib_def) (metis option.distinct(1))
  from scheduled_counts_all [OF this] show ?thesis
    unfolding ib_def [symmetric] n_def [symmetric] using eq nl len by (auto intro!: nth_equalityI)
qed

text \<open>The cells of the token table and of the block table that token \<open>k\<close> of row \<open>i\<close> is read from.\<close>

definition row_position :: "GPUModelRunner \<Rightarrow> nat \<Rightarrow> nat \<Rightarrow> int" where
  "row_position mr i k = num_computed_tokens_cpu (mr_input_batch mr) ! i + int k"

definition token_at :: "GPUModelRunner \<Rightarrow> nat \<Rightarrow> nat \<Rightarrow> int" where
  "token_at mr i k =
     concat (token_ids_cpu (mr_input_batch mr)) !
       nat (row_position mr i k + int (i * ib_max_model_len (mr_input_batch mr)))"

definition block_at :: "GPUModelRunner \<Rightarrow> nat \<Rightarrow> nat \<Rightarrow> nat" where
  "block_at mr i k =
     concat (bt_cpu (ib_block_table (mr_input_batch mr))) !
       nat (int (i * ib_max_num_blocks_per_req (mr_input_batch mr)) + row_position mr i k div int (mr_block_size mr))"

definition slot_at :: "GPUModelRunner \<Rightarrow> nat \<Rightarrow> nat \<Rightarrow> int" where
  "slot_at mr i k = int (block_at mr i k) * int (mr_block_size mr) + row_position mr i k mod int (mr_block_size mr)"

lemma row_cell:
  assumes ok: "runner_ok mr" and fit: "step_fits mr out" and at: "index_of (mr_input_batch mr) rid = Some i"
    "mr_requests mr rid = Some rq" "map_of (num_scheduled_tokens out) rid = Some n"
  shows "i < ib_num_reqs (mr_input_batch mr)" "row_counts mr out ! i = nat n" "0 < n"
    "row_position mr i k = cs_num_computed_tokens rq + int k"
    "k < nat n \<Longrightarrow> 0 \<le> row_position mr i k" "k < nat n \<Longrightarrow> row_position mr i k < int (cs_num_tokens rq)"
    "k < nat n \<Longrightarrow> row_position mr i k < int (length (cs_block_ids rq) * mr_block_size mr)"
proof -
  let ?ib = "mr_input_batch mr"
  have rep: "batch_rep ?ib (mr_requests mr |` dom (index_of ?ib))" and d: "dense ?ib"
    using ok by (simp_all add: runner_ok_def)
  show i: "i < ib_num_reqs ?ib" by (rule dense_index [OF rep d at(1)])
  have rid: "ib_req_ids ?ib ! i = Some rid"
    using at(1) rep ib_index_iff [of ?ib rid i] by (simp add: batch_rep_def)
  show nm: "row_counts mr out ! i = nat n" using i at(3) rid by (simp add: row_counts_def)
  have m: "0 < n" "0 \<le> cs_num_computed_tokens rq" "cs_num_computed_tokens rq + n \<le> int (cs_num_tokens rq)"
    "cs_num_computed_tokens rq + n \<le> int (length (cs_block_ids rq) * mr_block_size mr)"
    using step_row [OF ok fit i] rid at by (metis option.inject)+
  have M: "(mr_requests mr |` dom (index_of ?ib)) rid = Some rq" using at by (auto simp: restrict_map_def)
  show p: "row_position mr i k = cs_num_computed_tokens rq + int k"
    unfolding row_position_def using batch_rowD(4) [OF rep at(1) M] by simp
  show "0 < n" by (fact m(1))
  show "k < nat n \<Longrightarrow> 0 \<le> row_position mr i k" "k < nat n \<Longrightarrow> row_position mr i k < int (cs_num_tokens rq)"
    "k < nat n \<Longrightarrow> row_position mr i k < int (length (cs_block_ids rq) * mr_block_size mr)"
    unfolding p using m by linarith+
qed

lemma row_in_tables:
  assumes ok: "runner_ok mr" and fit: "step_fits mr out"
    and "i < ib_num_reqs (mr_input_batch mr)" and "k < row_counts mr out ! i"
  shows "0 \<le> row_position mr i k \<and>
      nat (row_position mr i k + int (i * ib_max_model_len (mr_input_batch mr)))
        < length (concat (token_ids_cpu (mr_input_batch mr))) \<and>
      nat (int (i * ib_max_num_blocks_per_req (mr_input_batch mr)) + row_position mr i k div int (mr_block_size mr))
        < length (concat (bt_cpu (ib_block_table (mr_input_batch mr))))"
proof -
  obtain rid rq n where at: "index_of (mr_input_batch mr) rid = Some i" "mr_requests mr rid = Some rq"
      "map_of (num_scheduled_tokens out) rid = Some n"
    using step_row [OF ok fit assms(3)] by metis
  note c = row_cell [OF ok fit at]
  have k: "k < nat n" using assms(4) c(2) by simp
  note p = c(5) [OF k] c(6) [OF k] c(7) [OF k]
  show ?thesis using p(1) token_cell(1,3) [OF ok fit at(1,2) p] by blast
qed

text \<open>
  The reference for the whole routine: the arrays of a step, written token by token.
\<close>

definition prepared :: "GPUModelRunner \<Rightarrow> SchedulerOutput \<Rightarrow> PreparedInputs" where
  "prepared mr out =
     (let ns = row_counts mr out; n = length ns; c = num_computed_tokens_cpu (mr_input_batch mr);
          seq_lens = map2 (\<lambda>c k. c + int k) (take n c) ns in
      \<lparr>pi_req_indices = np_repeat [0..<n] ns, pi_positions = layout ns (row_position mr),
       pi_input_ids = layout ns (token_at mr), pi_slot_mapping = layout ns (slot_at mr),
       pi_query_start_loc = 0 # np_cumsum 0 ns, pi_seq_lens = seq_lens, pi_max_query_len = Max (set ns),
       pi_max_seq_len = Max (set seq_lens),
       pi_common_prefix_len = common_prefix_len (mr_block_size mr) (num_common_prefix_blocks out) (take n c),
       pi_logits_indices = map (\<lambda>c. int c - 1) (np_cumsum 0 ns)\<rparr>)"

lemma prepare_inputs_eq:
  assumes ok: "runner_ok mr" and fit: "step_fits mr out"
  shows "prepare_inputs mr out = Inr (prepared mr out, committed mr)"
proof -
  define ib where "ib = mr_input_batch mr"
  define ns where "ns = row_counts mr out"
  define n where "n = ib_num_reqs ib"
  define ib' where "ib' = ib\<lparr>ib_block_table := bt_commit (ib_block_table ib) n\<rparr>"
  let ?bs = "mr_block_size mr" and ?c = "num_computed_tokens_cpu ib"
  have n0: "0 < n" and K: "mr_max_num_blocks_per_req mr = ib_max_num_blocks_per_req ib"
    and tot: "total_num_scheduled_tokens out \<le> int (mr_max_num_tokens mr)"
    using fit by (simp_all add: step_fits_def Let_def ib_def n_def)
  have len: "length ns = n" by (simp add: ns_def n_def ib_def)
  have sum: "nat (total_num_scheduled_tokens out) = sum_list ns"
    using row_counts_total [OF ok fit] unfolding ns_def by linarith
  note cell = row_in_tables [OF ok fit, folded ib_def ns_def n_def]
  have row: "row_position mr = (\<lambda>i k. ?c ! i + int k)" by (simp add: fun_eq_iff row_position_def ib_def)
  have positions: "map2 (\<lambda>i k. ?c ! i + int k) (np_repeat [0..<n] ns)
      (map2 (-) [0..<sum_list ns] (np_repeat (map2 (-) (np_cumsum 0 ns) ns) ns)) = layout ns (row_position mr)"
    unfolding row by (rule positions_layout [OF len])
  have tok: "index_select (concat (token_ids_cpu ib))
      (map2 (\<lambda>p i. p + int (i * ib_max_model_len ib)) (layout ns (row_position mr)) (np_repeat [0..<n] ns)) =
      Inr (layout ns (token_at mr))"
    unfolding layout_map2_repeat [OF len] token_at_def [abs_def] ib_def [symmetric] using cell
    by (intro index_select_layout) (simp add: len)
  have blk: "index_select (concat (bt_cpu (ib_block_table ib)))
      (map2 (\<lambda>p i. int (i * mr_max_num_blocks_per_req mr) + p div int ?bs) (layout ns (row_position mr)) (np_repeat [0..<n] ns)) =
      Inr (layout ns (block_at mr))"
    unfolding layout_map2_repeat [OF len] block_at_def [abs_def] K ib_def [symmetric] using cell
    by (intro index_select_layout) (simp add: len pos_imp_zdiv_nonneg_iff div_int_pos_iff)
  have slt: "map2 (\<lambda>b p. int b * int ?bs + p mod int ?bs) (layout ns (block_at mr)) (layout ns (row_position mr)) =
      layout ns (slot_at mr)"
    unfolding slot_at_def [abs_def] by (rule layout_map2_layout)
  have "map nat (map int ns) = ns" by (simp add: comp_def)
  moreover have "\<not> list_ex (\<lambda>k. k < 0) (map int ns)" by (simp add: list_ex_iff)
  moreover have "length (np_repeat (map2 (-) (np_cumsum 0 ns) ns) ns) = sum_list ns"
    by (simp add: np_repeat_length)
  moreover have "\<not> mr_max_num_tokens mr < sum_list ns" using tot sum by linarith
  moreover have "num_computed_tokens_cpu ib' = ?c" "token_ids_cpu ib' = token_ids_cpu ib"
    "ib_req_ids ib' = ib_req_ids ib" "ib_max_model_len ib' = ib_max_model_len ib"
    "bt_cpu (ib_block_table ib') = bt_cpu (ib_block_table ib)"
    by (simp_all add: ib'_def bt_commit_def)
  moreover have "committed mr = mr\<lparr>mr_input_batch := ib'\<rparr>"
    by (simp add: committed_def Let_def ib'_def ib_def n_def)
  moreover note row_counts_Max [OF ok fit, folded ns_def] row_counts_scheduled [OF ok fit, folded ib_def ns_def n_def]
  ultimately show ?thesis
    using n0 positions tok blk slt
    by (simp add: prepare_inputs_def Let_def sum ib_def [symmetric] n_def [symmetric] ns_def [symmetric] len
        ib'_def [symmetric] prepared_def del: map_map list_ex_iff)
qed

lemma prepared_start:
  assumes "i < ib_num_reqs (mr_input_batch mr)"
  shows "pi_query_start_loc (prepared mr out) ! i = sum_list (take i (row_counts mr out))"
    "np_cumsum 0 (row_counts mr out) ! i = sum_list (take i (row_counts mr out)) + row_counts mr out ! i"
proof -
  show "np_cumsum 0 (row_counts mr out) ! i = sum_list (take i (row_counts mr out)) + row_counts mr out ! i"
    using assms by (simp add: np_cumsum_nth take_Suc_conv_app_nth)
  show "pi_query_start_loc (prepared mr out) ! i = sum_list (take i (row_counts mr out))"
    using assms by (cases i) (simp_all add: prepared_def Let_def np_cumsum_nth)
qed

lemma prepared_row:
  assumes ok: "runner_ok mr" and fit: "step_fits mr out" and at: "index_of (mr_input_batch mr) rid = Some i"
    "mr_requests mr rid = Some rq" "map_of (num_scheduled_tokens out) rid = Some n"
  shows "row_prepared mr (prepared mr out) i rq n"
proof -
  let ?ib = "mr_input_batch mr" and ?ns = "row_counts mr out" and ?bs = "mr_block_size mr"
  note c = row_cell [OF ok fit at]
  have rep: "batch_rep ?ib (mr_requests mr |` dom (index_of ?ib))" and d: "dense ?ib"
    using ok by (simp_all add: runner_ok_def)
  define st where "st = sum_list (take i ?ns)"
  note start = prepared_start [OF c(1), of out, folded st_def]
  have lens: "length (num_computed_tokens_cpu ?ib) = ib_max_num_reqs ?ib"
    using rep by (simp add: batch_rep_def ib_shapeD)
  have "num_computed_tokens_cpu ?ib ! i = cs_num_computed_tokens rq" using c(4) [of 0] by (simp add: row_position_def)
  then have seq: "pi_seq_lens (prepared mr out) ! i = cs_num_computed_tokens rq + n"
    using c(1-3) dense_le_max [OF d] by (simp add: prepared_def Let_def lens)
  have tok: "pi_positions (prepared mr out) ! (st + k) = cs_num_computed_tokens rq + int k \<and>
      pi_input_ids (prepared mr out) ! (st + k) =
        (cs_prompt_token_ids rq @ cs_output_token_ids rq) ! nat (cs_num_computed_tokens rq + int k) \<and>
      pi_slot_mapping (prepared mr out) ! (st + k) =
        int (cs_block_ids rq ! nat ((cs_num_computed_tokens rq + int k) div int ?bs)) * int ?bs +
        (cs_num_computed_tokens rq + int k) mod int ?bs"
    if k: "k < nat n" for k
  proof -
    note p = c(5) [OF k, unfolded c(4)] c(6) [OF k, unfolded c(4)] c(7) [OF k, unfolded c(4)]
    have nth: "layout ?ns f ! (st + k) = f i k" for f :: "nat \<Rightarrow> nat \<Rightarrow> int"
      unfolding st_def using c(1,2) k by (intro layout_nth) simp_all
    show ?thesis
      using token_cell(2,4) [OF ok fit at(1,2) p]
      by (simp add: prepared_def Let_def nth token_at_def slot_at_def block_at_def c(4))
  qed
  show ?thesis
    using seq start c(1-3) tok unfolding row_prepared_def Let_def start(1) by (simp add: prepared_def Let_def)
qed

lemma prepare_inputs_ok:
  assumes ok: "runner_ok mr" and fit: "step_fits mr out"
  shows "\<exists>pinp. prepare_inputs mr out = Inr (pinp, committed mr) \<and>
     length (pi_positions pinp) = nat (total_num_scheduled_tokens out) \<and>
     length (pi_logits_indices pinp) = ib_num_reqs (mr_input_batch mr) \<and>
     (\<forall>rid rq i n. index_of (mr_input_batch mr) rid = Some i \<longrightarrow> mr_requests mr rid = Some rq \<longrightarrow>
        map_of (num_scheduled_tokens out) rid = Some n \<longrightarrow> row_prepared mr pinp i rq n)"
proof -
  have "nat (total_num_scheduled_tokens out) = sum_list (row_counts mr out)"
    using row_counts_total [OF ok fit] by linarith
  then have "length (pi_positions (prepared mr out)) = nat (total_num_scheduled_tokens out)"
    "length (pi_logits_indices (prepared mr out)) = ib_num_reqs (mr_input_batch mr)"
    by (simp_all add: prepared_def Let_def layout_length)
  then show ?thesis using prepare_inputs_eq [OF ok fit] prepared_row [OF ok fit] by blast
qed

end
