(* ===== verification/ExecuteModel.thy ===== *)
theory ExecuteModel
  imports PrepareInputs SchedulerProps
begin

text \<open>
  A whole step of the model runner: the state update, the layout of the inputs, the sampling metadata and
  the recording of the sampled tokens, and how its output meets what the scheduler expects.
\<close>

section \<open>Recording a sampled token\<close>

definition append_sample :: "int \<Rightarrow> CachedRequestState \<Rightarrow> CachedRequestState" where
  "append_sample t rq = rq\<lparr>cs_output_token_ids := cs_output_token_ids rq @ [t]\<rparr>"

definition put_sample :: "InputBatch \<Rightarrow> nat \<Rightarrow> nat \<Rightarrow> int \<Rightarrow> InputBatch" where
  "put_sample ib i q t =
     ib\<lparr>ib_num_tokens := (ib_num_tokens ib)[i := ib_num_tokens ib ! i + 1],
        token_ids_cpu := (token_ids_cpu ib)[i := (token_ids_cpu ib ! i)[q := t]]\<rparr>"

lemma put_sample_rep:
  assumes rep: "batch_rep ib M" and at: "index_of ib rid = Some i" "M rid = Some rq"
    and room: "cs_num_tokens rq < ib_max_model_len ib"
  shows "batch_rep (put_sample ib i (cs_num_tokens rq) t) (M(rid \<mapsto> append_sample t rq))"
    and "index_of (put_sample ib i q t) = index_of ib" and "ib_req_ids (put_sample ib i q t) = ib_req_ids ib"
    and "ib_num_reqs (put_sample ib i q t) = ib_num_reqs ib" and "same_size ib (put_sample ib i q t)"
    and "occupied (put_sample ib i q t) = occupied ib"
    and "ib_req_id_to_index (put_sample ib i q t) = ib_req_id_to_index ib"
proof -
  let ?q = "cs_num_tokens rq" and ?rq = "append_sample t rq"
  define ib' where "ib' = put_sample ib i ?q t"
  note put = ib'_def put_sample_def
  have sh: "ib_shape ib" and ks: "ib_keys_ok ib" and ix: "ib_index_ok ib"
    and rows: "ib_rows_ok ib M" and sets: "ib_sets_ok ib M"
    using rep by (simp_all add: batch_rep_def)
  note len = ib_shapeD [OF sh] and row = batch_rowD [OF rep at]
  have i: "i < ib_max_num_reqs ib" using at ix by (simp add: ib_index_iff)
  have io: "index_of ib' = index_of ib" and go: "gen_of ib' = gen_of ib"
    and fr: "ib_req_ids ib' = ib_req_ids ib" "ib_max_num_reqs ib' = ib_max_num_reqs ib"
    by (simp_all add: put index_of_def gen_of_def)
  have r: "length ((token_ids_cpu ib ! i)[?q := t]) = ib_max_model_len ib" using i by (simp add: len)
  have "ib_shape ib'"
    using sh ib_shape_upd(1) [OF sh r] by (simp add: put ib_shape_def)
  moreover have "ib_keys_ok ib'" using ks by (simp add: put ib_keys_ok_def)
  moreover have "ib_index_ok ib'" using ix by (simp add: ib_index_ok_def io go fr)
  moreover have "ib_rows_ok ib' (M(rid \<mapsto> ?rq))"
    unfolding ib_rows_ok_def io
  proof (intro conjI allI impI)
    show "dom (index_of ib) = dom (M(rid \<mapsto> ?rq))"
      using rows at by (auto simp: ib_rows_ok_def)
    fix s j rq'
    assume j: "index_of ib s = Some j" and rq': "(M(rid \<mapsto> ?rq)) s = Some rq'"
    have cid: "cs_req_id rq = rid" using rows at by (simp add: ib_rows_ok_def)
    show "cs_req_id rq' = s"
      using j rq' rows cid by (auto simp: ib_rows_ok_def append_sample_def split: if_splits)
    show "batch_row ib' j = state_row rq'"
    proof (cases "s = rid")
      case True
      then have "j = i" "rq' = ?rq" using j rq' at by simp_all
      moreover have "take (Suc ?q) ((token_ids_cpu ib ! i)[?q := t]) =
          cs_prompt_token_ids rq @ cs_output_token_ids rq @ [t]"
        using row(2) room i by (simp add: take_Suc_conv_app_nth len take_update_cancel)
      ultimately show ?thesis
        using row i unfolding batch_row_def state_row_def Let_def go
        by (simp add: put len) (simp add: append_sample_def cs_num_tokens_def)
    next
      case False
      then have "j \<noteq> i" using j at by (auto simp: ib_index_iff [OF ix])
      then have "batch_row ib' j = batch_row ib j"
        by (intro batch_row_eq) (simp_all add: go, simp_all add: put)
      then show ?thesis using j rq' False rows by (simp add: ib_rows_ok_def)
    qed
  qed
  moreover have "ib_sets_ok ib' (M(rid \<mapsto> ?rq))"
  proof -
    have "reqs_with (M(rid \<mapsto> ?rq)) P = reqs_with M P" for P
      using at by (auto simp: reqs_with_def append_sample_def)
    moreover have "Option.bind ((M(rid \<mapsto> ?rq)) s) (logprobs_of \<circ> cs_sampling_params) =
        Option.bind (M s) (logprobs_of \<circ> cs_sampling_params)" for s
      using at by (simp add: append_sample_def)
    ultimately show ?thesis
      using sets unfolding ib_sets_ok_def by (simp add: put)
  qed
  ultimately show "batch_rep (put_sample ib i ?q t) (M(rid \<mapsto> ?rq))" by (simp add: batch_rep_def ib'_def)
qed (simp_all add: put_sample_def index_of_def ib_num_reqs_def same_size_def occupied_def)

text \<open>The state of a request after a step: the token sampled in its row is appended when it has caught up.\<close>

definition caught_up :: "(string \<times> int) list \<Rightarrow> CachedRequestState \<Rightarrow> bool" where
  "caught_up toks rq \<longleftrightarrow> cs_num_computed_tokens rq + the (map_of toks (cs_req_id rq)) = int (cs_num_tokens rq)"

definition recorded :: "int list \<Rightarrow> (string \<times> int) list \<Rightarrow> nat \<Rightarrow> CachedRequestState \<Rightarrow> CachedRequestState" where
  "recorded sampled toks i rq = (if caught_up toks rq then append_sample (sampled ! i) rq else rq)"


text \<open>What row \<open>k\<close> needs for its token to be recorded.\<close>

definition row_ready :: "batch_map \<Rightarrow> InputBatch \<Rightarrow> (string \<times> int) list \<Rightarrow> nat \<Rightarrow> string option \<Rightarrow> bool" where
  "row_ready reqs ib toks k r \<longleftrightarrow>
     (\<exists>rid rq n. r = Some rid \<and> index_of ib rid = Some k \<and> reqs rid = Some rq \<and> map_of toks rid = Some n \<and>
        0 \<le> cs_num_computed_tokens rq + n \<and> cs_num_computed_tokens rq + n \<le> int (cs_num_tokens rq) \<and>
        (caught_up toks rq \<longrightarrow> cs_num_tokens rq < ib_max_model_len ib))"

text \<open>The states after the rows from \<open>i\<close> up to \<open>m\<close> have been recorded.\<close>

definition recorded_reqs ::
  "int list \<Rightarrow> (string \<times> int) list \<Rightarrow> InputBatch \<Rightarrow> nat \<Rightarrow> nat \<Rightarrow> batch_map \<Rightarrow> batch_map" where
  "recorded_reqs sampled toks ib i m reqs rid =
     (case index_of ib rid of
        None \<Rightarrow> reqs rid
      | Some k \<Rightarrow> if i \<le> k \<and> k < m then map_option (recorded sampled toks k) (reqs rid) else reqs rid)"

lemma record_rows_ok:
  assumes "batch_rep ib (reqs |` D)" and "dom (index_of ib) = D" and "ids_ok reqs"
    and "\<And>j. j < length rs \<Longrightarrow> row_ready reqs ib toks (i + j) (rs ! j)"
    and "i + length rs \<le> length sampled"
  shows "\<exists>ib'. record_rows sampled toks i rs reqs ib = Inr (recorded_reqs sampled toks ib i (i + length rs) reqs, ib') \<and>
     batch_rep ib' (recorded_reqs sampled toks ib i (i + length rs) reqs |` D) \<and>
     index_of ib' = index_of ib \<and> ib_req_ids ib' = ib_req_ids ib \<and> ib_num_reqs ib' = ib_num_reqs ib \<and>
     occupied ib' = occupied ib \<and> ib_req_id_to_index ib' = ib_req_id_to_index ib \<and> same_size ib ib'"
  using assms
proof (induction rs arbitrary: i reqs ib)
  case Nil
  have "recorded_reqs sampled toks ib i (i + length []) reqs = reqs"
    by (auto simp: recorded_reqs_def fun_eq_iff split: option.split)
  then show ?case using Nil.prems(1) by simp
next
  case (Cons r rs)
  obtain rid rq n where r: "r = Some rid" and at: "index_of ib rid = Some i" "reqs rid = Some rq" "map_of toks rid = Some n"
    and n: "0 \<le> cs_num_computed_tokens rq + n" "cs_num_computed_tokens rq + n \<le> int (cs_num_tokens rq)"
      "caught_up toks rq \<Longrightarrow> cs_num_tokens rq < ib_max_model_len ib"
    using Cons.prems(4) [of 0] by (auto simp: row_ready_def)
  have id: "cs_req_id rq = rid" using Cons.prems(3) at(2) by (simp add: ids_ok_def)
  have cu: "caught_up toks rq \<longleftrightarrow> cs_num_computed_tokens rq + n = int (cs_num_tokens rq)"
    using at(3) by (simp add: caught_up_def id)
  have D: "(reqs |` D) rid = Some rq" using at Cons.prems(2) by (auto simp: restrict_map_def)
  have ix: "ib_index_ok ib" and sh: "ib_shape ib" using Cons.prems(1) by (simp_all add: batch_rep_def)
  have imax: "i < ib_max_num_reqs ib" using at(1) ib_index_iff [OF ix] by simp
  define reqs1 where "reqs1 = reqs(rid \<mapsto> recorded sampled toks i rq)"
  define ib1 where "ib1 = (if caught_up toks rq then put_sample ib i (cs_num_tokens rq) (sampled ! i) else ib)"
  have step: "record_rows sampled toks i (r # rs) reqs ib = record_rows sampled toks (Suc i) rs reqs1 ib1"
    using at n imax Cons.prems(5) ib_shapeD(5) [OF sh imax]
    by (auto simp: r Let_def cu reqs1_def ib1_def recorded_def append_sample_def put_sample_def fun_upd_idem)
  have upd: "(reqs |` D)(rid \<mapsto> recorded sampled toks i rq) = reqs1 |` D"
    using D by (auto simp: reqs1_def restrict_map_def fun_eq_iff split: if_splits)
  have ib1: "batch_rep ib1 (reqs1 |` D)" "index_of ib1 = index_of ib" "ib_req_ids ib1 = ib_req_ids ib"
    "ib_num_reqs ib1 = ib_num_reqs ib" "occupied ib1 = occupied ib" "ib_req_id_to_index ib1 = ib_req_id_to_index ib"
    "same_size ib ib1"
  proof -
    show "batch_rep ib1 (reqs1 |` D)"
    proof (cases "caught_up toks rq")
      case True
      then show ?thesis
        using put_sample_rep(1) [OF Cons.prems(1) at(1) D n(3) [OF True], of "sampled ! i"] upd
        by (simp add: ib1_def recorded_def)
    next
      case False
      then have "reqs1 = reqs" using at(2) by (simp add: reqs1_def recorded_def fun_upd_idem)
      then show ?thesis using Cons.prems(1) False by (simp add: ib1_def)
    qed
  qed (simp_all add: ib1_def put_sample_def index_of_def ib_num_reqs_def occupied_def same_size_def)
  have ready: "row_ready reqs1 ib1 toks (Suc i + j) (rs ! j)" if "j < length rs" for j
  proof -
    have "row_ready reqs ib toks (i + Suc j) (rs ! j)"
      using Cons.prems(4) [of "Suc j"] that by simp
    then obtain rid' rq' n' where r': "rs ! j = Some rid'" "index_of ib rid' = Some (Suc i + j)" "reqs rid' = Some rq'"
      "map_of toks rid' = Some n'" "0 \<le> cs_num_computed_tokens rq' + n'"
      "cs_num_computed_tokens rq' + n' \<le> int (cs_num_tokens rq')"
      "caught_up toks rq' \<longrightarrow> cs_num_tokens rq' < ib_max_model_len ib"
      by (auto simp: row_ready_def)
    moreover have "rid' \<noteq> rid" using r'(2) at(1) by auto
    ultimately show ?thesis
      using ib1(2,7) by (auto simp: row_ready_def reqs1_def same_size_def)
  qed
  have ids1: "ids_ok reqs1"
    unfolding reqs1_def using Cons.prems(3) id by (intro ids_ok_upd) (simp_all add: recorded_def append_sample_def)
  have eq: "recorded_reqs sampled toks ib1 (Suc i) (Suc i + length rs) reqs1 =
      recorded_reqs sampled toks ib i (i + length (r # rs)) reqs"
  proof
    fix rid'
    have "index_of ib rid' = Some i \<longleftrightarrow> rid' = rid"
      using at(1) ib_index_iff [OF ix] by (metis option.inject)
    then show "recorded_reqs sampled toks ib1 (Suc i) (Suc i + length rs) reqs1 rid' =
        recorded_reqs sampled toks ib i (i + length (r # rs)) reqs rid'"
      using at by (auto simp: recorded_reqs_def ib1(2) reqs1_def split: option.split)
  qed
  have "Suc i + length rs \<le> length sampled" using Cons.prems(5) by simp
  from Cons.IH [OF ib1(1) _ ids1 ready this] Cons.prems(2) ib1(2)
  obtain ib' where ib': "record_rows sampled toks (Suc i) rs reqs1 ib1 =
        Inr (recorded_reqs sampled toks ib i (i + length (r # rs)) reqs, ib')"
      "batch_rep ib' (recorded_reqs sampled toks ib i (i + length (r # rs)) reqs |` D)"
      "index_of ib' = index_of ib1" "ib_req_ids ib' = ib_req_ids ib1" "ib_num_reqs ib' = ib_num_reqs ib1"
      "occupied ib' = occupied ib1" "ib_req_id_to_index ib' = ib_req_id_to_index ib1" "same_size ib1 ib'"
    unfolding eq by auto
  then show ?case
    unfolding step ib1(2-6) using same_size_trans [OF ib1(7) ib'(8)] by blast
qed


section \<open>A whole step\<close>

text \<open>
  What the scheduler guarantees about a step, in terms of the cached states it asks for: every scheduled
  token exists and has a block, the totals agree, and a request that catches up has room for one token.
\<close>

definition step_ok :: "GPUModelRunner \<Rightarrow> SchedulerOutput \<Rightarrow> bool" where
  "step_ok mr out \<longleftrightarrow>
     (let ib = mr_input_batch mr; toks = num_scheduled_tokens out in
      0 < mr_block_size mr \<and> mr_max_num_blocks_per_req mr = ib_max_num_blocks_per_req ib \<and> toks \<noteq> [] \<and>
      total_num_scheduled_tokens out \<le> int (mr_max_num_tokens mr) \<and>
      total_num_scheduled_tokens out = sum_list (map snd toks) \<and> distinct (map fst toks) \<and>
      (\<forall>(rid, n) \<in> set toks. \<exists>rq. next_requests mr out rid = Some rq \<and> 0 < n \<and>
         0 \<le> cs_num_computed_tokens rq \<and> cs_num_computed_tokens rq + n \<le> int (cs_num_tokens rq) \<and>
         cs_num_computed_tokens rq + n \<le> int (length (cs_block_ids rq) * mr_block_size mr) \<and>
         (cs_num_computed_tokens rq + n = int (cs_num_tokens rq) \<longrightarrow> cs_num_tokens rq < ib_max_model_len ib)))"

lemma step_fits_next:
  assumes s: "step_ok mr out" and mr1: "runner_ok mr1" "mr_requests mr1 = next_requests mr out"
    "dom (index_of (mr_input_batch mr1)) = fst ` set (num_scheduled_tokens out)"
    "same_size (mr_input_batch mr) (mr_input_batch mr1)" "mr_block_size mr1 = mr_block_size mr"
    "mr_max_num_blocks_per_req mr1 = mr_max_num_blocks_per_req mr" "mr_max_num_tokens mr1 = mr_max_num_tokens mr"
  shows "step_fits mr1 out"
proof -
  let ?ib = "mr_input_batch mr1" and ?toks = "num_scheduled_tokens out"
  have rep: "batch_rep ?ib (mr_requests mr1 |` dom (index_of ?ib))" using mr1(1) by (simp add: runner_ok_def)
  have "finite (dom (index_of ?ib))" by (simp add: index_of_def finite_dom_map_of)
  moreover have "dom (index_of ?ib) \<noteq> {}" using s mr1(3) by (simp add: step_ok_def Let_def)
  moreover have "ib_num_reqs ?ib = card (dom (index_of ?ib))"
    using batch_rep_num_reqs [OF rep] batch_rep_dom [OF rep] by simp
  ultimately have "0 < ib_num_reqs ?ib" by (simp add: card_gt_0_iff)
  moreover have "\<exists>rq. mr_requests mr1 rid = Some rq \<and> 0 < n \<and> 0 \<le> cs_num_computed_tokens rq \<and>
      cs_num_computed_tokens rq + n \<le> int (cs_num_tokens rq) \<and>
      cs_num_computed_tokens rq + n \<le> int (length (cs_block_ids rq) * mr_block_size mr1)"
    if "(rid, n) \<in> set ?toks" for rid n
    using s that unfolding step_ok_def Let_def mr1(2,5) by blast
  ultimately show ?thesis
    using s mr1(3-7) by (auto simp: step_fits_def step_ok_def Let_def same_size_def)
qed

lemma runner_ok_ids: "runner_ok mr \<Longrightarrow> ids_ok (mr_requests mr)"
  by (simp add: runner_ok_def ids_ok_def)

text \<open>The sizes of a runner, which no step changes.\<close>

definition runner_like :: "GPUModelRunner \<Rightarrow> GPUModelRunner \<Rightarrow> bool" where
  "runner_like mr mr' \<longleftrightarrow>
     same_size (mr_input_batch mr) (mr_input_batch mr') \<and> mr_block_size mr' = mr_block_size mr \<and>
     mr_max_num_blocks_per_req mr' = mr_max_num_blocks_per_req mr \<and> mr_max_num_tokens mr' = mr_max_num_tokens mr"

text \<open>Recording the samples of a prepared batch.\<close>

lemma record_samples_ok:
  assumes ok: "runner_ok mr" and fit: "step_fits mr out"
    and room: "\<And>rid rq. rid \<in> fst ` set (num_scheduled_tokens out) \<Longrightarrow> mr_requests mr rid = Some rq \<Longrightarrow>
      caught_up (num_scheduled_tokens out) rq \<Longrightarrow> cs_num_tokens rq < ib_max_model_len (mr_input_batch mr)"
    and len: "length sampled = ib_num_reqs (mr_input_batch mr)"
  shows "\<exists>mro mr'. record_samples mr out sampled = Inr (mro, mr') \<and> runner_ok mr' \<and> covers_output mro out \<and>
     sampled_token_ids mro = sampled \<and> req_id_to_index mro = map_option int \<circ> index_of (mr_input_batch mr) \<and>
     index_of (mr_input_batch mr') = index_of (mr_input_batch mr) \<and>
     (\<forall>rid i. index_of (mr_input_batch mr) rid = Some i \<longrightarrow>
        mr_requests mr' rid = map_option (recorded sampled (num_scheduled_tokens out) i) (mr_requests mr rid)) \<and>
     (\<forall>rid. index_of (mr_input_batch mr) rid = None \<longrightarrow> mr_requests mr' rid = mr_requests mr rid) \<and>
     runner_like mr mr' \<and> mr_encoder_cache mr' = mr_encoder_cache mr"
proof -
  let ?ib = "mr_input_batch mr" and ?toks = "num_scheduled_tokens out"
  let ?n = "ib_num_reqs ?ib" and ?D = "dom (index_of ?ib)"
  let ?rec = "recorded_reqs sampled ?toks ?ib 0 ?n (mr_requests mr)"
  have rep: "batch_rep ?ib (mr_requests mr |` ?D)" and d: "dense ?ib"
    using ok by (simp_all add: runner_ok_def)
  have nl: "?n \<le> length (ib_req_ids ?ib)"
    using dense_le_max [OF d] rep by (simp add: batch_rep_def ib_shapeD)
  then have tl: "length (take ?n (ib_req_ids ?ib)) = ?n" by simp
  have keys: "fst ` set ?toks = ?D" using fit by (simp add: step_fits_def Let_def)
  have ready: "row_ready (mr_requests mr) ?ib ?toks (0 + j) (take ?n (ib_req_ids ?ib) ! j)"
    if "j < length (take ?n (ib_req_ids ?ib))" for j
  proof -
    have j: "j < ?n" using that tl by simp
    from step_row [OF ok fit j] obtain rid rq n where r: "ib_req_ids ?ib ! j = Some rid" "index_of ?ib rid = Some j"
      "mr_requests mr rid = Some rq" "map_of ?toks rid = Some n" "0 < n" "0 \<le> cs_num_computed_tokens rq"
      "cs_num_computed_tokens rq + n \<le> int (cs_num_tokens rq)" by metis
    moreover have "rid \<in> fst ` set ?toks" using r(2) keys by blast
    ultimately show ?thesis
      using room [of rid rq] j by (auto simp: row_ready_def)
  qed
  obtain ib' where ib': "record_rows sampled ?toks 0 (take ?n (ib_req_ids ?ib)) (mr_requests mr) ?ib = Inr (?rec, ib')"
    "batch_rep ib' (?rec |` ?D)" "index_of ib' = index_of ?ib" "ib_req_ids ib' = ib_req_ids ?ib"
    "ib_num_reqs ib' = ?n" "occupied ib' = occupied ?ib" "ib_req_id_to_index ib' = ib_req_id_to_index ?ib"
    "same_size ?ib ib'"
    using record_rows_ok [OF rep refl runner_ok_ids [OF ok] ready, of sampled] len tl by auto
  have rec: "?rec rid = (case index_of ?ib rid of
      None \<Rightarrow> mr_requests mr rid | Some i \<Rightarrow> map_option (recorded sampled ?toks i) (mr_requests mr rid))" for rid
    using dense_index [OF rep d] by (simp add: recorded_reqs_def split: option.split)
  define mro where "mro = \<lparr>req_ids = map the (take ?n (ib_req_ids ib')),
      req_id_to_index = map_option int \<circ> map_of (ib_req_id_to_index ib'), sampled_token_ids = sampled\<rparr>"
  have run: "record_samples mr out sampled = Inr (mro, mr\<lparr>mr_requests := ?rec, mr_input_batch := ib'\<rparr>)"
    by (simp add: record_samples_def Let_def ib'(1) mro_def)
  have ids: "ids_ok ?rec"
    using runner_ok_ids [OF ok] unfolding ids_ok_def rec
    by (auto simp: recorded_def append_sample_def split: option.splits if_splits)
  have "runner_ok (mr\<lparr>mr_requests := ?rec, mr_input_batch := ib'\<rparr>)"
    using ib' d ids by (simp add: runner_ok_def dense_def ids_ok_def)
  moreover have "covers_output mro out"
    unfolding covers_output_def
  proof
    fix rid assume "rid \<in> fst ` set ?toks"
    then obtain i where i: "index_of ?ib rid = Some i" using keys by blast
    then have "i < length sampled" using dense_index [OF rep d] len by simp
    then have "py_index sampled (int i) = Inr (sampled ! i)" by (simp add: py_index_def)
    then show "mro_covers mro rid"
      using i by (auto simp: mro_covers_def mro_def ib'(7) index_of_def)
  qed
  ultimately show ?thesis
    using run ib'(3,8) rec by (auto simp: mro_def ib'(7) index_of_def [of ?ib] runner_like_def)
qed


section \<open>Encoder outputs of a step\<close>

text \<open>Every input whose placeholders overlap the scheduled tokens has its output in the cache.\<close>

definition overlaps :: "int \<Rightarrow> int \<Rightarrow> PlaceholderRange \<Rightarrow> bool" where
  "overlaps computed n p \<longleftrightarrow> pr_offset p < computed + n \<and> computed < pr_offset p + pr_length p"

definition encoder_ready :: "enc_dict \<Rightarrow> batch_map \<Rightarrow> (string \<times> int) list \<Rightarrow> bool" where
  "encoder_ready c reqs toks \<longleftrightarrow>
     (\<forall>(rid, n) \<in> set toks. \<exists>rq. reqs rid = Some rq \<and> 0 < n \<and>
        (\<forall>i < length (cs_mm_positions rq). 0 < pr_length (cs_mm_positions rq ! i) \<and>
           (overlaps (cs_num_computed_tokens rq) n (cs_mm_positions rq ! i) \<longrightarrow>
              (\<exists>m h. map_of c rid = Some m \<and> map_of m i = Some h))))"

lemma gather_positions_ok:
  assumes "0 < n" and "\<And>j. j < length ps \<Longrightarrow> 0 < pr_length (ps ! j)"
    and "\<And>j. j < length ps \<Longrightarrow> overlaps computed n (ps ! j) \<Longrightarrow>
      \<exists>m h. map_of c rid = Some m \<and> map_of m (i + j) = Some h"
  shows "\<exists>xs. gather_positions c rid computed n i ps = Inr xs"
  using assms(2,3)
proof (induction ps arbitrary: i)
  case (Cons p ps)
  have IH: "\<exists>xs. gather_positions c rid computed n (Suc i) ps = Inr xs"
    using Cons.prems(1) [of "Suc j" for j] Cons.prems(2) [of "Suc j" for j] by (intro Cons.IH) auto
  then obtain xs where xs: "gather_positions c rid computed n (Suc i) ps = Inr xs" by blast
  have len: "0 < pr_length p" using Cons.prems(1) [of 0] by simp
  show ?case
  proof (cases "overlaps computed n p")
    case True
    then obtain m h where "map_of c rid = Some m" "map_of m i = Some h" using Cons.prems(2) [of 0] by auto
    then show ?thesis using True len assms(1) xs by (auto simp: overlaps_def Let_def)
  next
    case False
    then show ?thesis using xs by (auto simp: overlaps_def Let_def)
  qed
qed simp

lemma gather_requests_ok:
  assumes "encoder_ready c reqs toks" and "\<And>r. r \<in> set rs \<Longrightarrow> \<exists>rid n. r = Some rid \<and> map_of toks rid = Some n"
  shows "\<exists>xs. gather_requests c reqs toks rs = Inr xs"
  using assms(2)
proof (induction rs)
  case (Cons r rs)
  then obtain xs rid n where r: "gather_requests c reqs toks rs = Inr xs" "r = Some rid" "map_of toks rid = Some n"
    by fastforce
  from map_of_SomeD [OF r(3)] assms(1) obtain rq where rq: "reqs rid = Some rq" "0 < n"
    "\<forall>i < length (cs_mm_positions rq). 0 < pr_length (cs_mm_positions rq ! i) \<and>
       (overlaps (cs_num_computed_tokens rq) n (cs_mm_positions rq ! i) \<longrightarrow>
          (\<exists>m h. map_of c rid = Some m \<and> map_of m i = Some h))"
    by (fastforce simp: encoder_ready_def)
  then have "\<exists>ys. gather_positions c rid (cs_num_computed_tokens rq) n 0 (cs_mm_positions rq) = Inr ys"
    by (intro gather_positions_ok) auto
  then show ?case using r rq by auto
qed simp

lemma gather_encoder_outputs_ok:
  assumes ok: "runner_ok mr" and fit: "step_fits mr out"
    and enc: "encoder_ready (mr_encoder_cache mr) (mr_requests mr) (num_scheduled_tokens out)"
  shows "\<exists>xs. gather_encoder_outputs mr out = Inr xs"
  unfolding gather_encoder_outputs_def Let_def
proof (rule gather_requests_ok [OF enc])
  fix r assume "r \<in> set (take (ib_num_reqs (mr_input_batch mr)) (ib_req_ids (mr_input_batch mr)))"
  then obtain j where "j < ib_num_reqs (mr_input_batch mr)" "r = ib_req_ids (mr_input_batch mr) ! j"
    by (auto simp: in_set_conv_nth)
  then show "\<exists>rid n. r = Some rid \<and> map_of (num_scheduled_tokens out) rid = Some n"
    using step_row [OF ok fit, of j] by metis
qed

section \<open>Sampling metadata of a step\<close>

lemma copy_sampling_tensors_size: "copy_sampling_tensors ib = Inr ib' \<Longrightarrow> same_size ib ib'"
  unfolding copy_sampling_tensors_def Let_def make_prompt_token_ids_tensor_def
  by (auto simp: same_size_def split: if_splits)

lemma make_sampling_metadata_ok:
  assumes ok: "runner_ok mr" and D: "dom (index_of (mr_input_batch mr)) \<subseteq> dom (mr_requests mr)"
  shows "\<exists>md ib. make_sampling_metadata (mr_input_batch mr)
       (\<lambda>rid. map_option cs_output_token_ids (mr_requests mr rid)) skip = Inr (md, ib) \<and>
     runner_ok (mr\<lparr>mr_input_batch := ib\<rparr>) \<and> index_of ib = index_of (mr_input_batch mr) \<and>
     ib_num_reqs ib = ib_num_reqs (mr_input_batch mr) \<and> same_size (mr_input_batch mr) ib"
proof -
  let ?ib = "mr_input_batch mr" and ?outs = "\<lambda>rid. map_option cs_output_token_ids (mr_requests mr rid)"
  let ?M = "mr_requests mr |` dom (index_of ?ib)"
  have rep: "batch_rep ?ib ?M" and d: "dense ?ib" using ok by (simp_all add: runner_ok_def)
  obtain ib where ib: "(if skip then Inr ?ib else copy_sampling_tensors ?ib) = Inr ib" "batch_rep ib ?M"
    "ib_req_ids ib = ib_req_ids ?ib" "ib_req_id_to_index ib = ib_req_id_to_index ?ib" "same_size ?ib ib"
    using copy_sampling_tensors_ok [OF rep] copy_sampling_tensors_size rep by (cases skip) auto
  have io: "index_of ib = index_of ?ib" "ib_num_reqs ib = ib_num_reqs ?ib"
    using ib(4) by (simp_all add: index_of_def ib_num_reqs_def)
  have dib: "dense ib"
    using d ib(3,5) io(2) by (simp add: dense_def occupied_def same_size_def)
  have "\<exists>rid. r = Some rid \<and> ?outs rid \<noteq> None" if r: "r \<in> set (take (ib_num_reqs ib) (ib_req_ids ib))" for r
  proof -
    from r obtain j where j: "j < ib_num_reqs ib" "r = ib_req_ids ib ! j" by (auto simp: in_set_conv_nth)
    obtain rid where "ib_req_ids ib ! j = Some rid" "index_of ib rid = Some j" by (rule dense_req_ids [OF ib(2) dib j(1)])
    then show ?thesis using j(2) D io(1) by auto
  qed
  from collect_output_tokens_all [OF this]
  obtain md where "make_sampling_metadata ?ib ?outs skip = Inr (md, ib)"
    by (simp add: make_sampling_metadata_def Let_def ib(1))
  moreover have "runner_ok (mr\<lparr>mr_input_batch := ib\<rparr>)"
    using ok ib(2) dib io(1) by (simp add: runner_ok_def)
  ultimately show ?thesis using io ib(5) by blast
qed

section \<open>The composition\<close>

text \<open>The network returns one token for each row whose logits are selected.\<close>

definition samples_rows :: "(enc_slice list \<Rightarrow> PreparedInputs \<Rightarrow> SamplingMetadata \<Rightarrow> int list) \<Rightarrow> bool" where
  "samples_rows net \<longleftrightarrow> (\<forall>enc pinp md. length (net enc pinp md) = length (pi_logits_indices pinp))"

text \<open>What a step leaves: the recorded states of the scheduled requests and the untouched others.\<close>

definition step_recorded :: "GPUModelRunner \<Rightarrow> SchedulerOutput \<Rightarrow> ModelRunnerOutput \<Rightarrow> GPUModelRunner \<Rightarrow> bool" where
  "step_recorded mr out mro mr' \<longleftrightarrow>
     (\<forall>rid. if rid \<in> fst ` set (num_scheduled_tokens out)
        then \<exists>i rq. req_id_to_index mro rid = Some (int i) \<and> next_requests mr out rid = Some rq \<and>
               mr_requests mr' rid = Some (recorded (sampled_token_ids mro) (num_scheduled_tokens out) i rq)
        else mr_requests mr' rid = next_requests mr out rid)"

lemma execute_model_ok:
  assumes ok: "runner_ok mr" and sord: "lists_sets sord" and fit: "output_fits mr out" and step: "step_ok mr out"
    and net: "samples_rows net"
    and enc: "is_mm \<Longrightarrow> encoder_ready (next_encoder_cache sord mr out) (next_requests mr out) (num_scheduled_tokens out)"
  shows "\<exists>mro mr'. execute_model sord net is_mm mr out = Inr (mro, mr') \<and> runner_ok mr' \<and>
     covers_output mro out \<and> step_recorded mr out mro mr' \<and> runner_like mr mr' \<and>
     mr_encoder_cache mr' = next_encoder_cache sord mr out"
proof -
  let ?toks = "num_scheduled_tokens out"
  obtain ch mr1 where u: "update_states sord mr out = Inr (ch, mr1)" and mr1: "runner_ok mr1"
    "mr_requests mr1 = next_requests mr out" "dom (index_of (mr_input_batch mr1)) = fst ` set ?toks"
    "same_size (mr_input_batch mr) (mr_input_batch mr1)" "mr_block_size mr1 = mr_block_size mr"
    "mr_max_num_blocks_per_req mr1 = mr_max_num_blocks_per_req mr" "mr_max_num_tokens mr1 = mr_max_num_tokens mr"
    "mr_encoder_cache mr1 = next_encoder_cache sord mr out"
    using update_states_ok [OF ok sord fit] by blast
  have fit1: "step_fits mr1 out" by (rule step_fits_next [OF step mr1(1-7)])
  obtain ens where g: "(if is_mm then gather_encoder_outputs mr1 out else Inr []) = Inr ens"
    using gather_encoder_outputs_ok [OF mr1(1) fit1] enc mr1(2,8) by (cases is_mm) auto
  obtain pinp where p: "prepare_inputs mr1 out = Inr (pinp, committed mr1)"
    "length (pi_logits_indices pinp) = ib_num_reqs (mr_input_batch mr1)"
    using prepare_inputs_ok [OF mr1(1) fit1] by blast
  have known: "\<exists>rq. next_requests mr out rid = Some rq" if "rid \<in> fst ` set ?toks" for rid
    using step that unfolding step_ok_def Let_def by fastforce
  then have "dom (index_of (mr_input_batch (committed mr1))) \<subseteq> dom (mr_requests (committed mr1))"
    by (auto simp: mr1(2,3))
  then obtain md ib where m: "make_sampling_metadata (mr_input_batch (committed mr1))
      (\<lambda>rid. map_option cs_output_token_ids (mr_requests (committed mr1) rid)) (\<not> ch) = Inr (md, ib)"
    and ib: "runner_ok (committed mr1\<lparr>mr_input_batch := ib\<rparr>)" "index_of ib = index_of (mr_input_batch mr1)"
      "ib_num_reqs ib = ib_num_reqs (mr_input_batch mr1)" "same_size (mr_input_batch (committed mr1)) ib"
    using make_sampling_metadata_ok [OF committed_ok [OF mr1(1)]] unfolding committed_simps by blast
  let ?mr3 = "committed mr1\<lparr>mr_input_batch := ib\<rparr>" and ?sampled = "net ens pinp md"
  have sz: "same_size (mr_input_batch mr) ib"
    using same_size_trans [OF mr1(4) same_size_trans [OF committed_simps(8) ib(4)]] .
  have fit3: "step_fits ?mr3 out"
    using fit1 ib(2,3) sz mr1(4) by (simp add: step_fits_def Let_def same_size_def)
  have room: "cs_num_tokens rq < ib_max_model_len ib"
    if r: "rid \<in> fst ` set ?toks" "mr_requests ?mr3 rid = Some rq" "caught_up ?toks rq" for rid rq
  proof -
    from r(1) obtain n where n: "map_of ?toks rid = Some n"
      by (metis domIff dom_map_of_conv_image_fst not_Some_eq)
    have id: "cs_req_id rq = rid" using runner_ok_ids [OF mr1(1)] r(2) by (simp add: ids_ok_def)
    have "\<exists>rq. next_requests mr out rid = Some rq \<and>
        (cs_num_computed_tokens rq + n = int (cs_num_tokens rq) \<longrightarrow> cs_num_tokens rq < ib_max_model_len (mr_input_batch mr))"
      using step map_of_SomeD [OF n] unfolding step_ok_def Let_def by fastforce
    then show ?thesis using r(2,3) n sz by (simp add: mr1(2) caught_up_def id same_size_def)
  qed
  have "length ?sampled = ib_num_reqs ib" using net p(2) ib(3) by (simp add: samples_rows_def)
  then obtain mro mr' where rec: "record_samples ?mr3 out ?sampled = Inr (mro, mr')" and res: "runner_ok mr'"
    "covers_output mro out" "sampled_token_ids mro = ?sampled" "req_id_to_index mro = map_option int \<circ> index_of ib"
    "\<forall>rid i. index_of ib rid = Some i \<longrightarrow>
       mr_requests mr' rid = map_option (recorded ?sampled ?toks i) (mr_requests ?mr3 rid)"
    "\<forall>rid. index_of ib rid = None \<longrightarrow> mr_requests mr' rid = mr_requests ?mr3 rid" "runner_like ?mr3 mr'"
    "mr_encoder_cache mr' = mr_encoder_cache ?mr3"
    using record_samples_ok [OF ib(1) fit3, of ?sampled] room by auto
  have "execute_model sord net is_mm mr out = Inr (mro, mr')"
    using rec m [simplified] by (simp add: execute_model_def u g p(1))
  moreover have "step_recorded mr out mro mr'"
    unfolding step_recorded_def
  proof
    fix rid
    have D: "rid \<in> fst ` set ?toks \<longleftrightarrow> index_of ib rid \<noteq> None" using mr1(3) ib(2) by auto
    show "if rid \<in> fst ` set ?toks
        then \<exists>i rq. req_id_to_index mro rid = Some (int i) \<and> next_requests mr out rid = Some rq \<and>
               mr_requests mr' rid = Some (recorded (sampled_token_ids mro) ?toks i rq)
        else mr_requests mr' rid = next_requests mr out rid"
      using known [of rid] res(3-6) D by (auto simp: mr1(2))
  qed
  moreover have "runner_like mr mr'"
    using res(7) sz mr1(5-7) by (auto simp: runner_like_def intro: same_size_trans)
  moreover have "mr_encoder_cache mr' = next_encoder_cache sord mr out"
    using res(8) mr1(8) by (simp add: committed_def Let_def)
  ultimately show ?thesis using res(1,2) by blast
qed

end
