(* ===== verification/RunnerProps.thy ===== *)
theory RunnerProps
  imports ExecuteModel "HOL-Library.Char_ord" "HOL-Library.List_Lexorder"
begin

text \<open>
  The properties of the model runner: it follows the scheduler's output, lays the tokens out as the
  attention kernels expect, a whole step returns what the scheduler needs, and two behaviours of the
  code that lose data.  The witnesses run one step on a batch of two requests.
\<close>

section \<open>The vision encoder keeps one output per request\<close>

definition outputs_of :: "string \<Rightarrow> ((string \<times> nat) \<times> enc_handle) list \<Rightarrow> (nat \<times> enc_handle) list" where
  "outputs_of rid xs = map (\<lambda>x. (snd (fst x), snd x)) (filter (\<lambda>x. fst (fst x) = rid) xs)"

lemma store_encoder_outputs_last:
  "\<exists>c'. store_encoder_outputs [] xs c = Inr c' \<and>
     (\<forall>rid. map_of c' rid = (if outputs_of rid xs = [] then map_of c rid else Some [last (outputs_of rid xs)]))"
proof (induction xs arbitrary: c)
  case (Cons x xs)
  let ?c = "AList.update (fst (fst x)) [(snd (fst x), snd x)] (AList.update (fst (fst x)) [] c)"
  obtain c' where "store_encoder_outputs [] xs ?c = Inr c'"
    "\<forall>rid. map_of c' rid = (if outputs_of rid xs = [] then map_of ?c rid else Some [last (outputs_of rid xs)])"
    using Cons.IH by blast
  then show ?case
    by (auto simp: store_encoder_output_def Let_def update_conv' outputs_of_def)
qed (simp add: outputs_of_def)

section \<open>An example step\<close>

definition demo_runner :: GPUModelRunner where
  "demo_runner = \<lparr>mr_block_size = 4, mr_max_num_blocks_per_req = 4, mr_max_num_tokens = 16, mr_encoder_cache = [],
     mr_requests = [''a'' \<mapsto> demo_state ''a'' 1 0, ''b'' \<mapsto> demo_state ''b'' 0 1], mr_input_batch = demo_batch\<rparr>"

text \<open>Request \<open>a\<close> has finished, \<open>b\<close> continues at its third token, \<open>c\<close> is new.\<close>

definition demo_new :: NewRequestData where
  "demo_new = \<lparr>nr_req_id = ''c'', nr_prompt_token_ids = [1, 2], nr_prompt = None, nr_mm_inputs = [], nr_mm_hashes = [],
     nr_mm_positions = [], nr_sampling_params = default_params, nr_block_ids = [2], nr_num_computed_tokens = 0\<rparr>"

definition demo_step :: SchedulerOutput where
  "demo_step = \<lparr>scheduled_new_reqs = [demo_new],
     scheduled_cached_reqs = [\<lparr>cr_req_id = ''b'', cr_resumed_from_preemption = False, cr_new_block_ids = [3],
        cr_num_computed_tokens = 2\<rparr>],
     num_scheduled_tokens = [(''b'', 1), (''c'', 2)], total_num_scheduled_tokens = 3, scheduled_encoder_inputs = [],
     num_common_prefix_blocks = 0, out_finished_req_ids = {''a''}, free_encoder_input_ids = []\<rparr>"

text \<open>A sampler that returns the token 5 for every row.\<close>

definition demo_net :: "enc_slice list \<Rightarrow> PreparedInputs \<Rightarrow> SamplingMetadata \<Rightarrow> int list" where
  "demo_net enc pinp md = map (\<lambda>_. 5) (pi_logits_indices pinp)"

lemma demo_net_rows: "samples_rows demo_net"
  by (simp add: samples_rows_def demo_net_def)

lemma sorted_strings: "lists_sets (sorted_list_of_set :: string set \<Rightarrow> string list)"
  by (simp add: lists_sets_def)

lemma demo_index: "index_of demo_batch = [''a'' \<mapsto> 0, ''b'' \<mapsto> 1]"
proof -
  have "ib_req_id_to_index demo_batch = [(''a'', 0), (''b'', 1)]" by code_simp
  then show ?thesis by (auto simp: index_of_def)
qed

lemma demo_runner_ok: "runner_ok demo_runner"
proof -
  have "dense demo_batch" unfolding dense_def by code_simp
  moreover have "[''a'' \<mapsto> demo_state ''a'' 1 0, ''b'' \<mapsto> demo_state ''b'' 0 1] |` {''a'', ''b''} =
      [''a'' \<mapsto> demo_state ''a'' 1 0, ''b'' \<mapsto> demo_state ''b'' 0 1]"
    by (auto simp: restrict_map_def fun_eq_iff)
  ultimately show ?thesis
    using demo_batch_rep by (auto simp: runner_ok_def demo_runner_def demo_index insert_commute split: if_splits)
qed

lemma demo_next: "next_requests demo_runner demo_step ''b'' = Some (update_cached_state
       \<lparr>cr_req_id = ''b'', cr_resumed_from_preemption = False, cr_new_block_ids = [3], cr_num_computed_tokens = 2\<rparr>
       (demo_state ''b'' 0 1))"
  "next_requests demo_runner demo_step ''c'' = Some (new_cached_state demo_new)"
  by (simp_all add: next_requests_def updated_requests_def demo_step_def demo_runner_def cache_new_request_def
      demo_new_def)

lemma demo_sizes: "ib_max_num_reqs demo_batch = 4" "ib_max_model_len demo_batch = 8"
  "ib_max_num_blocks_per_req demo_batch = 4"
  by code_simp+

lemma demo_output_fits: "output_fits demo_runner demo_step"
proof -
  have keys: "map nr_req_id (scheduled_new_reqs demo_step) = [''c'']"
    "map cr_req_id (scheduled_cached_reqs demo_step) = [''b'']" "fst ` set (num_scheduled_tokens demo_step) = {''b'', ''c''}"
    "out_finished_req_ids demo_step = {''a''}" "mr_input_batch demo_runner = demo_batch"
    "mr_requests demo_runner ''b'' \<noteq> None"
    by (simp_all add: demo_step_def demo_new_def demo_runner_def)
  have "request_fits demo_batch (the (next_requests demo_runner demo_step ''b''))"
    "request_fits demo_batch (the (next_requests demo_runner demo_step ''c''))"
    unfolding demo_next by (simp_all add: request_fits_def demo_sizes update_cached_state_def demo_state_def
        new_cached_state_def demo_new_def cs_num_tokens_def)
  then show ?thesis
    unfolding output_fits_def Let_def keys demo_index demo_sizes using keys(6) by (simp add: insert_commute)
qed

lemma demo_step_ok: "step_ok demo_runner demo_step"
proof -
  have keys: "num_scheduled_tokens demo_step = [(''b'', 1), (''c'', 2)]" "total_num_scheduled_tokens demo_step = 3"
    "mr_input_batch demo_runner = demo_batch" "mr_block_size demo_runner = 4" "mr_max_num_tokens demo_runner = 16"
    "mr_max_num_blocks_per_req demo_runner = 4"
    by (simp_all add: demo_step_def demo_runner_def)
  show ?thesis
    unfolding step_ok_def Let_def keys demo_sizes
    by (simp add: demo_next)
      (simp add: update_cached_state_def demo_state_def new_cached_state_def demo_new_def cs_num_tokens_def)
qed

section \<open>Properties\<close>

text \<open>C34: \<open>_update_states\<close> never raises on an output that fits the runner, and afterwards the runner holds
  exactly the states the scheduler asks for, with the scheduled requests, and no others, in a gap-free
  persistent batch.\<close>

theorem update_states_follows_scheduler:
  assumes "runner_ok mr" and "lists_sets sord" and "output_fits mr out"
  shows "\<exists>changed mr'. update_states sord mr out = Inr (changed, mr') \<and>
     mr_requests mr' = next_requests mr out \<and> dense (mr_input_batch mr') \<and>
     batch_rep (mr_input_batch mr') (next_requests mr out |` (fst ` set (num_scheduled_tokens out))) \<and>
     mr_encoder_cache mr' = next_encoder_cache sord mr out"
  using update_states_ok [OF assms] by (auto simp: runner_ok_def)

theorem update_states_follows_scheduler_witness:
  "\<exists>changed mr'. update_states sorted_list_of_set demo_runner demo_step = Inr (changed, mr') \<and>
     batch_rep (mr_input_batch mr') (next_requests demo_runner demo_step |` {''b'', ''c''})"
proof -
  have "fst ` set (num_scheduled_tokens demo_step) = {''b'', ''c''}" by (simp add: demo_step_def)
  then show ?thesis
    using update_states_follows_scheduler [OF demo_runner_ok sorted_strings demo_output_fits] by auto
qed

text \<open>C35: The vectorised index arithmetic of \<open>_prepare_inputs\<close> computes the layout defined token by token: the
  tokens of the request in row \<open>i\<close> are contiguous from \<open>query_start_loc[i]\<close>, in order, each with its position,
  its token id and the slot of its position in the request's own blocks, and the logits are read at its last
  token.\<close>

theorem prepare_inputs_layout:
  assumes "runner_ok mr" and "step_fits mr out"
  shows "\<exists>pinp mr'. prepare_inputs mr out = Inr (pinp, mr') \<and>
     length (pi_positions pinp) = nat (total_num_scheduled_tokens out) \<and>
     (\<forall>rid rq i n. index_of (mr_input_batch mr) rid = Some i \<longrightarrow> mr_requests mr rid = Some rq \<longrightarrow>
        map_of (num_scheduled_tokens out) rid = Some n \<longrightarrow> row_prepared mr pinp i rq n)"
  using prepare_inputs_ok [OF assms] by blast

definition demo_prefill :: SchedulerOutput where
  "demo_prefill = demo_step\<lparr>num_scheduled_tokens := [(''a'', 3), (''b'', 2)], total_num_scheduled_tokens := 5\<rparr>"

theorem prepare_inputs_layout_witness:
  "\<exists>pinp mr'. prepare_inputs demo_runner demo_prefill = Inr (pinp, mr') \<and> length (pi_positions pinp) = 5 \<and>
     row_prepared demo_runner pinp 1 (demo_state ''b'' 0 1) 2"
proof -
  have keys: "num_scheduled_tokens demo_prefill = [(''a'', 3), (''b'', 2)]" "total_num_scheduled_tokens demo_prefill = 5"
    "mr_input_batch demo_runner = demo_batch" "mr_block_size demo_runner = 4" "mr_max_num_tokens demo_runner = 16"
    "mr_max_num_blocks_per_req demo_runner = 4" "mr_requests demo_runner ''a'' = Some (demo_state ''a'' 1 0)"
    "mr_requests demo_runner ''b'' = Some (demo_state ''b'' 0 1)"
    by (simp_all add: demo_prefill_def demo_runner_def)
  have n: "ib_num_reqs demo_batch = 2" by code_simp
  have "step_fits demo_runner demo_prefill"
    unfolding step_fits_def Let_def keys demo_sizes n demo_index
    by (auto simp: keys demo_state_def cs_num_tokens_def)
  from prepare_inputs_layout [OF demo_runner_ok this]
  show ?thesis by (auto simp: keys demo_index)
qed

text \<open>C33: A step of the runner on an output the scheduler can make returns, keeps the runner's invariant, gives
  the scheduler a sampled token for every scheduled request, and appends that token to the state of exactly
  the requests whose tokens have all been computed.\<close>

theorem execute_model_step:
  assumes "runner_ok mr" and "lists_sets sord" and "output_fits mr out" and "step_ok mr out" and "samples_rows net"
    and "is_mm \<Longrightarrow> encoder_ready (next_encoder_cache sord mr out) (next_requests mr out) (num_scheduled_tokens out)"
  shows "\<exists>mro mr'. execute_model sord net is_mm mr out = Inr (mro, mr') \<and> runner_ok mr' \<and>
     covers_output mro out \<and> step_recorded mr out mro mr'"
  using execute_model_ok [OF assms] by blast

theorem execute_model_step_witness:
  "\<exists>mro mr'. execute_model sorted_list_of_set demo_net True demo_runner demo_step = Inr (mro, mr') \<and> runner_ok mr' \<and>
     covers_output mro demo_step \<and> step_recorded demo_runner demo_step mro mr'"
proof -
  have "encoder_ready (next_encoder_cache sorted_list_of_set demo_runner demo_step)
      (next_requests demo_runner demo_step) (num_scheduled_tokens demo_step)"
    using demo_next unfolding encoder_ready_def
    by (simp add: demo_step_def) (simp add: update_cached_state_def demo_state_def new_cached_state_def demo_new_def)
  then show ?thesis
    by (intro execute_model_step demo_runner_ok sorted_strings demo_output_fits demo_step_ok demo_net_rows)
qed





text \<open>C37: The vision encoder returns one output per request, the last one of its inputs: the dictionary it
  fills is reset for every input, because the test for an existing entry looks at the runner's own cache,
  which is empty in the encoder process.\<close>

theorem vision_encoder_keeps_last_output:
  assumes "mr_encoder_cache mr = []" and "sched \<noteq> []"
    and "collect_encoder_inputs (mr_requests mr) sched = Inr xs"
  shows "\<exists>c. execute_encoder vision mr sched = Inr (Some c) \<and>
     (\<forall>rid. map_of c rid =
        (let ys = outputs_of rid (zip (map fst xs) (vision (map snd xs))) in if ys = [] then None else Some [last ys]))"
proof -
  obtain c where "store_encoder_outputs [] (zip (map fst xs) (vision (map snd xs))) [] = Inr c"
    "\<forall>rid. map_of c rid = (let ys = outputs_of rid (zip (map fst xs) (vision (map snd xs))) in
       if ys = [] then None else Some [last ys])"
    using store_encoder_outputs_last [of "zip (map fst xs) (vision (map snd xs))" "[]"] by (auto simp: Let_def)
  then show ?thesis using assms by (simp add: execute_encoder_def)
qed

definition demo_images :: GPUModelRunner where
  "demo_images = demo_runner\<lparr>mr_requests := [''w'' \<mapsto> (demo_state ''w'' 1 0)\<lparr>cs_mm_inputs := [Some 0, Some 1]\<rparr>]\<rparr>"

theorem vision_encoder_keeps_last_output_witness:
  "\<exists>c. execute_encoder (map (\<lambda>k. 10 + the k)) demo_images [(''w'', [0, 1])] = Inr (Some c) \<and>
     map_of c ''w'' = Some [(1, 11)]"
proof -
  let ?xs = "[((''w'', 0), Some 0), ((''w'', 1), Some 1)] :: ((string \<times> nat) \<times> mm_kwargs option) list"
  have "mr_encoder_cache demo_images = []" by (simp add: demo_images_def demo_runner_def)
  moreover have "collect_encoder_inputs (mr_requests demo_images) [(''w'', [0, 1])] = Inr ?xs"
    by (simp add: demo_images_def)
  ultimately obtain c where "execute_encoder (map (\<lambda>k. 10 + the k)) demo_images [(''w'', [0, 1])] = Inr (Some c)"
    and c: "map_of c ''w'' = (let ys = outputs_of ''w'' (zip (map fst ?xs) (map (\<lambda>k. 10 + the k) (map snd ?xs))) in
      if ys = [] then None else Some [last ys])"
    using vision_encoder_keeps_last_output [of demo_images "[(''w'', [0, 1])]" ?xs "map (\<lambda>k. 10 + the k)"] by blast
  moreover have "map_of c ''w'' = Some [(1, 11)]"
    unfolding c by (simp add: Let_def outputs_of_def)
  ultimately show ?thesis by blast
qed

end
