(* ===== verification/Coupling.thy ===== *)
theory Coupling
  imports StepData RunnerProps
begin

text \<open>
  The scheduler and the model runner together.  The runner never sees the scheduler's state: it rebuilds the
  requests and block tables from the outputs of the steps it is given.  The coupling invariant below says that
  this reconstruction is exact; every operation of the scheduler and every step of the runner keeps it.
\<close>

section \<open>The coupling invariant\<close>

text \<open>The runner's copy of a request.\<close>

definition mirrors :: "Request \<Rightarrow> CachedRequestState \<Rightarrow> bool" where
  "mirrors r rq \<longleftrightarrow>
     cs_req_id rq = request_id r \<and> cs_prompt_token_ids rq = prompt_token_ids r \<and>
     cs_output_token_ids rq = output_token_ids r \<and> cs_sampling_params rq = sampling_params r \<and>
     cs_mm_inputs rq = mm_inputs r \<and> cs_mm_positions rq = mm_positions r"

text \<open>
  A request that waits for the first time is unknown to the runner; any other one is mirrored, and the
  blocks the runner has for a running request are those the scheduler's block manager holds for it.
\<close>

definition req_coupled :: "Scheduler \<Rightarrow> GPUModelRunner \<Rightarrow> string \<Rightarrow> Request \<Rightarrow> bool" where
  "req_coupled s mr rid r \<longleftrightarrow>
     rid \<notin> finished_req_ids s \<and> num_tokens r < s_max_model_len s \<and>
     (if status r = WAITING then output_token_ids r = [] \<and> mr_requests mr rid = None
      else \<exists>rq. mr_requests mr rid = Some rq \<and> mirrors r rq \<and>
        (rid \<in> set (running s) \<longrightarrow> cs_block_ids rq = blocks_of (kv_cache_manager s) rid))"

text \<open>The runner is built for the scheduler's limits.\<close>

definition runner_sized :: "Scheduler \<Rightarrow> GPUModelRunner \<Rightarrow> bool" where
  "runner_sized s mr \<longleftrightarrow>
     int (mr_block_size mr) = s_block_size s \<and> int (ib_max_model_len (mr_input_batch mr)) = s_max_model_len s \<and>
     max_num_running_reqs s \<le> int (ib_max_num_reqs (mr_input_batch mr)) \<and>
     mr_max_num_blocks_per_req mr = ib_max_num_blocks_per_req (mr_input_batch mr) \<and>
     cdiv (s_max_model_len s) (s_block_size s) \<le> int (mr_max_num_blocks_per_req mr) \<and>
     max_num_scheduled_tokens s \<le> int (mr_max_num_tokens mr)"

definition coupled :: "Scheduler \<Rightarrow> GPUModelRunner \<Rightarrow> bool" where
  "coupled s mr \<longleftrightarrow>
     sched_good s \<and> crd_ok s \<and> runner_ok mr \<and> runner_sized s mr \<and> finite (finished_req_ids s) \<and>
     (\<forall>rid r. requests s rid = Some r \<longrightarrow> req_coupled s mr rid r)"

lemma runner_sized_like: "runner_sized s mr \<Longrightarrow> same_sizes s s' \<Longrightarrow> runner_like mr mr' \<Longrightarrow> runner_sized s' mr'"
  by (simp add: runner_sized_def same_sizes_def runner_like_def same_size_def)

section \<open>The states after the runner's update\<close>

lemma updated_requests_at:
  assumes "d \<in> set ds" and "distinct (map cr_req_id ds)"
  shows "updated_requests reqs ds (cr_req_id d) = map_option (update_cached_state d) (reqs (cr_req_id d))"
  using assms
proof (induction ds arbitrary: reqs)
  case (Cons e ds)
  have step: "updated_requests reqs (e # ds) =
      updated_requests (reqs(cr_req_id e := map_option (update_cached_state e) (reqs (cr_req_id e)))) ds"
    by (simp add: updated_requests_def)
  show ?case
  proof (cases "d \<in> set ds")
    case True
    then have "cr_req_id d \<noteq> cr_req_id e" using Cons.prems(2) by (metis distinct.simps(2) image_eqI list.set_map list.simps(9))
    with Cons.IH [OF True] Cons.prems(2) step show ?thesis by simp
  next
    case False
    then have "d = e" "cr_req_id d \<notin> cr_req_id ` set ds" using Cons.prems by auto
    then show ?thesis unfolding step by (simp add: updated_requests_other)
  qed
qed simp

lemma fold_new_at:
  assumes "d \<in> set ds" and "distinct (map nr_req_id ds)"
  shows "fold cache_new_request ds m (nr_req_id d) = Some (new_cached_state d)"
  using assms
proof (induction ds arbitrary: m)
  case (Cons e ds)
  show ?case
  proof (cases "d \<in> set ds")
    case True
    then show ?thesis using Cons by simp
  next
    case False
    then have "d = e" "nr_req_id d \<notin> nr_req_id ` set ds" using Cons.prems by auto
    then show ?thesis by (simp add: fold_new_other) (simp add: cache_new_request_def)
  qed
qed simp

lemma next_requests_cases:
  assumes dist: "distinct (scheduled_ids out)"
  shows "d \<in> set (scheduled_new_reqs out) \<Longrightarrow> next_requests mr out (nr_req_id d) = Some (new_cached_state d)"
    and "e \<in> set (scheduled_cached_reqs out) \<Longrightarrow> cr_req_id e \<notin> out_finished_req_ids out \<Longrightarrow>
      next_requests mr out (cr_req_id e) = map_option (update_cached_state e) (mr_requests mr (cr_req_id e))"
    and "rid \<notin> set (scheduled_ids out) \<Longrightarrow> rid \<notin> out_finished_req_ids out \<Longrightarrow>
      next_requests mr out rid = mr_requests mr rid"
proof -
  show "next_requests mr out (nr_req_id d) = Some (new_cached_state d)" if "d \<in> set (scheduled_new_reqs out)"
  proof -
    have "nr_req_id d \<notin> cr_req_id ` set (scheduled_cached_reqs out)"
      using that dist by (force simp: scheduled_ids_def)
    then show ?thesis
      using that dist unfolding next_requests_def by (simp add: updated_requests_other fold_new_at scheduled_ids_def)
  qed
  show "next_requests mr out (cr_req_id e) = map_option (update_cached_state e) (mr_requests mr (cr_req_id e))"
    if "e \<in> set (scheduled_cached_reqs out)" "cr_req_id e \<notin> out_finished_req_ids out"
  proof -
    have "cr_req_id e \<notin> nr_req_id ` set (scheduled_new_reqs out)"
      using that dist by (force simp: scheduled_ids_def)
    then show ?thesis
      using that dist unfolding next_requests_def by (simp add: updated_requests_at fold_new_other scheduled_ids_def)
  qed
  show "next_requests mr out rid = mr_requests mr rid"
    if "rid \<notin> set (scheduled_ids out)" "rid \<notin> out_finished_req_ids out"
    using that unfolding next_requests_def
    by (simp add: updated_requests_other fold_new_other scheduled_ids_def image_iff)
qed

section \<open>A scheduled step fits the runner\<close>

text \<open>The state the runner has for a scheduled request once it has taken in the output.\<close>

definition scheduled_state :: "Scheduler \<Rightarrow> string \<Rightarrow> Request \<Rightarrow> CachedRequestState \<Rightarrow> bool" where
  "scheduled_state s' rid r rq \<longleftrightarrow>
     mirrors r rq \<and> cs_num_computed_tokens rq = num_computed_tokens r \<and>
     cs_block_ids rq = blocks_of (kv_cache_manager s') rid"

lemma mirrors_carried: "carried r r' \<Longrightarrow> mirrors r' rq = mirrors r rq"
  by (simp add: mirrors_def carried_sel)

lemma mirrors_updated [simp]: "mirrors r (update_cached_state d rq) = mirrors r rq"
  by (simp add: mirrors_def update_cached_state_def)

lemma scheduled_states:
  assumes c: "coupled s mr" and d: "step_data s out s'" and f: "out_finished_req_ids out = finished_req_ids s"
    and ids: "\<And>rid r. requests s' rid = Some r \<Longrightarrow> request_id r = rid"
    and rid: "rid \<in> set (scheduled_ids out)"
  shows "\<exists>r rq. requests s' rid = Some r \<and> next_requests mr out rid = Some rq \<and> scheduled_state s' rid r rq \<and>
     num_tokens r < s_max_model_len s \<and> (\<exists>r0. requests s rid = Some r0 \<and> carried r0 r)"
proof -
  have dist: "distinct (scheduled_ids out)" using d by (simp add: step_data_def)
  have rc: "\<And>i r. requests s i = Some r \<Longrightarrow> req_coupled s mr i r" using c by (simp add: coupled_def)
  consider (new) x where "x \<in> set (scheduled_new_reqs out)" "rid = nr_req_id x"
    | (old) x where "x \<in> set (scheduled_cached_reqs out)" "rid = cr_req_id x"
    using rid by (auto simp: scheduled_ids_def)
  then show ?thesis
  proof cases
    case new
    then obtain r0 r where r: "requests s rid = Some r0" "requests s' rid = Some r" "carried r0 r" "status r0 = WAITING"
        "x = new_request_data r (blocks_of (kv_cache_manager s') rid) (num_computed_tokens r)"
      using d unfolding step_data_def new_entry_ok_def by blast
    have k: "output_token_ids r0 = []" "num_tokens r0 < s_max_model_len s" using rc [OF r(1)] r(4) by (simp_all add: req_coupled_def)
    have "next_requests mr out rid = Some (new_cached_state x)" using next_requests_cases(1) [OF dist new(1)] new(2) by simp
    moreover have "scheduled_state s' rid r (new_cached_state x)"
      using r(5) k(1) carried_sel [OF r(3)] ids [OF r(2)]
      by (simp add: scheduled_state_def mirrors_def new_cached_state_def new_request_data_def)
    ultimately show ?thesis using r(1-3) k(2) carried_sel(9) [OF r(3)] by auto
  next
    case old
    obtain r0 r where r: "requests s rid = Some r0" "requests s' rid = Some r" "carried r0 r" "status r0 \<noteq> WAITING"
        "cr_num_computed_tokens x = num_computed_tokens r"
        "if cr_resumed_from_preemption x then cr_new_block_ids x = blocks_of (kv_cache_manager s') rid
         else rid \<in> set (running s) \<and>
           blocks_of (kv_cache_manager s') rid = blocks_of (kv_cache_manager s) rid @ cr_new_block_ids x"
      using d old unfolding step_data_def cached_entry_ok_def Let_def by blast
    obtain rq where k: "rid \<notin> finished_req_ids s" "num_tokens r0 < s_max_model_len s" "mr_requests mr rid = Some rq"
        "mirrors r0 rq" "rid \<in> set (running s) \<longrightarrow> cs_block_ids rq = blocks_of (kv_cache_manager s) rid"
      using rc [OF r(1)] r(4) by (auto simp: req_coupled_def)
    have "next_requests mr out rid = Some (update_cached_state x rq)"
      using next_requests_cases(2) [OF dist old(1), of mr] old(2) k(1,3) f by simp
    moreover have "scheduled_state s' rid r (update_cached_state x rq)"
      using r(5,6) k(4,5) by (simp add: scheduled_state_def mirrors_carried [OF r(3)])
        (auto simp: update_cached_state_def split: if_splits)
    ultimately show ?thesis using r(1-3) k(2) carried_sel(9) [OF r(3)] by auto
  qed
qed

text \<open>The length of a mirrored request.\<close>

lemma mirrors_num_tokens: "mirrors r rq \<Longrightarrow> request_wf r \<Longrightarrow> int (cs_num_tokens rq) = num_tokens r"
  by (simp add: mirrors_def request_wf_def cs_num_tokens_def num_tokens_def)

lemma schedule_fits:
  assumes c: "coupled s mr" and sch: "schedule hf s = Inr (out, s')" and ne: "total_num_scheduled_tokens out \<noteq> 0"
  shows "output_fits mr out" and "step_ok mr out"
proof -
  have good: "sched_good s" and crd: "crd_ok s" and mr: "runner_ok mr" and sz: "runner_sized s mr"
    and fin: "finite (finished_req_ids s)" and rc: "\<And>i r. requests s i = Some r \<Longrightarrow> req_coupled s mr i r"
    using c by (simp_all add: coupled_def)
  have d: "step_data s out s'" and ss: "same_sizes s s'" using schedule_data [OF good crd sch] by blast+
  have post: "schedule_post s out s'" using schedule_ok [of s hf] good sch by (auto simp: sched_good_def)
  have inv: "sched_inv s'" and conf: "same_conf (kv_cache_manager s) (kv_cache_manager s')"
    and sub: "fst ` set (num_scheduled_tokens out) \<subseteq> set (running s')" and f: "out_finished_req_ids out = finished_req_ids s"
    and tot: "total_num_scheduled_tokens out = sum_list (map snd (num_scheduled_tokens out))"
      "total_num_scheduled_tokens out \<le> max_num_scheduled_tokens s" "distinct (map fst (num_scheduled_tokens out))"
    using post by (simp_all add: schedule_post_def)
  have ids: "\<And>i r. requests s' i = Some r \<Longrightarrow> request_id r = i" using inv by (simp add: sched_inv_def)
  have S: "distinct (scheduled_ids out)" "set (scheduled_ids out) = fst ` set (num_scheduled_tokens out)"
    using d by (simp_all add: step_data_def)
  let ?ib = "mr_input_batch mr"
  have eq: "s_block_size s' = block_size (kv_cache_manager s')" "block_size (kv_cache_manager s') = s_block_size s"
      "max_model_len (kv_cache_manager s') = s_max_model_len s" "0 < s_block_size s"
      "max_num_blocks_per_req (kv_cache_manager s') = cdiv (s_max_model_len s) (s_block_size s)"
    using inv good conf by (auto simp: sched_inv_def sched_good_def same_conf_def kvm_good_def kvm_conf_ok_def)
  have st: "\<exists>r rq. requests s' rid = Some r \<and> next_requests mr out rid = Some rq \<and> scheduled_state s' rid r rq \<and>
      0 < n \<and> 0 \<le> num_computed_tokens r \<and> num_computed_tokens r + n \<le> num_tokens r \<and>
      num_computed_tokens r + n \<le> int (length (blocks_of (kv_cache_manager s') rid)) * s_block_size s \<and>
      int (cs_num_tokens rq) = num_tokens r \<and> num_tokens r < s_max_model_len s \<and>
      blocks_bounded (kv_cache_manager s') rid"
    if n: "(rid, n) \<in> set (num_scheduled_tokens out)" for rid n
  proof -
    have "rid \<in> set (scheduled_ids out)" using S(2) n by force
    then obtain r rq where r: "requests s' rid = Some r" "next_requests mr out rid = Some rq" "scheduled_state s' rid r rq"
        "num_tokens r < s_max_model_len s"
      using scheduled_states [OF c d f ids] by blast
    have "tok_ok s' r n" using post n r(1) unfolding schedule_post_def by fastforce
    moreover have "req_ok (kv_cache_manager s') r" "request_id r = rid" using sched_invD [OF inv r(1)] by simp_all
    ultimately show ?thesis
      using r mirrors_num_tokens [of r rq] eq(2)
      by (intro exI [of _ r] exI [of _ rq]) (auto simp: tok_ok_def sched_ok_def req_ok_def scheduled_state_def)
  qed
  have ne': "num_scheduled_tokens out \<noteq> []" using ne tot(1) by auto
  have bs: "int (mr_block_size mr) = s_block_size s" "int (ib_max_model_len ?ib) = s_max_model_len s"
      "cdiv (s_max_model_len s) (s_block_size s) \<le> int (ib_max_num_blocks_per_req ?ib)"
      "mr_max_num_blocks_per_req mr = ib_max_num_blocks_per_req ?ib" "max_num_running_reqs s \<le> int (ib_max_num_reqs ?ib)"
      "max_num_scheduled_tokens s \<le> int (mr_max_num_tokens mr)"
    using sz by (simp_all add: runner_sized_def)
  have "\<exists>rq. next_requests mr out rid = Some rq \<and> 0 < n \<and>
         0 \<le> cs_num_computed_tokens rq \<and> cs_num_computed_tokens rq + n \<le> int (cs_num_tokens rq) \<and>
         cs_num_computed_tokens rq + n \<le> int (length (cs_block_ids rq) * mr_block_size mr) \<and>
         (cs_num_computed_tokens rq + n = int (cs_num_tokens rq) \<longrightarrow> cs_num_tokens rq < ib_max_model_len ?ib)"
    if n: "(rid, n) \<in> set (num_scheduled_tokens out)" for rid n
    using st [OF n] bs(1,2) by (auto simp: scheduled_state_def)
  then show "step_ok mr out"
    unfolding step_ok_def Let_def using bs eq(4) ne' tot by auto
  have fits: "request_fits ?ib (the (next_requests mr out rid))" if "rid \<in> fst ` set (num_scheduled_tokens out)" for rid
  proof -
    from that obtain n where n: "(rid, n) \<in> set (num_scheduled_tokens out)" by auto
    from st [OF n] obtain r rq where r: "next_requests mr out rid = Some rq" "scheduled_state s' rid r rq"
        "0 < num_computed_tokens r + n" "num_computed_tokens r + n \<le> int (length (blocks_of (kv_cache_manager s') rid)) * s_block_size s"
        "int (cs_num_tokens rq) < s_max_model_len s" "blocks_bounded (kv_cache_manager s') rid" by auto
    have "blocks_of (kv_cache_manager s') rid \<noteq> []" using r(3,4) by auto
    then have "int (length (blocks_of (kv_cache_manager s') rid)) \<le> int (ib_max_num_blocks_per_req ?ib)"
      using r(6) eq(5) bs(3) by (simp add: blocks_bounded_def)
    then show ?thesis
      using r \<open>blocks_of (kv_cache_manager s') rid \<noteq> []\<close> bs(2) by (simp add: request_fits_def scheduled_state_def)
  qed
  have card: "card (fst ` set (num_scheduled_tokens out)) \<le> ib_max_num_reqs ?ib"
  proof -
    have "card (fst ` set (num_scheduled_tokens out)) \<le> length (running s')"
      using card_mono [OF finite_set sub] card_length [of "running s'"] by linarith
    moreover have "int (length (running s')) \<le> max_num_running_reqs s"
      using inv ss by (simp add: sched_inv_def same_sizes_def)
    ultimately show ?thesis using bs(5) by linarith
  qed
  have new: "index_of ?ib rid = None" if "rid \<in> nr_req_id ` set (scheduled_new_reqs out)" for rid
  proof -
    have rep: "batch_rep ?ib (mr_requests mr |` dom (index_of ?ib))" using mr by (simp add: runner_ok_def)
    from that d obtain r0 where "requests s rid = Some r0" "status r0 = WAITING"
      unfolding step_data_def new_entry_ok_def by blast
    then have "mr_requests mr rid = None" using rc [of rid r0] by (simp add: req_coupled_def)
    then have "rid \<notin> dom (mr_requests mr |` dom (index_of ?ib))" by (simp add: domIff restrict_map_def)
    then have "rid \<notin> dom (index_of ?ib)" using batch_rep_dom [OF rep] by metis
    then show ?thesis by (simp add: domIff)
  qed
  have old: "rid \<notin> finished_req_ids s \<and> mr_requests mr rid \<noteq> None" if "rid \<in> cr_req_id ` set (scheduled_cached_reqs out)" for rid
  proof -
    from that d obtain r0 where "requests s rid = Some r0" "status r0 \<noteq> WAITING"
      unfolding step_data_def cached_entry_ok_def by blast
    then show ?thesis using rc [of rid r0] by (auto simp: req_coupled_def)
  qed
  show "output_fits mr out"
    unfolding output_fits_def Let_def
    using S card fits new old fin by (auto simp: f scheduled_ids_def)
qed

section \<open>Idle and working steps\<close>

text \<open>A request that the step does not schedule, before the runner answers.\<close>

lemma idle_coupled:
  assumes rc: "req_coupled s mr rid r0" and r0: "requests s rid = Some r0" and i: "idle_req_ok s s' rid r"
    and fin: "rid \<notin> finished_req_ids s'" and sz: "same_sizes s s'" and mr: "mr_requests mr' rid = mr_requests mr rid"
    and st: "rid \<in> set (running s') \<longleftrightarrow> status r = RUNNING"
  shows "req_coupled s' mr' rid r"
proof -
  have c: "carried r0 r" and i': "if rid \<in> set (running s') then status r0 \<noteq> WAITING \<and> rid \<in> set (running s) \<and>
        blocks_of (kv_cache_manager s') rid = blocks_of (kv_cache_manager s) rid
      else (status r = WAITING \<longleftrightarrow> status r0 = WAITING)"
    using i r0 by (auto simp: idle_req_ok_def)
  note C = carried_sel [OF c]
  show ?thesis
    using rc i' fin sz mr st C(4,9) mirrors_carried [OF c] unfolding req_coupled_def same_sizes_def
    by (auto split: if_splits)
qed

lemma sched_inv_running: "sched_inv s \<Longrightarrow> requests s rid = Some r \<Longrightarrow> rid \<in> set (running s) \<longleftrightarrow> status r = RUNNING"
  using sched_invD [of s rid r] by (auto simp: req_status_ok_def split: if_splits)

lemma idle_step_coupled:
  assumes c: "coupled s mr" and sch: "schedule hf s = Inr (out, s')" and none: "total_num_scheduled_tokens out = 0"
  shows "coupled s' mr"
proof -
  have good: "sched_good s" and crd: "crd_ok s" and rc: "\<And>i r. requests s i = Some r \<Longrightarrow> req_coupled s mr i r"
    using c by (simp_all add: coupled_def)
  have d: "step_data s out s'" "crd_ok s'" "same_sizes s s'" using schedule_data [OF good crd sch] by blast+
  have post: "schedule_post s out s'" using schedule_ok [of s hf] good sch by (auto simp: sched_good_def)
  then have inv: "sched_inv s'" and f: "finished_req_ids s' = {}" and good': "sched_good s'"
    using good by (simp_all add: schedule_post_def sched_good_def)
  have "num_scheduled_tokens out = []"
  proof (rule ccontr)
    assume "num_scheduled_tokens out \<noteq> []"
    then obtain rid n rest where t: "num_scheduled_tokens out = (rid, n) # rest" by (cases "num_scheduled_tokens out") auto
    have pos: "0 < k" if "(i, k) \<in> set (num_scheduled_tokens out)" for i k
      using post that unfolding schedule_post_def tok_ok_def sched_ok_def by blast
    have "0 \<le> snd x" if "x \<in> set rest" for x using pos [of "fst x" "snd x"] that t by simp
    then have "0 \<le> sum_list (map snd rest)" by (intro sum_list_nonneg) auto
    moreover have "0 < n" using pos t by auto
    moreover have "total_num_scheduled_tokens out = sum_list (map snd (num_scheduled_tokens out))"
      using post by (simp add: schedule_post_def)
    ultimately show False using none t by simp
  qed
  then have idle: "idle_req_ok s s' rid r" if "requests s' rid = Some r" for rid r
    using d(1) that by (simp add: step_data_def)
  have "req_coupled s' mr rid r" if r: "requests s' rid = Some r" for rid r
  proof -
    obtain r0 where r0: "requests s rid = Some r0" using idle [OF r] by (auto simp: idle_req_ok_def)
    show ?thesis
      by (rule idle_coupled [OF rc [OF r0] r0 idle [OF r]]) (use f d(3) sched_inv_running [OF inv r] in simp_all)
  qed
  moreover have "runner_sized s' mr" "runner_ok mr"
    using c runner_sized_like [of s mr s' mr] d(3) by (simp_all add: coupled_def runner_like_def)
  ultimately show ?thesis using good' d(2) f by (simp add: coupled_def)
qed

text \<open>A scheduled request after the runner and the scheduler have recorded the sampled token.\<close>

lemma recorded_coupled:
  assumes st: "scheduled_state s' rid r rq" and id: "request_id r = rid" "cs_req_id rq = rid" and wf: "request_wf r"
    and n: "map_of toks rid = Some n" "0 < n" and idx: "req_id_to_index mro rid = Some (int i)"
    and adv: "advanced s' toks mro r r''" and blk: "blocks_of (kv_cache_manager s'') rid = blocks_of (kv_cache_manager s') rid"
    and lt: "num_tokens r < s_max_model_len s'"
  shows "mirrors r'' (recorded (sampled_token_ids mro) toks i rq)"
    "cs_block_ids (recorded (sampled_token_ids mro) toks i rq) = blocks_of (kv_cache_manager s'') rid"
    "num_tokens r'' < s_max_model_len s'" "status r'' = status r"
proof -
  have m: "mirrors r rq" and nct: "cs_num_computed_tokens rq = num_computed_tokens r"
    and b: "cs_block_ids rq = blocks_of (kv_cache_manager s') rid"
    using st by (simp_all add: scheduled_state_def)
  have cu: "caught_up toks rq \<longleftrightarrow> num_computed_tokens r + n = num_tokens r"
    using mirrors_num_tokens [OF m wf] nct n(1) id(2) by (simp add: caught_up_def)
  show "cs_block_ids (recorded (sampled_token_ids mro) toks i rq) = blocks_of (kv_cache_manager s'') rid"
    using b blk by (simp add: recorded_def append_sample_def)
  show "mirrors r'' (recorded (sampled_token_ids mro) toks i rq)" "num_tokens r'' < s_max_model_len s'"
      "status r'' = status r"
    using adv m n id idx cu lt
    by (auto simp: advanced_def Let_def recorded_def append_sample_def mirrors_def append_output_token_ids_def
        py_index_def num_tokens_def split: if_splits)
qed

text \<open>The whole step: the scheduler's output runs, its answer is taken in, and both sides agree again.\<close>

lemma work_step_coupled:
  assumes c: "coupled s mr" and ord: "set_order_ok ord" and sord: "lists_sets sord" and net: "samples_rows net"
    and enc: "is_mm \<Longrightarrow> encoder_ready (next_encoder_cache sord mr out) (next_requests mr out) (num_scheduled_tokens out)"
    and sch: "schedule hf s = Inr (out, s')" and ne: "total_num_scheduled_tokens out \<noteq> 0"
  shows "\<exists>mro mr' o' s''. execute_model sord net is_mm mr out = Inr (mro, mr') \<and>
     update_from_output ord s' out mro = Inr (o', s'') \<and> coupled s'' mr' \<and> covers_output mro out \<and>
     mr_encoder_cache mr' = next_encoder_cache sord mr out"
proof -
  let ?toks = "num_scheduled_tokens out"
  have good: "sched_good s" and crd: "crd_ok s" and mr: "runner_ok mr" and sz: "runner_sized s mr"
    and rc: "\<And>i r. requests s i = Some r \<Longrightarrow> req_coupled s mr i r"
    using c by (simp_all add: coupled_def)
  have d: "step_data s out s'" "crd_ok s'" "same_sizes s s'" using schedule_data [OF good crd sch] by blast+
  have post: "schedule_post s out s'" using schedule_ok [of s hf] good sch by (auto simp: sched_good_def)
  have inv: "sched_inv s'" and f: "out_finished_req_ids out = finished_req_ids s" "finished_req_ids s' = {}"
    and toks: "distinct (map fst ?toks)" using post by (simp_all add: schedule_post_def)
  have ids: "\<And>i r. requests s' i = Some r \<Longrightarrow> request_id r = i" using inv by (simp add: sched_inv_def)
  note fits = schedule_fits [OF c sch ne]
  obtain mro mr' where x: "execute_model sord net is_mm mr out = Inr (mro, mr')" "runner_ok mr'" "covers_output mro out"
      "step_recorded mr out mro mr'" "runner_like mr mr'" "mr_encoder_cache mr' = next_encoder_cache sord mr out"
    using execute_model_ok [OF mr sord fits net enc] by blast
  obtain o' s'' where u: "update_from_output ord s' out mro = Inr (o', s'')" "sched_good s''"
      "upd_post s' [] (running s') (running s'') (ecos_outputs o') s''"
    using work_ok [OF good ord x(3) sch] by blast
  have rel: "upd_rel s' ?toks mro (running s') s''" by (rule update_from_output_rel [OF inv u(1)])
  have ss: "same_sizes s' s''" "crd_ok s''" using rel d(2) by (simp_all add: upd_rel_def)
  have fin: "finished_req_ids s'' = set (running s') - set (running s'')" and w: "waiting s'' = waiting s'"
    using u(3) f(2) by (simp_all add: upd_post_def)
  have inv'': "sched_inv s''" using u(2) by (simp add: sched_good_def)
  have "req_coupled s'' mr' rid r''" if r'': "requests s'' rid = Some r''" for rid r''
  proof -
    have run'': "rid \<in> set (running s'') \<longleftrightarrow> status r'' = RUNNING" by (rule sched_inv_running [OF inv'' r''])
    have "dom (requests s'') = set (running s'') \<union> set (waiting s')" "set (running s') \<inter> set (waiting s') = {}"
      using inv inv'' w unfolding sched_inv_def by simp_all
    then have nf: "rid \<notin> finished_req_ids s''" using fin r'' by blast
    have sub: "fst ` set ?toks \<subseteq> set (running s')" using post by (simp add: schedule_post_def)
    show ?thesis
    proof (cases "rid \<in> fst ` set ?toks")
      case True
      then have mem: "rid \<in> set (running s')" "rid \<in> set (scheduled_ids out)" using sub d(1) by (auto simp: step_data_def)
      obtain r where r: "requests s' rid = Some r" "advanced s' ?toks mro r r''"
          "blocks_of (kv_cache_manager s'') rid = blocks_of (kv_cache_manager s') rid"
        using rel mem(1) r'' unfolding upd_rel_def by blast
      obtain rq where q: "next_requests mr out rid = Some rq" "scheduled_state s' rid r rq" "num_tokens r < s_max_model_len s'"
        using scheduled_states [OF c d(1) f(1) ids mem(2)] r(1) d(3) by (auto simp: same_sizes_def)
      obtain i where i: "req_id_to_index mro rid = Some (int i)"
          "mr_requests mr' rid = Some (recorded (sampled_token_ids mro) ?toks i rq)"
        using spec [OF x(4) [unfolded step_recorded_def], of rid] True q(1) by auto
      obtain n where n: "map_of ?toks rid = Some n" "(rid, n) \<in> set ?toks"
        using True by (metis domIff dom_map_of_conv_image_fst not_Some_eq map_of_SomeD)
      have "0 < n" using post n(2) unfolding schedule_post_def tok_ok_def sched_ok_def by blast
      moreover have "request_wf r" "status r = RUNNING"
        using sched_invD [OF inv r(1)] mem(1) by (simp_all add: req_ok_def req_status_ok_def)
      moreover have "cs_req_id rq = rid" using q(2) ids [OF r(1)] by (simp add: scheduled_state_def mirrors_def)
      ultimately show ?thesis
        using recorded_coupled [OF q(2) ids [OF r(1)] _ _ n(1) _ i(1) r(2,3) q(3)] i(2) nf run'' ss(1)
        by (simp add: req_coupled_def same_sizes_def)
    next
      case False
      then have nin: "rid \<notin> set (scheduled_ids out)" and none: "map_of ?toks rid = None"
        using d(1) by (simp_all add: step_data_def map_of_eq_None_iff)
      have r: "requests s' rid = Some r''" "blocks_of (kv_cache_manager s'') rid = blocks_of (kv_cache_manager s') rid"
      proof -
        have "requests s' rid = Some r'' \<and> blocks_of (kv_cache_manager s'') rid = blocks_of (kv_cache_manager s') rid"
        proof (cases "rid \<in> set (running s')")
          case True
          then obtain r where "requests s' rid = Some r" "advanced s' ?toks mro r r''"
              "blocks_of (kv_cache_manager s'') rid = blocks_of (kv_cache_manager s') rid"
            using rel r'' unfolding upd_rel_def by blast
          then show ?thesis using none ids by (simp add: advanced_def)
        next
          case False
          then show ?thesis using rel r'' by (simp add: upd_rel_def)
        qed
        then show "requests s' rid = Some r''" "blocks_of (kv_cache_manager s'') rid = blocks_of (kv_cache_manager s') rid"
          by blast+
      qed
      have idle: "idle_req_ok s s' rid r''" using d(1) r(1) nin by (simp add: step_data_def)
      then obtain r0 where r0: "requests s rid = Some r0" by (auto simp: idle_req_ok_def)
      then have "rid \<notin> finished_req_ids s" using rc [OF r0] by (simp add: req_coupled_def)
      then have m: "mr_requests mr' rid = mr_requests mr rid"
        using spec [OF x(4) [unfolded step_recorded_def], of rid] False next_requests_cases(3) [OF _ nin, of mr] f(1) d(1)
        by (simp add: step_data_def)
      have run': "rid \<in> set (running s') \<longleftrightarrow> status r'' = RUNNING" by (rule sched_inv_running [OF inv r(1)])
      have "req_coupled s' mr' rid r''"
        by (rule idle_coupled [OF rc [OF r0] r0 idle _ d(3) m run']) (simp add: f(2))
      then show ?thesis using nf ss(1) r(2) run' run'' by (auto simp: req_coupled_def same_sizes_def)
    qed
  qed
  moreover have "runner_sized s'' mr'"
    using runner_sized_like [OF sz same_sizes_trans [OF d(3) ss(1)] x(5)] .
  ultimately have "coupled s'' mr'" using u(2) ss(2) x(2) fin by (simp add: coupled_def)
  with x(1,3,6) u(1) show ?thesis by blast
qed

section \<open>The other operations\<close>

lemma add_coupled:
  assumes c: "coupled s mr" and new: "new_req_ok s r" "output_token_ids r = []" "num_tokens r < s_max_model_len s"
    and fresh: "mr_requests mr (request_id r) = None" "request_id r \<notin> finished_req_ids s"
  shows "coupled (add_request s r) mr"
proof -
  have good: "sched_good (add_request s r)"
    using c add_request_ok [OF _ new(1)] by (simp add: coupled_def sched_good_def add_request_def)
  have st: "status r = WAITING" using new(1) by (simp add: new_req_ok_def)
  have "req_coupled (add_request s r) mr rid x" if x: "requests (add_request s r) rid = Some x" for rid x
  proof (cases "rid = request_id r")
    case True
    then show ?thesis using x st new fresh by (auto simp: req_coupled_def add_request_def)
  next
    case False
    then have "requests s rid = Some x" using x by (simp add: add_request_def)
    then have "req_coupled s mr rid x" using c by (simp add: coupled_def)
    then show ?thesis by (simp add: req_coupled_def add_request_def)
  qed
  then show ?thesis
    using c good by (auto simp: coupled_def add_request_def crd_ok_def runner_sized_def)
qed

lemma finish_one_frame:
  assumes "finish_one ord s st rid = Inr s'"
  shows "same_sizes s s' \<and> (crd_ok s \<longrightarrow> crd_ok s') \<and> encoder_cache s' = encoder_cache s \<and>
     enable_caching (kv_cache_manager s') = enable_caching (kv_cache_manager s)"
proof (cases "requests s rid")
  case None
  then show ?thesis using assms by (simp add: finish_one_def)
next
  case (Some r)
  let ?r = "r\<lparr>status := st\<rparr>"
  from assms Some obtain q w where f: "free_request ord (put_req (s\<lparr>running := q, waiting := w\<rparr>) ?r) ?r = Inr s'"
  proof -
    from assms Some obtain s1 where "free_request ord (put_req s1 ?r) ?r = Inr s'"
        "s1 = s\<lparr>running := running s1, waiting := waiting s1\<rparr>"
      by (auto simp: finish_one_def py_remove_def Let_def split: if_splits)
    then show thesis using that by metis
  qed
  have "same_sizes s (put_req (s\<lparr>running := q, waiting := w\<rparr>) ?r)"
    "crd_ok s \<Longrightarrow> crd_ok (put_req (s\<lparr>running := q, waiting := w\<rparr>) ?r)"
    by (simp_all add: same_sizes_def crd_ok_def)
  then show ?thesis using free_request_frame(2,3,6,7) [OF f] same_sizes_trans by auto
qed

lemma finish_loop_frame:
  "finish_loop ord s st rids = Inr s' \<Longrightarrow> same_sizes s s' \<and> (crd_ok s \<longrightarrow> crd_ok s') \<and> encoder_cache s' = encoder_cache s \<and>
     enable_caching (kv_cache_manager s') = enable_caching (kv_cache_manager s)"
proof (induction rids arbitrary: s)
  case (Cons rid rids)
  then obtain s1 where "finish_one ord s st rid = Inr s1" "finish_loop ord s1 st rids = Inr s'" by auto
  with Cons.IH [of s1] finish_one_frame [of ord s st rid s1] show ?case using same_sizes_trans by auto
qed simp

lemma abort_coupled:
  assumes c: "coupled s mr" and ord: "set_order_ok ord" and fin: "finish_requests ord s rids st = Inr s'"
  shows "coupled s' mr"
proof -
  have inv: "sched_inv s" using c by (simp add: coupled_def sched_good_def)
  have f: "sched_inv s'" "finished_from s (set rids) s'" using finish_requests_ok [OF inv ord fin] by simp_all
  have z: "same_sizes s s'" "crd_ok s'"
    using finish_loop_frame [of ord s st rids s'] fin c by (auto simp: finish_requests_def coupled_def split: if_splits)
  have "req_coupled s' mr rid r" if r: "requests s' rid = Some r" for rid r
  proof -
    have m: "rid \<notin> set rids" "requests s rid = Some r"
      using r f(2) by (auto simp: finished_from_def restrict_map_def split: if_splits)
    then have "req_coupled s mr rid r" using c by (simp add: coupled_def)
    then show ?thesis using m(1) f(2) z(1) by (simp add: req_coupled_def finished_from_def same_sizes_def)
  qed
  moreover have "sched_good s'" "finite (finished_req_ids s')"
    using f c z(1) by (auto simp: sched_good_def coupled_def same_sizes_def finished_from_def)
  ultimately show ?thesis
    using c z runner_sized_like [of s mr s' mr] by (simp add: coupled_def runner_like_def)
qed

text \<open>Operations that keep the requests and their blocks.\<close>

lemma coupled_cong:
  assumes c: "coupled s mr" and "sched_good s'" and "same_sizes s s'" "requests s' = requests s" "running s' = running s"
    "finished_req_ids s' = finished_req_ids s" "cached_reqs_data s' = cached_reqs_data s"
    "\<And>rid. blocks_of (kv_cache_manager s') rid = blocks_of (kv_cache_manager s) rid"
  shows "coupled s' mr"
proof -
  have "req_coupled s' mr rid r = req_coupled s mr rid r" for rid r
    using assms by (simp add: req_coupled_def same_sizes_def)
  then show ?thesis
    using assms runner_sized_like [of s mr s' mr] by (simp add: coupled_def crd_ok_def runner_like_def)
qed

lemma reset_blocks: "blocks_of (snd (reset_prefix_cache kv)) rid = blocks_of kv rid"
  by (simp add: reset_prefix_cache_def blocks_of_def)

section \<open>Blocks that are written\<close>

text \<open>The operations between steps give out no blocks.\<close>

lemma sched_inv_block_size: "sched_inv s \<Longrightarrow> block_size (kv_cache_manager s) = s_block_size s \<and> 0 < s_block_size s"
  by (auto simp: sched_inv_def kvm_good_def kvm_conf_ok_def)

lemma writes_ok_cong:
  "writes_ok s \<Longrightarrow> requests s' = requests s \<Longrightarrow> block_size (kv_cache_manager s') = block_size (kv_cache_manager s) \<Longrightarrow>
   (\<And>i. blocks_of (kv_cache_manager s') i = blocks_of (kv_cache_manager s) i) \<Longrightarrow> writes_ok s'"
  by (rule writes_ok_mono, assumption) (intro own_blocks_same own_blocks_cong, simp_all)

lemma add_writes:
  assumes "sched_inv s" and "writes_ok s" and new: "new_req_ok s r"
  shows "writes_ok (add_request s r)"
proof (rule writes_ok_mono [OF assms(2)])
  fix i
  show "\<exists>k. own_blocks (add_request s r) i = drop k (own_blocks s i)"
  proof (cases "i = request_id r")
    case True
    then have "i \<notin> dom (requests s)" using new by (simp add: new_req_ok_def domIff)
    then have "i \<notin> set (running s)" using assms(1) by (auto simp: sched_inv_def)
    then have "blocks_of (kv_cache_manager s) i = []" using assms(1) by (simp add: sched_inv_def)
    then show ?thesis by (intro own_blocks_gone own_blocks_Nil) (simp add: add_request_def)
  next
    case False
    then show ?thesis by (intro own_blocks_same own_blocks_cong) (simp_all add: add_request_def)
  qed
qed

lemma abort_writes:
  assumes inv: "sched_inv s" "sched_inv s'" and w: "writes_ok s" and fin: "finished_from s D s'" and z: "same_sizes s s'"
  shows "writes_ok s'"
proof (rule writes_ok_mono [OF w])
  fix i
  have bs: "block_size (kv_cache_manager s') = block_size (kv_cache_manager s)"
    using sched_inv_block_size [OF inv(1)] sched_inv_block_size [OF inv(2)] z by (simp add: same_sizes_def)
  show "\<exists>k. own_blocks s' i = drop k (own_blocks s i)"
  proof (cases "i \<in> D")
    case True
    then have "requests s' i = None" using fin by (simp add: finished_from_def)
    then show ?thesis by (intro own_blocks_gone) (simp add: own_blocks_def)
  next
    case False
    then show ?thesis using fin bs by (intro own_blocks_same own_blocks_cong) (simp_all add: finished_from_def)
  qed
qed

text \<open>A slot determines its block and its offset.\<close>

lemma slot_split:
  fixes bs p q :: int
  assumes "0 < bs" and "int a * bs + p mod bs = int b * bs + q mod bs"
  shows "a = b" "p mod bs = q mod bs"
proof -
  have "(int a * bs + p mod bs) div bs = (int b * bs + q mod bs) div bs" using assms(2) by simp
  then show "a = b" using assms(1) by simp
  then show "p mod bs = q mod bs" using assms(2) by simp
qed

text \<open>Token \<open>k\<close> of a scheduled request is written to one of the request's own blocks.\<close>

lemma own_block_at:
  assumes r: "requests s rid = Some r" and bs: "block_size (kv_cache_manager s) = bs" "0 < bs"
    and nct: "0 \<le> num_computed_tokens r" and k: "num_computed_tokens r + int k < int (length (blocks_of (kv_cache_manager s) rid)) * bs"
  defines "j \<equiv> nat ((num_computed_tokens r + int k) div bs) - nat (num_computed_tokens r div bs)"
  shows "j < length (own_blocks s rid)" "blocks_of (kv_cache_manager s) rid ! nat ((num_computed_tokens r + int k) div bs) = own_blocks s rid ! j"
    "nat ((num_computed_tokens r + int k) div bs) = nat (num_computed_tokens r div bs) + j"
proof -
  let ?a = "nat (num_computed_tokens r div bs)" and ?b = "nat ((num_computed_tokens r + int k) div bs)"
  have le: "?a \<le> ?b" using bs(2) by (intro nat_mono zdiv_mono1) simp_all
  have "(num_computed_tokens r + int k) div bs * bs \<le> num_computed_tokens r + int k"
    using bs(2) by (simp add: minus_mod_eq_div_mult [symmetric])
  then have "(num_computed_tokens r + int k) div bs * bs < int (length (blocks_of (kv_cache_manager s) rid)) * bs"
    using k by linarith
  then have "(num_computed_tokens r + int k) div bs < int (length (blocks_of (kv_cache_manager s) rid))"
    using bs(2) by (simp add: mult_less_cancel_right)
  then have lt: "?b < length (blocks_of (kv_cache_manager s) rid)" using nct bs(2) by (simp add: nat_less_iff pos_imp_zdiv_nonneg_iff)
  have own: "own_blocks s rid = drop ?a (blocks_of (kv_cache_manager s) rid)" using r bs(1) by (simp add: own_blocks_def)
  show "?b = ?a + j" using le by (simp add: j_def)
  then show "j < length (own_blocks s rid)" "blocks_of (kv_cache_manager s) rid ! ?b = own_blocks s rid ! j"
    using lt unfolding own by simp_all
qed

lemma blocks_in_cache: "sched_inv s \<Longrightarrow> b \<in> set (blocks_of (kv_cache_manager s) rid) \<Longrightarrow> b < num_gpu_blocks (kv_cache_manager s)"
  using blocks_of_bound by (fastforce simp: sched_inv_def kvm_good_def kvm_inv_def)

text \<open>
  Each token of a step is written at an offset of an own block of its request: token \<open>k\<close> of row \<open>i\<close> goes to the
  block of its position.
\<close>

definition token_slot :: "Scheduler \<Rightarrow> GPUModelRunner \<Rightarrow> nat \<Rightarrow> nat \<Rightarrow> string \<Rightarrow> Request \<Rightarrow> nat \<Rightarrow> bool" where
  "token_slot s mr i k rid r j \<longleftrightarrow>
     (let bs = s_block_size s; p = num_computed_tokens r + int k in
      index_of (mr_input_batch mr) rid = Some i \<and> requests s rid = Some r \<and> j < length (own_blocks s rid) \<and>
      slot_at mr i k = int (own_blocks s rid ! j) * bs + p mod bs \<and>
      nat (p div bs) = nat (num_computed_tokens r div bs) + j \<and> 0 \<le> num_computed_tokens r)"

lemma step_token_slot:
  assumes c: "coupled s mr" and sch: "schedule hf s = Inr (out, s')"
    and mr1: "runner_ok mr1" "mr_requests mr1 = next_requests mr out" "mr_block_size mr1 = mr_block_size mr" "step_fits mr1 out"
    and i: "i < length (row_counts mr1 out)" "k < row_counts mr1 out ! i"
  shows "\<exists>rid r j. token_slot s' mr1 i k rid r j"
proof -
  define bs where "bs = int (mr_block_size mr1)"
  have good: "sched_good s" and crd: "crd_ok s" and sz: "runner_sized s mr" using c by (simp_all add: coupled_def)
  have d: "step_data s out s'" and ss: "same_sizes s s'" using schedule_data [OF good crd sch] by blast+
  have post: "schedule_post s out s'" using schedule_ok [of s hf] good sch by (auto simp: sched_good_def)
  then have inv: "sched_inv s'" and f: "out_finished_req_ids out = finished_req_ids s" by (simp_all add: schedule_post_def)
  have ids: "\<And>i r. requests s' i = Some r \<Longrightarrow> request_id r = i" using inv by (simp add: sched_inv_def)
  have bs: "block_size (kv_cache_manager s') = bs" "0 < bs" "s_block_size s' = bs"
    using sched_inv_block_size [OF inv] sz ss mr1(3) by (simp_all add: bs_def runner_sized_def same_sizes_def)
  have i': "i < ib_num_reqs (mr_input_batch mr1)" using i by simp
  obtain rid rq n where at: "index_of (mr_input_batch mr1) rid = Some i" "mr_requests mr1 rid = Some rq"
      "map_of (num_scheduled_tokens out) rid = Some n"
    using step_row [OF mr1(1,4) i'] by metis
  note rc = row_cell [OF mr1(1,4) at]
  have k: "k < nat n" using i(2) rc(2) by simp
  note p = rc(5) [OF k, unfolded rc(4)] rc(6) [OF k, unfolded rc(4)] rc(7) [OF k, unfolded rc(4)]
  have "rid \<in> fst ` set (num_scheduled_tokens out)" using at(3) by (metis map_of_SomeD fst_conv image_eqI)
  then have "rid \<in> set (scheduled_ids out)" using d by (simp add: step_data_def)
  from scheduled_states [OF c d f ids this] obtain r where r: "requests s' rid = Some r" "scheduled_state s' rid r rq"
    using at(2) mr1(2) by auto
  have e: "cs_num_computed_tokens rq = num_computed_tokens r" "cs_block_ids rq = blocks_of (kv_cache_manager s') rid"
    using r(2) by (simp_all add: scheduled_state_def)
  have nct: "0 \<le> num_computed_tokens r" using sched_invD [OF inv r(1)] by (simp add: req_ok_def)
  have lt: "num_computed_tokens r + int k < int (length (blocks_of (kv_cache_manager s') rid)) * bs"
    using p(3) e by (simp add: bs_def)
  note own = own_block_at [OF r(1) bs(1,2) nct lt]
  have "block_at mr1 i k = blocks_of (kv_cache_manager s') rid ! nat ((num_computed_tokens r + int k) div bs)"
    using token_cell(4) [OF mr1(1,4) at(1,2) p] by (simp add: block_at_def rc(4) e bs_def)
  then have "slot_at mr1 i k = int (own_blocks s' rid ! (nat ((num_computed_tokens r + int k) div bs) -
      nat (num_computed_tokens r div bs))) * bs + (num_computed_tokens r + int k) mod bs"
    using own(2) by (simp add: slot_at_def rc(4) e bs_def)
  then show ?thesis unfolding token_slot_def Let_def bs(3) using at(1) r(1) own(1,3) nct by blast
qed

lemma token_slot_inj:
  assumes w: "writes_ok s" and bs: "0 < s_block_size s"
    and x: "token_slot s mr i k rid r x" and y: "token_slot s mr j l rid' r' y" and eq: "slot_at mr i k = slot_at mr j l"
  shows "i = j \<and> k = l"
proof -
  define bs where "bs = s_block_size s"
  note X = x [unfolded token_slot_def Let_def, folded bs_def] and Y = y [unfolded token_slot_def Let_def, folded bs_def]
  have "int (own_blocks s rid ! x) * bs + (num_computed_tokens r + int k) mod bs =
      int (own_blocks s rid' ! y) * bs + (num_computed_tokens r' + int l) mod bs" using X Y eq by simp
  note e = slot_split [OF bs [folded bs_def] this]
  have lt: "x < length (own_blocks s rid)" "y < length (own_blocks s rid')" using X Y by simp_all
  have rr: "rid = rid'"
  proof (rule ccontr)
    assume "rid \<noteq> rid'"
    then have "set (own_blocks s rid) \<inter> set (own_blocks s rid') = {}" using w by (simp add: writes_ok_def)
    then show False using e(1) nth_mem [OF lt(1)] nth_mem [OF lt(2)] by auto
  qed
  have "distinct (own_blocks s rid)" using w by (simp add: writes_ok_def)
  then have "x = y" using e(1) lt rr by (simp add: nth_eq_iff_index_eq)
  moreover have same: "r = r'" "i = j" using X Y rr by simp_all
  ultimately have "nat ((num_computed_tokens r + int k) div bs) = nat ((num_computed_tokens r + int l) div bs)"
    using X Y by simp
  then have "(num_computed_tokens r + int k) div bs = (num_computed_tokens r + int l) div bs"
    using X bs by (simp add: eq_nat_nat_iff pos_imp_zdiv_nonneg_iff bs_def)
  then have "num_computed_tokens r + int k = num_computed_tokens r + int l"
    using e(2) same(1) by (metis mult_div_mod_eq)
  then show ?thesis using same(2) by simp
qed

lemma token_slot_range:
  assumes inv: "sched_inv s" and o: "token_slot s mr i k rid r j"
  shows "0 \<le> slot_at mr i k \<and> slot_at mr i k < int (num_gpu_blocks (kv_cache_manager s)) * s_block_size s"
proof -
  define bs where "bs = s_block_size s"
  note O = o [unfolded token_slot_def Let_def, folded bs_def]
  have pos: "0 < bs" using sched_inv_block_size [OF inv] by (simp add: bs_def)
  have "j < length (own_blocks s rid)" using O by blast
  then have b: "own_blocks s rid ! j < num_gpu_blocks (kv_cache_manager s)"
    using blocks_in_cache [OF inv] own_blocks_sub nth_mem by blast
  have "(num_computed_tokens r + int k) mod bs < bs" "0 \<le> (num_computed_tokens r + int k) mod bs" using pos by simp_all
  moreover have "int (own_blocks s rid ! j) * bs + bs \<le> int (num_gpu_blocks (kv_cache_manager s)) * bs"
  proof -
    have "(int (own_blocks s rid ! j) + 1) * bs \<le> int (num_gpu_blocks (kv_cache_manager s)) * bs"
      using b pos by (intro mult_right_mono) simp_all
    then show ?thesis by (simp add: algebra_simps)
  qed
  moreover have "0 \<le> int (own_blocks s rid ! j) * bs" using pos by simp
  ultimately show ?thesis using O unfolding bs_def by linarith
qed

text \<open>The slots of a step, once the runner has taken in the scheduler's output.\<close>

lemma step_slots:
  assumes c: "coupled s mr" and w: "writes_ok s" and sch: "schedule hf s = Inr (out, s')"
    and mr1: "runner_ok mr1" "mr_requests mr1 = next_requests mr out" "mr_block_size mr1 = mr_block_size mr" "step_fits mr1 out"
  shows "distinct (pi_slot_mapping (prepared mr1 out))"
    "x \<in> set (pi_slot_mapping (prepared mr1 out)) \<Longrightarrow>
       0 \<le> x \<and> x < int (num_gpu_blocks (kv_cache_manager s')) * s_block_size s'"
proof -
  have good: "sched_good s" using c by (simp add: coupled_def)
  have inv: "sched_inv s'" using schedule_ok [of s hf] good sch by (auto simp: sched_good_def schedule_post_def)
  have slots: "pi_slot_mapping (prepared mr1 out) = layout (row_counts mr1 out) (slot_at mr1)"
    by (simp add: prepared_def Let_def)
  note w' = schedule_writes [OF good w sch] and pos = conjunct2 [OF sched_inv_block_size [OF inv]]
  note row = step_token_slot [OF c sch mr1]
  show "distinct (pi_slot_mapping (prepared mr1 out))"
    unfolding slots
  proof (rule distinct_layout)
    fix i k j l
    assume a: "i < length (row_counts mr1 out)" "k < row_counts mr1 out ! i" "j < length (row_counts mr1 out)"
      "l < row_counts mr1 out ! j" "slot_at mr1 i k = slot_at mr1 j l"
    show "i = j \<and> k = l" using row [OF a(1,2)] row [OF a(3,4)] token_slot_inj [OF w' pos _ _ a(5)] by blast
  qed
  show "0 \<le> x \<and> x < int (num_gpu_blocks (kv_cache_manager s')) * s_block_size s'"
    if "x \<in> set (pi_slot_mapping (prepared mr1 out))"
    using that row token_slot_range [OF inv] unfolding slots set_layout by blast
qed

end
