(* ===== verification/LRUCache.thy ===== *)
theory LRUCache
  imports Request "HOL-Library.AList"
begin

text \<open>
  The least-recently-used cache of \<open>vllm/utils.py\<close> and the multi-modal input mappers of
  \<open>vllm/v1/engine/mm_input_mapper.py\<close>, which keep mirrored caches in the front end and in the engine
  so that a preprocessed input crosses the process boundary only once.

  An \<open>OrderedDict\<close> is an association list with distinct keys, oldest entry first.  The eviction loop
  of \<open>put\<close> does not end when the capacity is negative, so it returns an \<open>option\<close>; \<open>None\<close> is a run
  that does not return.
\<close>

section \<open>Results of loops that may not end\<close>

definition opy_bind :: "'a py option \<Rightarrow> ('a \<Rightarrow> 'b py option) \<Rightarrow> 'b py option" where
  "opy_bind m f = (case m of None \<Rightarrow> None | Some (Inl e) \<Rightarrow> Some (Inl e) | Some (Inr x) \<Rightarrow> f x)"

lemma opy_bind_simps [simp, py_simps]:
  "opy_bind (Some (Inr x)) f = f x" "opy_bind (Some (Inl e)) f = Some (Inl e)" "opy_bind None f = None"
  by (simp_all add: opy_bind_def)

section \<open>The cache\<close>

record ('k, 'v) LRUCache =
  lru_items :: "('k \<times> 'v) list"
  pinned_items :: "'k set"
  capacity :: int
  lru_hits :: int
  lru_total :: int

definition lru_init :: "int \<Rightarrow> ('k, 'v) LRUCache" where
  "lru_init cap = \<lparr>lru_items = [], pinned_items = {}, capacity = cap, lru_hits = 0, lru_total = 0\<rparr>"

definition lru_contains :: "('k, 'v) LRUCache \<Rightarrow> 'k \<Rightarrow> bool" where
  "lru_contains c k \<longleftrightarrow> k \<in> fst ` set (lru_items c)"

definition lru_len :: "('k, 'v) LRUCache \<Rightarrow> int" where
  "lru_len c = int (length (lru_items c))"

text \<open>\<open>OrderedDict.move_to_end\<close>.\<close>

definition move_to_end :: "'k \<Rightarrow> ('k \<times> 'v) list \<Rightarrow> ('k \<times> 'v) list py" where
  "move_to_end k xs = (case map_of xs k of None \<Rightarrow> Inl KeyError | Some v \<Rightarrow> Inr (AList.delete k xs @ [(k, v)]))"

definition lru_touch :: "('k, 'v) LRUCache \<Rightarrow> 'k \<Rightarrow> ('k, 'v) LRUCache py" where
  "lru_touch c k = py_bind (move_to_end k (lru_items c)) (\<lambda>xs. Inr (c\<lparr>lru_items := xs\<rparr>))"

definition lru_getitem :: "('k, 'v) LRUCache \<Rightarrow> 'k \<Rightarrow> ('v \<times> ('k, 'v) LRUCache) py" where
  "lru_getitem c k =
     (case map_of (lru_items c) k of
        None \<Rightarrow> Inl KeyError
      | Some v \<Rightarrow> py_bind (lru_touch c k) (\<lambda>c'. Inr (v, c')))"

definition lru_stat :: "('k, 'v) LRUCache \<Rightarrow> int \<times> int" where
  "lru_stat c = (lru_hits c, lru_total c)"

definition lru_get :: "('k, 'v) LRUCache \<Rightarrow> 'k \<Rightarrow> 'v option \<Rightarrow> ('v option \<times> ('k, 'v) LRUCache) py" where
  "lru_get c k dflt =
     py_bind
       (case map_of (lru_items c) k of
          Some v \<Rightarrow> py_bind (lru_touch c k) (\<lambda>c'. Inr (Some v, c'\<lparr>lru_hits := lru_hits c' + 1\<rparr>))
        | None \<Rightarrow> Inr (dflt, c))
       (\<lambda>(v, c'). Inr (v, c'\<lparr>lru_total := lru_total c' + 1\<rparr>))"

definition lru_pin :: "('k, 'v) LRUCache \<Rightarrow> 'k \<Rightarrow> ('k, 'v) LRUCache py" where
  "lru_pin c k = (if lru_contains c k then Inr (c\<lparr>pinned_items := insert k (pinned_items c)\<rparr>) else Inl ValueError)"

definition lru_unpin :: "('k, 'v) LRUCache \<Rightarrow> 'k \<Rightarrow> ('k, 'v) LRUCache py" where
  "lru_unpin c k = (if k \<in> pinned_items c then Inr (c\<lparr>pinned_items := pinned_items c - {k}\<rparr>) else Inl KeyError)"

text \<open>\<open>_on_remove\<close> does nothing in this class.\<close>

definition lru_pop :: "('k, 'v) LRUCache \<Rightarrow> 'k \<Rightarrow> 'v option \<Rightarrow> ('v option \<times> ('k, 'v) LRUCache) py" where
  "lru_pop c k dflt =
     (let v = (case map_of (lru_items c) k of None \<Rightarrow> dflt | Some v \<Rightarrow> Some v);
          c1 = c\<lparr>lru_items := AList.delete k (lru_items c)\<rparr> in
      py_bind (if k \<in> pinned_items c1 then lru_unpin c1 k else Inr c1) (\<lambda>c2. Inr (v, c2)))"

definition remove_oldest :: "bool \<Rightarrow> ('k, 'v) LRUCache \<Rightarrow> ('k, 'v) LRUCache py" where
  "remove_oldest remove_pinned c =
     (case lru_items c of
        [] \<Rightarrow> Inr c
      | (k0, _) # _ \<Rightarrow>
          py_bind
            (if \<not> remove_pinned then
               (case List.find (\<lambda>k. k \<notin> pinned_items c) (map fst (lru_items c)) of
                  None \<Rightarrow> Inl RuntimeError
                | Some k \<Rightarrow> Inr k)
             else Inr k0)
            (\<lambda>k. py_bind (lru_pop c k None) (\<lambda>(_, c'). Inr c')))"

partial_function (option) remove_old_if_needed :: "('k, 'v) LRUCache \<Rightarrow> ('k, 'v) LRUCache py option" where
  "remove_old_if_needed c =
     (if lru_len c > capacity c then
        (case remove_oldest False c of Inl e \<Rightarrow> Some (Inl e) | Inr c' \<Rightarrow> remove_old_if_needed c')
      else Some (Inr c))"

declare remove_old_if_needed.simps [code]

definition lru_put :: "('k, 'v) LRUCache \<Rightarrow> 'k \<Rightarrow> 'v \<Rightarrow> ('k, 'v) LRUCache py option" where
  "lru_put c k v =
     opy_bind (Some (move_to_end k (AList.update k v (lru_items c)))) (\<lambda>xs. remove_old_if_needed (c\<lparr>lru_items := xs\<rparr>))"

lemma remove_oldest_pinned_shrinks:
  assumes "remove_oldest True c = Inr c'" and "lru_items c \<noteq> []"
  shows "length (lru_items c') < length (lru_items c)"
proof -
  obtain k v xs where xs: "lru_items c = (k, v) # xs" using assms(2) by (cases "lru_items c") auto
  have "lru_items c' = AList.delete k xs"
    using assms(1) by (auto simp: remove_oldest_def xs lru_pop_def lru_unpin_def Let_def split: if_splits)
  then show ?thesis using length_delete_le [of k xs] xs by simp
qed

text \<open>The loop of \<open>clear\<close> removes the first entry until none is left.\<close>

function lru_clear :: "('k, 'v) LRUCache \<Rightarrow> ('k, 'v) LRUCache py" where
  "lru_clear c =
     (if lru_len c > 0 then (case remove_oldest True c of Inl e \<Rightarrow> Inl e | Inr c' \<Rightarrow> lru_clear c')
      else Inr (c\<lparr>lru_items := []\<rparr>))"
  by pat_completeness auto

termination
proof (relation "measure (\<lambda>c. length (lru_items c))", goal_cases)
  case (2 c x)
  then show ?case using remove_oldest_pinned_shrinks [of c x] by (auto simp: lru_len_def)
qed simp

declare lru_clear.simps [simp del]

section \<open>Facts about the cache\<close>

definition lru_inv :: "('k, 'v) LRUCache \<Rightarrow> bool" where
  "lru_inv c \<longleftrightarrow> distinct (map fst (lru_items c)) \<and> pinned_items c \<subseteq> fst ` set (lru_items c) \<and> lru_len c \<le> capacity c"

text \<open>\<open>put\<close> and a hit of \<open>get\<close> place the entry last.\<close>

definition to_end :: "'k \<Rightarrow> 'v \<Rightarrow> ('k \<times> 'v) list \<Rightarrow> ('k \<times> 'v) list" where
  "to_end k v xs = AList.delete k xs @ [(k, v)]"

lemma map_fst_delete: "map fst (AList.delete k xs) = filter (\<lambda>x. x \<noteq> k) (map fst xs)"
  by (induction xs) auto

lemma distinct_to_end: "distinct (map fst xs) \<Longrightarrow> distinct (map fst (to_end k v xs))"
  by (auto simp: to_end_def map_fst_delete)

lemma keys_to_end: "fst ` set (to_end k v xs) = insert k (fst ` set xs)"
  using arg_cong [OF map_fst_delete [of k xs], of set] by (auto simp: to_end_def)

lemma map_of_to_end: "map_of (to_end k v xs) = (map_of xs)(k \<mapsto> v)"
  by (auto simp: to_end_def map_add_def delete_conv' fun_eq_iff split: option.splits)

lemma put_items: "move_to_end k (AList.update k v xs) = Inr (to_end k v xs)"
  by (simp add: move_to_end_def update_conv' delete_update_same to_end_def)

lemma lru_get_hit:
  "map_of (lru_items c) k = Some v \<Longrightarrow>
   lru_get c k d = Inr (Some v, c\<lparr>lru_items := to_end k v (lru_items c), lru_hits := lru_hits c + 1, lru_total := lru_total c + 1\<rparr>)"
  by (simp add: lru_get_def lru_touch_def move_to_end_def to_end_def)

lemma lru_get_miss:
  "map_of (lru_items c) k = None \<Longrightarrow> lru_get c k d = Inr (d, c\<lparr>lru_total := lru_total c + 1\<rparr>)"
  by (simp add: lru_get_def)

lemma length_delete_distinct:
  "distinct (map fst xs) \<Longrightarrow> k \<in> fst ` set xs \<Longrightarrow> Suc (length (AList.delete k xs)) = length xs"
proof (induction xs)
  case (Cons x xs)
  show ?case
  proof (cases "fst x = k")
    case True
    then have "AList.delete k xs = xs" using Cons.prems(1) by (intro delete_id) auto
    with True show ?thesis by (cases x) simp
  next
    case False
    with Cons show ?thesis by (cases x) auto
  qed
qed simp

lemma length_to_end:
  assumes "distinct (map fst xs)"
  shows "length (to_end k v xs) = (if k \<in> fst ` set xs then length xs else Suc (length xs))"
  using length_delete_distinct [OF assms, of k] delete_id [of k xs] by (auto simp: to_end_def)

text \<open>Eviction of one entry: the oldest that is not pinned.\<close>

lemma remove_oldest_evicts:
  assumes "xs = ys @ (k, v) # zs" and "lru_items c = xs" and "fst ` set ys \<subseteq> pinned_items c" and "k \<notin> pinned_items c"
    and "distinct (map fst xs)"
  shows "remove_oldest False c = Inr (c\<lparr>lru_items := ys @ zs\<rparr>)"
proof -
  have "List.find (\<lambda>k. k \<notin> pinned_items c) (map fst xs) = Some k"
    using assms(1,3,4) by (auto simp: find_Some_iff nth_append intro!: exI [of _ "length ys"])
  moreover have "AList.delete k xs = ys @ zs"
  proof -
    have "AList.delete k ys = ys" "AList.delete k zs = zs" using assms(1,5) by (auto intro!: delete_id)
    then show ?thesis using assms(1) by (simp add: AList.delete_eq)
  qed
  ultimately show ?thesis
    using assms by (cases ys) (auto simp: remove_oldest_def lru_pop_def Let_def)
qed

text \<open>The loop of \<open>put\<close>: at most one entry is over the capacity.\<close>

lemma remove_old_ok: "lru_len c \<le> capacity c \<Longrightarrow> remove_old_if_needed c = Some (Inr c)"
  by (subst remove_old_if_needed.simps) simp

lemma remove_old_one:
  assumes "lru_len c = capacity c + 1" and "lru_items c = ys @ (k, v) # zs" "fst ` set ys \<subseteq> pinned_items c" "k \<notin> pinned_items c"
    and "distinct (map fst (lru_items c))"
  shows "remove_old_if_needed c = Some (Inr (c\<lparr>lru_items := ys @ zs\<rparr>))"
proof -
  have "remove_old_if_needed c = remove_old_if_needed (c\<lparr>lru_items := ys @ zs\<rparr>)"
    using remove_oldest_evicts [OF assms(2) refl assms(3,4)] assms(1,2,5) by (subst remove_old_if_needed.simps) simp
  also have "\<dots> = Some (Inr (c\<lparr>lru_items := ys @ zs\<rparr>))"
    using assms(1,2) by (intro remove_old_ok) (simp add: lru_len_def)
  finally show ?thesis .
qed

lemma split_first_unpinned:
  assumes "(k, v) \<in> set xs" "k \<notin> P"
  obtains ys k' v' zs where "xs = ys @ (k', v') # zs" "fst ` set ys \<subseteq> P" "k' \<notin> P"
proof -
  have "dropWhile (\<lambda>x. fst x \<in> P) xs \<noteq> []" using assms by (force simp: dropWhile_eq_Nil_conv)
  then obtain x zs where d: "dropWhile (\<lambda>x. fst x \<in> P) xs = x # zs" by (cases "dropWhile (\<lambda>x. fst x \<in> P) xs") auto
  then have "fst x \<notin> P" using hd_dropWhile [of "\<lambda>x. fst x \<in> P" xs] by simp
  moreover have "xs = takeWhile (\<lambda>x. fst x \<in> P) xs @ (fst x, snd x) # zs"
    using takeWhile_dropWhile_id [of "\<lambda>x. fst x \<in> P" xs] d by simp
  moreover have "fst ` set (takeWhile (\<lambda>x. fst x \<in> P) xs) \<subseteq> P" by (auto dest: set_takeWhileD)
  ultimately show ?thesis using that by blast
qed

lemma lru_put_cases:
  assumes inv: "lru_inv c"
  shows "(int (length (to_end k v (lru_items c))) \<le> capacity c \<and> lru_put c k v = Some (Inr (c\<lparr>lru_items := to_end k v (lru_items c)\<rparr>))) \<or>
    (k \<notin> fst ` set (lru_items c) \<and> int (length (lru_items c)) = capacity c \<and>
      (\<exists>ys k' v' zs. lru_items c @ [(k, v)] = ys @ (k', v') # zs \<and> fst ` set ys \<subseteq> pinned_items c \<and> k' \<notin> pinned_items c \<and>
         lru_put c k v = Some (Inr (c\<lparr>lru_items := ys @ zs\<rparr>))))"
proof -
  let ?xs = "lru_items c" and ?c = "c\<lparr>lru_items := to_end k v (lru_items c)\<rparr>"
  have d: "distinct (map fst ?xs)" "pinned_items c \<subseteq> fst ` set ?xs" "lru_len c \<le> capacity c" using inv by (simp_all add: lru_inv_def)
  have put: "lru_put c k v = remove_old_if_needed ?c" by (simp add: lru_put_def put_items)
  show ?thesis
  proof (cases "int (length (to_end k v ?xs)) \<le> capacity c")
    case True
    then show ?thesis using remove_old_ok [of ?c] put by (simp add: lru_len_def)
  next
    case False
    then have k: "k \<notin> fst ` set ?xs" and len: "int (length ?xs) = capacity c"
      using d length_to_end [OF d(1), of k v] by (auto simp: lru_len_def split: if_splits)
    have e: "to_end k v ?xs = ?xs @ [(k, v)]" using k by (simp add: to_end_def)
    obtain ys k' v' zs where s: "?xs @ [(k, v)] = ys @ (k', v') # zs" "fst ` set ys \<subseteq> pinned_items c" "k' \<notin> pinned_items c"
    proof (rule split_first_unpinned)
      show "(k, v) \<in> set (?xs @ [(k, v)])" by simp
      show "k \<notin> pinned_items c" using k d(2) by blast
    qed
    have len': "int (length ys) + int (length zs) = capacity c" using arg_cong [OF s(1), of length] len by simp
    have "lru_put c k v = Some (Inr (?c\<lparr>lru_items := ys @ zs\<rparr>))"
      unfolding put by (rule remove_old_one) (use s e len' distinct_to_end [OF d(1), of k v] in \<open>simp_all add: lru_len_def\<close>)
    then have "lru_put c k v = Some (Inr (c\<lparr>lru_items := ys @ zs\<rparr>))" by simp
    with k len s show ?thesis by blast
  qed
qed

text \<open>C20: \<open>put\<close> on a cache within its capacity returns and never raises: the new entry is in no case
  pinned.  The cache stays within its capacity, pinned entries stay, nothing is invented, and the
  new entry is found unless pinned entries fill the whole cache.\<close>

theorem lru_put_spec:
  assumes inv: "lru_inv c"
  shows "\<exists>c'. lru_put c k v = Some (Inr c') \<and> lru_inv c' \<and>
     (\<forall>p\<in>pinned_items c. map_of (lru_items c') p = (if p = k then Some v else map_of (lru_items c) p)) \<and>
     (\<forall>k' v'. map_of (lru_items c') k' = Some v' \<longrightarrow> (k', v') = (k, v) \<or> map_of (lru_items c) k' = Some v') \<and>
     (int (card (pinned_items c)) < capacity c \<longrightarrow> map_of (lru_items c') k = Some v)"
  using lru_put_cases [OF inv, of k v]
proof (elim disjE conjE exE)
  let ?xs = "lru_items c"
  have d: "distinct (map fst ?xs)" "pinned_items c \<subseteq> fst ` set ?xs" using inv by (simp_all add: lru_inv_def)
  { assume "int (length (to_end k v ?xs)) \<le> capacity c" "lru_put c k v = Some (Inr (c\<lparr>lru_items := to_end k v ?xs\<rparr>))"
    then show ?thesis
      using d distinct_to_end [OF d(1), of k v] keys_to_end [of k v ?xs]
      by (auto simp: lru_inv_def lru_len_def map_of_to_end) }
  fix ys k' v' zs
  assume new: "k \<notin> fst ` set ?xs" "int (length ?xs) = capacity c" and s: "?xs @ [(k, v)] = ys @ (k', v') # zs"
    and p: "fst ` set ys \<subseteq> pinned_items c" "k' \<notin> pinned_items c" and put: "lru_put c k v = Some (Inr (c\<lparr>lru_items := ys @ zs\<rparr>))"
  have dist: "distinct (map fst (ys @ (k', v') # zs))" unfolding s [symmetric] using d(1) new(1) by auto
  have mo: "map_of (ys @ zs) = ((map_of ?xs)(k \<mapsto> v))(k' := None)"
  proof -
    have "map_of (ys @ (k', v') # zs) = (map_of ?xs)(k \<mapsto> v)"
    proof -
      have "map_of ?xs k = None" using new(1) by (simp add: map_of_eq_None_iff)
      then show ?thesis unfolding s [symmetric] by (auto simp: map_add_def fun_eq_iff split: option.splits)
    qed
    moreover have "map_of (ys @ zs) = (map_of (ys @ (k', v') # zs))(k' := None)"
    proof -
      have "map_of ys k' = None" "map_of zs k' = None" using dist by (simp_all add: map_of_eq_None_iff)
      then show ?thesis by (auto simp: map_add_def fun_eq_iff split: option.splits)
    qed
    ultimately show ?thesis by simp
  qed
  have len: "length (ys @ zs) = length ?xs" using arg_cong [OF s, of length] by simp
  have keys: "fst ` set (ys @ zs) = insert k (fst ` set ?xs) - {k'}"
    using arg_cong [OF s, of "\<lambda>xs. fst ` set xs"] dist by auto
  have "k' \<noteq> k" if c: "int (card (pinned_items c)) < capacity c"
  proof
    assume "k' = k"
    then have "zs = []" "ys = ?xs" using s dist new(1) by (cases zs rule: rev_cases; auto)+
    then have "pinned_items c = fst ` set ?xs" using p(1) d(2) by blast
    then have "card (pinned_items c) = length ?xs" using d(1) distinct_card [of "map fst ?xs"] by simp
    with c new(2) show False by simp
  qed
  then show ?thesis
    using put p d(2) new keys dist mo len by (intro exI [of _ "c\<lparr>lru_items := ys @ zs\<rparr>"]) (auto simp: lru_inv_def lru_len_def)
qed

theorem lru_put_spec_witness:
  "case lru_put \<lparr>lru_items = [(1::nat, ''a''), (2, ''b'')], pinned_items = {1}, capacity = 2, lru_hits = 0, lru_total = 0\<rparr> 3 ''c'' of
     Some (Inr c') \<Rightarrow> lru_inv c' \<and> map_of (lru_items c') 3 = Some ''c'' \<and> map_of (lru_items c') 2 = None
   | _ \<Rightarrow> False"
proof -
  let ?c = "\<lparr>lru_items = [(1::nat, ''a''), (2, ''b'')], pinned_items = {1}, capacity = 2, lru_hits = 0, lru_total = 0\<rparr>"
  have "lru_inv ?c" by (simp add: lru_inv_def lru_len_def)
  from lru_put_spec [OF this, of 3 "''c''"] obtain c' where c': "lru_put ?c 3 ''c'' = Some (Inr c')" "lru_inv c'"
      "map_of (lru_items c') 3 = Some ''c''" by auto
  have "case lru_put ?c 3 ''c'' of Some (Inr c') \<Rightarrow> map_of (lru_items c') 2 = None | _ \<Rightarrow> False" by code_simp
  with c' show ?thesis by simp
qed

section \<open>The input mappers\<close>

text \<open>
  The client runs in the front end.  \<open>images\<close> are the raw inputs, \<open>mapper\<close> the preprocessing of the
  model (not part of this code), \<open>precomputed\<close> the inputs a merged preprocessor already produced.
  The debugging counter of the hit ratio is off.
\<close>

record MMInputMapperClient =
  cl_use_cache :: bool
  cl_mm_cache :: "(string, mm_kwargs) LRUCache"
  mm_cache_hits :: int
  mm_cache_total :: int

record MMInputMapperServer =
  sv_use_cache :: bool
  sv_mm_cache :: "(string, mm_kwargs) LRUCache"

definition MM_CACHE_SIZE :: int where
  "MM_CACHE_SIZE = 256"

definition mapper_client_init :: "bool \<Rightarrow> MMInputMapperClient" where
  "mapper_client_init disable_cache =
     \<lparr>cl_use_cache = (\<not> disable_cache), cl_mm_cache = lru_init MM_CACHE_SIZE, mm_cache_hits = 0, mm_cache_total = 0\<rparr>"

definition mapper_server_init :: "bool \<Rightarrow> MMInputMapperServer" where
  "mapper_server_init disable_cache = \<lparr>sv_use_cache = (\<not> disable_cache), sv_mm_cache = lru_init MM_CACHE_SIZE\<rparr>"

text \<open>One input: \<open>x\<close> is the preprocessed input it would be mapped to, \<open>h\<close> its hash if there is one.\<close>

definition client_input ::
  "MMInputMapperClient \<Rightarrow> mm_kwargs \<Rightarrow> string option \<Rightarrow> (mm_kwargs option \<times> MMInputMapperClient) py option" where
  "client_input cl x h =
     opy_bind
       (Some (if cl_use_cache cl then
                (case h of
                   None \<Rightarrow> Inl IndexError
                 | Some k \<Rightarrow> py_bind (lru_get (cl_mm_cache cl) k None) (\<lambda>(v, c). Inr (v, cl\<lparr>cl_mm_cache := c\<rparr>)))
              else Inr (None, cl)))
       (\<lambda>(v, cl0).
         let cl1 = cl0\<lparr>mm_cache_total := mm_cache_total cl0 + 1\<rparr> in
         case v of
           Some _ \<Rightarrow> Some (Inr (None, cl1\<lparr>mm_cache_hits := mm_cache_hits cl1 + 1\<rparr>))
         | None \<Rightarrow>
             if cl_use_cache cl1 then
               opy_bind (lru_put (cl_mm_cache cl1) (the h) x) (\<lambda>c. Some (Inr (Some x, cl1\<lparr>cl_mm_cache := c\<rparr>)))
             else Some (Inr (Some x, cl1)))"

fun client_loop ::
  "MMInputMapperClient \<Rightarrow> mm_kwargs list \<Rightarrow> string option list \<Rightarrow> (mm_kwargs option list \<times> MMInputMapperClient) py option" where
  "client_loop cl (x # xs) (h # hs) =
     opy_bind (client_input cl x h) (\<lambda>(y, cl1).
       opy_bind (client_loop cl1 xs hs) (\<lambda>(ys, cl2). Some (Inr (y # ys, cl2))))"
| "client_loop cl _ _ = Some (Inr ([], cl))"

definition client_process_inputs ::
  "('img \<Rightarrow> mm_kwargs) \<Rightarrow> MMInputMapperClient \<Rightarrow> 'img list \<Rightarrow> string list option \<Rightarrow> mm_kwargs list option \<Rightarrow>
   (mm_kwargs option list \<times> MMInputMapperClient) py option" where
  "client_process_inputs mapper cl images hashes precomputed =
     (let xs = (case precomputed of None \<Rightarrow> map mapper images | Some ps \<Rightarrow> ps) in
      case (cl_use_cache cl, hashes) of
        (True, None) \<Rightarrow> Some (Inl AssertionError)
      | (True, Some hs) \<Rightarrow>
          if length xs = length hs then client_loop cl xs (map Some hs) else Some (Inl AssertionError)
      | (False, _) \<Rightarrow> client_loop cl xs (map (\<lambda>_. None) xs))"

definition server_input ::
  "MMInputMapperServer \<Rightarrow> mm_kwargs option \<Rightarrow> string \<Rightarrow> (mm_kwargs \<times> MMInputMapperServer) py option" where
  "server_input sv x h =
     (case x of
        None \<Rightarrow>
          opy_bind (Some (lru_get (sv_mm_cache sv) h None)) (\<lambda>(v, c).
            case v of None \<Rightarrow> Some (Inl AssertionError) | Some y \<Rightarrow> Some (Inr (y, sv\<lparr>sv_mm_cache := c\<rparr>)))
      | Some y \<Rightarrow> opy_bind (lru_put (sv_mm_cache sv) h y) (\<lambda>c. Some (Inr (y, sv\<lparr>sv_mm_cache := c\<rparr>))))"

fun server_loop ::
  "MMInputMapperServer \<Rightarrow> mm_kwargs option list \<Rightarrow> string list \<Rightarrow> (mm_kwargs list \<times> MMInputMapperServer) py option" where
  "server_loop sv (x # xs) (h # hs) =
     opy_bind (server_input sv x h) (\<lambda>(y, sv1).
       opy_bind (server_loop sv1 xs hs) (\<lambda>(ys, sv2). Some (Inr (y # ys, sv2))))"
| "server_loop sv _ _ = Some (Inr ([], sv))"

text \<open>Without a cache the inputs are returned as they came, \<open>None\<close> included.\<close>

definition server_process_inputs ::
  "MMInputMapperServer \<Rightarrow> mm_kwargs option list \<Rightarrow> string list \<Rightarrow> (mm_kwargs option list \<times> MMInputMapperServer) py option" where
  "server_process_inputs sv xs hs =
     (if length xs \<noteq> length hs then Some (Inl AssertionError)
      else if \<not> sv_use_cache sv then Some (Inr (xs, sv))
      else opy_bind (server_loop sv xs hs) (\<lambda>(ys, sv'). Some (Inr (map Some ys, sv'))))"

section \<open>The mirrored caches\<close>

text \<open>Both sides hold the same entries in the same order; entries are what their hash stands for.\<close>

definition mirrored :: "MMInputMapperClient \<Rightarrow> MMInputMapperServer \<Rightarrow> bool" where
  "mirrored cl sv \<longleftrightarrow>
     cl_use_cache cl \<and> sv_use_cache sv \<and> lru_inv (cl_mm_cache cl) \<and>
     lru_items (cl_mm_cache cl) = lru_items (sv_mm_cache sv) \<and>
     pinned_items (cl_mm_cache cl) = {} \<and> pinned_items (sv_mm_cache sv) = {} \<and>
     capacity (cl_mm_cache cl) = capacity (sv_mm_cache sv)"

definition cache_stands_for :: "(string \<Rightarrow> mm_kwargs) \<Rightarrow> (string, mm_kwargs) LRUCache \<Rightarrow> bool" where
  "cache_stands_for f c \<longleftrightarrow> (\<forall>(k, v) \<in> set (lru_items c). v = f k)"

text \<open>Without pins \<open>put\<close> evicts the head.\<close>

definition put_list :: "int \<Rightarrow> 'k \<Rightarrow> 'v \<Rightarrow> ('k \<times> 'v) list \<Rightarrow> ('k \<times> 'v) list" where
  "put_list cap k v xs = (let ys = to_end k v xs in if int (length ys) \<le> cap then ys else tl ys)"

lemma lru_put_unpinned:
  assumes "lru_inv c" and "pinned_items c = {}"
  shows "lru_put c k v = Some (Inr (c\<lparr>lru_items := put_list (capacity c) k v (lru_items c)\<rparr>))"
  using lru_put_cases [OF assms(1), of k v]
proof (elim disjE conjE exE)
  fix ys k' v' zs
  assume new: "k \<notin> fst ` set (lru_items c)" "int (length (lru_items c)) = capacity c"
    and s: "lru_items c @ [(k, v)] = ys @ (k', v') # zs" "fst ` set ys \<subseteq> pinned_items c"
    and put: "lru_put c k v = Some (Inr (c\<lparr>lru_items := ys @ zs\<rparr>))"
  have e: "to_end k v (lru_items c) = lru_items c @ [(k, v)]" using new(1) by (simp add: to_end_def)
  have "ys = []" using s(2) assms(2) by simp
  then have "tl (to_end k v (lru_items c)) = ys @ zs" using s(1) by (simp add: e)
  moreover have "\<not> int (length (to_end k v (lru_items c))) \<le> capacity c" using e new(2) by simp
  ultimately show ?thesis using put by (simp add: put_list_def Let_def)
qed (simp add: put_list_def Let_def)

lemma set_put_list: "set (put_list cap k v xs) \<subseteq> insert (k, v) (set xs)"
proof -
  have a: "set (to_end k v xs) \<subseteq> insert (k, v) (set xs)" by (auto simp: to_end_def AList.delete_eq)
  have b: "set (tl ys) \<subseteq> set ys" for ys :: "('a \<times> 'b) list" by (cases ys) auto
  show ?thesis
    by (cases "int (length (to_end k v xs)) \<le> cap") (simp_all add: put_list_def Let_def a order_trans [OF b a])
qed

lemma put_list_inv:
  assumes "lru_inv c" and "pinned_items c = {}"
  shows "lru_inv (c\<lparr>lru_items := put_list (capacity c) k v (lru_items c)\<rparr>)"
proof -
  let ?ys = "to_end k v (lru_items c)"
  have d: "distinct (map fst (lru_items c))" "lru_len c \<le> capacity c" using assms by (simp_all add: lru_inv_def)
  have "distinct (map fst ?ys)" "length ?ys \<le> Suc (length (lru_items c))"
    using distinct_to_end [OF d(1)] length_to_end [OF d(1)] by auto
  moreover have "distinct (map fst (tl ?ys))" using calculation(1) by (simp add: map_tl distinct_tl)
  ultimately show ?thesis using d assms by (auto simp: lru_inv_def put_list_def Let_def lru_len_def)
qed

text \<open>One input through both mappers.\<close>

lemma mirrored_input:
  assumes m: "mirrored cl sv" and f: "cache_stands_for f (cl_mm_cache cl)" and x: "x = f h"
  shows "\<exists>y cl' sv'. client_input cl x (Some h) = Some (Inr (y, cl')) \<and> server_input sv y h = Some (Inr (x, sv')) \<and>
     mirrored cl' sv' \<and> cache_stands_for f (cl_mm_cache cl')"
proof (cases "map_of (lru_items (cl_mm_cache cl)) h")
  case None
  let ?c = "cl_mm_cache cl" and ?s = "sv_mm_cache sv"
  let ?c1 = "?c\<lparr>lru_total := lru_total ?c + 1\<rparr>"
  have inv: "lru_inv ?c1" "lru_inv ?s" "pinned_items ?c1 = {}" "pinned_items ?s = {}"
    using m by (auto simp: mirrored_def lru_inv_def lru_len_def)
  have same: "lru_items ?s = lru_items ?c" "capacity ?s = capacity ?c" "cl_use_cache cl" using m by (auto simp: mirrored_def)
  let ?xs = "put_list (capacity ?c) h x (lru_items ?c)"
  have c: "client_input cl x (Some h) = Some (Inr (Some x, cl\<lparr>cl_mm_cache := ?c1\<lparr>lru_items := ?xs\<rparr>, mm_cache_total := mm_cache_total cl + 1\<rparr>))"
    using lru_get_miss [OF None, of None] lru_put_unpinned [OF inv(1,3), of h x] same by (simp add: client_input_def Let_def)
  have "server_input sv (Some x) h = Some (Inr (x, sv\<lparr>sv_mm_cache := ?s\<lparr>lru_items := ?xs\<rparr>\<rparr>))"
    using lru_put_unpinned [OF inv(2,4), of h x] same by (simp add: server_input_def)
  moreover have "cache_stands_for f (?c1\<lparr>lru_items := ?xs\<rparr>)"
    using f x set_put_list [of "capacity ?c" h x "lru_items ?c"] by (auto simp: cache_stands_for_def)
  moreover have "lru_inv (?c1\<lparr>lru_items := ?xs\<rparr>)" using put_list_inv [OF inv(1,3), of h x] by simp
  ultimately show ?thesis
    using c m same by (intro exI conjI) (auto simp: mirrored_def)
next
  case (Some v)
  let ?c = "cl_mm_cache cl" and ?s = "sv_mm_cache sv"
  have v: "v = x" using f x map_of_SomeD [OF Some] by (auto simp: cache_stands_for_def)
  have same: "lru_items ?s = lru_items ?c" "cl_use_cache cl" using m by (auto simp: mirrored_def)
  let ?xs = "to_end h x (lru_items ?c)"
  have "client_input cl x (Some h) = Some (Inr (None, cl\<lparr>cl_mm_cache := ?c\<lparr>lru_items := ?xs, lru_hits := lru_hits ?c + 1,
      lru_total := lru_total ?c + 1\<rparr>, mm_cache_total := mm_cache_total cl + 1, mm_cache_hits := mm_cache_hits cl + 1\<rparr>))"
    using lru_get_hit [OF Some, of None] same v by (simp add: client_input_def Let_def)
  moreover have "server_input sv None h = Some (Inr (x, sv\<lparr>sv_mm_cache := ?s\<lparr>lru_items := ?xs, lru_hits := lru_hits ?s + 1,
      lru_total := lru_total ?s + 1\<rparr>\<rparr>))"
    using lru_get_hit [of ?s h v None] Some same v by (simp add: server_input_def)
  moreover have "cache_stands_for f (?c\<lparr>lru_items := ?xs, lru_hits := a, lru_total := b\<rparr>)" for a b
    using f x by (auto simp: cache_stands_for_def to_end_def AList.delete_eq)
  moreover have "lru_inv (?c\<lparr>lru_items := ?xs, lru_hits := a, lru_total := b\<rparr>)" for a b
  proof -
    have "distinct (map fst (lru_items ?c))" "h \<in> fst ` set (lru_items ?c)" "lru_len ?c \<le> capacity ?c" "pinned_items ?c = {}"
      using m Some by (auto simp: mirrored_def lru_inv_def intro: map_of_SomeD image_eqI [of _ _ "(h, v)"])
    then show ?thesis using distinct_to_end [of "lru_items ?c" h x] length_to_end [of "lru_items ?c" h x]
      by (simp add: lru_inv_def lru_len_def)
  qed
  ultimately show ?thesis using m same by (intro exI conjI) (auto simp: mirrored_def)
qed

lemma mirrored_loop:
  "mirrored cl sv \<Longrightarrow> cache_stands_for f (cl_mm_cache cl) \<Longrightarrow>
   \<exists>ys cl' sv'. client_loop cl (map f hs) (map Some hs) = Some (Inr (ys, cl')) \<and> length ys = length hs \<and>
     server_loop sv ys hs = Some (Inr (map f hs, sv')) \<and> mirrored cl' sv' \<and> cache_stands_for f (cl_mm_cache cl')"
proof (induction hs arbitrary: cl sv)
  case (Cons h hs)
  obtain y cl1 sv1 where one: "client_input cl (f h) (Some h) = Some (Inr (y, cl1))" "server_input sv y h = Some (Inr (f h, sv1))"
      "mirrored cl1 sv1" "cache_stands_for f (cl_mm_cache cl1)"
    using mirrored_input [OF Cons.prems refl] by blast
  from Cons.IH [OF one(3,4)] obtain ys cl' sv' where rest: "client_loop cl1 (map f hs) (map Some hs) = Some (Inr (ys, cl'))"
      "length ys = length hs" "server_loop sv1 ys hs = Some (Inr (map f hs, sv'))" "mirrored cl' sv'" "cache_stands_for f (cl_mm_cache cl')"
    by blast
  then show ?case using one by (intro exI [of _ "y # ys"] exI [of _ cl'] exI [of _ sv']) simp
qed simp

text \<open>C21: The caches of the two processes stay mirrored, and the engine recovers every preprocessed input
  of a request, also those the client did not send because they are cached: \<open>f\<close> is the input a hash
  stands for.\<close>

theorem mm_inputs_roundtrip:
  assumes "mirrored cl sv" and "cache_stands_for f (cl_mm_cache cl)"
    and "map mapper images = map f hs"
  shows "\<exists>ys cl' sv'. client_process_inputs mapper cl images (Some hs) None = Some (Inr (ys, cl')) \<and>
     server_process_inputs sv ys hs = Some (Inr (map (Some \<circ> mapper) images, sv')) \<and>
     mirrored cl' sv' \<and> cache_stands_for f (cl_mm_cache cl')"
proof -
  obtain ys cl' sv' where l: "client_loop cl (map f hs) (map Some hs) = Some (Inr (ys, cl'))" "length ys = length hs"
      "server_loop sv ys hs = Some (Inr (map f hs, sv'))" "mirrored cl' sv'" "cache_stands_for f (cl_mm_cache cl')"
    using mirrored_loop [OF assms(1,2)] by blast
  have len: "length images = length hs" using arg_cong [OF assms(3), of length] by simp
  have "client_process_inputs mapper cl images (Some hs) None = Some (Inr (ys, cl'))"
    using l(1) assms(1,3) len by (simp add: client_process_inputs_def mirrored_def)
  moreover have "server_process_inputs sv ys hs = Some (Inr (map (Some \<circ> mapper) images, sv'))"
    using l(2,3) assms(1) arg_cong [OF assms(3), of "map Some"] by (simp add: server_process_inputs_def mirrored_def)
  ultimately show ?thesis using l(4,5) by blast
qed

lemma mirrored_init: "mirrored (mapper_client_init False) (mapper_server_init False)"
  "cache_stands_for f (cl_mm_cache (mapper_client_init False))"
  by (simp_all add: mirrored_def mapper_client_init_def mapper_server_init_def lru_init_def lru_inv_def lru_len_def
      MM_CACHE_SIZE_def cache_stands_for_def)

text \<open>The same image twice: it is sent once.\<close>

theorem mm_inputs_roundtrip_witness:
  "case client_process_inputs length (mapper_client_init False) [''aa'', ''b'', ''aa''] (Some [''x'', ''y'', ''x'']) None of
     Some (Inr (ys, cl')) \<Rightarrow> ys = [Some 2, Some 1, None] \<and>
       (case server_process_inputs (mapper_server_init False) ys [''x'', ''y'', ''x''] of
          Some (Inr (zs, sv')) \<Rightarrow> zs = [Some 2, Some 1, Some 2] \<and> mirrored cl' sv'
        | _ \<Rightarrow> False)
   | _ \<Rightarrow> False"
proof -
  have h: "map length [''aa'', ''b'', ''aa''] = map (\<lambda>h. if h = ''x'' then 2 else 1) [''x'', ''y'', ''x'']" by simp
  have "case client_process_inputs length (mapper_client_init False) [''aa'', ''b'', ''aa''] (Some [''x'', ''y'', ''x'']) None of
     Some (Inr (ys, cl')) \<Rightarrow> ys = [Some 2, Some 1, None] | _ \<Rightarrow> False" by code_simp
  with mm_inputs_roundtrip [OF mirrored_init h] show ?thesis by auto
qed

end
