(* ===== verification/EngineCore.thy ===== *)
theory EngineCore
  imports SchedulerProps EncoderScheduler LRUCache
begin

text \<open>
  The two processes of the engine (\<open>vllm/v1/engine/core.py\<close>): \<open>EngineCore\<close> runs the language model,
  \<open>EncoderCore\<close> the vision encoder.  The encoder process puts its results on a queue that the engine
  core drains into \<open>encoder_result_cache\<close>, the dictionary its scheduler consults.

  Parameters: \<open>exec\<close> is \<open>execute_model\<close> of the model executor, \<open>encode\<close> its
  \<open>execute_vision_encoder\<close>; \<open>arr n\<close> are the encoder results that arrive on the queue before the
  \<open>n\<close>-th poll of a waiting step.  Sockets, threads, signals, profiling and the construction of the
  executors are not modelled; a queue is the list of its elements.  A loop that waits for another
  process returns an \<open>option\<close>, with \<open>None\<close> for waiting forever.
\<close>

section \<open>Messages and state\<close>

datatype client_request =
    AddRequest EngineCoreRequest
  | ProfileRequest bool
  | ResetPrefixCache
  | AbortRequests "string list"

text \<open>A message of the encoder process: a list of dictionaries from request ids to results per input.\<close>

type_synonym enc_item = "(string \<times> (nat \<times> enc_handle) list) list"
type_synonym enc_message = "enc_item list"

record EngineCore =
  ec_scheduler :: Scheduler
  ec_mapper :: MMInputMapperServer
  ec_result_queue :: "enc_message list"
  ec_input_queue :: "client_request list"
  ec_output_queue :: "EngineCoreOutputs list"

record EncoderCore =
  en_scheduler :: EncoderScheduler
  en_mapper :: MMInputMapperServer
  en_result_queue :: "enc_message list"
  en_input_queue :: "client_request list"
  en_log_stats :: bool

section \<open>The engine core\<close>

text \<open>The part of \<open>add_request\<close> both processes share: restore the elided inputs, build the request.\<close>

definition receive_request :: "MMInputMapperServer \<Rightarrow> EngineCoreRequest \<Rightarrow> (Request \<times> MMInputMapperServer) py option" where
  "receive_request sv e =
     opy_bind
       (case ecr_mm_hashes e of
          None \<Rightarrow> Some (Inr (ecr_mm_inputs e, sv))
        | Some hs \<Rightarrow>
            (case ecr_mm_inputs e of
               None \<Rightarrow> Some (Inl AssertionError)
             | Some xs \<Rightarrow> opy_bind (server_process_inputs sv xs hs) (\<lambda>(ys, sv'). Some (Inr (Some ys, sv')))))
       (\<lambda>(ins, sv').
         opy_bind (Some (from_engine_core_request (e\<lparr>ecr_mm_inputs := ins\<rparr>))) (\<lambda>r. Some (Inr (r, sv'))))"

definition engine_add_request :: "EngineCore \<Rightarrow> EngineCoreRequest \<Rightarrow> EngineCore py option" where
  "engine_add_request ec e =
     opy_bind (receive_request (ec_mapper ec) e) (\<lambda>(r, sv).
       Some (Inr (ec\<lparr>ec_mapper := sv, ec_scheduler := add_request (ec_scheduler ec) r\<rparr>)))"

definition engine_abort_requests :: "set_order \<Rightarrow> EngineCore \<Rightarrow> string list \<Rightarrow> EngineCore py" where
  "engine_abort_requests ord ec rids =
     py_bind (finish_requests ord (ec_scheduler ec) rids FINISHED_ABORTED) (\<lambda>s. Inr (ec\<lparr>ec_scheduler := s\<rparr>))"

definition engine_reset_prefix_cache :: "EngineCore \<Rightarrow> EngineCore" where
  "engine_reset_prefix_cache ec = ec\<lparr>ec_scheduler := snd (scheduler_reset_prefix_cache (ec_scheduler ec))\<rparr>"

definition add_result :: "string \<Rightarrow> nat \<times> enc_handle \<Rightarrow> enc_results \<Rightarrow> enc_results" where
  "add_result k iv c =
     (case c k of
        Some m \<Rightarrow> c(k \<mapsto> m(fst iv \<mapsto> snd iv))
      | None \<Rightarrow> c(k \<mapsto> [fst iv \<mapsto> snd iv]))"

definition handle_encoder_result :: "enc_message \<Rightarrow> enc_results \<Rightarrow> enc_results" where
  "handle_encoder_result msg c = fold (\<lambda>item c. fold (\<lambda>(k, vs) c. fold (add_result k) vs c) item c) msg c"

text \<open>\<open>encoder_result_cache\<close> is the dictionary object the scheduler holds.\<close>

definition take_result :: "Scheduler \<Rightarrow> enc_message \<Rightarrow> Scheduler" where
  "take_result s msg = s\<lparr>encoder_cache := map_option (handle_encoder_result msg) (encoder_cache s)\<rparr>"

text \<open>
  The loop of \<open>step\<close> that schedules again until there is something to do.  The output of a call that
  schedules nothing is dropped.
\<close>

partial_function (option) wait_tokens ::
  "py_hash \<Rightarrow> (nat \<Rightarrow> enc_message list) \<Rightarrow> nat \<Rightarrow> Scheduler \<Rightarrow> enc_message list \<Rightarrow> SchedulerOutput \<Rightarrow>
   (SchedulerOutput \<times> Scheduler \<times> enc_message list) py option" where
  "wait_tokens hf arr n s q out =
     (if total_num_scheduled_tokens out \<noteq> 0 then Some (Inr (out, s, q))
      else
        (case schedule hf s of
           Inl e \<Rightarrow> Some (Inl e)
         | Inr (out', s1) \<Rightarrow>
             (case q @ arr n of
                [] \<Rightarrow> wait_tokens hf arr (Suc n) s1 [] out'
              | msg # q' \<Rightarrow> wait_tokens hf arr (Suc n) (take_result s1 msg) q' out')))"

declare wait_tokens.simps [code]

definition engine_step ::
  "py_hash \<Rightarrow> set_order \<Rightarrow> (SchedulerOutput \<Rightarrow> ModelRunnerOutput) \<Rightarrow> (nat \<Rightarrow> enc_message list) \<Rightarrow> EngineCore \<Rightarrow>
   (EngineCoreOutputs \<times> EngineCore) py option" where
  "engine_step hf ord exec arr ec =
     (let s = ec_scheduler ec in
      if \<not> has_unfinished_requests s then
        Some (py_bind (make_stats s) (\<lambda>st. Inr (\<lparr>ecos_outputs = [], ecos_scheduler_stats = st\<rparr>, ec)))
      else
        opy_bind (Some (schedule hf s)) (\<lambda>(out0, s0).
          opy_bind (wait_tokens hf arr 0 s0 (ec_result_queue ec) out0) (\<lambda>(out, s1, q).
            Some (py_bind (update_from_output ord s1 out (exec out)) (\<lambda>(res, s2).
              Inr (res, ec\<lparr>ec_scheduler := s2, ec_result_queue := q\<rparr>))))))"

definition handle_client_request :: "set_order \<Rightarrow> EngineCore \<Rightarrow> client_request \<Rightarrow> EngineCore py option" where
  "handle_client_request ord ec req =
     (case req of
        AddRequest e \<Rightarrow> engine_add_request ec e
      | ProfileRequest _ \<Rightarrow> Some (Inr ec)
      | ResetPrefixCache \<Rightarrow> Some (Inr (engine_reset_prefix_cache ec))
      | AbortRequests rids \<Rightarrow> Some (engine_abort_requests ord ec rids))"

fun handle_client_requests :: "set_order \<Rightarrow> EngineCore \<Rightarrow> client_request list \<Rightarrow> EngineCore py option" where
  "handle_client_requests ord ec [] = Some (Inr ec)"
| "handle_client_requests ord ec (req # reqs) =
     opy_bind (handle_client_request ord ec req) (\<lambda>ec'. handle_client_requests ord ec' reqs)"

text \<open>
  One turn of \<open>run_busy_loop\<close>: an idle engine waits for a request, then the input queue and the result
  queue are drained, and a step is made.
\<close>

definition busy_loop_turn ::
  "py_hash \<Rightarrow> set_order \<Rightarrow> (SchedulerOutput \<Rightarrow> ModelRunnerOutput) \<Rightarrow> (nat \<Rightarrow> enc_message list) \<Rightarrow> EngineCore \<Rightarrow>
   EngineCore py option" where
  "busy_loop_turn hf ord exec arr ec =
     (if \<not> has_unfinished_requests (ec_scheduler ec) \<and> ec_input_queue ec = [] then None
      else
        opy_bind (handle_client_requests ord (ec\<lparr>ec_input_queue := []\<rparr>) (ec_input_queue ec)) (\<lambda>ec1.
          let ec2 = ec1\<lparr>ec_scheduler := fold (\<lambda>msg s. take_result s msg) (ec_result_queue ec1) (ec_scheduler ec1),
                        ec_result_queue := []\<rparr> in
          opy_bind (engine_step hf ord exec arr ec2) (\<lambda>(res, ec3).
            Some (Inr (ec3\<lparr>ec_output_queue := ec_output_queue ec3 @ [res]\<rparr>)))))"

section \<open>The encoder process\<close>

definition encoder_add_request :: "EncoderCore \<Rightarrow> EngineCoreRequest \<Rightarrow> EncoderCore py option" where
  "encoder_add_request en e =
     opy_bind (receive_request (en_mapper en) e) (\<lambda>(r, sv).
       Some (Inr (en\<lparr>en_mapper := sv, en_scheduler := es_add_request (en_scheduler en) r\<rparr>)))"

definition encoder_abort_requests :: "set_order \<Rightarrow> EncoderCore \<Rightarrow> string list \<Rightarrow> EncoderCore py" where
  "encoder_abort_requests ord en rids =
     py_bind (es_finish_requests ord (en_scheduler en) rids FINISHED_ABORTED) (\<lambda>s. Inr (en\<lparr>en_scheduler := s\<rparr>))"

definition encoder_core_step :: "(EncSchedulerOutput \<Rightarrow> enc_message) \<Rightarrow> EncoderCore \<Rightarrow> (EngineCoreOutputs \<times> EncoderCore) py" where
  "encoder_core_step encode en =
     (let res = \<lparr>ecos_outputs = [], ecos_scheduler_stats = es_make_stats (en_scheduler en)\<rparr> in
      if \<not> es_has_unfinished_requests (en_scheduler en) then Inr (res, en)
      else
        py_bind (encoder_schedule (en_scheduler en)) (\<lambda>(out, s).
          let en1 = en\<lparr>en_scheduler := s\<rparr> in
          Inr (res, if eo_scheduled_new_reqs out \<noteq> [] then en1\<lparr>en_result_queue := en_result_queue en1 @ [encode out]\<rparr>
                    else en1)))"

text \<open>\<open>EncoderCore\<close> has no \<open>reset_prefix_cache\<close>.\<close>

definition encoder_handle_client_request :: "set_order \<Rightarrow> EncoderCore \<Rightarrow> client_request \<Rightarrow> EncoderCore py option" where
  "encoder_handle_client_request ord en req =
     (case req of
        AddRequest e \<Rightarrow> encoder_add_request en e
      | ProfileRequest _ \<Rightarrow> Some (Inr en)
      | ResetPrefixCache \<Rightarrow> Some (Inl AttributeError)
      | AbortRequests rids \<Rightarrow> Some (encoder_abort_requests ord en rids))"

fun encoder_handle_client_requests :: "set_order \<Rightarrow> EncoderCore \<Rightarrow> client_request list \<Rightarrow> EncoderCore py option" where
  "encoder_handle_client_requests ord en [] = Some (Inr en)"
| "encoder_handle_client_requests ord en (req # reqs) =
     opy_bind (encoder_handle_client_request ord en req) (\<lambda>en'. encoder_handle_client_requests ord en' reqs)"

definition encoder_busy_loop_turn ::
  "set_order \<Rightarrow> (EncSchedulerOutput \<Rightarrow> enc_message) \<Rightarrow> EncoderCore \<Rightarrow> EncoderCore py option" where
  "encoder_busy_loop_turn ord encode en =
     (if \<not> es_has_unfinished_requests (en_scheduler en) \<and> en_input_queue en = [] \<and> \<not> en_log_stats en then None
      else
        opy_bind (encoder_handle_client_requests ord (en\<lparr>en_input_queue := []\<rparr>) (en_input_queue en)) (\<lambda>en1.
          opy_bind (Some (encoder_core_step encode en1)) (\<lambda>(_, en2). Some (Inr en2))))"

end
