(* ===== verification/SharedCache.thy ===== *)
theory SharedCache
  imports Coupling EngineCore
begin

text \<open>
  The encoder outputs.  In the engine core the dictionary of encoder results is one object: the scheduler looks
  up in it which results have arrived, the runner reads the outputs from it and pops the ones the scheduler
  frees.  Here the runner's dictionary is the object, and the scheduler's \<open>encoder_cache\<close> is a view of it.
\<close>

section \<open>The scheduler's view of the runner's dictionary\<close>

definition enc_view :: "enc_dict \<Rightarrow> enc_results" where
  "enc_view c rid = map_option map_of (map_of c rid)"

definition share :: "Scheduler \<Rightarrow> enc_dict \<Rightarrow> Scheduler" where
  "share s c = s\<lparr>encoder_cache := Some (enc_view c)\<rparr>"

text \<open>A result that arrives is put into the dictionary of its request.\<close>

definition add_output :: "string \<Rightarrow> nat \<times> enc_handle \<Rightarrow> enc_dict \<Rightarrow> enc_dict" where
  "add_output rid iv c =
     AList.update rid (AList.update (fst iv) (snd iv) (case map_of c rid of None \<Rightarrow> [] | Some m \<Rightarrow> m)) c"

definition receive_outputs :: "enc_message \<Rightarrow> enc_dict \<Rightarrow> enc_dict" where
  "receive_outputs msg c = fold (\<lambda>item c. fold (\<lambda>(k, vs) c. fold (add_output k) vs c) item c) msg c"

lemma fold_commute_view:
  assumes "\<And>x c. v (f x c) = g x (v c)"
  shows "v (fold f xs c) = fold g xs (v c)"
  using assms by (induction xs arbitrary: c) simp_all

lemma add_output_view: "enc_view (add_output rid iv c) = add_result rid iv (enc_view c)"
proof
  fix i
  show "enc_view (add_output rid iv c) i = add_result rid iv (enc_view c) i"
    by (cases "map_of c rid") (auto simp: enc_view_def add_output_def add_result_def update_conv')
qed

lemma receive_outputs_view: "enc_view (receive_outputs msg c) = handle_encoder_result msg (enc_view c)"
  unfolding receive_outputs_def handle_encoder_result_def
  by (intro fold_commute_view) (auto intro!: fold_commute_view simp: add_output_view)

text \<open>Results only add entries.\<close>

lemma add_result_keeps:
  "has_encoder_result (Some c) rid k = Inr True \<Longrightarrow> has_encoder_result (Some (add_result i v c)) rid k = Inr True"
  by (auto simp: has_encoder_result_def add_result_def split: option.splits)

lemma fold_keeps:
  assumes "\<And>x c. P c \<Longrightarrow> P (f x c)" and "P c"
  shows "P (fold f xs c)"
  using assms(2) by (induction xs arbitrary: c) (simp_all add: assms(1))

lemma handle_encoder_result_keeps:
  "has_encoder_result (Some c) rid k = Inr True \<Longrightarrow> has_encoder_result (Some (handle_encoder_result msg c)) rid k = Inr True"
  unfolding handle_encoder_result_def
  by (rule fold_keeps [where P = "\<lambda>c. has_encoder_result (Some c) rid k = Inr True"])
    (auto intro!: fold_keeps [where P = "\<lambda>c. has_encoder_result (Some c) rid k = Inr True"] add_result_keeps)

section \<open>What the runner keeps of the dictionary\<close>

definition has_output :: "enc_dict \<Rightarrow> string \<Rightarrow> nat \<Rightarrow> bool" where
  "has_output c rid k \<longleftrightarrow> (\<exists>m h. map_of c rid = Some m \<and> map_of m k = Some h)"

lemma has_output_view: "has_encoder_result (Some (enc_view c)) rid k = Inr True \<longleftrightarrow> has_output c rid k"
  by (auto simp: has_encoder_result_def enc_view_def has_output_def split: option.splits)

lemma delete_keeps: "has_output c rid k \<Longrightarrow> rid \<notin> set fs \<Longrightarrow> has_output (fold AList.delete fs c) rid k"
  by (induction fs arbitrary: c) (simp_all add: has_output_def delete_conv')

lemma free_encoder_output_keeps: "has_output c rid k \<Longrightarrow> (rid, k) \<noteq> ik \<Longrightarrow> has_output (free_encoder_output ik c) rid k"
proof -
  assume h: "has_output c rid k" and ne: "(rid, k) \<noteq> ik"
  obtain i j where ik: "ik = (i, j)" by fastforce
  show ?thesis
  proof (cases "i = rid")
    case False
    then show ?thesis using h by (auto simp: has_output_def free_encoder_output_def ik Let_def delete_conv' update_conv' split: option.splits)
  next
    case True
    then have j: "j \<noteq> k" using ne ik by simp
    obtain m v where m: "map_of c rid = Some m" "map_of m k = Some v" using h by (auto simp: has_output_def)
    have d: "map_of (AList.delete j m) k = Some v" using m(2) j by (simp add: delete_conv')
    then have "AList.delete j m \<noteq> []" by (metis map_of.simps(1) option.distinct(1))
    then show ?thesis using m d True by (simp add: has_output_def free_encoder_output_def ik Let_def update_conv')
  qed
qed

lemma next_encoder_cache_keeps:
  assumes "has_output (mr_encoder_cache mr) rid k" and "rid \<notin> out_finished_req_ids out"
    and "(rid, k) \<notin> set (free_encoder_input_ids out)" and "lists_sets sord" and "finite (out_finished_req_ids out)"
  shows "has_output (next_encoder_cache sord mr out) rid k"
proof -
  have fs: "rid \<notin> set (sord (out_finished_req_ids out))" using assms(2,4,5) by (simp add: lists_sets_def)
  have "has_output (fold free_encoder_output xs c) rid k" if "has_output c rid k" "(rid, k) \<notin> set xs" for xs c
    using that by (induction xs arbitrary: c) (simp_all add: free_encoder_output_keeps)
  then show ?thesis using delete_keeps [OF assms(1) fs] assms(3) by (simp add: next_encoder_cache_def)
qed

section \<open>The update does not look at the results\<close>

abbreviation with_results :: "enc_results option \<Rightarrow> Scheduler \<Rightarrow> Scheduler" where
  "with_results c s \<equiv> s\<lparr>encoder_cache := c\<rparr>"

lemma put_req_results: "put_req (with_results c s) r = with_results c (put_req s r)"
  by (simp add: put_req_def)

lemma check_stop_results: "check_stop (with_results c s) r = check_stop s r"
  by (simp add: check_stop_def)

lemma free_request_results:
  "free_request ord s r = Inr s' \<Longrightarrow> free_request ord (with_results c s) r = Inr (with_results c s')"
  by (auto simp: free_request_def split: if_splits)

lemma generate_token_results:
  assumes "generate_token ord s r mro = Inr (out, st, s')"
  shows "generate_token ord (with_results c s) r mro = Inr (out, st, with_results c s')"
proof -
  obtain k where k: "req_id_to_index mro (request_id r) = Some k"
    using assms by (cases "req_id_to_index mro (request_id r)") (simp_all add: generate_token_def)
  obtain t where t: "py_index (sampled_token_ids mro) k = Inr t"
    using assms k by (cases "py_index (sampled_token_ids mro) k") (simp_all add: generate_token_def)
  obtain r2 where r2: "check_stop s (append_output_token_ids r [t]) = Inr (st, r2)"
      "(if st then free_request ord (put_req s r2) r2 else Inr (put_req s r2)) = Inr s'"
    using assms k t by (auto simp: generate_token_def Let_def)
  have "(if st then free_request ord (put_req (with_results c s) r2) r2 else Inr (put_req (with_results c s) r2)) =
      Inr (with_results c s')"
    using r2(2) free_request_results [of ord "put_req s r2" r2 s' c] by (cases st) (simp_all add: put_req_results)
  then show ?thesis
    using assms k t r2 by (simp add: generate_token_def Let_def check_stop_results)
qed

lemma update_loop_results:
  "update_loop ord s toks mro rids = Inr (nr, outs, s') \<Longrightarrow>
   update_loop ord (with_results c s) toks mro rids = Inr (nr, outs, with_results c s')"
proof (induction rids arbitrary: s nr outs)
  case (Cons rid rids)
  obtain r where r: "requests s rid = Some r" using Cons.prems by (auto simp: get_req_def split: option.splits)
  define n where "n = (case map_of toks rid of None \<Rightarrow> 0 | Some n \<Rightarrow> n)"
  let ?r = "r\<lparr>num_computed_tokens := num_computed_tokens r + n\<rparr>"
  have get: "get_req (with_results c s) rid = Inr r" "get_req s rid = Inr r" using r by (simp_all add: get_req_def)
  show ?case
  proof (cases "n = 0")
    case True
    then show ?thesis using Cons.prems Cons.IH [of s] unfolding n_def by (auto simp: get Let_def)
  next
    case False
    then obtain e where e: "num_computed_tokens ?r \<le> num_tokens ?r"
        "free_done_inputs (encoder_cache_manager s) ?r (ord (get_cached_input_ids (encoder_cache_manager s) ?r)) = Inr e"
      using Cons.prems unfolding n_def by (auto simp: get Let_def)
    let ?s1 = "put_req (s\<lparr>encoder_cache_manager := e\<rparr>) ?r"
    have s1: "put_req ((with_results c s)\<lparr>encoder_cache_manager := e\<rparr>) ?r = with_results c ?s1" by (simp add: put_req_def)
    show ?thesis
    proof (cases "num_computed_tokens ?r = num_tokens ?r")
      case True
      then obtain out st s2 nr' outs' where g: "generate_token ord ?s1 ?r mro = Inr (out, st, s2)"
          "update_loop ord s2 toks mro rids = Inr (nr', outs', s')" "nr = (if st then nr' else rid # nr')" "outs = out # outs'"
        using Cons.prems False e unfolding n_def [symmetric] by (auto simp: get Let_def n_def [symmetric])
      show ?thesis
        using False e True generate_token_results [OF g(1), of c] Cons.IH [OF g(2)] g(3,4)
        by (simp add: get Let_def n_def [symmetric] s1)
    next
      case part: False
      then obtain nr' where g: "update_loop ord ?s1 toks mro rids = Inr (nr', outs, s')" "nr = rid # nr'"
        using Cons.prems False e by (auto simp: get Let_def n_def [symmetric])
      show ?thesis using False e part Cons.IH [OF g(1)] g(2) by (simp add: get Let_def n_def [symmetric] s1)
    qed
  qed
qed simp

lemma update_from_output_results:
  assumes "update_from_output ord s out mro = Inr (res, s')"
  shows "update_from_output ord (with_results c s) out mro = Inr (res, with_results c s')"
proof -
  obtain nr outs s1 x where u: "update_loop ord s (num_scheduled_tokens out) mro (running s) = Inr (nr, outs, s1)"
      "make_stats (s1\<lparr>running := nr\<rparr>) = Inr x" "res = \<lparr>ecos_outputs = outs, ecos_scheduler_stats = x\<rparr>" "s' = s1\<lparr>running := nr\<rparr>"
    using assms by (auto simp: update_from_output_def Let_def)
  have "make_stats ((with_results c s1)\<lparr>running := nr\<rparr>) = Inr x" using u(2) by (simp add: make_stats_def)
  then show ?thesis using update_loop_results [OF u(1), of c] u(3,4) by (simp add: update_from_output_def Let_def)
qed

section \<open>The coupling of the encoder outputs\<close>

definition mm_coupled :: "Scheduler \<Rightarrow> GPUModelRunner \<Rightarrow> bool" where
  "mm_coupled s mr \<longleftrightarrow>
     encoder_cache s = Some (enc_view (mr_encoder_cache mr)) \<and> enc_sync s [] \<and>
     (\<forall>(rid, k) \<in> set (freed (encoder_cache_manager s)). requests s rid = None \<longrightarrow> rid \<in> finished_req_ids s) \<and>
     (\<forall>rid r. requests s rid = Some r \<longrightarrow> positions_sorted (mm_positions r))"

lemma request_origin:
  assumes c: "coupled s mr" and sch: "schedule hf s = Inr (out, s')" and r: "requests s' rid = Some r"
  shows "\<exists>r0. requests s rid = Some r0 \<and> carried r0 r \<and> rid \<notin> finished_req_ids s"
proof -
  have d: "step_data s out s'" using schedule_data sch c by (auto simp: coupled_def)
  have post: "schedule_post s out s'" using schedule_ok [of s hf] c sch by (auto simp: coupled_def sched_good_def)
  have f: "out_finished_req_ids out = finished_req_ids s" and ids: "\<And>i r. requests s' i = Some r \<Longrightarrow> request_id r = i"
    using post by (auto simp: schedule_post_def sched_inv_def)
  have "\<exists>r0. requests s rid = Some r0 \<and> carried r0 r"
  proof (cases "rid \<in> set (scheduled_ids out)")
    case True
    from scheduled_states [OF c d f ids True] r show ?thesis by auto
  next
    case False
    then have "idle_req_ok s s' rid r" using d r by (simp add: step_data_def)
    then show ?thesis by (auto simp: idle_req_ok_def)
  qed
  then show ?thesis using c by (auto simp: coupled_def req_coupled_def)
qed

text \<open>The runner still has the output of every cached input once it has dropped what the step frees.\<close>

lemma cached_output_kept:
  assumes c: "coupled s mr" and m: "mm_coupled s mr" and sord: "lists_sets sord" and sch: "schedule hf s = Inr (out, s')"
    and k: "k \<in> inputs_of (encoder_cache_manager s') rid"
  shows "has_output (next_encoder_cache sord mr out) rid k"
proof -
  have good: "sched_good s" and fin: "finite (finished_req_ids s)" using c by (simp_all add: coupled_def)
  have post: "schedule_post s out s'" using schedule_ok [of s hf] good sch by (auto simp: sched_good_def)
  have inv: "sched_inv s'" and f: "out_finished_req_ids out = finished_req_ids s" using post by (simp_all add: schedule_post_def)
  have "encoder_cache_inv (requests s') (encoder_cache_manager s')" using inv by (simp add: sched_inv_def)
  then obtain r where "requests s' rid = Some r"
    using k unfolding encoder_cache_inv_def inputs_of_def by (fastforce split: option.splits)
  then have nf: "rid \<notin> finished_req_ids s" using request_origin [OF c sch] by blast
  have e: "encoder_cache s = Some (enc_view (mr_encoder_cache mr))" "enc_sync s []" using m by (simp_all add: mm_coupled_def)
  have "has_encoder_result (encoder_cache s) rid k = Inr True \<and> (rid, k) \<notin> set (free_encoder_input_ids out)"
    by (rule schedule_sync(3) [OF good e(2) sch k])
  then show ?thesis
    using next_encoder_cache_keeps [of mr rid k out sord] nf f fin sord unfolding e(1) has_output_view by simp
qed

lemma mm_encoder_ready:
  assumes c: "coupled s mr" and m: "mm_coupled s mr" and sord: "lists_sets sord" and sch: "schedule hf s = Inr (out, s')"
  shows "encoder_ready (next_encoder_cache sord mr out) (next_requests mr out) (num_scheduled_tokens out)"
  unfolding encoder_ready_def
proof (intro ballI, clarify)
  fix rid n assume n: "(rid, n) \<in> set (num_scheduled_tokens out)"
  have good: "sched_good s" and crd: "crd_ok s" using c by (simp_all add: coupled_def)
  have d: "step_data s out s'" using schedule_data [OF good crd sch] by blast
  have post: "schedule_post s out s'" using schedule_ok [of s hf] good sch by (auto simp: sched_good_def)
  have f: "out_finished_req_ids out = finished_req_ids s" and ids: "\<And>i r. requests s' i = Some r \<Longrightarrow> request_id r = i"
    using post by (auto simp: schedule_post_def sched_inv_def)
  have mem: "rid \<in> set (scheduled_ids out)" using d n unfolding step_data_def by (metis fst_conv image_eqI)
  obtain r rq r0 where r: "requests s' rid = Some r" "next_requests mr out rid = Some rq" "scheduled_state s' rid r rq"
      "requests s rid = Some r0" "carried r0 r"
    using scheduled_states [OF c d f ids mem] by blast
  have eq: "cs_num_computed_tokens rq = num_computed_tokens r" "cs_mm_positions rq = mm_positions r"
    using r(3) by (simp_all add: scheduled_state_def mirrors_def)
  have srt: "positions_sorted (mm_positions r)" using m r(4) carried_sel(6) [OF r(5)] by (simp add: mm_coupled_def)
  have tok: "tok_ok s' r n" using post n r(1) unfolding schedule_post_def by fastforce
  have "0 < pr_length (mm_positions r ! i)" if "i < length (mm_positions r)" for i
    using positions_sorted_mem [OF srt, of "mm_positions r ! i"] that by simp
  moreover have "has_output (next_encoder_cache sord mr out) rid i"
    if i: "i < length (mm_positions r)" "overlaps (num_computed_tokens r) n (mm_positions r ! i)" for i
  proof (rule cached_output_kept [OF c m sord sch])
    have "needs_input r (num_computed_tokens r) n i" using i by (auto simp: needs_input_def overlaps_def)
    then have "i \<in> get_cached_input_ids (encoder_cache_manager s') r" using tok srt by (simp add: tok_ok_def enc_ready_def)
    then show "i \<in> inputs_of (encoder_cache_manager s') rid" using ids [OF r(1)] inputs_of_cached by metis
  qed
  moreover have "0 < n" using tok by (simp add: tok_ok_def sched_ok_def)
  ultimately show "\<exists>rq. next_requests mr out rid = Some rq \<and> 0 < n \<and> (\<forall>i < length (cs_mm_positions rq).
      0 < pr_length (cs_mm_positions rq ! i) \<and> (overlaps (cs_num_computed_tokens rq) n (cs_mm_positions rq ! i) \<longrightarrow>
        (\<exists>m h. map_of (next_encoder_cache sord mr out) rid = Some m \<and> map_of m i = Some h)))"
    using r(2) by (auto simp: eq has_output_def)
qed

section \<open>The steps keep the coupling of the encoder outputs\<close>

lemma schedule_positions:
  assumes c: "coupled s mr" and m: "mm_coupled s mr" and sch: "schedule hf s = Inr (out, s')" and r: "requests s' rid = Some r"
  shows "positions_sorted (mm_positions r)"
  using request_origin [OF c sch r] m carried_sel(6) [of _ r] by (auto simp: mm_coupled_def)

lemma idle_mm_coupled:
  assumes c: "coupled s mr" and m: "mm_coupled s mr" and sch: "schedule hf s = Inr (out, s')"
  shows "mm_coupled s' mr"
proof -
  have good: "sched_good s" and e: "encoder_cache s = Some (enc_view (mr_encoder_cache mr))" "enc_sync s []"
    using c m by (simp_all add: coupled_def mm_coupled_def)
  note y = schedule_sync [OF good e(2) sch]
  have "enc_sync s' []" using y by (simp add: enc_sync_def)
  then show ?thesis using y(1,2) e(1) schedule_positions [OF c m sch] by (simp add: mm_coupled_def)
qed

lemma work_mm_coupled:
  assumes c: "coupled s mr" and m: "mm_coupled s mr" and ord: "set_order_ok ord" and sord: "lists_sets sord"
    and sch: "schedule hf s = Inr (out, s1)" and cov: "covers_output mro out"
    and upd: "update_from_output ord s1 out mro = Inr (res, s')"
    and dict: "mr_encoder_cache mr' = next_encoder_cache sord mr out"
  shows "mm_coupled (share s' (mr_encoder_cache mr')) mr'"
proof -
  have good: "sched_good s" and e: "enc_sync s []" using c m by (simp_all add: coupled_def mm_coupled_def)
  have inv1: "sched_inv s1" and f1: "finished_req_ids s1 = {}"
    using schedule_ok [of s hf] good sch by (auto simp: sched_good_def schedule_post_def)
  have u: "sched_inv s'" "waiting s' = waiting s1" "finished_req_ids s' = set (running s1) - set (running s')"
    using work_ok [OF good ord cov sch] upd f1 by (auto simp: sched_good_def upd_post_def)
  have rel: "upd_rel s1 (num_scheduled_tokens out) mro (running s1) s'" by (rule update_from_output_rel [OF inv1 upd])
  have er: "enc_rel s1 (running s1) s'" using rel by (simp add: upd_rel_def)
  have f0: "freed (encoder_cache_manager s1) = []" by (rule schedule_sync(1) [OF good e sch])
  have fr: "i \<in> set (running s1)" "k \<notin> inputs_of (encoder_cache_manager s') i"
      "requests s' i = Some r \<Longrightarrow> input_done r k" if "(i, k) \<in> set (freed (encoder_cache_manager s'))" for i k r
    using er that f0 by (auto simp: enc_rel_def)
  have dom: "dom (requests s') = set (running s') \<union> set (waiting s1)" "set (running s1) \<inter> set (waiting s1) = {}"
    using u(1,2) inv1 by (simp_all add: sched_inv_def)
  have run: "i \<in> set (running s')" if "i \<in> set (running s1)" "requests s' i = Some r" for i r
    using that dom by blast
  have "freed_ok (share s' c) {} i k" if ik: "(i, k) \<in> set (freed (encoder_cache_manager s'))" for i k c
  proof (cases "requests s' i")
    case None
    then show ?thesis using fr(2) [OF ik] by (simp add: freed_ok_def share_def)
  next
    case (Some r)
    then show ?thesis using fr [OF ik] run [OF fr(1) [OF ik] Some] by (simp add: freed_ok_def share_def)
  qed
  moreover have "has_encoder_result (Some (enc_view (mr_encoder_cache mr'))) i k = Inr True"
    if "k \<in> inputs_of (encoder_cache_manager s') i" for i k
  proof -
    have "k \<in> inputs_of (encoder_cache_manager s1) i" using er that by (auto simp: enc_rel_def)
    then show ?thesis unfolding has_output_view dict by (rule cached_output_kept [OF c m sord sch])
  qed
  ultimately have "enc_sync (share s' (mr_encoder_cache mr')) []" by (auto simp: enc_sync_def share_def)
  moreover have "i \<in> finished_req_ids s'" if ik: "(i, k) \<in> set (freed (encoder_cache_manager s'))" "requests s' i = None" for i k
  proof -
    have "i \<notin> set (running s')" using ik(2) dom(1) by (metis UnI1 domIff)
    then show ?thesis using fr(1) [OF ik(1)] u(3) by simp
  qed
  moreover have "positions_sorted (mm_positions r)" if r: "requests s' rid = Some r" for rid r
  proof (cases "rid \<in> set (running s1)")
    case True
    then obtain r1 where r1: "requests s1 rid = Some r1" "advanced s1 (num_scheduled_tokens out) mro r1 r"
      using rel r unfolding upd_rel_def by blast
    then have "mm_positions r = mm_positions r1"
      by (auto simp: advanced_def Let_def append_output_token_ids_def split: option.splits if_splits)
    then show ?thesis using schedule_positions [OF c m sch r1(1)] by simp
  next
    case False
    then show ?thesis using rel r schedule_positions [OF c m sch] by (simp add: upd_rel_def)
  qed
  ultimately show ?thesis by (auto simp: mm_coupled_def share_def)
qed

text \<open>The other operations.\<close>

lemma add_mm_coupled:
  assumes m: "mm_coupled s mr" and new: "requests s (request_id r) = None" "request_id r \<notin> finished_req_ids s"
    and srt: "positions_sorted (mm_positions r)"
  shows "mm_coupled (add_request s r) mr"
proof -
  let ?s = "add_request s r"
  have sel: "encoder_cache_manager ?s = encoder_cache_manager s" "encoder_cache ?s = encoder_cache s"
      "finished_req_ids ?s = finished_req_ids s" "requests ?s = (requests s)(request_id r \<mapsto> r)" "running ?s = running s"
    by (simp_all add: add_request_def)
  have old: "enc_sync s []" "\<forall>(rid, k) \<in> set (freed (encoder_cache_manager s)). requests s rid = None \<longrightarrow> rid \<in> finished_req_ids s"
    using m by (simp_all add: mm_coupled_def)
  have "freed_ok ?s {} i k" if ik: "(i, k) \<in> set (freed (encoder_cache_manager s))" for i k
  proof -
    have "freed_ok s {} i k" using old(1) ik by (auto simp: enc_sync_def)
    moreover have "i \<noteq> request_id r" using old(2) ik new by auto
    ultimately show ?thesis by (simp add: freed_ok_def sel)
  qed
  then have "enc_sync ?s []" using old(1) unfolding enc_sync_def sel by auto
  moreover have "\<forall>(rid, k) \<in> set (freed (encoder_cache_manager ?s)). requests ?s rid = None \<longrightarrow> rid \<in> finished_req_ids ?s"
    using old(2) unfolding sel by (auto split: if_splits)
  moreover have "positions_sorted (mm_positions x)" if "requests ?s rid = Some x" for rid x
    using that m srt unfolding sel mm_coupled_def by (auto split: if_splits)
  ultimately show ?thesis using m unfolding mm_coupled_def sel by blast
qed

lemma abort_mm_coupled:
  assumes m: "mm_coupled s mr" and fin: "finished_from s D s'" and conf: "encoder_cache s' = encoder_cache s"
  shows "mm_coupled s' mr"
proof -
  have sel: "encoder_cache_manager s' = encoder_cache_manager s" "requests s' = requests s |` (- D)"
      "running s' = filter (\<lambda>i. i \<notin> D) (running s)" "finished_req_ids s' = finished_req_ids s \<union> (D \<inter> dom (requests s))"
    using fin by (simp_all add: finished_from_def)
  have old: "enc_sync s []" "\<forall>(rid, k) \<in> set (freed (encoder_cache_manager s)). requests s rid = None \<longrightarrow> rid \<in> finished_req_ids s"
    using m by (simp_all add: mm_coupled_def)
  have "freed_ok s' {} i k" if ik: "(i, k) \<in> set (freed (encoder_cache_manager s))" for i k
  proof -
    have "freed_ok s {} i k" using old(1) ik by (auto simp: enc_sync_def)
    then show ?thesis by (cases "i \<in> D") (auto simp: freed_ok_def sel)
  qed
  then have "enc_sync s' []" using old(1) unfolding enc_sync_def sel(1) conf by auto
  moreover have "i \<in> finished_req_ids s'" if "(i, k) \<in> set (freed (encoder_cache_manager s))" "requests s' i = None" for i k
    using old(2) that unfolding sel by (cases "i \<in> D") auto
  moreover have "positions_sorted (mm_positions x)" if "requests s' rid = Some x" for rid x
    using that m unfolding sel mm_coupled_def by (auto simp: restrict_map_def split: if_splits)
  ultimately show ?thesis using m unfolding mm_coupled_def sel(1) conf by blast
qed

lemma results_mm_coupled:
  assumes m: "mm_coupled s mr"
  shows "mm_coupled (take_result s msg) (mr\<lparr>mr_encoder_cache := receive_outputs msg (mr_encoder_cache mr)\<rparr>)"
proof -
  have e: "encoder_cache s = Some (enc_view (mr_encoder_cache mr))" and y: "enc_sync s []" using m by (simp_all add: mm_coupled_def)
  have "freed_ok (take_result s msg) {} i k = freed_ok s {} i k" for i k by (simp add: freed_ok_def take_result_def)
  then have "enc_sync (take_result s msg) []"
    using y handle_encoder_result_keeps by (auto simp: enc_sync_def take_result_def e)
  then show ?thesis using m by (simp add: mm_coupled_def take_result_def e receive_outputs_view)
qed

text \<open>The coupling of requests and blocks does not depend on the dictionary.\<close>

lemma share_coupled:
  assumes c: "coupled s mr"
  shows "coupled (with_results (Some ec) s) (mr\<lparr>mr_encoder_cache := d\<rparr>)"
proof -
  have good: "sched_good (with_results (Some ec) s)"
    using c encoder_results_ok by (simp add: coupled_def sched_good_def)
  have "coupled (with_results (Some ec) s) mr" by (rule coupled_cong [OF c good]) (simp_all add: same_sizes_def)
  moreover have "runner_ok (mr\<lparr>mr_encoder_cache := d\<rparr>) = runner_ok mr" by (simp add: runner_ok_def)
  moreover have "runner_sized t (mr\<lparr>mr_encoder_cache := d\<rparr>) = runner_sized t mr" for t by (simp add: runner_sized_def)
  moreover have "req_coupled t (mr\<lparr>mr_encoder_cache := d\<rparr>) rid r = req_coupled t mr rid r" for t rid r
    by (simp add: req_coupled_def)
  ultimately show ?thesis unfolding coupled_def by blast
qed

lemma share_writes: "writes_ok s \<Longrightarrow> writes_ok (with_results ec s)"
  by (erule writes_ok_cong) simp_all

lemma mm_coupled_kv: "mm_coupled (s\<lparr>kv_cache_manager := kv\<rparr>) mr = mm_coupled s mr"
proof -
  have "freed_ok (s\<lparr>kv_cache_manager := kv\<rparr>) pre i k = freed_ok s pre i k" for pre i k by (simp add: freed_ok_def)
  then have "enc_sync (s\<lparr>kv_cache_manager := kv\<rparr>) [] = enc_sync s []" by (simp add: enc_sync_def)
  then show ?thesis by (simp add: mm_coupled_def)
qed

end
