(* ===== verification/Serving.thy ===== *)
theory Serving
  imports SharedCache
begin

text \<open>
  The composed system: the scheduler and the model runner, built from one configuration, with additions,
  aborts, encoder results, resets, idle and working steps in any order.  No step raises, the runner's copy of
  every request is exact, the encoder outputs a step needs are there, and no two tokens of a step are written to
  the same slot of the KV cache.
\<close>

section \<open>The composed system\<close>

text \<open>
  The ids of new requests are fresh: unknown to the runner and not waiting to be reported as finished.  The
  front end checks the model length and sorts the placeholders.
\<close>

definition serve_new_ok :: "Scheduler \<Rightarrow> GPUModelRunner \<Rightarrow> Request \<Rightarrow> bool" where
  "serve_new_ok s mr r \<longleftrightarrow>
     new_req_ok s r \<and> output_token_ids r = [] \<and> num_tokens r < s_max_model_len s \<and>
     mr_requests mr (request_id r) = None \<and> request_id r \<notin> finished_req_ids s \<and> positions_sorted (mm_positions r)"

type_synonym sampler_net = "enc_slice list \<Rightarrow> PreparedInputs \<Rightarrow> SamplingMetadata \<Rightarrow> int list"

text \<open>
  The steps of the engine core.  An output without tokens is dropped, as \<open>EngineCore.step\<close> does; otherwise the
  runner executes it, which also removes entries from the shared dictionary, and the scheduler is updated.
\<close>

inductive serve_step ::
  "py_hash \<Rightarrow> set_order \<Rightarrow> str_order \<Rightarrow> sampler_net \<Rightarrow> bool \<Rightarrow> Scheduler \<times> GPUModelRunner \<Rightarrow>
   Scheduler \<times> GPUModelRunner \<Rightarrow> bool" for hf ord sord net is_mm where
  add: "serve_new_ok s mr r \<Longrightarrow> serve_step hf ord sord net is_mm (s, mr) (add_request s r, mr)"
| abort: "finish_requests ord s rids st = Inr s' \<Longrightarrow> serve_step hf ord sord net is_mm (s, mr) (s', mr)"
| results: "serve_step hf ord sord net is_mm (s, mr)
     (take_result s msg, mr\<lparr>mr_encoder_cache := receive_outputs msg (mr_encoder_cache mr)\<rparr>)"
| reset: "serve_step hf ord sord net is_mm (s, mr) (snd (scheduler_reset_prefix_cache s), mr)"
| idle: "schedule hf s = Inr (out, s') \<Longrightarrow> total_num_scheduled_tokens out = 0 \<Longrightarrow>
     serve_step hf ord sord net is_mm (s, mr) (s', mr)"
| work: "schedule hf s = Inr (out, s1) \<Longrightarrow> total_num_scheduled_tokens out \<noteq> 0 \<Longrightarrow>
     execute_model sord net is_mm mr out = Inr (mro, mr') \<Longrightarrow>
     update_from_output ord (share s1 (mr_encoder_cache mr')) out mro = Inr (res, s') \<Longrightarrow>
     serve_step hf ord sord net is_mm (s, mr) (s', mr')"

inductive_simps serve_step_simps: "serve_step hf ord sord net is_mm x y"

definition serve_inv :: "Scheduler \<times> GPUModelRunner \<Rightarrow> bool" where
  "serve_inv x \<longleftrightarrow> coupled (fst x) (snd x) \<and> writes_ok (fst x) \<and> mm_coupled (fst x) (snd x)"

lemma update_writes_ok:
  assumes good: "sched_good s" and w: "writes_ok s" and sch: "schedule hf s = Inr (out, s1)"
    and upd: "update_from_output ord s1 out mro = Inr (res, s')" and inv: "sched_inv s'"
  shows "writes_ok s'"
proof -
  have post: "schedule_post s out s1" using schedule_ok [of s hf] good sch by (auto simp: sched_good_def)
  then have inv1: "sched_inv s1" by (simp add: schedule_post_def)
  note rel = update_from_output_rel [OF inv1 upd]
  show ?thesis
  proof (rule update_writes [OF rel schedule_writes [OF good w sch]])
    show "\<forall>n \<in> snd ` set (num_scheduled_tokens out). 0 \<le> n"
      using post unfolding schedule_post_def tok_ok_def sched_ok_def by fastforce
    show "block_size (kv_cache_manager s') = block_size (kv_cache_manager s1)" "0 < block_size (kv_cache_manager s1)"
      using sched_inv_block_size [OF inv] sched_inv_block_size [OF inv1] rel by (simp_all add: upd_rel_def same_sizes_def)
  qed
qed

text \<open>A step with tokens never fails.\<close>

lemma serve_work_ok:
  assumes inv: "serve_inv (s, mr)" and ord: "set_order_ok ord" and sord: "lists_sets sord" and net: "samples_rows net"
    and sch: "schedule hf s = Inr (out, s1)" and ne: "total_num_scheduled_tokens out \<noteq> 0"
  shows "\<exists>mro mr' res s'. execute_model sord net is_mm mr out = Inr (mro, mr') \<and>
     update_from_output ord (share s1 (mr_encoder_cache mr')) out mro = Inr (res, s') \<and> serve_inv (s', mr')"
proof -
  have c: "coupled s mr" "writes_ok s" "mm_coupled s mr" using inv by (simp_all add: serve_inv_def)
  obtain mro mr' res s' where x: "execute_model sord net is_mm mr out = Inr (mro, mr')"
      "update_from_output ord s1 out mro = Inr (res, s')" "coupled s' mr'" "covers_output mro out"
      "mr_encoder_cache mr' = next_encoder_cache sord mr out"
    using work_step_coupled [where is_mm = is_mm, OF c(1) ord sord net mm_encoder_ready [OF c(1,3) sord sch] sch ne] by blast
  have good: "sched_good s" "sched_inv s'" using c(1) x(3) by (simp_all add: coupled_def sched_good_def)
  let ?c = "mr_encoder_cache mr'"
  have "coupled (share s' ?c) mr'" using share_coupled [OF x(3), of "enc_view ?c" ?c] by (simp add: share_def)
  moreover have "writes_ok (share s' ?c)"
    unfolding share_def by (rule share_writes [OF update_writes_ok [OF good(1) c(2) sch x(2) good(2)]])
  moreover have "mm_coupled (share s' ?c) mr'"
    by (rule work_mm_coupled [OF c(1,3) ord sord sch x(4,2,5)])
  ultimately have "serve_inv (share s' ?c, mr')" by (simp add: serve_inv_def)
  moreover have "update_from_output ord (share s1 ?c) out mro = Inr (res, share s' ?c)"
    unfolding share_def by (rule update_from_output_results [OF x(2)])
  ultimately show ?thesis using x(1) by blast
qed

lemma serve_step_inv:
  assumes ord: "set_order_ok ord" and sord: "lists_sets sord" and net: "samples_rows net"
  shows "serve_step hf ord sord net is_mm x y \<Longrightarrow> serve_inv x \<Longrightarrow> serve_inv y"
proof (induction rule: serve_step.induct)
  case (add s mr r)
  then have n: "new_req_ok s r" "output_token_ids r = []" "num_tokens r < s_max_model_len s"
      "mr_requests mr (request_id r) = None" "request_id r \<notin> finished_req_ids s" and c: "coupled s mr" "writes_ok s"
    by (simp_all add: serve_inv_def serve_new_ok_def)
  have "coupled (add_request s r) mr" by (rule add_coupled [OF c(1) n])
  moreover have "writes_ok (add_request s r)"
    using c by (intro add_writes n(1)) (simp_all add: coupled_def sched_good_def)
  moreover have "mm_coupled (add_request s r) mr"
    using add by (intro add_mm_coupled) (auto simp: serve_inv_def serve_new_ok_def new_req_ok_def)
  ultimately show ?case by (simp add: serve_inv_def)
next
  case (abort s rids st s' mr)
  then have c: "coupled s mr" "writes_ok s" "mm_coupled s mr" by (simp_all add: serve_inv_def)
  then have "sched_inv s" by (simp add: coupled_def sched_good_def)
  then have f: "finished_from s (set rids) s'" "sched_inv s'" using finish_requests_ok [OF _ ord abort.hyps] by simp_all
  have z: "same_sizes s s'" "encoder_cache s' = encoder_cache s"
    using finish_loop_frame [of ord s st rids s'] abort.hyps by (auto simp: finish_requests_def split: if_splits)
  have "writes_ok s'" by (rule abort_writes [OF \<open>sched_inv s\<close> f(2) c(2) f(1) z(1)])
  then show ?case
    using abort_coupled [OF c(1) ord abort.hyps] abort_mm_coupled [OF c(3) f(1) z(2)] by (simp add: serve_inv_def)
next
  case (results s mr msg)
  then have c: "coupled s mr" "writes_ok s" "mm_coupled s mr" by (simp_all add: serve_inv_def)
  then obtain ec where "encoder_cache s = Some ec" by (auto simp: mm_coupled_def)
  then have t: "take_result s msg = with_results (Some (handle_encoder_result msg ec)) s" by (simp add: take_result_def)
  show ?case
    using share_coupled [OF c(1)] share_writes [OF c(2)] results_mm_coupled [OF c(3), of msg] unfolding serve_inv_def t by simp
next
  case (reset s mr)
  let ?s = "snd (scheduler_reset_prefix_cache s)"
  have kv: "?s = s\<lparr>kv_cache_manager := snd (reset_prefix_cache (kv_cache_manager s))\<rparr>"
    by (simp add: scheduler_reset_prefix_cache_def split: prod.splits)
  have c: "coupled s mr" "writes_ok s" "mm_coupled s mr" using reset by (simp_all add: serve_inv_def)
  have good: "sched_good ?s"
    using c(1) scheduler_reset_ok [of s] unfolding kv by (simp add: coupled_def sched_good_def)
  have "coupled ?s mr"
    by (rule coupled_cong [OF c(1) good]) (simp_all add: kv same_sizes_def reset_blocks)
  moreover have "writes_ok ?s"
    by (rule writes_ok_cong [OF c(2)]) (simp_all add: kv blocks_of_def reset_prefix_cache_def)
  moreover have "mm_coupled ?s mr" using c(3) unfolding kv mm_coupled_kv .
  ultimately show ?case by (simp add: serve_inv_def)
next
  case (idle s out s' mr)
  then have c: "coupled s mr" "writes_ok s" "mm_coupled s mr" by (simp_all add: serve_inv_def)
  have "writes_ok s'" using schedule_writes [OF _ c(2) idle.hyps(1)] c(1) by (simp add: coupled_def)
  then show ?case
    using idle_step_coupled [OF c(1) idle.hyps] idle_mm_coupled [OF c(1,3) idle.hyps(1)] by (simp add: serve_inv_def)
next
  case (work s out s1 mr mro mr' res s')
  then show ?case
    using serve_work_ok [where is_mm = is_mm, OF work.prems ord sord net work.hyps(1,2)] by auto
qed

text \<open>The engine builds the scheduler and the runner from one configuration.\<close>

definition serve_init :: "Scheduler \<times> GPUModelRunner \<Rightarrow> bool" where
  "serve_init x \<longleftrightarrow>
     (\<exists>seqs toks mml bs nb sw caching budgets jr ji vocab. 0 < bs \<and>
        scheduler_init (int seqs) (int toks) (int mml) (int bs) nb sw caching False budgets (Some Map.empty) = Inr (fst x) \<and>
        snd x = model_runner_init jr ji vocab bs mml toks seqs (Some []))"

lemma model_runner_init_ok: "runner_ok (model_runner_init jr ji vocab bs mml toks seqs ecache)"
proof -
  let ?mr = "model_runner_init jr ji vocab bs mml toks seqs ecache"
  have "index_of (mr_input_batch ?mr) = Map.empty"
    by (simp add: model_runner_init_def Let_def index_of_def input_batch_init_def)
  moreover have "batch_rep (mr_input_batch ?mr) Map.empty"
    by (simp add: model_runner_init_def Let_def input_batch_init_rep)
  moreover have "dense (mr_input_batch ?mr)"
    by (auto simp: model_runner_init_def Let_def dense_def input_batch_init_def ib_num_reqs_def occupied_def)
  ultimately show ?thesis by (simp add: runner_ok_def model_runner_init_def Let_def)
qed

lemma serve_init_inv:
  assumes "serve_init x"
  shows "serve_inv x"
proof -
  obtain s mr where x: "x = (s, mr)" by fastforce
  obtain seqs toks mml bs nb sw caching budgets jr ji vocab where i: "0 < bs"
      "scheduler_init (int seqs) (int toks) (int mml) (int bs) nb sw caching False budgets (Some Map.empty) = Inr s"
      "mr = model_runner_init jr ji vocab bs mml toks seqs (Some [])"
    using assms x by (auto simp: serve_init_def)
  note s = scheduler_init_ok [OF i(2)]
  have f: "s_block_size s = int bs" "s_max_model_len s = int mml" "max_num_running_reqs s = int seqs"
      "finished_req_ids s = {}" "cached_reqs_data s = Map.empty" "requests s = Map.empty" "encoder_cache s = Some Map.empty"
      "cached (encoder_cache_manager s) = Map.empty" "freed (encoder_cache_manager s) = []"
    using i(2) by (auto simp: scheduler_init_def encoder_cache_manager_init_def split: option.splits if_splits)
  have "runner_sized s mr"
    unfolding runner_sized_def f i(3)
    using s(3) i(1) by (simp add: model_runner_init_def Let_def input_batch_init_def)
  then have "coupled s mr"
    using s i(1) f model_runner_init_ok unfolding coupled_def i(3) by (simp add: sched_good_def crd_ok_def)
  moreover have "writes_ok s" by (simp add: writes_ok_def own_blocks_def f)
  moreover have "enc_view (mr_encoder_cache mr) = Map.empty"
    by (simp add: fun_eq_iff enc_view_def i(3) model_runner_init_def Let_def)
  then have "mm_coupled s mr" by (simp add: mm_coupled_def enc_sync_def inputs_of_def f)
  ultimately show ?thesis using x by (simp add: serve_inv_def)
qed

text \<open>The parameters stand for proper set orders and a sampler that returns a token per row.\<close>

definition serve_trans ::
  "py_hash \<Rightarrow> set_order \<Rightarrow> str_order \<Rightarrow> sampler_net \<Rightarrow> bool \<Rightarrow> Scheduler \<times> GPUModelRunner \<Rightarrow> Scheduler \<times> GPUModelRunner \<Rightarrow> bool"
where
  "serve_trans hf ord sord net is_mm x y \<longleftrightarrow>
     set_order_ok ord \<and> lists_sets sord \<and> samples_rows net \<and> serve_step hf ord sord net is_mm x y"

interpretation serve: transition_invariant serve_init "serve_trans hf ord sord net is_mm" serve_inv
  by unfold_locales (auto simp: serve_trans_def intro: serve_init_inv serve_step_inv)

definition serve_reachable ::
  "py_hash \<Rightarrow> set_order \<Rightarrow> str_order \<Rightarrow> sampler_net \<Rightarrow> bool \<Rightarrow> Scheduler \<Rightarrow> GPUModelRunner \<Rightarrow> bool" where
  "serve_reachable hf ord sord net is_mm s mr \<longleftrightarrow>
     set_order_ok ord \<and> lists_sets sord \<and> samples_rows net \<and>
     (\<exists>x. serve_init x \<and> (serve_trans hf ord sord net is_mm)\<^sup>*\<^sup>* x (s, mr))"

lemma serve_reachable_inv: "serve_reachable hf ord sord net is_mm s mr \<Longrightarrow> serve_inv (s, mr)"
  using serve.reachable_inv unfolding serve_reachable_def by blast

lemma serve_reachable_step:
  "serve_reachable hf ord sord net is_mm s mr \<Longrightarrow> serve_step hf ord sord net is_mm (s, mr) (s', mr') \<Longrightarrow>
   serve_reachable hf ord sord net is_mm s' mr'"
  using rtranclp.rtrancl_into_rtrancl [of "serve_trans hf ord sord net is_mm"]
  unfolding serve_reachable_def by (metis serve_trans_def)

lemma serve_reachable_init:
  "set_order_ok ord \<Longrightarrow> lists_sets sord \<Longrightarrow> samples_rows net \<Longrightarrow> serve_init (s, mr) \<Longrightarrow>
   serve_reachable hf ord sord net is_mm s mr"
  unfolding serve_reachable_def by blast

lemma serve_reachable_orders:
  "serve_reachable hf ord sord net is_mm s mr \<Longrightarrow> set_order_ok ord \<and> lists_sets sord \<and> samples_rows net"
  by (simp add: serve_reachable_def)

lemma serve_schedule:
  assumes "serve_reachable hf ord sord net is_mm s mr"
  shows "\<exists>out s'. schedule hf s = Inr (out, s')"
  using schedule_ok [of s hf] serve_reachable_inv [OF assms] by (auto simp: serve_inv_def coupled_def sched_good_def)

lemma serve_work:
  assumes reach: "serve_reachable hf ord sord net is_mm s mr"
    and sch: "schedule hf s = Inr (out, s')" and ne: "total_num_scheduled_tokens out \<noteq> 0"
  shows "\<exists>mro mr' res s''. execute_model sord net is_mm mr out = Inr (mro, mr') \<and>
     update_from_output ord (share s' (mr_encoder_cache mr')) out mro = Inr (res, s'') \<and>
     serve_reachable hf ord sord net is_mm s'' mr'"
proof -
  obtain mro mr' res s'' where "execute_model sord net is_mm mr out = Inr (mro, mr')"
      "update_from_output ord (share s' (mr_encoder_cache mr')) out mro = Inr (res, s'')"
    using serve_work_ok [OF serve_reachable_inv [OF reach] _ _ _ sch ne] serve_reachable_orders [OF reach] by blast
  with serve_reachable_step [OF reach serve_step.work [OF sch ne]] show ?thesis by blast
qed

section \<open>Properties of the composed system\<close>

text \<open>
  The demonstration engine: blocks of two tokens, eight tokens and two requests a step.  A text request and an
  image request arrive, then the encoder's output for the image.
\<close>

definition serve_runner :: GPUModelRunner where
  "serve_runner = model_runner_init 0 0 100 2 12 8 2 (Some [])"

definition serve_msg :: enc_message where
  "serve_msg = [[(''m'', [(0, 1)])]]"

definition serve_queue :: Scheduler where
  "serve_queue = take_result demo_queue serve_msg"

definition serve_runner1 :: GPUModelRunner where
  "serve_runner1 = serve_runner\<lparr>mr_encoder_cache := receive_outputs serve_msg (mr_encoder_cache serve_runner)\<rparr>"

lemma serve_demo_init: "serve_reachable hf sorted_list_of_set sorted_list_of_set demo_net True demo_sched serve_runner"
proof (rule serve_reachable_init [OF set_order_sorted sorted_strings demo_net_rows])
  have "scheduler_init (int 2) (int 8) (int 12) (int 2) (Some 8) None True False (16, 16) (Some Map.empty) = Inr demo_sched"
    using demo_sched_init by simp
  then show "serve_init (demo_sched, serve_runner)"
    unfolding serve_init_def serve_runner_def by (metis fst_conv snd_conv zero_less_numeral)
qed

lemma serve_runner_requests: "mr_requests serve_runner = Map.empty"
  by (simp add: serve_runner_def model_runner_init_def Let_def)

lemma serve_demo_text: "serve_new_ok demo_sched serve_runner demo_text"
proof -
  have "output_token_ids demo_text = []" "num_tokens demo_text < s_max_model_len demo_sched"
    "positions_sorted (mm_positions demo_text)" "request_id demo_text \<notin> finished_req_ids demo_sched" by code_simp+
  then show ?thesis using demo_text_new by (simp add: serve_new_ok_def serve_runner_requests)
qed

lemma serve_demo_image: "serve_new_ok (add_request demo_sched demo_text) serve_runner demo_image"
proof -
  have "output_token_ids demo_image = []" "num_tokens demo_image < s_max_model_len (add_request demo_sched demo_text)"
    "positions_sorted (mm_positions demo_image)"
    "request_id demo_image \<notin> finished_req_ids (add_request demo_sched demo_text)" by code_simp+
  then show ?thesis using demo_image_new by (simp add: serve_new_ok_def serve_runner_requests)
qed

lemma serve_demo: "serve_reachable hf sorted_list_of_set sorted_list_of_set demo_net True serve_queue serve_runner1"
  unfolding serve_queue_def serve_runner1_def demo_queue_def
  by (rule serve_reachable_step [OF serve_reachable_step [OF serve_reachable_step [OF serve_demo_init
          serve_step.add [OF serve_demo_text]] serve_step.add [OF serve_demo_image]] serve_step.results])

definition serve_out :: SchedulerOutput where
  "serve_out = (case schedule demo_hash serve_queue of Inr (out, _) \<Rightarrow> out | Inl _ \<Rightarrow> undefined)"

definition serve_next :: Scheduler where
  "serve_next = (case schedule demo_hash serve_queue of Inr (_, s) \<Rightarrow> s | Inl _ \<Rightarrow> undefined)"

lemma serve_demo_schedule: "schedule demo_hash serve_queue = Inr (serve_out, serve_next)"
  using serve_schedule [OF serve_demo [of demo_hash]] by (auto simp: serve_out_def serve_next_def)

lemma serve_demo_total: "total_num_scheduled_tokens serve_out = 7" by code_simp

definition serve_pair :: "Scheduler \<times> GPUModelRunner" where
  "serve_pair =
     (case execute_model sorted_list_of_set demo_net True serve_runner1 serve_out of
        Inl _ \<Rightarrow> undefined
      | Inr (mro, mr) \<Rightarrow>
          (case update_from_output sorted_list_of_set (share serve_next (mr_encoder_cache mr)) serve_out mro of
             Inl _ \<Rightarrow> undefined | Inr (_, s) \<Rightarrow> (s, mr)))"

lemma serve_demo_pair:
  "serve_reachable demo_hash sorted_list_of_set sorted_list_of_set demo_net True (fst serve_pair) (snd serve_pair)"
  using serve_work [OF serve_demo serve_demo_schedule] by (auto simp: serve_demo_total serve_pair_def)

text \<open>C1: A step of the engine never raises: in every state that scheduler and runner can reach together, for text
  and image requests and any order of additions, aborts, encoder results, resets and steps, the next step is
  scheduled, and if it has tokens the runner finds every request, block and encoder output it needs, the
  scheduler takes the sampled tokens in, and the pair is in a reachable state again.\<close>

theorem serving_never_raises:
  assumes "serve_reachable hf ord sord net is_mm s mr"
  shows "\<exists>out s'. schedule hf s = Inr (out, s') \<and>
     (if total_num_scheduled_tokens out = 0 then serve_reachable hf ord sord net is_mm s' mr
      else \<exists>mro mr' res s''. execute_model sord net is_mm mr out = Inr (mro, mr') \<and>
        update_from_output ord (share s' (mr_encoder_cache mr')) out mro = Inr (res, s'') \<and>
        serve_reachable hf ord sord net is_mm s'' mr')"
proof -
  obtain out s' where sch: "schedule hf s = Inr (out, s')" using serve_schedule [OF assms] by blast
  show ?thesis
  proof (cases "total_num_scheduled_tokens out = 0")
    case True
    then show ?thesis using sch serve_reachable_step [OF assms serve_step.idle [OF sch True]] by auto
  next
    case False
    then show ?thesis using sch serve_work [OF assms sch False] by auto
  qed
qed

theorem serving_never_raises_witness:
  "\<exists>mro mr' res s''. execute_model sorted_list_of_set demo_net True serve_runner1 serve_out = Inr (mro, mr') \<and>
     update_from_output sorted_list_of_set (share serve_next (mr_encoder_cache mr')) serve_out mro = Inr (res, s'') \<and>
     serve_reachable demo_hash sorted_list_of_set sorted_list_of_set demo_net True s'' mr'"
  using serving_never_raises [OF serve_demo [of demo_hash]] serve_demo_schedule serve_demo_total by auto

text \<open>C2: The runner's copy of the requests is exact although it only ever sees the step outputs: between steps, a
  request the scheduler has not yet scheduled is unknown to it, and of every other one it has the scheduler's
  prompt, output tokens and sampling parameters and, while the request runs, exactly the blocks that the block
  manager holds for it, preemptions and resumptions included.\<close>

theorem runner_mirrors_scheduler:
  assumes "serve_reachable hf ord sord net is_mm s mr" and "requests s rid = Some r"
  shows "if status r = WAITING then mr_requests mr rid = None
     else \<exists>rq. mr_requests mr rid = Some rq \<and> cs_prompt_token_ids rq @ cs_output_token_ids rq = all_token_ids r \<and>
       cs_sampling_params rq = sampling_params r \<and>
       (rid \<in> set (running s) \<longrightarrow> cs_block_ids rq = blocks_of (kv_cache_manager s) rid)"
proof -
  have c: "coupled s mr" using serve_reachable_inv [OF assms(1)] by (simp add: serve_inv_def)
  then have "sched_inv s" by (simp add: coupled_def sched_good_def)
  then have "request_wf r" using sched_invD [OF _ assms(2)] by (simp add: req_ok_def)
  then have tokens: "all_token_ids r = prompt_token_ids r @ output_token_ids r" by (simp add: request_wf_def)
  have rc: "req_coupled s mr rid r" using c assms(2) by (simp add: coupled_def)
  show ?thesis
  proof (cases "status r = WAITING")
    case True
    then show ?thesis using rc by (simp add: req_coupled_def)
  next
    case False
    with rc obtain rq where "mr_requests mr rid = Some rq" "mirrors r rq"
        "rid \<in> set (running s) \<longrightarrow> cs_block_ids rq = blocks_of (kv_cache_manager s) rid"
      by (auto simp: req_coupled_def)
    then show ?thesis using False tokens by (simp add: mirrors_def)
  qed
qed

theorem runner_mirrors_scheduler_witness:
  "\<exists>rq. mr_requests (snd serve_pair) ''t'' = Some rq \<and> length (cs_prompt_token_ids rq @ cs_output_token_ids rq) = 4 \<and>
     cs_block_ids rq = blocks_of (kv_cache_manager (fst serve_pair)) ''t'' \<and> cs_block_ids rq \<noteq> []"
proof -
  let ?s = "fst serve_pair"
  have r: "requests ?s ''t'' = Some (the (requests ?s ''t''))" "status (the (requests ?s ''t'')) = RUNNING"
    "length (all_token_ids (the (requests ?s ''t''))) = 4" "''t'' \<in> set (running ?s)"
    "blocks_of (kv_cache_manager ?s) ''t'' \<noteq> []" by code_simp+
  show ?thesis using runner_mirrors_scheduler [OF serve_demo_pair r(1)] r(2-5) by (auto simp del: length_append)
qed

text \<open>C3: The tokens of a step are written to pairwise different slots of the KV cache, and to slots that exist:
  although requests share the blocks of common prefixes, no two tokens of a step, of one request or of two,
  have the same entry in the slot mapping the runner prepares from the scheduler's output.\<close>

theorem kv_slots_written_once:
  assumes "serve_reachable hf ord sord net is_mm s mr" and "schedule hf s = Inr (out, s')"
    and "total_num_scheduled_tokens out \<noteq> 0"
  shows "\<exists>changed mr1 pinp mr2. update_states sord mr out = Inr (changed, mr1) \<and>
     prepare_inputs mr1 out = Inr (pinp, mr2) \<and>
     length (pi_slot_mapping pinp) = nat (total_num_scheduled_tokens out) \<and> distinct (pi_slot_mapping pinp) \<and>
     (\<forall>x \<in> set (pi_slot_mapping pinp). 0 \<le> x \<and> x < int (num_gpu_blocks (kv_cache_manager s')) * s_block_size s')"
proof -
  have c: "coupled s mr" and w: "writes_ok s" using serve_reachable_inv [OF assms(1)] by (simp_all add: serve_inv_def)
  have ok: "runner_ok mr" and sord: "lists_sets sord" using c serve_reachable_orders [OF assms(1)] by (simp_all add: coupled_def)
  note fits = schedule_fits [OF c assms(2,3)]
  obtain ch mr1 where u: "update_states sord mr out = Inr (ch, mr1)" and mr1: "runner_ok mr1"
    "mr_requests mr1 = next_requests mr out" "dom (index_of (mr_input_batch mr1)) = fst ` set (num_scheduled_tokens out)"
    "same_size (mr_input_batch mr) (mr_input_batch mr1)" "mr_block_size mr1 = mr_block_size mr"
    "mr_max_num_blocks_per_req mr1 = mr_max_num_blocks_per_req mr" "mr_max_num_tokens mr1 = mr_max_num_tokens mr"
    using update_states_ok [OF ok sord fits(1)] by blast
  have fit: "step_fits mr1 out" by (rule step_fits_next [OF fits(2) mr1(1-7)])
  have "length (pi_slot_mapping (prepared mr1 out)) = nat (total_num_scheduled_tokens out)"
    using row_counts_total [OF mr1(1) fit] by (simp add: prepared_def Let_def layout_length)
  then show ?thesis
    using u prepare_inputs_eq [OF mr1(1) fit] step_slots [OF c w assms(2) mr1(1,2,5) fit] by blast
qed

theorem kv_slots_written_once_witness:
  "\<exists>changed mr1 pinp mr2. update_states sorted_list_of_set serve_runner1 serve_out = Inr (changed, mr1) \<and>
     prepare_inputs mr1 serve_out = Inr (pinp, mr2) \<and> length (pi_slot_mapping pinp) = 7 \<and> distinct (pi_slot_mapping pinp)"
  using kv_slots_written_once [OF serve_demo serve_demo_schedule] by (auto simp: serve_demo_total)

end
