(* ===== verification/KVCacheConfig.thy ===== *)
theory KVCacheConfig
  imports Prelude
begin

text \<open>
  How much KV cache a model gets: the layer specifications of \<open>vllm/v1/kv_cache_interface.py\<close> and the
  sizing functions at the end of \<open>vllm/v1/core/kv_cache_utils.py\<close>.

  The element size of a torch data type is a number the layer carries.  The dictionary from layer
  names to specifications is an association list in insertion order.  The logging calls and the
  texts of the exceptions are left out.
\<close>

section \<open>Decimal strings\<close>

text \<open>\<open>str(n)\<close> of a Python integer, as the f-string of \<open>type_id\<close> uses it.\<close>

fun nat_digits :: "nat \<Rightarrow> string" where
  "nat_digits n =
     (if n < 10 then [char_of (48 + n)] else nat_digits (n div 10) @ [char_of (48 + n mod 10)])"

declare nat_digits.simps [simp del]

definition py_str :: "int \<Rightarrow> string" where
  "py_str i = (if i < 0 then CHR ''-'' # nat_digits (nat (- i)) else nat_digits (nat i))"

definition digits_value :: "string \<Rightarrow> nat" where
  "digits_value = foldl (\<lambda>n c. 10 * n + (of_char c - 48)) 0"

lemma digit_value: "d < 10 \<Longrightarrow> of_char (char_of (48 + d :: nat)) = (48 + d :: nat)"
  by (simp add: of_char_of)

lemma nat_digits_value: "digits_value (nat_digits n) = n"
proof (induction n rule: nat_digits.induct)
  case (1 n)
  show ?case
  proof (cases "n < 10")
    case True
    then show ?thesis by (simp add: nat_digits.simps [of n] digits_value_def digit_value)
  next
    case False
    then have "digits_value (nat_digits n) = 10 * digits_value (nat_digits (n div 10)) + n mod 10"
      by (subst nat_digits.simps) (simp add: digits_value_def digit_value)
    also have "\<dots> = n" using 1 False by simp
    finally show ?thesis .
  qed
qed

lemma nat_digits_chars: "c \<in> set (nat_digits n) \<Longrightarrow> 48 \<le> (of_char c :: nat) \<and> (of_char c :: nat) < 58"
proof (induction n rule: nat_digits.induct)
  case (1 n)
  then show ?case by (subst (asm) nat_digits.simps) (auto simp: digit_value split: if_splits)
qed

lemma py_str_inject: "0 \<le> a \<Longrightarrow> 0 \<le> b \<Longrightarrow> py_str a = py_str b \<longleftrightarrow> a = b"
proof
  assume "0 \<le> a" "0 \<le> b" "py_str a = py_str b"
  then have "nat a = nat b" using nat_digits_value by (metis not_less py_str_def)
  with \<open>0 \<le> a\<close> \<open>0 \<le> b\<close> show "a = b" by simp
qed simp

lemma py_str_no_underscore: "0 \<le> a \<Longrightarrow> CHR ''_'' \<notin> set (py_str a)"
  using nat_digits_chars [of "CHR ''_''" "nat a"] by (auto simp: py_str_def)

lemma append_sep_inject:
  "x \<notin> set as \<Longrightarrow> x \<notin> set bs \<Longrightarrow> as @ x # cs = bs @ x # ds \<longleftrightarrow> as = bs \<and> cs = ds"
proof (induction as arbitrary: bs)
  case Nil
  then show ?case by (cases bs) auto
next
  case (Cons a as)
  then show ?case by (cases bs) auto
qed

section \<open>Layer specifications\<close>

record FullAttentionSpec =
  spec_block_size :: int
  num_kv_heads :: int
  head_size :: int
  dtype_size :: int

definition page_size_bytes :: "FullAttentionSpec \<Rightarrow> int" where
  "page_size_bytes l = 2 * spec_block_size l * num_kv_heads l * head_size l * dtype_size l"

definition type_id :: "FullAttentionSpec \<Rightarrow> string" where
  "type_id l = ''full_attention_'' @ py_str (spec_block_size l) @ ''_'' @ py_str (page_size_bytes l)"

definition bytes_for_tokens :: "FullAttentionSpec \<Rightarrow> int \<Rightarrow> int py" where
  "bytes_for_tokens l n =
     (if spec_block_size l = 0 then Inl ZeroDivisionError else Inr (cdiv n (spec_block_size l) * page_size_bytes l))"

type_synonym KVCacheSpec = "(string \<times> FullAttentionSpec) list"

record KVCacheConfig =
  num_blocks :: int
  tensors :: "(string \<times> int) list"
  groups :: "string list list"
  kv_cache_spec :: KVCacheSpec

text \<open>The fields of \<open>VllmConfig\<close> these functions read.\<close>

record sizing_config =
  cfg_max_model_len :: int
  cfg_block_size :: int
  num_gpu_blocks_override :: "int option"

section \<open>Sizing\<close>

fun needed_memory :: "int \<Rightarrow> FullAttentionSpec list \<Rightarrow> int py" where
  "needed_memory n [] = Inr 0"
| "needed_memory n (l # ls) =
     py_bind (bytes_for_tokens l n) (\<lambda>b. py_bind (needed_memory n ls) (\<lambda>m. Inr (b + m)))"

definition check_enough_kv_cache_memory :: "sizing_config \<Rightarrow> KVCacheSpec \<Rightarrow> int \<Rightarrow> unit py" where
  "check_enough_kv_cache_memory cfg spec avail =
     (if avail \<le> 0 then Inl ValueError
      else
        let mml = (if cfg_max_model_len cfg > 4096 then 4096 else cfg_max_model_len cfg) in
        py_bind (needed_memory mml (map snd spec)) (\<lambda>needed.
          if needed > avail then Inl ValueError else Inr ()))"

definition is_kv_cache_type_uniform :: "KVCacheSpec \<Rightarrow> bool" where
  "is_kv_cache_type_uniform spec \<longleftrightarrow> length (remdups (map (type_id \<circ> snd) spec)) = 1"

definition get_kv_cache_config_uniform_type :: "sizing_config \<Rightarrow> KVCacheSpec \<Rightarrow> int \<Rightarrow> KVCacheConfig py" where
  "get_kv_cache_config_uniform_type cfg spec avail =
     (case remdups (map (page_size_bytes \<circ> snd) spec) of
        [page_size] \<Rightarrow>
          if page_size = 0 then Inl ZeroDivisionError
          else
            let nb0 = max (avail div page_size div int (length spec)) 0;
                nb = (case num_gpu_blocks_override cfg of None \<Rightarrow> nb0 | Some n \<Rightarrow> n)
            in if cfg_max_model_len cfg = 0 then Inl ZeroDivisionError
               else Inr \<lparr>num_blocks = nb, tensors = map (\<lambda>(name, _). (name, page_size * nb)) spec,
                         groups = [map fst spec], kv_cache_spec = spec\<rparr>
      | _ \<Rightarrow> Inl AssertionError)"

definition get_kv_cache_config :: "sizing_config \<Rightarrow> KVCacheSpec \<Rightarrow> int \<Rightarrow> KVCacheConfig py" where
  "get_kv_cache_config cfg spec avail =
     py_bind (check_enough_kv_cache_memory cfg spec avail) (\<lambda>_.
       if is_kv_cache_type_uniform spec then get_kv_cache_config_uniform_type cfg spec avail
       else Inl NotImplementedError)"

section \<open>Facts\<close>

definition spec_ok :: "FullAttentionSpec \<Rightarrow> bool" where
  "spec_ok l \<longleftrightarrow> 0 < spec_block_size l \<and> 0 < num_kv_heads l \<and> 0 < head_size l \<and> 0 < dtype_size l"

lemma page_size_pos: "spec_ok l \<Longrightarrow> 0 < page_size_bytes l"
  by (simp add: spec_ok_def page_size_bytes_def)

lemma type_id_inject:
  assumes "spec_ok l" "spec_ok l'"
  shows "type_id l = type_id l' \<longleftrightarrow> spec_block_size l = spec_block_size l' \<and> page_size_bytes l = page_size_bytes l'"
proof -
  have nn: "0 \<le> spec_block_size l" "0 \<le> spec_block_size l'" "0 \<le> page_size_bytes l" "0 \<le> page_size_bytes l'"
    using assms page_size_pos [of l] page_size_pos [of l'] by (simp_all add: spec_ok_def)
  have "type_id l = type_id l' \<longleftrightarrow>
      py_str (spec_block_size l) @ CHR ''_'' # py_str (page_size_bytes l) =
      py_str (spec_block_size l') @ CHR ''_'' # py_str (page_size_bytes l')"
    by (simp add: type_id_def)
  also have "\<dots> \<longleftrightarrow> py_str (spec_block_size l) = py_str (spec_block_size l') \<and>
      py_str (page_size_bytes l) = py_str (page_size_bytes l')"
    by (rule append_sep_inject) (use nn py_str_no_underscore in auto)
  finally show ?thesis using nn py_str_inject by simp
qed

lemma needed_memory_sum:
  assumes "\<forall>l\<in>set ls. spec_ok l"
  shows "needed_memory n ls = Inr (\<Sum>l\<leftarrow>ls. cdiv n (spec_block_size l) * page_size_bytes l)"
  using assms by (induction ls) (auto simp: bytes_for_tokens_def spec_ok_def)

lemma sum_list_const_int: "sum_list (map (\<lambda>_. k) xs) = k * int (length xs)"
  by (induction xs) (auto simp: algebra_simps)

lemma remdups_singleton: "length (remdups xs) = 1 \<longleftrightarrow> (\<exists>x. xs \<noteq> [] \<and> (\<forall>y\<in>set xs. y = x))"
proof -
  have "length (remdups xs) = card (set xs)" by (simp add: length_remdups_card_conv)
  moreover have "card (set xs) = 1 \<longleftrightarrow> (\<exists>x. set xs = {x})" by (simp add: card_1_singleton_iff)
  moreover have "set xs = {x} \<longleftrightarrow> xs \<noteq> [] \<and> (\<forall>y\<in>set xs. y = x)" for x by (cases xs) auto
  ultimately show ?thesis by auto
qed

text \<open>What the uniform case computes.\<close>

lemma uniform_config:
  assumes ok: "\<forall>l\<in>set (map snd spec). spec_ok l"
    and c: "get_kv_cache_config cfg spec avail = Inr c"
  shows "\<exists>p bs. 0 < p \<and> 0 < bs \<and> spec \<noteq> [] \<and> 0 < avail \<and>
     (\<forall>l\<in>set (map snd spec). page_size_bytes l = p \<and> spec_block_size l = bs) \<and>
     cdiv (min (cfg_max_model_len cfg) 4096) bs * p * int (length spec) \<le> avail \<and>
     tensors c = map (\<lambda>(name, _). (name, p * num_blocks c)) spec \<and>
     num_blocks c = (case num_gpu_blocks_override cfg of None \<Rightarrow> max (avail div p div int (length spec)) 0 | Some n \<Rightarrow> n)"
proof -
  let ?mml = "if cfg_max_model_len cfg > 4096 then 4096 else cfg_max_model_len cfg"
  have mml: "?mml = min (cfg_max_model_len cfg) 4096" by simp
  have u: "is_kv_cache_type_uniform spec" and av: "0 < avail"
    and uc: "get_kv_cache_config_uniform_type cfg spec avail = Inr c"
    and need: "(\<Sum>l\<leftarrow>map snd spec. cdiv ?mml (spec_block_size l) * page_size_bytes l) \<le> avail"
    using c needed_memory_sum [OF ok, of ?mml]
    by (auto simp: get_kv_cache_config_def check_enough_kv_cache_memory_def Let_def split: if_splits)
  from u obtain t where t: "spec \<noteq> []" "\<forall>l\<in>set (map snd spec). type_id l = t"
    unfolding is_kv_cache_type_uniform_def remdups_singleton by auto
  obtain l0 where l0: "l0 \<in> set (map snd spec)" using t(1) by (cases spec) auto
  define p bs where "p = page_size_bytes l0" and "bs = spec_block_size l0"
  have all: "page_size_bytes l = p \<and> spec_block_size l = bs" if "l \<in> set (map snd spec)" for l
  proof -
    have "spec_ok l" "spec_ok l0" "type_id l = t" "type_id l0 = t" using ok t(2) that l0 by blast+
    then show ?thesis using type_id_inject [of l l0] by (simp add: p_def bs_def)
  qed
  have "spec_ok l0" using ok l0 by blast
  then have pos: "0 < p" "0 < bs" using page_size_pos [of l0] by (simp_all add: spec_ok_def p_def bs_def)
  have "map (\<lambda>l. cdiv ?mml (spec_block_size l) * page_size_bytes l) (map snd spec) =
      map (\<lambda>l. cdiv ?mml bs * p) (map snd spec)"
    by (rule map_cong [OF refl], drule all, elim conjE, simp only:)
  then have "(\<Sum>l\<leftarrow>map snd spec. cdiv ?mml (spec_block_size l) * page_size_bytes l) =
      cdiv ?mml bs * p * int (length spec)" by (simp only: sum_list_const_int length_map)
  then have need': "cdiv (min (cfg_max_model_len cfg) 4096) bs * p * int (length spec) \<le> avail"
    using need mml by simp
  have "length (remdups (map (page_size_bytes \<circ> snd) spec)) = 1"
    unfolding remdups_singleton using all t(1) by auto
  then obtain q where q: "remdups (map (page_size_bytes \<circ> snd) spec) = [q]" by (auto simp: length_Suc_conv)
  then have "q \<in> set (map (page_size_bytes \<circ> snd) spec)" by (metis list.set_intros(1) set_remdups)
  then have "q = p" using all by auto
  then have vals: "tensors c = map (\<lambda>(name, _). (name, p * num_blocks c)) spec"
      "num_blocks c = (case num_gpu_blocks_override cfg of None \<Rightarrow> max (avail div p div int (length spec)) 0 | Some n \<Rightarrow> n)"
    using uc q pos(1) by (auto simp: get_kv_cache_config_uniform_type_def Let_def split: if_splits)
  show ?thesis
    using pos t(1) av all need' vals by blast
qed

section \<open>Properties\<close>

lemma sum_list_tensors: "sum_list (map snd (map (\<lambda>(name, _). (name, k)) spec)) = k * int (length spec)"
  by (induction spec) (auto simp: algebra_simps)

text \<open>C18: Unless the number of blocks is overridden, the tensors of all layers together fit into the
  available memory, and one more block per layer would not.\<close>

theorem kv_cache_fits_memory:
  assumes "\<forall>l\<in>set (map snd spec). spec_ok l" and "get_kv_cache_config cfg spec avail = Inr c"
    and "num_gpu_blocks_override cfg = None"
  shows "sum_list (map snd (tensors c)) \<le> avail \<and>
     avail < sum_list (map snd (tensors c)) + sum_list (map (page_size_bytes \<circ> snd) spec)"
proof -
  obtain p bs where p: "0 < p" "spec \<noteq> []" "0 < avail" "\<forall>l\<in>set (map snd spec). page_size_bytes l = p \<and> spec_block_size l = bs"
      "tensors c = map (\<lambda>(name, _). (name, p * num_blocks c)) spec"
      "num_blocks c = max (avail div p div int (length spec)) 0"
    using uniform_config [OF assms(1,2)] unfolding assms(3) option.case by blast
  let ?L = "int (length spec)"
  have L: "0 < ?L" using p(2) by simp
  have "0 \<le> avail div p" using p(1,3) by (simp add: pos_imp_zdiv_nonneg_iff)
  then have nn: "0 \<le> avail div p div ?L" using L by (simp only: pos_imp_zdiv_nonneg_iff)
  then have nb: "num_blocks c = avail div (p * ?L)" using p(1,6) by (simp add: zdiv_zmult2_eq)
  have "map (page_size_bytes \<circ> snd) spec = map (\<lambda>_. p) spec" using p(4) by (intro map_cong) auto
  then have sp: "sum_list (map (page_size_bytes \<circ> snd) spec) = p * ?L" by (simp only: sum_list_const_int)
  have "0 < p * ?L" using p(1) L by simp
  then have "avail div (p * ?L) * (p * ?L) \<le> avail" "avail < avail div (p * ?L) * (p * ?L) + p * ?L"
    using pos_mod_bound [of "p * ?L" avail] pos_mod_sign [of "p * ?L" avail] div_mult_mod_eq [of avail "p * ?L"] by linarith+
  then show ?thesis using sum_list_tensors [of "p * num_blocks c" spec] by (simp add: p(5) sp nb algebra_simps)
qed

definition demo_layer :: FullAttentionSpec where
  "demo_layer = \<lparr>spec_block_size = 16, num_kv_heads = 2, head_size = 4, dtype_size = 2\<rparr>"

definition demo_sizing :: "int \<Rightarrow> sizing_config" where
  "demo_sizing n = \<lparr>cfg_max_model_len = n, cfg_block_size = 16, num_gpu_blocks_override = None\<rparr>"

definition demo_config :: "int \<Rightarrow> int \<Rightarrow> KVCacheConfig" where
  "demo_config n avail = (case get_kv_cache_config (demo_sizing n) [(''a'', demo_layer), (''b'', demo_layer)] avail of
     Inr c \<Rightarrow> c | Inl _ \<Rightarrow> undefined)"

lemma demo_config_ok: "get_kv_cache_config (demo_sizing 64) [(''a'', demo_layer), (''b'', demo_layer)] 5000 = Inr (demo_config 64 5000)"
  "num_blocks (demo_config 64 5000) = 4"
  by code_simp+

lemma demo_layers_ok: "\<forall>l\<in>set (map snd [(''a'', demo_layer), (''b'', demo_layer)]). spec_ok l"
  by code_simp

theorem kv_cache_fits_memory_witness:
  "sum_list (map snd (tensors (demo_config 64 5000))) \<le> 5000"
  using kv_cache_fits_memory [OF demo_layers_ok demo_config_ok(1)] by (simp add: demo_sizing_def)

text \<open>C19: A configuration without override that passes the memory check can hold a request of
  \<open>max_model_len\<close> tokens, or of 4096 tokens when \<open>max_model_len\<close> is larger: the check clamps it.\<close>

theorem kv_cache_holds_request:
  assumes "\<forall>l\<in>set (map snd spec). spec_ok l" and "get_kv_cache_config cfg spec avail = Inr c"
    and "num_gpu_blocks_override cfg = None" and "l \<in> set (map snd spec)"
  shows "min (cfg_max_model_len cfg) 4096 \<le> num_blocks c * spec_block_size l"
proof -
  let ?m = "min (cfg_max_model_len cfg) 4096" and ?L = "int (length spec)"
  obtain p bs where p: "0 < p" "0 < bs" "spec \<noteq> []" "\<forall>l\<in>set (map snd spec). page_size_bytes l = p \<and> spec_block_size l = bs"
      "cdiv ?m bs * p * ?L \<le> avail" "num_blocks c = max (avail div p div ?L) 0"
    using uniform_config [OF assms(1,2)] unfolding assms(3) option.case by blast
  have "0 < p * ?L" using p(1,3) by simp
  then have "cdiv ?m bs \<le> avail div (p * ?L)" using p(5) by (simp add: int_le_div_iff algebra_simps)
  then have "cdiv ?m bs \<le> num_blocks c" using p(1,6) by (simp add: zdiv_zmult2_eq)
  then have "?m \<le> num_blocks c * bs" using cdiv_le_iff [OF p(2)] by blast
  then show ?thesis using p(4) assms(4) by auto
qed

theorem kv_cache_holds_request_witness: "64 \<le> num_blocks (demo_config 64 5000) * 16"
  using kv_cache_holds_request [OF demo_layers_ok demo_config_ok(1), of demo_layer] by (simp add: demo_sizing_def demo_layer_def)

text \<open>With \<open>max_model_len = 8192\<close> a memory that holds only 4096 tokens is accepted, although the check
  promises room for one request of the model's maximal length.\<close>

lemma memory_check_clamps_model_len:
  "get_kv_cache_config (demo_sizing 8192) [(''a'', demo_layer), (''b'', demo_layer)] 262144 = Inr (demo_config 8192 262144) \<and>
   num_blocks (demo_config 8192 262144) * 16 = 4096"
  by code_simp

end
