(* ===== verification/EngineProps.thy ===== *)
theory EngineProps
  imports EngineCore
begin

text \<open>
  The engine core: a step never raises, and it keeps the scheduler consistent whatever arrives from the
  encoder process while it waits; and when it waits forever.
\<close>

section \<open>Encoder results\<close>

definition result_of :: "enc_results \<Rightarrow> string \<Rightarrow> nat \<Rightarrow> enc_handle option" where
  "result_of c rid i = Option.bind (c rid) (\<lambda>m. m i)"

lemma result_of_add:
  "result_of (add_result k iv c) rid i = (if k = rid \<and> fst iv = i then Some (snd iv) else result_of c rid i)"
  by (auto simp: result_of_def add_result_def split: option.split)

text \<open>A message says nothing about an input.\<close>

definition mentions :: "enc_message \<Rightarrow> string \<Rightarrow> nat \<Rightarrow> bool" where
  "mentions msg rid i \<longleftrightarrow> (\<exists>item \<in> set msg. \<exists>(k, vs) \<in> set item. k = rid \<and> i \<in> fst ` set vs)"

lemma results_fold_other:
  "i \<notin> fst ` set vs \<or> k \<noteq> rid \<Longrightarrow> result_of (fold (add_result k) vs c) rid i = result_of c rid i"
  by (induction vs arbitrary: c) (auto simp: result_of_add)

lemma handle_encoder_result_other:
  assumes "\<not> mentions msg rid i"
  shows "result_of (handle_encoder_result msg c) rid i = result_of c rid i"
proof -
  have item: "result_of (fold (\<lambda>(k, vs). fold (add_result k) vs) item c) rid i = result_of c rid i"
    if "\<forall>x \<in> set item. \<not> (case x of (k, vs) \<Rightarrow> k = rid \<and> i \<in> fst ` set vs)" for item c
    using that
  proof (induction item arbitrary: c)
    case (Cons x item)
    obtain k vs where x: "x = (k, vs)" by fastforce
    have "result_of (fold (add_result k) vs c') rid i = result_of c' rid i" for c'
      by (rule results_fold_other) (use Cons.prems x in auto)
    then show ?case using Cons x by simp
  qed simp
  show ?thesis
    using assms unfolding handle_encoder_result_def mentions_def
    by (induction msg arbitrary: c) (auto simp: item)
qed

section \<open>A step never raises\<close>

text \<open>What a call of \<open>schedule\<close> leaves, also when encoder results arrive afterwards.\<close>

definition ready_to_run :: "Scheduler \<Rightarrow> SchedulerOutput \<Rightarrow> bool" where
  "ready_to_run s out \<longleftrightarrow>
     sched_good s \<and> (\<forall>mro. covers_output mro out \<longrightarrow> toks_ok s (num_scheduled_tokens out) mro (running s))"

lemma ready_good: "ready_to_run s out \<Longrightarrow> sched_good s"
  by (simp add: ready_to_run_def)

lemma schedule_ready:
  assumes "sched_good s"
  shows "\<exists>out s'. schedule hf s = Inr (out, s') \<and> ready_to_run s' out"
proof -
  obtain out s' where o: "schedule hf s = Inr (out, s')" "schedule_post s out s'"
    using schedule_ok [of s hf] assms by (auto simp: sched_good_def)
  then have "sched_good s'" using assms by (simp add: sched_good_def schedule_post_def)
  with o schedule_toks_ok show ?thesis by (auto simp: ready_to_run_def)
qed

lemma take_result_ready: "ready_to_run s out \<Longrightarrow> ready_to_run (take_result s msg) out"
proof -
  assume r: "ready_to_run s out"
  then obtain c where c: "encoder_cache s = Some c" by (auto simp: ready_to_run_def sched_good_def sched_inv_def)
  then show ?thesis
    using r encoder_results_ok [of s "handle_encoder_result msg c"]
    by (simp add: ready_to_run_def take_result_def sched_good_def toks_ok_def)
qed



text \<open>
  An output of \<open>schedule\<close> without tokens is dropped, and with it the ids of the requests that have finished:
  the output that reaches the executor names none of them.
\<close>

lemma idle_schedule_loses_finished:
  assumes "wait_tokens hf arr n s q out = Some (Inr (out', s', q'))" and "sched_good s"
    and "finished_req_ids s = {}" and "total_num_scheduled_tokens out = 0 \<or> out_finished_req_ids out = {}"
  shows "out_finished_req_ids out' = {}"
  using assms
proof (induction hf arr n s q out "Inr (out', s', q') :: (SchedulerOutput \<times> Scheduler \<times> enc_message list) py"
    rule: wait_tokens.raw_induct [rotated, consumes 1])
  case (1 f hf arr n s q out)
  show ?case
  proof (cases "total_num_scheduled_tokens out = 0")
    case True
    obtain out1 s1 where s1: "schedule hf s = Inr (out1, s1)" "schedule_post s out1 s1"
      using schedule_ok [of s hf] 1(3) by (auto simp: sched_good_def)
    have "finished_req_ids s1 = {}" "out_finished_req_ids out1 = {}" "sched_good s1"
      using s1(2) 1(3,4) by (simp_all add: schedule_post_def sched_good_def)
    moreover have "finished_req_ids (take_result s1 msg) = finished_req_ids s1" for msg by (simp add: take_result_def)
    moreover have "sched_good (take_result s1 msg)" for msg
      using schedule_ready [OF 1(3), of hf] s1(1) take_result_ready ready_good by fastforce
    ultimately show ?thesis
      using 1(1) 1(2) True s1(1) by (cases "q @ arr n") auto
  next
    case False
    then show ?thesis using 1(2,5) by auto
  qed
qed

lemma ready_update:
  assumes ready: "ready_to_run s out" and ord: "set_order_ok ord" and cov: "covers_output mro out"
  shows "\<exists>res s'. update_from_output ord s out mro = Inr (res, s') \<and> sched_good s' \<and>
     upd_post s [] (running s) (running s') (ecos_outputs res) s'"
proof -
  have "sched_inv s" "toks_ok s (num_scheduled_tokens out) mro (running s)"
    using ready cov by (simp_all add: ready_to_run_def sched_good_def)
  from update_from_output_ok [OF this(1) ord this(2)] show ?thesis
    using ready by (fastforce simp: ready_to_run_def sched_good_def upd_post_def)
qed


section \<open>A step that waits forever\<close>

text \<open>A running request whose next token is the first of a multi-modal input that has no encoder result.\<close>

definition stalled :: "Scheduler \<Rightarrow> string \<Rightarrow> nat \<Rightarrow> bool" where
  "stalled s rid i \<longleftrightarrow>
     (case (requests s rid, encoder_cache s) of
        (Some r, Some c) \<Rightarrow>
          request_id r = rid \<and> has_encoder_inputs r \<and> num_computed_tokens r < num_tokens r \<and>
          i < length (mm_positions r) \<and> pr_offset (mm_positions r ! i) = num_computed_tokens r \<and>
          0 < pr_length (mm_positions r ! i) \<and>
          (\<forall>j < i. 0 \<le> pr_length (mm_positions r ! j) \<and>
             pr_offset (mm_positions r ! j) + pr_length (mm_positions r ! j) \<le> num_computed_tokens r) \<and>
          \<not> has_cache (encoder_cache_manager s) r i \<and> result_of c rid i = None
      | _ \<Rightarrow> False)"

definition all_stalled :: "(string \<Rightarrow> nat) \<Rightarrow> Scheduler \<Rightarrow> bool" where
  "all_stalled next_input s \<longleftrightarrow> waiting s = [] \<and> (\<forall>rid \<in> set (running s). stalled s rid (next_input rid))"

lemma stalled_inputs_loop:
  assumes "encoder_cache s = Some c" "result_of c (request_id r) (i + k) = None"
    and "\<not> has_cache (encoder_cache_manager s) r (i + k)" "ps = drop i (mm_positions r)" "k < length ps" "0 < n"
    and "pr_offset (ps ! k) = num_computed_tokens r" "0 < pr_length (ps ! k)"
    and "\<And>j. j < k \<Longrightarrow> 0 \<le> pr_length (ps ! j) \<and> pr_offset (ps ! j) + pr_length (ps ! j) \<le> num_computed_tokens r"
  shows "\<exists>b'. encoder_inputs_loop s r (num_computed_tokens r) ps i n b acc = Inr (acc, 0, b')"
  using assms
proof (induction k arbitrary: i ps)
  case 0
  obtain p qs where ps: "ps = p # qs" using "0.prems"(5) by (cases ps) auto
  have "i < length (mm_positions r)" using "0.prems"(4,5) by simp
  then have "\<exists>m. get_num_encoder_tokens r i = Inr m" by (simp add: get_num_encoder_tokens_def)
  moreover have "has_encoder_result (encoder_cache s) (request_id r) i = Inr False"
    using "0.prems"(1,2) by (auto simp: has_encoder_result_def result_of_def split: option.split)
  moreover have "pr_offset p = num_computed_tokens r" "0 < pr_length p" using "0.prems"(7,8) ps by simp_all
  ultimately show ?case
    using "0.prems"(3,6) by (auto simp: ps can_allocate_def cut_tokens_def)
next
  case (Suc k)
  obtain p qs where ps: "ps = p # qs" using Suc.prems(5) by (cases ps) auto
  have qs: "qs = drop (Suc i) (mm_positions r)" using Suc.prems(4) ps by (metis drop_Suc drop_tl list.sel(3))
  have p: "pr_offset p + pr_length p \<le> num_computed_tokens r" "0 \<le> pr_length p"
    using Suc.prems(9) [of 0] ps by simp_all
  have "\<exists>b'. encoder_inputs_loop s r (num_computed_tokens r) qs (Suc i) n b acc = Inr (acc, 0, b')"
    using Suc.prems ps qs Suc.prems(9) [of "Suc j" for j] by (intro Suc.IH) auto
  then show ?case using ps p Suc.prems(6) by simp
qed


lemma stalled_no_tokens:
  assumes "stalled s rid i" and "requests s rid = Some r" and "0 < n"
  shows "\<exists>b'. try_schedule_encoder_inputs s r (num_computed_tokens r) n b = Inr ([], 0, b')"
proof -
  obtain c where c: "encoder_cache s = Some c" using assms(1) by (auto simp: stalled_def split: prod.splits option.splits)
  have "\<exists>b'. encoder_inputs_loop s r (num_computed_tokens r) (mm_positions r) 0 n b [] = Inr ([], 0, b')"
    using assms c by (intro stalled_inputs_loop [where c = c and k = i]) (auto simp: stalled_def)
  then show ?thesis
    using assms(1,2) c by (auto simp: try_schedule_encoder_inputs_def stalled_def)
qed


lemma stalled_running_loop:
  assumes "\<forall>rid \<in> set (running s). stalled s rid (nxt rid)"
  shows "running_loop hf s l idx = Inr (s, l)"
proof (induction "length (running s) - idx" arbitrary: idx)
  case 0
  then show ?case by (subst running_loop.simps) simp
next
  case (Suc m)
  show ?case
  proof (cases "0 < l_token_budget l")
    case True
    let ?rid = "running s ! idx"
    have idx: "idx < length (running s)" using Suc.hyps(2) by simp
    then have st: "stalled s ?rid (nxt ?rid)" using assms by simp
    then obtain r where r: "requests s ?rid = Some r" "num_computed_tokens r < num_tokens r"
      by (auto simp: stalled_def split: prod.splits option.splits)
    let ?n = "min (num_tokens r - num_computed_tokens r) (l_token_budget l)"
    have n: "0 < ?n" using r(2) True by simp
    obtain b' where "try_schedule_encoder_inputs s r (num_computed_tokens r) ?n (l_encoder_budget l) = Inr ([], 0, b')"
      using stalled_no_tokens [OF st r(1) n] by blast
    moreover have "running_loop hf s l (Suc idx) = Inr (s, l)" using Suc by simp
    ultimately show ?thesis
      using idx True n by (subst running_loop.simps) (simp add: Let_def get_req_def r(1))
  qed (subst running_loop.simps, simp)
qed

text \<open>While all running requests are stalled, \<open>schedule\<close> gives no tokens and changes nothing they depend on.\<close>

lemma stalled_cong:
  "requests s' = requests s \<Longrightarrow> encoder_cache s' = encoder_cache s \<Longrightarrow>
   cached (encoder_cache_manager s') = cached (encoder_cache_manager s) \<Longrightarrow> stalled s' rid i = stalled s rid i"
  by (simp add: stalled_def has_cache_def split: option.split)

lemma finish_idle:
  assumes "finish_schedule s (init_locals s) = Inr (out, s')"
  shows "\<exists>kv. total_num_scheduled_tokens out = 0 \<and>
     s' = s\<lparr>kv_cache_manager := kv, encoder_cache_manager := (encoder_cache_manager s)\<lparr>freed := []\<rparr>, finished_req_ids := {}\<rparr>"
proof -
  let ?l = "init_locals s"
  have l: "l_tokens ?l = []" "l_new ?l = []" "l_resumed ?l = []" "l_running ?l = []" by (simp_all add: init_locals_def)
  obtain k s1 where k: "common_prefix_of_running s = Inr (k, s1)"
    and out: "out = \<lparr>scheduled_new_reqs = [], scheduled_cached_reqs = [], num_scheduled_tokens = [],
        total_num_scheduled_tokens = 0, scheduled_encoder_inputs = l_encoder ?l, num_common_prefix_blocks = k,
        out_finished_req_ids = finished_req_ids s1, free_encoder_input_ids = freed (encoder_cache_manager s1)\<rparr>"
    and s': "s' = s1\<lparr>encoder_cache_manager := (encoder_cache_manager s1)\<lparr>freed := []\<rparr>, finished_req_ids := {}\<rparr>"
    using assms unfolding finish_schedule_def l Let_def
    by (clarsimp simp: py_assert_def get_freed_ids_def split: if_splits)
  have "\<exists>kv. s1 = s\<lparr>kv_cache_manager := kv\<rparr>"
  proof (cases "running s = []")
    case True
    then have "s1 = s\<lparr>kv_cache_manager := kv_cache_manager s\<rparr>" using k by (simp add: common_prefix_of_running_def)
    then show ?thesis ..
  next
    case False
    then show ?thesis using k by (auto simp: common_prefix_of_running_def)
  qed
  then show ?thesis using out s' by auto
qed

lemma stalled_schedule:
  assumes good: "sched_good s" and st: "all_stalled nxt s"
  shows "\<exists>out s'. schedule hf s = Inr (out, s') \<and> total_num_scheduled_tokens out = 0 \<and> sched_good s' \<and>
     all_stalled nxt s'"
proof -
  obtain out s' where o: "schedule hf s = Inr (out, s')" "ready_to_run s' out"
    using schedule_ready [OF good] by blast
  have "running_loop hf s (init_locals s) 0 = Inr (s, init_locals s)"
    using st by (intro stalled_running_loop [of s nxt]) (simp add: all_stalled_def)
  moreover have "waiting_loop hf s (init_locals s) = Inr (s, init_locals s)"
    using st by (subst waiting_loop.simps) (simp add: all_stalled_def)
  ultimately have "finish_schedule s (init_locals s) = Inr (out, s')"
    using o(1) by (simp add: schedule_def split: if_splits)
  from finish_idle [OF this] obtain kv where kv: "total_num_scheduled_tokens out = 0"
    "s' = s\<lparr>kv_cache_manager := kv, encoder_cache_manager := (encoder_cache_manager s)\<lparr>freed := []\<rparr>, finished_req_ids := {}\<rparr>"
    by blast
  then have s': "total_num_scheduled_tokens out = 0" "requests s' = requests s" "encoder_cache s' = encoder_cache s"
    "cached (encoder_cache_manager s') = cached (encoder_cache_manager s)" "waiting s' = waiting s" "running s' = running s"
    by simp_all
  have "all_stalled nxt s'"
    using st unfolding all_stalled_def s'(5,6) stalled_cong [OF s'(2-4)] .
  then show ?thesis using o s'(1) ready_good by blast
qed

lemma stalled_take_result:
  assumes "all_stalled nxt s" and "\<And>rid. rid \<in> set (running s) \<Longrightarrow> \<not> mentions msg rid (nxt rid)"
  shows "all_stalled nxt (take_result s msg)"
  using assms
  by (auto simp: all_stalled_def stalled_def take_result_def handle_encoder_result_other split: option.splits)

lemma wait_tokens_stalled:
  assumes "wait_tokens hf arr n s q out = Some r"
  shows "\<not> (sched_good s \<and> all_stalled nxt s \<and> total_num_scheduled_tokens out = 0 \<and>
     (\<forall>msg \<in> set q \<union> (\<Union>k. set (arr k)). \<forall>rid. \<not> mentions msg rid (nxt rid)))"
  using assms
proof (induction rule: wait_tokens.raw_induct [rotated, consumes 1])
  case (1 f hf arr n s q out r)
  show ?case
  proof
    assume a: "sched_good s \<and> all_stalled nxt s \<and> total_num_scheduled_tokens out = 0 \<and>
     (\<forall>msg \<in> set q \<union> (\<Union>k. set (arr k)). \<forall>rid. \<not> mentions msg rid (nxt rid))"
    then obtain out' s1 where s1: "schedule hf s = Inr (out', s1)" "total_num_scheduled_tokens out' = 0" "sched_good s1"
      "all_stalled nxt s1"
      using stalled_schedule by blast
    show False
    proof (cases "q @ arr n")
      case Nil
      then show False using 1 a s1 by fastforce
    next
      case (Cons msg q')
      have m: "set (msg # q') \<subseteq> set q \<union> (\<Union>k. set (arr k))" unfolding Cons [symmetric] by auto
      have f: "f hf arr (Suc n) (take_result s1 msg) q' out' = Some r"
        using 1(2) a s1(1) Cons by simp
      have "all_stalled nxt (take_result s1 msg)"
        using a m by (intro stalled_take_result [OF s1(4)]) auto
      moreover have "sched_good (take_result s1 msg)"
      proof -
        obtain c where "encoder_cache s1 = Some c" using s1(3) by (auto simp: sched_good_def sched_inv_def)
        then show ?thesis using s1(3) encoder_results_ok by (simp add: take_result_def sched_good_def)
      qed
      moreover have "\<forall>msg \<in> set q' \<union> (\<Union>k. set (arr k)). \<forall>rid. \<not> mentions msg rid (nxt rid)" using a m by auto
      ultimately show False using 1(1) [OF f] s1(2) by blast
    qed
  qed
qed


section \<open>Properties\<close>



text \<open>C25: When every running request has reached a multi-modal input whose encoder result never arrives and
  nothing is waiting, \<open>EngineCore.step\<close> does not return: it polls only the encoder's queue, so requests that
  arrive meanwhile are never read.\<close>

theorem stalled_engine_never_returns:
  assumes "sched_good (ec_scheduler ec)" and "all_stalled nxt (ec_scheduler ec)" and "running (ec_scheduler ec) \<noteq> []"
    and "\<And>msg k rid. msg \<in> set (ec_result_queue ec) \<union> set (arr k) \<Longrightarrow> \<not> mentions msg rid (nxt rid)"
  shows "engine_step hf ord exec arr ec = None"
proof -
  have un: "has_unfinished_requests (ec_scheduler ec)"
    using assms(3) by (simp add: has_unfinished_requests_def get_num_unfinished_requests_def add_nonneg_pos)
  obtain out s' where s': "schedule hf (ec_scheduler ec) = Inr (out, s')" "total_num_scheduled_tokens out = 0"
    "sched_good s'" "all_stalled nxt s'"
    using stalled_schedule [OF assms(1,2)] by blast
  have "wait_tokens hf arr 0 s' (ec_result_queue ec) out = None"
  proof (rule ccontr)
    assume "wait_tokens hf arr 0 s' (ec_result_queue ec) out \<noteq> None"
    then obtain r where "wait_tokens hf arr 0 s' (ec_result_queue ec) out = Some r" by blast
    from wait_tokens_stalled [OF this, of nxt] s' assms(4) show False by blast
  qed
  then show ?thesis using un s'(1) by (simp add: engine_step_def Let_def)
qed

definition demo_engine :: "Scheduler \<Rightarrow> EngineCore" where
  "demo_engine s = \<lparr>ec_scheduler = s, ec_mapper = mapper_server_init True, ec_result_queue = [], ec_input_queue = [],
     ec_output_queue = []\<rparr>"

definition demo_exec :: "SchedulerOutput \<Rightarrow> ModelRunnerOutput" where
  "demo_exec out = \<lparr>req_ids = map fst (num_scheduled_tokens out), req_id_to_index = (\<lambda>_. Some 0), sampled_token_ids = [4]\<rparr>"

lemma demo_exec_covers: "covers_output (demo_exec out) out"
  by (simp add: covers_output_def mro_covers_def demo_exec_def py_index_def)


text \<open>The image request alone, without its encoder result: after its first token it is stalled.\<close>

definition demo_alone :: Scheduler where
  "demo_alone = add_request demo_sched demo_image"

definition demo_stall :: Scheduler where
  "demo_stall = (case schedule demo_hash demo_alone of
     Inl _ \<Rightarrow> undefined
   | Inr (out, s) \<Rightarrow>
       (case update_from_output sorted_list_of_set s out (demo_exec out) of Inl _ \<Rightarrow> undefined | Inr (_, s') \<Rightarrow> s'))"

lemma demo_stall_good: "sched_good demo_stall"
proof -
  have "new_req_ok demo_sched demo_image" by code_simp
  then have "sched_reachable demo_hash sorted_list_of_set demo_alone"
    unfolding demo_alone_def by (intro sched_reachable_step [OF demo_sched_reachable] sched_step.add)
  then have g: "sched_good demo_alone" by (rule sched_reachable_good)
  then obtain out s where s: "schedule demo_hash demo_alone = Inr (out, s)" "ready_to_run s out"
    using schedule_ready by blast
  with ready_update [OF s(2) set_order_sorted demo_exec_covers] show ?thesis by (auto simp: demo_stall_def)
qed

theorem stalled_engine_never_returns_witness:
  "engine_step demo_hash sorted_list_of_set demo_exec (\<lambda>_. []) (demo_engine demo_stall) = None"
proof -
  have "all_stalled (\<lambda>_. 0) demo_stall" "running demo_stall \<noteq> []" by code_simp+
  then show ?thesis
    using demo_stall_good
    by (intro stalled_engine_never_returns [where nxt = "\<lambda>_. 0"]) (simp_all add: demo_engine_def)
qed

end
