(* ===== verification/Detokenizer.thy ===== *)
theory Detokenizer
  imports Scheduler
begin

text \<open>
  From tokens to text: incremental detokenization (\<open>vllm/transformers_utils/detokenizer_utils.py\<close>), the
  search for stop strings (\<open>StopChecker.check_stop_strings\<close> in
  \<open>vllm/engine/output_processor/stop_checker.py\<close>), the per-request detokenizer with its stop buffer
  (\<open>vllm/v1/engine/detokenizer.py\<close>) and the output processor (\<open>vllm/v1/engine/output_processor.py\<close>).

  The tokenizer is third-party code: a record of the methods that are called, whose results are arbitrary.
  \<open>repl\<close> is the replacement character U+FFFD, which is not among the characters of \<open>string\<close>.  Wall-clock
  times are left out of the statistics; an asyncio queue is the list of its elements.
\<close>

section \<open>The tokenizer\<close>

record tokenizer =
  tk_len :: int
  tk_convert_ids_to_tokens :: "int list \<Rightarrow> bool \<Rightarrow> string option list"
  tk_convert_tokens_to_string :: "string option list \<Rightarrow> string"
  tk_is_fast :: bool
  tk_added_vocab :: "string list"
  tk_special_tokens :: "string list"

definition replace_none_with_empty :: "string option list \<Rightarrow> string option list" where
  "replace_none_with_empty ts = map (\<lambda>t. case t of None \<Rightarrow> Some [] | Some s \<Rightarrow> Some s) ts"

text \<open>The loop over the tokens: \<open>subs\<close> are the finished parts, \<open>cur\<close> the current one.\<close>

fun added_encoders_loop ::
  "tokenizer \<Rightarrow> bool \<Rightarrow> string option list \<Rightarrow> string list \<Rightarrow> string option list \<Rightarrow> string list \<times> string option list" where
  "added_encoders_loop tk skip [] subs cur = (subs, cur)"
| "added_encoders_loop tk skip (t # ts) subs cur =
     (case t of
        None \<Rightarrow> added_encoders_loop tk skip ts subs (cur @ [None])
      | Some s \<Rightarrow>
          if skip \<and> s \<in> set (tk_special_tokens tk) then added_encoders_loop tk skip ts subs cur
          else if s \<in> set (tk_added_vocab tk) then
            added_encoders_loop tk skip ts
              (subs @ (if cur \<noteq> [] then [tk_convert_tokens_to_string tk cur] else []) @ [s]) []
          else added_encoders_loop tk skip ts subs (cur @ [Some s]))"

fun py_join :: "string \<Rightarrow> string list \<Rightarrow> string" where
  "py_join sep [] = []"
| "py_join sep [x] = x"
| "py_join sep (x # xs) = x @ sep @ py_join sep xs"

definition convert_tokens_to_string_with_added_encoders ::
  "tokenizer \<Rightarrow> string option list \<Rightarrow> bool \<Rightarrow> bool \<Rightarrow> string" where
  "convert_tokens_to_string_with_added_encoders tk output_tokens skip spaces =
     (let (subs, cur) = added_encoders_loop tk skip output_tokens [] [];
          sub_texts = subs @ (if cur \<noteq> [] then [tk_convert_tokens_to_string tk cur] else []) in
      if spaces then py_join '' '' sub_texts else py_join [] sub_texts)"

definition INITIAL_INCREMENTAL_DETOKENIZATION_OFFSET :: int where
  "INITIAL_INCREMENTAL_DETOKENIZATION_OFFSET = 5"

definition convert_prompt_ids_to_tokens :: "tokenizer \<Rightarrow> int list \<Rightarrow> bool \<Rightarrow> string option list \<times> int \<times> int" where
  "convert_prompt_ids_to_tokens tk prompt_ids skip =
     (let new_tokens = tk_convert_ids_to_tokens tk
            (py_slice prompt_ids (- INITIAL_INCREMENTAL_DETOKENIZATION_OFFSET - 2) (int (length prompt_ids))) skip;
          read_offset = int (length new_tokens);
          prefix_offset = max (read_offset - INITIAL_INCREMENTAL_DETOKENIZATION_OFFSET) 0 in
      (replace_none_with_empty new_tokens, prefix_offset, read_offset))"

text \<open>The text of the tokens from \<open>a\<close> to \<open>b\<close>.\<close>

definition tokens_text :: "tokenizer \<Rightarrow> bool \<Rightarrow> bool \<Rightarrow> string option list \<Rightarrow> int \<Rightarrow> int \<Rightarrow> string" where
  "tokens_text tk skip spaces ts a b =
     (if tk_is_fast tk \<or> tk_added_vocab tk = [] then tk_convert_tokens_to_string tk (py_slice ts a b)
      else convert_tokens_to_string_with_added_encoders tk (py_slice ts a b) skip spaces)"

definition ends_with :: "char \<Rightarrow> string \<Rightarrow> bool" where
  "ends_with c s \<longleftrightarrow> s \<noteq> [] \<and> last s = c"

definition detokenize_incrementally ::
  "char \<Rightarrow> tokenizer \<Rightarrow> int list \<Rightarrow> string option list option \<Rightarrow> int \<Rightarrow> int \<Rightarrow> bool \<Rightarrow> bool \<Rightarrow>
   (string option list \<times> string \<times> int \<times> int) py" where
  "detokenize_incrementally repl tk all_input_ids prev_tokens prefix_offset read_offset skip spaces =
     (if all_input_ids = [] then Inl IndexError
      else
        let new_token_id = last all_input_ids; is_first_iter = prev_tokens = None;
            (prev, p_off, r_off) =
              (case prev_tokens of
                 None \<Rightarrow> convert_prompt_ids_to_tokens tk (butlast all_input_ids) skip
               | Some ts \<Rightarrow> (ts, prefix_offset, read_offset));
            new_tokens = (if 0 \<le> new_token_id \<and> new_token_id < tk_len tk
                          then tk_convert_ids_to_tokens tk [new_token_id] skip else [Some []]);
            output_tokens = prev @ new_tokens;
            res_tokens = (if is_first_iter then output_tokens else new_tokens);
            prefix_text = tokens_text tk skip spaces output_tokens p_off r_off;
            new_text = tokens_text tk skip spaces output_tokens p_off (int (length output_tokens)) in
        if length new_text \<le> length prefix_text \<or> ends_with repl new_text then Inr (res_tokens, [], p_off, r_off)
        else Inr (res_tokens, drop (length prefix_text) new_text, r_off, int (length output_tokens)))"

section \<open>Stop strings\<close>

text \<open>\<open>str.find\<close> with a start: a negative start counts from the end.\<close>

definition occurs_at :: "'a list \<Rightarrow> 'a list \<Rightarrow> nat \<Rightarrow> bool" where
  "occurs_at p t i \<longleftrightarrow> i + length p \<le> length t \<and> take (length p) (drop i t) = p"

function find_from :: "'a list \<Rightarrow> 'a list \<Rightarrow> nat \<Rightarrow> int" where
  "find_from t p i =
     (if length t < i + length p then -1 else if occurs_at p t i then int i else find_from t p (Suc i))"
  by auto
termination by (relation "measure (\<lambda>(t, p, i). Suc (length t) - i)") auto

declare find_from.simps [simp del]

definition py_find :: "'a list \<Rightarrow> 'a list \<Rightarrow> int \<Rightarrow> int" where
  "py_find t p start = find_from t p (nat (if start < 0 then max 0 (start + int (length t)) else start))"

fun check_stop_loop :: "string \<Rightarrow> int \<Rightarrow> bool \<Rightarrow> string list \<Rightarrow> (string \<times> int) option" where
  "check_stop_loop output_text new_char_count include_in_output [] = None"
| "check_stop_loop output_text new_char_count include_in_output (s # ss) =
     (let i = py_find output_text s (- new_char_count - int (length s)) in
      if i = -1 then check_stop_loop output_text new_char_count include_in_output ss
      else if include_in_output then
        (if i + int (length s) \<ge> int (length output_text) then Some (s, -1) else Some (s, i + int (length s)))
      else Some (s, i))"

definition check_stop_strings :: "string \<Rightarrow> int \<Rightarrow> string list \<Rightarrow> bool \<Rightarrow> (string \<times> int) option" where
  "check_stop_strings output_text new_char_count stop include_in_output =
     (if new_char_count = 0 \<or> stop = [] then None
      else check_stop_loop output_text new_char_count include_in_output stop)"

section \<open>The detokenizer of a request\<close>

record DetokenizerOutput =
  do_output_text :: string
  do_token_ids :: "int list"
  do_finished :: bool
  do_finish_reason :: "FinishReason option"
  do_stop_reason :: "StopReason option"

record IncrementalDetokenizer =
  d_output_text :: string
  d_tokens :: "string option list"
  d_token_ids :: "int list"
  d_prompt_len :: nat
  d_stop :: "string list"
  d_include_stop_str_in_output :: bool
  d_prefix_offset :: int
  d_read_offset :: int
  d_skip_special_tokens :: bool
  d_spaces_between_special_tokens :: bool
  d_output_kind :: RequestOutputKind
  d_tokenizer :: tokenizer
  d_stop_buffer_length :: int
  d_last_output_text_offset :: int

definition d_output_token_ids :: "IncrementalDetokenizer \<Rightarrow> int list" where
  "d_output_token_ids d = drop (d_prompt_len d) (d_token_ids d)"

text \<open>The stop strings of normalised parameters are a list.\<close>

definition param_stops :: "SamplingParams \<Rightarrow> string list" where
  "param_stops sp = (case sp_stop sp of Some (StopMany ss) \<Rightarrow> ss | Some (StopOne s) \<Rightarrow> map (\<lambda>c. [c]) s | None \<Rightarrow> [])"

definition detokenizer_from_new_request :: "tokenizer \<Rightarrow> EngineCoreRequest \<Rightarrow> IncrementalDetokenizer" where
  "detokenizer_from_new_request tk e =
     (let sp = ecr_sampling_params e;
          (tokens, prefix_offset, read_offset) =
            convert_prompt_ids_to_tokens tk (ecr_prompt_token_ids e) (sp_skip_special_tokens sp);
          stops = param_stops sp;
          buffer = (if stops \<noteq> [] \<and> \<not> sp_include_stop_str_in_output sp
                    then int (Max (set (map length stops))) - 1 else 0) in
      \<lparr>d_output_text = [], d_tokens = tokens, d_token_ids = ecr_prompt_token_ids e,
       d_prompt_len = length (ecr_prompt_token_ids e), d_stop = stops,
       d_include_stop_str_in_output = sp_include_stop_str_in_output sp, d_prefix_offset = prefix_offset,
       d_read_offset = read_offset, d_skip_special_tokens = sp_skip_special_tokens sp,
       d_spaces_between_special_tokens = sp_spaces_between_special_tokens sp, d_output_kind = sp_output_kind sp,
       d_tokenizer = tk, d_stop_buffer_length = buffer, d_last_output_text_offset = 0\<rparr>)"

text \<open>The loop over the new tokens; the first result is the text they add.\<close>

fun detokenize_loop :: "char \<Rightarrow> IncrementalDetokenizer \<Rightarrow> int list \<Rightarrow> (string \<times> IncrementalDetokenizer) py" where
  "detokenize_loop repl d [] = Inr ([], d)"
| "detokenize_loop repl d (t # ts) =
     (let ids = d_token_ids d @ [t] in
      py_bind (detokenize_incrementally repl (d_tokenizer d) ids (Some (d_tokens d)) (d_prefix_offset d)
                 (d_read_offset d) (d_skip_special_tokens d) (d_spaces_between_special_tokens d))
        (\<lambda>(new_tokens, text, p_off, r_off).
          py_bind (detokenize_loop repl
                     (d\<lparr>d_token_ids := ids, d_tokens := d_tokens d @ new_tokens, d_prefix_offset := p_off,
                        d_read_offset := r_off, d_output_text := d_output_text d @ text\<rparr>) ts)
            (\<lambda>(rest, d'). Inr (text @ rest, d'))))"

definition get_next_output_text :: "IncrementalDetokenizer \<Rightarrow> bool \<Rightarrow> bool \<Rightarrow> string \<times> IncrementalDetokenizer" where
  "get_next_output_text d finished delta =
     (let buffer_length = (if finished then 0 else d_stop_buffer_length d); text = d_output_text d in
      if \<not> delta then (if buffer_length \<noteq> 0 then py_slice text 0 (- buffer_length) else text, d)
      else
        let len = int (length text) - buffer_length; last_offset = d_last_output_text_offset d in
        if last_offset < len then (py_slice text last_offset len, d\<lparr>d_last_output_text_offset := len\<rparr>)
        else ([], d))"

text \<open>The stop criteria: the text, the finish reason and the stop reason after the check.\<close>

definition apply_stop ::
  "IncrementalDetokenizer \<Rightarrow> int \<Rightarrow> FinishReason option \<Rightarrow> StopReason option \<Rightarrow>
   IncrementalDetokenizer \<times> FinishReason option \<times> StopReason option" where
  "apply_stop d new_char_count fr sr =
     (if d_stop d = [] then (d, fr, sr)
      else
        case check_stop_strings (d_output_text d) new_char_count (d_stop d) (d_include_stop_str_in_output d) of
          None \<Rightarrow> (d, fr, sr)
        | Some (s, k) \<Rightarrow>
            (if k \<noteq> -1 then d\<lparr>d_output_text := py_slice (d_output_text d) 0 k\<rparr> else d, Some STOP, Some (StopString s)))"

definition detok_update_from_output ::
  "char \<Rightarrow> IncrementalDetokenizer \<Rightarrow> EngineCoreOutput \<Rightarrow> (DetokenizerOutput option \<times> IncrementalDetokenizer) py" where
  "detok_update_from_output repl d out =
     py_bind (detokenize_loop repl d (eco_new_token_ids out)) (\<lambda>(decoded_text, d1).
       let (d2, finish_reason, stop_reason) =
             apply_stop d1 (int (length decoded_text)) (eco_finish_reason out) (eco_stop_reason out);
           finished = finish_reason \<noteq> None in
       if d_output_kind d2 = FINAL_ONLY \<and> \<not> finished then Inr (None, d2)
       else
         let delta = d_output_kind d2 = DELTA; (text, d3) = get_next_output_text d2 finished delta;
             token_ids = (if delta then eco_new_token_ids out else d_output_token_ids d3) in
         Inr (Some \<lparr>do_output_text = text, do_token_ids = token_ids, do_finished = finished,
                    do_finish_reason = finish_reason, do_stop_reason = stop_reason\<rparr>, d3))"

section \<open>The output processor\<close>

text \<open>\<open>RequestOutput\<close> with its single completion; the finish reason is printed by \<open>str\<close>.\<close>

record RequestOutput =
  ro_request_id :: string
  ro_prompt :: "string option"
  ro_prompt_token_ids :: "int list"
  ro_text :: string
  ro_token_ids :: "int list"
  ro_finished :: bool
  ro_finish_reason :: "string option"
  ro_stop_reason :: "StopReason option"

definition request_output_new ::
  "string \<Rightarrow> string option \<Rightarrow> int list \<Rightarrow> string \<Rightarrow> int list \<Rightarrow> bool \<Rightarrow> RequestOutput" where
  "request_output_new rid p ptoks text toks fin =
     \<lparr>ro_request_id = rid, ro_prompt = p, ro_prompt_token_ids = ptoks, ro_text = text, ro_token_ids = toks,
      ro_finished = fin, ro_finish_reason = None, ro_stop_reason = None\<rparr>"

record FinishedRequestStats =
  fs_finish_reason :: FinishReason
  fs_num_prompt_tokens :: int
  fs_num_generation_tokens :: int

record IterationStats =
  is_log_stats :: bool
  is_num_generation_tokens :: int
  is_num_prompt_tokens :: int
  is_finished_requests :: "FinishedRequestStats list"

definition iteration_stats_init :: "bool \<Rightarrow> IterationStats" where
  "iteration_stats_init log_stats =
     \<lparr>is_log_stats = log_stats, is_num_generation_tokens = 0, is_num_prompt_tokens = 0, is_finished_requests = []\<rparr>"

text \<open>\<open>rs_num_generation_tokens\<close> is the count of \<open>RequestStateStats\<close>.\<close>

record RequestState =
  rs_request_id :: string
  rs_prompt :: "string option"
  rs_prompt_token_ids :: "int list"
  rs_prompt_len :: int
  rs_detokenizer :: IncrementalDetokenizer
  rs_is_prefilling :: bool
  rs_queue :: "RequestOutput list option"
  rs_num_generation_tokens :: int

definition request_state_from_new_request ::
  "tokenizer \<Rightarrow> EngineCoreRequest \<Rightarrow> RequestOutput list option \<Rightarrow> RequestState" where
  "request_state_from_new_request tk e q =
     \<lparr>rs_request_id = ecr_request_id e, rs_prompt = ecr_prompt e, rs_prompt_token_ids = ecr_prompt_token_ids e,
      rs_prompt_len = int (length (ecr_prompt_token_ids e)), rs_detokenizer = detokenizer_from_new_request tk e,
      rs_is_prefilling = True, rs_queue = q, rs_num_generation_tokens = 0\<rparr>"

definition stats_update_from_output ::
  "IterationStats \<Rightarrow> EngineCoreOutput \<Rightarrow> RequestState \<Rightarrow> (IterationStats \<times> RequestState) py" where
  "stats_update_from_output st out rs =
     (if \<not> is_log_stats st then Inr (st, rs)
      else
        let n = int (length (eco_new_token_ids out));
            st1 = st\<lparr>is_num_generation_tokens := is_num_generation_tokens st + n\<rparr> in
        py_bind (if rs_is_prefilling rs
                 then py_assert (n > 0) (Inr (st1\<lparr>is_num_prompt_tokens := is_num_prompt_tokens st1 + rs_prompt_len rs\<rparr>))
                 else Inr st1) (\<lambda>st2.
          Inr (st2, rs\<lparr>rs_num_generation_tokens := rs_num_generation_tokens rs + n\<rparr>)))"

definition stats_update_from_finished ::
  "IterationStats \<Rightarrow> FinishReason \<Rightarrow> RequestOutput \<Rightarrow> RequestState \<Rightarrow> IterationStats" where
  "stats_update_from_finished st fr ro rs =
     st\<lparr>is_finished_requests := is_finished_requests st @
          [\<lparr>fs_finish_reason = fr, fs_num_prompt_tokens = int (length (ro_prompt_token_ids ro)),
            fs_num_generation_tokens = rs_num_generation_tokens rs\<rparr>]\<rparr>"

definition make_request_output :: "RequestState \<Rightarrow> DetokenizerOutput \<Rightarrow> RequestOutput" where
  "make_request_output rs x =
     (let ro = request_output_new (rs_request_id rs) (rs_prompt rs) (rs_prompt_token_ids rs) (do_output_text x)
                 (do_token_ids x) (do_finished x) in
      if do_finished x
      then ro\<lparr>ro_finish_reason := map_option finish_reason_str (do_finish_reason x), ro_stop_reason := do_stop_reason x\<rparr>
      else ro)"

record OutputProcessor =
  op_log_stats :: bool
  op_request_states :: "(string \<times> RequestState) list"

definition output_processor_init :: "bool \<Rightarrow> OutputProcessor" where
  "output_processor_init log_stats = \<lparr>op_log_stats = log_stats, op_request_states = []\<rparr>"

definition is_request_active :: "OutputProcessor \<Rightarrow> string \<Rightarrow> bool" where
  "is_request_active op rid \<longleftrightarrow> map_of (op_request_states op) rid \<noteq> None"

definition op_get_num_unfinished_requests :: "OutputProcessor \<Rightarrow> int" where
  "op_get_num_unfinished_requests op = int (length (op_request_states op))"

definition op_has_unfinished_requests :: "OutputProcessor \<Rightarrow> bool" where
  "op_has_unfinished_requests op \<longleftrightarrow> op_request_states op \<noteq> []"

definition op_abort_requests :: "OutputProcessor \<Rightarrow> string list \<Rightarrow> OutputProcessor" where
  "op_abort_requests op rids = op\<lparr>op_request_states := fold AList.delete rids (op_request_states op)\<rparr>"

definition op_add_request ::
  "tokenizer \<Rightarrow> OutputProcessor \<Rightarrow> EngineCoreRequest \<Rightarrow> RequestOutput list option \<Rightarrow> OutputProcessor py" where
  "op_add_request tk op e q =
     (if is_request_active op (ecr_request_id e) then Inl ValueError
      else Inr (op\<lparr>op_request_states := AList.update (ecr_request_id e) (request_state_from_new_request tk e q)
                     (op_request_states op)\<rparr>))"

text \<open>
  What the loop of \<open>process_outputs\<close> collects; \<open>pa_queues\<close> are the outputs put into the queues of
  requests, which outlive the request states.
\<close>

record process_acc =
  pa_states :: "(string \<times> RequestState) list"
  pa_outputs :: "RequestOutput list"
  pa_queued :: "(string \<times> RequestOutput) list"
  pa_abort :: "string list"
  pa_stats :: IterationStats

definition process_one :: "char \<Rightarrow> process_acc \<Rightarrow> EngineCoreOutput \<Rightarrow> process_acc py" where
  "process_one repl a out =
     (let rid = eco_request_id out in
      case map_of (pa_states a) rid of
        None \<Rightarrow> Inr a
      | Some rs \<Rightarrow>
          py_bind (stats_update_from_output (pa_stats a) out rs) (\<lambda>(st, rs1).
            py_bind (detok_update_from_output repl (rs_detokenizer rs1) out) (\<lambda>(res, d).
              let rs2 = rs1\<lparr>rs_is_prefilling := False, rs_detokenizer := d\<rparr>;
                  a1 = a\<lparr>pa_stats := st, pa_states := AList.update rid rs2 (pa_states a)\<rparr> in
              case res of
                None \<Rightarrow> Inr a1
              | Some x \<Rightarrow>
                  let ro = make_request_output rs2 x;
                      a2 = (case rs_queue rs2 of
                              None \<Rightarrow> a1\<lparr>pa_outputs := pa_outputs a1 @ [ro]\<rparr>
                            | Some q \<Rightarrow> a1\<lparr>pa_queued := pa_queued a1 @ [(rid, ro)],
                                           pa_states := AList.update rid (rs2\<lparr>rs_queue := Some (q @ [ro])\<rparr>) (pa_states a1)\<rparr>) in
                  if \<not> ro_finished ro then Inr a2
                  else
                    case do_finish_reason x of
                      None \<Rightarrow> Inl AssertionError
                    | Some fr \<Rightarrow>
                        Inr (a2\<lparr>pa_states := AList.delete rid (pa_states a2),
                                pa_abort := pa_abort a2 @ (if eco_finished out then [] else [rid]),
                                pa_stats := stats_update_from_finished (pa_stats a2) fr ro rs2\<rparr>))))"

fun process_loop :: "char \<Rightarrow> process_acc \<Rightarrow> EngineCoreOutput list \<Rightarrow> process_acc py" where
  "process_loop repl a [] = Inr a"
| "process_loop repl a (out # outs) = py_bind (process_one repl a out) (\<lambda>a'. process_loop repl a' outs)"

definition process_outputs ::
  "char \<Rightarrow> OutputProcessor \<Rightarrow> EngineCoreOutput list \<Rightarrow> (process_acc \<times> OutputProcessor) py" where
  "process_outputs repl op outs =
     py_bind (process_loop repl
                \<lparr>pa_states = op_request_states op, pa_outputs = [], pa_queued = [], pa_abort = [],
                 pa_stats = iteration_stats_init (op_log_stats op)\<rparr> outs) (\<lambda>a.
       Inr (a, op\<lparr>op_request_states := pa_states a\<rparr>))"

end
