(* ===== verification/DetokenizerProps.thy ===== *)
theory DetokenizerProps
  imports Detokenizer "HOL-Library.Sublist"
begin

text \<open>
  The text of a request: the search for stop strings in a window at the end of the text misses nothing,
  and what is streamed to the client in pieces is the text it would get at the end.
\<close>

section \<open>Searching\<close>

definition occurrences :: "'a list \<Rightarrow> 'a list \<Rightarrow> nat list" where
  "occurrences p t = filter (occurs_at p t) [0..<Suc (length t)]"

lemma occurs_at_le: "occurs_at p t i \<Longrightarrow> i + length p \<le> length t"
  by (simp add: occurs_at_def)

lemma occurs_at_bound: "occurs_at p t i \<Longrightarrow> i < Suc (length t)"
  by (simp add: occurs_at_def)

lemma set_occurrences [simp]: "set (occurrences p t) = {i. occurs_at p t i}"
  by (auto simp: occurrences_def simp del: upt_Suc intro: occurs_at_bound)

lemma occurrences_Nil_iff: "occurrences p t = [] \<longleftrightarrow> (\<forall>i. \<not> occurs_at p t i)"
  using set_occurrences [of p t] by (metis empty_Collect_eq set_empty)

lemma find_from_filter:
  "find_from t p i = (case filter (occurs_at p t) [i..<Suc (length t)] of [] \<Rightarrow> -1 | k # _ \<Rightarrow> int k)"
proof (induction t p i rule: find_from.induct)
  case (1 t p i)
  show ?case
  proof (cases "length t < i + length p")
    case True
    then have "filter (occurs_at p t) [i..<Suc (length t)] = []"
      by (auto simp: filter_empty_conv dest: occurs_at_le)
    with True show ?thesis by (simp add: find_from.simps)
  next
    case False
    then have "[i..<Suc (length t)] = i # [Suc i..<Suc (length t)]" by (simp add: upt_conv_Cons del: upt_Suc)
    with 1 False show ?thesis by (subst find_from.simps) (auto simp del: upt_Suc)
  qed
qed

lemma find_from_skip:
  assumes "\<And>j. j < w \<Longrightarrow> \<not> occurs_at p t j"
  shows "find_from t p w = (case occurrences p t of [] \<Rightarrow> -1 | k # _ \<Rightarrow> int k)"
proof (cases "w \<le> Suc (length t)")
  case True
  then have "[0..<Suc (length t)] = [0..<w] @ [w..<Suc (length t)]" by (metis le0 le_add_diff_inverse upt_add_eq_append)
  moreover have "filter (occurs_at p t) [0..<w] = []" using assms by (simp add: filter_empty_conv)
  ultimately show ?thesis by (simp add: find_from_filter occurrences_def del: upt_Suc)
next
  case False
  then have "occurrences p t = []" using assms occurs_at_bound by (metis less_imp_le less_le_trans linear not_less occurrences_Nil_iff)
  with False show ?thesis by (simp add: find_from_filter)
qed

text \<open>A new occurrence ends in the new text.\<close>

lemma occurs_at_append:
  assumes "occurs_at p (old @ new) j" and "j + length p \<le> length old"
  shows "occurs_at p old j"
  using assms by (auto simp: occurs_at_def)

lemma new_occurrence:
  assumes "\<And>i. \<not> occurs_at p old i" and "occurs_at p (old @ new) j"
  shows "length old < j + length p"
  using assms occurs_at_append by (metis not_less)

lemma py_find_window:
  assumes "\<And>i. \<not> occurs_at p old i"
  shows "py_find (old @ new) p (- int (length new) - int (length p)) =
    (case occurrences p (old @ new) of [] \<Rightarrow> -1 | k # _ \<Rightarrow> int k)"
proof -
  let ?w = "length old - length p"
  have p: "p \<noteq> []" using assms [of 0] by (auto simp: occurs_at_def)
  then have "- int (length new) - int (length p) < 0" by (cases p) simp_all
  moreover have "nat (max 0 (- int (length new) - int (length p) + int (length (old @ new)))) = ?w"
    by (simp add: max_def nat_minus_as_int)
  ultimately have "nat (if - int (length new) - int (length p) < 0
      then max 0 (- int (length new) - int (length p) + int (length (old @ new)))
      else - int (length new) - int (length p)) = ?w"
    by (simp only: if_True)
  then have "py_find (old @ new) p (- int (length new) - int (length p)) = find_from (old @ new) p ?w"
    unfolding py_find_def by (simp only:)
  moreover have "\<not> occurs_at p (old @ new) j" if "j < ?w" for j
    using new_occurrence [OF assms, of new j] that by linarith
  ultimately show ?thesis using find_from_skip by metis
qed

section \<open>Stop strings\<close>

text \<open>The reference: the first stop string of the list that occurs anywhere, at its first occurrence.\<close>

definition stop_spec :: "string \<Rightarrow> string list \<Rightarrow> bool \<Rightarrow> (string \<times> int) option" where
  "stop_spec text stop incl =
     (case find (\<lambda>s. occurrences s text \<noteq> []) stop of
        None \<Rightarrow> None
      | Some s \<Rightarrow>
          (let i = hd (occurrences s text) in
           Some (s, if \<not> incl then int i else if i + length s \<ge> length text then -1 else int (i + length s))))"

lemma stop_loop_spec:
  assumes "\<And>s i. s \<in> set stop \<Longrightarrow> \<not> occurs_at s old i"
  shows "check_stop_loop (old @ new) (int (length new)) incl stop = stop_spec (old @ new) stop incl"
  using assms
proof (induction stop)
  case (Cons s ss)
  then have IH: "check_stop_loop (old @ new) (int (length new)) incl ss = stop_spec (old @ new) ss incl" by simp
  have f: "py_find (old @ new) s (- int (length new) - int (length s)) =
      (case occurrences s (old @ new) of [] \<Rightarrow> -1 | k # _ \<Rightarrow> int k)"
    by (rule py_find_window) (use Cons.prems in auto)
  show ?case
  proof (cases "occurrences s (old @ new)")
    case Nil
    then show ?thesis using IH by (simp add: Let_def f stop_spec_def)
  next
    case (Cons k ks)
    then show ?thesis by (auto simp add: Let_def f stop_spec_def)
  qed
qed (simp add: stop_spec_def)

lemma stop_spec_None: "stop_spec text stop incl = None \<longleftrightarrow> (\<forall>s \<in> set stop. \<forall>i. \<not> occurs_at s text i)"
proof -
  have "stop_spec text stop incl = None \<longleftrightarrow> find (\<lambda>s. occurrences s text \<noteq> []) stop = None"
    by (simp add: stop_spec_def Let_def split: option.split)
  then show ?thesis by (auto simp: find_None_iff occurrences_Nil_iff)
qed

lemma stop_spec_SomeD:
  assumes "stop_spec text stop incl = Some (s, k)"
  obtains i where "s \<in> set stop" "occurs_at s text i"
    "k = (if \<not> incl then int i else if i + length s \<ge> length text then -1 else int (i + length s))"
proof -
  obtain s' where f: "find (\<lambda>s. occurrences s text \<noteq> []) stop = Some s'"
    using assms by (auto simp: stop_spec_def split: option.splits)
  then have s': "s' \<in> set stop" "occurrences s' text \<noteq> []" by (auto simp: find_Some_iff)
  then have "occurs_at s' text (hd (occurrences s' text))" using hd_in_set [OF s'(2)] by simp
  with that [of "hd (occurrences s' text)"] s' f assms show thesis by (auto simp: stop_spec_def Let_def)
qed

lemma check_stop_spec:
  assumes "\<And>s i. s \<in> set stop \<Longrightarrow> \<not> occurs_at s old i"
  shows "check_stop_strings (old @ new) (int (length new)) stop incl = stop_spec (old @ new) stop incl"
proof (cases "new = [] \<or> stop = []")
  case True
  then have "stop_spec (old @ new) stop incl = None" using assms by (auto simp: stop_spec_None)
  with True show ?thesis by (auto simp: check_stop_strings_def)
next
  case False
  then show ?thesis using stop_loop_spec [OF assms] by (simp add: check_stop_strings_def)
qed


section \<open>Streaming\<close>

text \<open>The outputs of a request until it is finished, when the output processor drops it.\<close>

fun detok_stream ::
  "char \<Rightarrow> IncrementalDetokenizer \<Rightarrow> EngineCoreOutput list \<Rightarrow> (DetokenizerOutput list \<times> IncrementalDetokenizer) py" where
  "detok_stream repl d [] = Inr ([], d)"
| "detok_stream repl d (out # outs) =
     py_bind (detok_update_from_output repl d out) (\<lambda>(res, d').
       case res of
         None \<Rightarrow> detok_stream repl d' outs
       | Some x \<Rightarrow>
           if do_finished x then Inr ([x], d')
           else py_bind (detok_stream repl d' outs) (\<lambda>(xs, d''). Inr (x # xs, d'')))"

text \<open>Decoding does not look at the kind of output or at what has been streamed.\<close>

definition as_kind :: "RequestOutputKind \<Rightarrow> int \<Rightarrow> IncrementalDetokenizer \<Rightarrow> IncrementalDetokenizer" where
  "as_kind k l d = d\<lparr>d_output_kind := k, d_last_output_text_offset := l\<rparr>"

lemma as_kind_simps [simp]:
  "d_output_text (as_kind k l d) = d_output_text d" "d_stop (as_kind k l d) = d_stop d"
  "d_include_stop_str_in_output (as_kind k l d) = d_include_stop_str_in_output d"
  "d_stop_buffer_length (as_kind k l d) = d_stop_buffer_length d"
  "d_output_kind (as_kind k l d) = k" "d_last_output_text_offset (as_kind k l d) = l"
  "as_kind k l (as_kind k' l' d) = as_kind k l d"
  by (simp_all add: as_kind_def)

lemma detokenize_incrementally_ok:
  "all_ids \<noteq> [] \<Longrightarrow> \<exists>ts x p r. detokenize_incrementally repl tk all_ids prev po ro skip spaces = Inr (ts, x, p, r)"
  by (auto simp: detokenize_incrementally_def Let_def split: prod.splits)

lemma detokenize_loop_ok:
  "\<exists>new d'. detokenize_loop repl d ts = Inr (new, d') \<and> d_output_text d' = d_output_text d @ new \<and>
     d_stop d' = d_stop d \<and> d_include_stop_str_in_output d' = d_include_stop_str_in_output d \<and>
     d_stop_buffer_length d' = d_stop_buffer_length d \<and>
     d_last_output_text_offset d' = d_last_output_text_offset d \<and> d_output_kind d' = d_output_kind d \<and>
     (\<forall>k l. detokenize_loop repl (as_kind k l d) ts = Inr (new, as_kind k l d'))"
proof (induction ts arbitrary: d)
  case (Cons t ts)
  let ?ids = "d_token_ids d @ [t]"
  obtain nt x p r where di: "detokenize_incrementally repl (d_tokenizer d) ?ids (Some (d_tokens d)) (d_prefix_offset d)
      (d_read_offset d) (d_skip_special_tokens d) (d_spaces_between_special_tokens d) = Inr (nt, x, p, r)"
    using detokenize_incrementally_ok [of ?ids] by blast
  let ?d = "d\<lparr>d_token_ids := ?ids, d_tokens := d_tokens d @ nt, d_prefix_offset := p, d_read_offset := r,
      d_output_text := d_output_text d @ x\<rparr>"
  obtain new d' where IH: "detokenize_loop repl ?d ts = Inr (new, d')" "d_output_text d' = d_output_text ?d @ new"
     "d_stop d' = d_stop d" "d_include_stop_str_in_output d' = d_include_stop_str_in_output d"
     "d_stop_buffer_length d' = d_stop_buffer_length d" "d_last_output_text_offset d' = d_last_output_text_offset d"
     "d_output_kind d' = d_output_kind d" "\<forall>k l. detokenize_loop repl (as_kind k l ?d) ts = Inr (new, as_kind k l d')"
    using Cons.IH [of ?d] by auto
  have "detokenize_loop repl (as_kind k l d) (t # ts) = Inr (x @ new, as_kind k l d')" for k l
  proof -
    have c: "as_kind k l ?d = (as_kind k l d)\<lparr>d_token_ids := ?ids, d_tokens := d_tokens d @ nt, d_prefix_offset := p,
        d_read_offset := r, d_output_text := d_output_text d @ x\<rparr>"
      by (cases d) (simp add: as_kind_def)
    have "detokenize_loop repl (as_kind k l d) (t # ts) =
        py_bind (detokenize_loop repl (as_kind k l ?d) ts) (\<lambda>(rest, d'). Inr (x @ rest, d'))"
      unfolding c using di by (simp add: as_kind_def Let_def)
    then show ?thesis using IH(8) by simp
  qed
  moreover have "detokenize_loop repl d (t # ts) = Inr (x @ new, d')" using di IH(1) by (simp add: Let_def)
  ultimately show ?case using IH by simp
qed simp

lemma apply_stop_as_kind:
  "apply_stop (as_kind k l d) n fr sr = (let (d', x) = apply_stop d n fr sr in (as_kind k l d', x))"
  by (auto simp: apply_stop_def Let_def as_kind_def split: option.split)


text \<open>
  What has been streamed (\<open>em\<close>) is a prefix of the text that stays clear of the stop buffer, and the text
  holds no stop string.
\<close>

definition stream_inv :: "IncrementalDetokenizer \<Rightarrow> string \<Rightarrow> bool" where
  "stream_inv d em \<longleftrightarrow>
     d_stop_buffer_length d =
       (if d_stop d \<noteq> [] \<and> \<not> d_include_stop_str_in_output d then int (Max (set (map length (d_stop d)))) - 1 else 0) \<and>
     prefix em (d_output_text d) \<and>
     int (length em) \<le> max 0 (int (length (d_output_text d)) - d_stop_buffer_length d) \<and>
     (\<forall>s \<in> set (d_stop d). \<forall>i. \<not> occurs_at s (d_output_text d) i)"

lemma prefix_take: "prefix xs ys \<Longrightarrow> length xs \<le> n \<Longrightarrow> prefix xs (take n ys)"
  by (auto simp: prefix_def)

lemma stop_keeps_streamed:
  assumes inv: "stream_inv d em" and m: "stop_spec (d_output_text d @ new) (d_stop d) (d_include_stop_str_in_output d) = Some (s, k)"
  shows "prefix em (if k \<noteq> -1 then py_slice (d_output_text d @ new) 0 k else d_output_text d @ new)"
proof -
  let ?t = "d_output_text d" and ?incl = "d_include_stop_str_in_output d"
  obtain i where i: "s \<in> set (d_stop d)" "occurs_at s (?t @ new) i"
    "k = (if \<not> ?incl then int i else if i + length s \<ge> length (?t @ new) then -1 else int (i + length s))"
    by (rule stop_spec_SomeD [OF m])
  have pre: "prefix em (?t @ new)" using inv by (auto simp: stream_inv_def)
  have em: "length em \<le> length ?t" using inv by (simp add: stream_inv_def prefix_length_le)
  have new: "length ?t < i + length s"
    using inv i by (intro new_occurrence [OF _ i(2)]) (auto simp: stream_inv_def)
  have "length em \<le> i" if "\<not> ?incl"
  proof -
    have "length s \<le> Max (set (map length (d_stop d)))" using i(1) by (intro Max_ge) auto
    moreover have "d_stop d \<noteq> []" using i(1) by auto
    ultimately have "int (length s) - 1 \<le> d_stop_buffer_length d" using inv that by (simp add: stream_inv_def)
    then show ?thesis using inv new by (simp add: stream_inv_def max_def split: if_splits)
  qed
  then have "k = -1 \<or> (\<exists>m. k = int m \<and> length em \<le> m)"
    using em new i(3) by (auto simp flip: of_nat_add)
  then show ?thesis
  proof
    assume "\<exists>m. k = int m \<and> length em \<le> m"
    then obtain m where "k = int m" "length em \<le> m" by blast
    then show ?thesis using prefix_take [OF pre] by (simp add: py_slice_nonneg del: take_append)
  qed (simp add: pre)
qed

lemma apply_stop_inv:
  assumes inv: "stream_inv d em" and d1: "d_output_text d1 = d_output_text d @ new" "d_stop d1 = d_stop d"
      "d_include_stop_str_in_output d1 = d_include_stop_str_in_output d" "d_stop_buffer_length d1 = d_stop_buffer_length d"
    and a: "apply_stop d1 (int (length new)) fr0 sr0 = (d2, fr, sr)"
  shows "prefix em (d_output_text d2)" and "fr = None \<Longrightarrow> stream_inv d2 em"
proof -
  let ?chk = "check_stop_strings (d_output_text d1) (int (length new)) (d_stop d1) (d_include_stop_str_in_output d1)"
  have chk: "?chk = stop_spec (d_output_text d1) (d_stop d1) (d_include_stop_str_in_output d1)"
    unfolding d1 using inv by (intro check_stop_spec) (simp add: stream_inv_def)
  have pre: "prefix em (d_output_text d1)" using inv d1(1) by (auto simp: stream_inv_def)
  show "prefix em (d_output_text d2)"
  proof (cases "d_stop d1 = [] \<or> ?chk = None")
    case True
    then show ?thesis using a pre by (auto simp: apply_stop_def split: if_splits)
  next
    case False
    then obtain s k where sk: "?chk = Some (s, k)" by auto
    then have "prefix em (if k \<noteq> -1 then py_slice (d_output_text d1) 0 k else d_output_text d1)"
      using stop_keeps_streamed [OF inv] chk unfolding d1 by metis
    then show ?thesis using False a sk by (auto simp: apply_stop_def split: if_splits)
  qed
  assume "fr = None"
  then have n: "d_stop d1 = [] \<or> ?chk = None" "d2 = d1"
    using a by (auto simp: apply_stop_def split: if_splits option.splits prod.splits)
  then have "\<forall>s \<in> set (d_stop d1). \<forall>i. \<not> occurs_at s (d_output_text d1) i" using chk by (auto simp: stop_spec_None)
  then show "stream_inv d2 em" using inv n(2) pre d1 by (auto simp: stream_inv_def)
qed

text \<open>What is streamed next.\<close>

lemma next_delta:
  assumes "prefix em (d_output_text d)" and "get_next_output_text (as_kind DELTA (int (length em)) d) finished True = (x, d')"
    and "0 \<le> d_stop_buffer_length d"
  shows "d' = as_kind DELTA (int (length (em @ x))) d" and "prefix (em @ x) (d_output_text d)"
    and "finished \<Longrightarrow> em @ x = d_output_text d"
    and "int (length em) \<le> max 0 (int (length (d_output_text d)) - d_stop_buffer_length d) \<Longrightarrow> \<not> finished \<Longrightarrow>
       int (length (em @ x)) \<le> max 0 (int (length (d_output_text d)) - d_stop_buffer_length d)"
proof -
  obtain rest where t: "d_output_text d = em @ rest" using assms(1) by (auto simp: prefix_def)
  define len where "len = int (length (d_output_text d)) - (if finished then 0 else d_stop_buffer_length d)"
  have len: "len \<le> int (length em + length rest)" using assms(3) by (simp add: len_def t)
  have r: "(x, d') = (if int (length em) < len then (take (nat len - length em) rest, as_kind DELTA len d)
      else ([], as_kind DELTA (int (length em)) d))"
    unfolding assms(2) [symmetric]
    by (simp add: get_next_output_text_def Let_def len_def t py_slice_nonneg) (simp add: as_kind_def)
  have "int (length (em @ x)) = max len (int (length em))"
    using r len by (auto split: if_splits)
  then show "d' = as_kind DELTA (int (length (em @ x))) d"
    and "int (length em) \<le> max 0 (int (length (d_output_text d)) - d_stop_buffer_length d) \<Longrightarrow> \<not> finished \<Longrightarrow>
      int (length (em @ x)) \<le> max 0 (int (length (d_output_text d)) - d_stop_buffer_length d)"
    using r by (auto simp: len_def split: if_splits)
  show "prefix (em @ x) (d_output_text d)" using r by (auto simp: t take_is_prefix split: if_splits)
  show "em @ x = d_output_text d" if finished using r that by (auto simp: t len_def split: if_splits)
qed

lemma buffer_nonneg: "stream_inv d em \<Longrightarrow> 0 \<le> d_stop_buffer_length d"
proof -
  assume inv: "stream_inv d em"
  show ?thesis
  proof (cases "d_stop d")
    case (Cons s ss)
    then have "s \<noteq> []" using inv by (auto simp: stream_inv_def occurs_at_def)
    then have "1 \<le> length s" by (simp add: Suc_le_eq)
    also have "\<dots> \<le> Max (set (map length (d_stop d)))" using Cons by (intro Max_ge) auto
    finally show ?thesis using inv by (simp add: stream_inv_def del: Max_ge_iff)
  qed (use inv in \<open>simp add: stream_inv_def\<close>)
qed

lemma stream_eq_final:
  assumes "stream_inv d em"
  shows "\<exists>xs d1 ys d2. detok_stream repl (as_kind DELTA (int (length em)) d) outs = Inr (xs, d1) \<and>
     detok_stream repl (as_kind FINAL_ONLY l d) outs = Inr (ys, d2) \<and>
     (if list_ex do_finished xs then map do_output_text ys = [em @ concat (map do_output_text xs)]
      else ys = [] \<and> prefix (em @ concat (map do_output_text xs)) (d_output_text d2))"
  using assms
proof (induction outs arbitrary: d em)
  case Nil
  then show ?case by (simp add: stream_inv_def)
next
  case (Cons out outs)
  obtain new d1 where d1: "detokenize_loop repl d (eco_new_token_ids out) = Inr (new, d1)"
    "d_output_text d1 = d_output_text d @ new" "d_stop d1 = d_stop d"
    "d_include_stop_str_in_output d1 = d_include_stop_str_in_output d" "d_stop_buffer_length d1 = d_stop_buffer_length d"
    "\<And>k l. detokenize_loop repl (as_kind k l d) (eco_new_token_ids out) = Inr (new, as_kind k l d1)"
    using detokenize_loop_ok by blast
  obtain d2 fr sr where a: "apply_stop d1 (int (length new)) (eco_finish_reason out) (eco_stop_reason out) = (d2, fr, sr)"
    by (metis prod_cases3)
  note stop = apply_stop_inv [OF Cons.prems d1(2-5) a]
  have buf: "d_stop_buffer_length d2 = d_stop_buffer_length d"
    using a d1(5) by (auto simp: apply_stop_def split: if_splits option.splits prod.splits)
  obtain x d3 where x: "get_next_output_text (as_kind DELTA (int (length em)) d2) (fr \<noteq> None) True = (x, d3)"
    by fastforce
  note nd = next_delta [OF stop(1) x] 
  have up: "\<exists>r. detok_update_from_output repl (as_kind DELTA (int (length em)) d) out = Inr (Some r, d3) \<and>
      do_output_text r = x \<and> (do_finished r \<longleftrightarrow> fr \<noteq> None)"
    using x by (simp add: detok_update_from_output_def d1(6) apply_stop_as_kind a Let_def)
  have upf: "if fr = None then detok_update_from_output repl (as_kind FINAL_ONLY l d) out = Inr (None, as_kind FINAL_ONLY l d2)
      else \<exists>r. detok_update_from_output repl (as_kind FINAL_ONLY l d) out = Inr (Some r, as_kind FINAL_ONLY l d2) \<and>
        do_output_text r = d_output_text d2 \<and> do_finished r"
    by (simp add: detok_update_from_output_def d1(6) apply_stop_as_kind a Let_def get_next_output_text_def)
  have b: "0 \<le> d_stop_buffer_length d2" using buffer_nonneg [OF Cons.prems] buf by simp
  show ?case
  proof (cases fr)
    case None
    have inv: "stream_inv d2 em" by (rule stop(2) [OF None])
    then have "int (length em) \<le> max 0 (int (length (d_output_text d2)) - d_stop_buffer_length d2)"
      unfolding stream_inv_def by blast
    from nd(4) [OF b this] None nd(2) [OF b] inv have inv2: "stream_inv d2 (em @ x)"
      unfolding stream_inv_def by blast
    show ?thesis
      using Cons.IH [OF inv2] up upf None nd(1) [OF b] by (auto split: if_splits)
  next
    case (Some f)
    then show ?thesis using up upf nd(3) [OF b] by auto
  qed
qed


section \<open>The output processor\<close>

text \<open>Does the detokenizer of a request finish on this output?\<close>

definition detok_finishes :: "char \<Rightarrow> RequestState option \<Rightarrow> EngineCoreOutput \<Rightarrow> bool" where
  "detok_finishes repl rs out =
     (case rs of
        None \<Rightarrow> False
      | Some rs \<Rightarrow>
          (case detok_update_from_output repl (rs_detokenizer rs) out of
             Inr (Some x, _) \<Rightarrow> do_finished x
           | _ \<Rightarrow> False))"

lemma detok_update_ok:
  "\<exists>res d'. detok_update_from_output repl d out = Inr (res, d') \<and>
     (\<forall>x. res = Some x \<longrightarrow> (do_finished x \<longleftrightarrow> do_finish_reason x \<noteq> None))"
proof -
  obtain new d1 where d1: "detokenize_loop repl d (eco_new_token_ids out) = Inr (new, d1)"
    using detokenize_loop_ok by blast
  obtain d2 fr sr where a: "apply_stop d1 (int (length new)) (eco_finish_reason out) (eco_stop_reason out) = (d2, fr, sr)"
    by (metis prod_cases3)
  show ?thesis by (simp add: detok_update_from_output_def d1 a Let_def split: prod.split)
qed

lemma stats_update_ok:
  assumes "eco_new_token_ids out \<noteq> []"
  shows "\<exists>st' rs'. stats_update_from_output st out rs = Inr (st', rs') \<and> rs_detokenizer rs' = rs_detokenizer rs"
  using assms by (simp add: stats_update_from_output_def Let_def)

lemma process_one_ok:
  assumes "eco_new_token_ids out \<noteq> []"
  shows "\<exists>a'. process_one repl a out = Inr a' \<and>
     (\<forall>r. r \<noteq> eco_request_id out \<longrightarrow> map_of (pa_states a') r = map_of (pa_states a) r) \<and>
     (map_of (pa_states a') (eco_request_id out) \<noteq> None \<longleftrightarrow>
        map_of (pa_states a) (eco_request_id out) \<noteq> None \<and>
        \<not> detok_finishes repl (map_of (pa_states a) (eco_request_id out)) out) \<and>
     pa_abort a' = pa_abort a @
       (if detok_finishes repl (map_of (pa_states a) (eco_request_id out)) out \<and> \<not> eco_finished out
        then [eco_request_id out] else [])"
proof (cases "map_of (pa_states a) (eco_request_id out)")
  case None
  then show ?thesis by (simp add: process_one_def detok_finishes_def)
next
  case (Some rs)
  obtain st rs1 where st: "stats_update_from_output (pa_stats a) out rs = Inr (st, rs1)"
    "rs_detokenizer rs1 = rs_detokenizer rs"
    using stats_update_ok [OF assms] by blast
  obtain res d where d: "detok_update_from_output repl (rs_detokenizer rs) out = Inr (res, d)"
    "\<And>x. res = Some x \<Longrightarrow> do_finished x \<longleftrightarrow> do_finish_reason x \<noteq> None"
    using detok_update_ok by blast
  show ?thesis
  proof (cases res)
    case None
    then show ?thesis
      using Some st d by (simp add: process_one_def Let_def detok_finishes_def update_conv')
  next
    case (Some x)
    have fin: "ro_finished (make_request_output rs x) = do_finished x" for rs
      by (simp add: make_request_output_def request_output_new_def Let_def)
    show ?thesis
      using \<open>map_of (pa_states a) (eco_request_id out) = Some rs\<close> Some st d
      by (auto simp: process_one_def Let_def detok_finishes_def update_conv' delete_conv' fin split: option.split)
  qed
qed

lemma process_loop_ok:
  assumes "\<forall>out \<in> set outs. eco_new_token_ids out \<noteq> []" and "distinct (map eco_request_id outs)"
  shows "\<exists>a'. process_loop repl a outs = Inr a' \<and>
     (\<forall>r. map_of (pa_states a') r \<noteq> None \<longleftrightarrow> map_of (pa_states a) r \<noteq> None \<and>
        (\<forall>out \<in> set outs. eco_request_id out = r \<longrightarrow> \<not> detok_finishes repl (map_of (pa_states a) r) out)) \<and>
     pa_abort a' = pa_abort a @ map eco_request_id
       (filter (\<lambda>out. detok_finishes repl (map_of (pa_states a) (eco_request_id out)) out \<and> \<not> eco_finished out) outs)"
  using assms
proof (induction outs arbitrary: a)
  case (Cons out outs)
  obtain a1 where a1: "process_one repl a out = Inr a1"
    "\<And>r. r \<noteq> eco_request_id out \<Longrightarrow> map_of (pa_states a1) r = map_of (pa_states a) r"
    "map_of (pa_states a1) (eco_request_id out) \<noteq> None \<longleftrightarrow> map_of (pa_states a) (eco_request_id out) \<noteq> None \<and>
        \<not> detok_finishes repl (map_of (pa_states a) (eco_request_id out)) out"
    "pa_abort a1 = pa_abort a @ (if detok_finishes repl (map_of (pa_states a) (eco_request_id out)) out \<and> \<not> eco_finished out
        then [eco_request_id out] else [])"
    using process_one_ok [of out repl a] Cons.prems(1) by auto
  have new: "eco_request_id o' \<noteq> eco_request_id out" if "o' \<in> set outs" for o'
    using Cons.prems(2) that by (metis distinct.simps(2) image_eqI list.map(2) list.set_map)
  then have other: "map_of (pa_states a1) (eco_request_id o') = map_of (pa_states a) (eco_request_id o')"
    if "o' \<in> set outs" for o'
    using that by (intro a1(2)) blast
  obtain a2 where a2: "process_loop repl a1 outs = Inr a2"
    "\<And>r. map_of (pa_states a2) r \<noteq> None \<longleftrightarrow> map_of (pa_states a1) r \<noteq> None \<and>
        (\<forall>out \<in> set outs. eco_request_id out = r \<longrightarrow> \<not> detok_finishes repl (map_of (pa_states a1) r) out)"
    "pa_abort a2 = pa_abort a1 @ map eco_request_id
       (filter (\<lambda>out. detok_finishes repl (map_of (pa_states a1) (eco_request_id out)) out \<and> \<not> eco_finished out) outs)"
    using Cons.IH [of a1] Cons.prems by auto
  have "map_of (pa_states a2) r \<noteq> None \<longleftrightarrow> map_of (pa_states a) r \<noteq> None \<and>
      (\<forall>o' \<in> set (out # outs). eco_request_id o' = r \<longrightarrow> \<not> detok_finishes repl (map_of (pa_states a) r) o')" for r
  proof (cases "r = eco_request_id out")
    case True
    then show ?thesis using a2(2) [of r] a1(3) new by auto
  next
    case False
    then show ?thesis using a2(2) [of r] a1(2) [of r] by auto
  qed
  moreover have "filter (\<lambda>out. detok_finishes repl (map_of (pa_states a1) (eco_request_id out)) out \<and> \<not> eco_finished out) outs =
      filter (\<lambda>out. detok_finishes repl (map_of (pa_states a) (eco_request_id out)) out \<and> \<not> eco_finished out) outs"
    by (rule filter_cong) (simp_all add: other)
  ultimately show ?case using a1(1,4) a2(1,3) by simp
qed simp

section \<open>Properties\<close>

text \<open>C30: The search of \<open>check_stop_strings\<close> in a window at the end of the text finds exactly what a search of
  the whole text would find, as long as the text before the new characters holds no stop string.\<close>

theorem stop_window_complete:
  assumes "\<And>s i. s \<in> set stop \<Longrightarrow> \<not> occurs_at s old i"
  shows "check_stop_strings (old @ new) (int (length new)) stop incl = stop_spec (old @ new) stop incl"
  by (rule check_stop_spec [OF assms])

theorem stop_window_complete_witness:
  "check_stop_strings (''say st'' @ ''op now'') 6 [''end'', ''stop''] False = Some (''stop'', 4)"
proof -
  have "occurrences ''end'' ''say st'' = []" "occurrences ''stop'' ''say st'' = []" by code_simp+
  then have no: "\<not> occurs_at s ''say st'' i" if "s \<in> set [''end'', ''stop'']" for s i
    using that by (auto simp: occurrences_Nil_iff)
  have "stop_spec (''say st'' @ ''op now'') [''end'', ''stop''] False = Some (''stop'', 4)" by code_simp
  then show ?thesis using stop_window_complete [where stop = "[''end'', ''stop'']" and new = "''op now''" and incl = False, OF no] by simp
qed

lemma new_request_inv:
  assumes "[] \<notin> set (param_stops (ecr_sampling_params e))"
  shows "stream_inv (detokenizer_from_new_request tk e) []"
  using assms by (auto simp: stream_inv_def detokenizer_from_new_request_def Let_def occurs_at_def split: prod.splits)

text \<open>C29: Streaming changes nothing: for any tokenizer and any engine outputs, the pieces sent with
  \<open>RequestOutputKind.DELTA\<close> concatenate to the text that \<open>FINAL_ONLY\<close> returns when the request finishes,
  whether a stop string or the engine finishes it; before that they are a prefix of the text.\<close>

theorem streamed_text_is_final_text:
  assumes "[] \<notin> set (param_stops (ecr_sampling_params e))"
  shows "\<exists>xs d1 ys d2.
     detok_stream repl ((detokenizer_from_new_request tk e)\<lparr>d_output_kind := DELTA\<rparr>) outs = Inr (xs, d1) \<and>
     detok_stream repl ((detokenizer_from_new_request tk e)\<lparr>d_output_kind := FINAL_ONLY\<rparr>) outs = Inr (ys, d2) \<and>
     (if list_ex do_finished xs then map do_output_text ys = [concat (map do_output_text xs)]
      else ys = [] \<and> prefix (concat (map do_output_text xs)) (d_output_text d2))"
proof -
  let ?d = "detokenizer_from_new_request tk e"
  have "d_last_output_text_offset ?d = 0" by (simp add: detokenizer_from_new_request_def Let_def split: prod.split)
  then have k: "?d\<lparr>d_output_kind := k\<rparr> = as_kind k 0 ?d" for k
    by (cases ?d) (simp add: as_kind_def)
  show ?thesis
    unfolding k
    using stream_eq_final [OF new_request_inv [OF assms], of repl tk outs 0, unfolded list.size(3) of_nat_0 append_Nil] .
qed

lemma process_outputs_ok:
  assumes "\<forall>out \<in> set outs. eco_new_token_ids out \<noteq> []" and "distinct (map eco_request_id outs)"
  shows "\<exists>a op'. process_outputs repl op outs = Inr (a, op') \<and>
     (\<forall>rid. is_request_active op' rid \<longleftrightarrow> is_request_active op rid \<and>
        (\<forall>out \<in> set outs. eco_request_id out = rid \<longrightarrow>
           \<not> detok_finishes repl (map_of (op_request_states op) rid) out)) \<and>
     pa_abort a = map eco_request_id (filter (\<lambda>out.
       detok_finishes repl (map_of (op_request_states op) (eco_request_id out)) out \<and> \<not> eco_finished out) outs)"
proof -
  let ?a = "\<lparr>pa_states = op_request_states op, pa_outputs = [], pa_queued = [], pa_abort = [],
      pa_stats = iteration_stats_init (op_log_stats op)\<rparr>"
  obtain a where "process_loop repl ?a outs = Inr a"
    "\<And>r. map_of (pa_states a) r \<noteq> None \<longleftrightarrow> map_of (op_request_states op) r \<noteq> None \<and>
        (\<forall>out \<in> set outs. eco_request_id out = r \<longrightarrow> \<not> detok_finishes repl (map_of (op_request_states op) r) out)"
    "pa_abort a = map eco_request_id (filter (\<lambda>out.
       detok_finishes repl (map_of (op_request_states op) (eco_request_id out)) out \<and> \<not> eco_finished out) outs)"
    using process_loop_ok [OF assms, of repl ?a] by auto
  then show ?thesis by (auto simp: process_outputs_def is_request_active_def)
qed

text \<open>C31: Processing the outputs of an engine step never raises; outputs of unknown requests are ignored; exactly the
  requests whose detokenizer finishes are dropped, and those among them that the engine has not finished itself
  (a stop string was found) are returned for it to abort.\<close>

theorem process_outputs_spec:
  assumes "\<forall>out \<in> set outs. eco_new_token_ids out \<noteq> []" and "distinct (map eco_request_id outs)"
  shows "\<exists>a op'. process_outputs repl op outs = Inr (a, op') \<and>
     (\<forall>rid. is_request_active op' rid \<longleftrightarrow> is_request_active op rid \<and>
        (\<forall>out \<in> set outs. eco_request_id out = rid \<longrightarrow>
           \<not> detok_finishes repl (map_of (op_request_states op) rid) out)) \<and>
     pa_abort a = map eco_request_id (filter (\<lambda>out.
       detok_finishes repl (map_of (op_request_states op) (eco_request_id out)) out \<and> \<not> eco_finished out) outs)"
  by (rule process_outputs_ok [OF assms])

text \<open>A tokenizer whose token \<open>k\<close> is the character \<open>k\<close>, and an engine that sends one token at a time.\<close>

definition demo_tokenizer :: tokenizer where
  "demo_tokenizer = \<lparr>tk_len = 128,
     tk_convert_ids_to_tokens = (\<lambda>ids skip. map (\<lambda>i. Some [char_of (nat i)]) ids),
     tk_convert_tokens_to_string = (\<lambda>ts. concat (map (\<lambda>t. case t of None \<Rightarrow> [] | Some s \<Rightarrow> s) ts)),
     tk_is_fast = True, tk_added_vocab = [], tk_special_tokens = []\<rparr>"

definition demo_chat :: "string list \<Rightarrow> EngineCoreRequest" where
  "demo_chat stops =
     \<lparr>ecr_request_id = ''c'', ecr_prompt = None, ecr_prompt_token_ids = [63], ecr_mm_inputs = None, ecr_mm_hashes = None,
      ecr_mm_placeholders = None, ecr_sampling_params = default_params\<lparr>sp_stop := Some (StopMany stops)\<rparr>,
      ecr_eos_token_id = None\<rparr>"

definition demo_tokens :: "string \<Rightarrow> EngineCoreOutput" where
  "demo_tokens s = \<lparr>eco_request_id = ''c'', eco_new_token_ids = map of_char s, eco_finished = False,
     eco_finish_reason = None, eco_stop_reason = None\<rparr>"

theorem streamed_text_is_final_text_witness:
  "(case (detok_stream CHR ''~'' ((detokenizer_from_new_request demo_tokenizer (demo_chat [''stop'']))\<lparr>d_output_kind := DELTA\<rparr>)
            (map demo_tokens [''say'', '' s'', ''to'', ''p!'']),
          detok_stream CHR ''~'' ((detokenizer_from_new_request demo_tokenizer (demo_chat [''stop'']))\<lparr>d_output_kind := FINAL_ONLY\<rparr>)
            (map demo_tokens [''say'', '' s'', ''to'', ''p!''])) of
      (Inr (xs, _), Inr (ys, _)) \<Rightarrow>
        list_ex do_finished xs \<and> concat (map do_output_text xs) = ''say '' \<and> map do_output_text ys = [''say '']
    | _ \<Rightarrow> False)"
proof -
  let ?run = "\<lambda>k. detok_stream CHR ''~'' ((detokenizer_from_new_request demo_tokenizer (demo_chat [''stop'']))\<lparr>d_output_kind := k\<rparr>)
      (map demo_tokens [''say'', '' s'', ''to'', ''p!''])"
  have "[] \<notin> set (param_stops (ecr_sampling_params (demo_chat [''stop''])))" by code_simp
  from streamed_text_is_final_text [OF this, of "CHR ''~''" demo_tokenizer "map demo_tokens [''say'', '' s'', ''to'', ''p!'']"]
  obtain xs d1 ys d2 where r: "?run DELTA = Inr (xs, d1)" "?run FINAL_ONLY = Inr (ys, d2)"
    "if list_ex do_finished xs then map do_output_text ys = [concat (map do_output_text xs)]
     else ys = [] \<and> prefix (concat (map do_output_text xs)) (d_output_text d2)" by blast
  have "case ?run DELTA of Inr (xs, _) \<Rightarrow> list_ex do_finished xs \<and> concat (map do_output_text xs) = ''say '' | Inl _ \<Rightarrow> False"
    by code_simp
  then show ?thesis using r(3) unfolding r(1,2) by (simp split: if_splits)
qed


definition demo_processor :: OutputProcessor where
  "demo_processor = (case op_add_request demo_tokenizer (output_processor_init True) (demo_chat [''stop'']) None of
     Inr op \<Rightarrow> op | Inl _ \<Rightarrow> output_processor_init True)"

theorem process_outputs_spec_witness:
  "\<exists>a op'. process_outputs CHR ''~'' demo_processor [demo_tokens ''no stop!''] = Inr (a, op') \<and>
     pa_abort a = [''c''] \<and> \<not> is_request_active op' ''c''"
proof -
  let ?out = "demo_tokens ''no stop!''"
  have o: "eco_request_id ?out = ''c''" "eco_new_token_ids ?out \<noteq> []" "\<not> eco_finished ?out"
    by (simp_all add: demo_tokens_def)
  have "detok_finishes CHR ''~'' (map_of (op_request_states demo_processor) ''c'') ?out" by code_simp
  then show ?thesis
    using process_outputs_spec [of "[?out]" "CHR ''~''" demo_processor] o by auto
qed

end
