(* ===== verification/FrontEnd.thy ===== *)
theory FrontEnd
  imports EngineProps DetokenizerProps
begin

text \<open>
  The front end: the processor that turns a preprocessed prompt into an engine request
  (\<open>vllm/v1/engine/processor.py\<close>, with \<open>merge_and_sort_multimodal_metadata\<close> of
  \<open>vllm/multimodal/utils.py\<close>), and the engine with an in-process core (\<open>LLMEngine\<close> of
  \<open>vllm/v1/engine/llm_engine.py\<close> over \<open>InprocClient\<close> of \<open>core_client.py\<close>).

  The prompt arrives here tokenized: \<open>input_preprocessor\<close> and \<open>input_processor\<close> belong to the model's
  input pipeline, and their result is the argument \<open>ProcessedInputs\<close>.  A dictionary over modalities is an
  association list in insertion order.
\<close>

section \<open>Multi-modal metadata\<close>

type_synonym placeholder_dict = "(string \<times> PlaceholderRange list) list"
type_synonym hash_dict = "(string \<times> string list) list"

text \<open>\<open>xs[0]['offset']\<close>.\<close>

definition first_offset :: "PlaceholderRange list \<Rightarrow> int" where
  "first_offset ps = pr_offset (hd ps)"

text \<open>The loop that flattens the lists and checks for interleaving.\<close>

fun merge_placeholders :: "PlaceholderRange list \<Rightarrow> placeholder_dict \<Rightarrow> PlaceholderRange list py" where
  "merge_placeholders acc [] = Inr acc"
| "merge_placeholders acc ((m, ps) # rest) =
     (if acc \<noteq> [] \<and> first_offset ps < pr_offset (last acc) then Inl ValueError
      else merge_placeholders (acc @ ps) rest)"

definition merge_and_sort_multimodal_metadata ::
  "placeholder_dict \<Rightarrow> hash_dict option \<Rightarrow> (string list \<times> PlaceholderRange list \<times> string list option) py" where
  "merge_and_sort_multimodal_metadata positions hashes =
     (let modalities = map fst positions in
      py_assert (modalities \<noteq> [])
        (if length modalities = 1 then
           (let m = hd modalities; ps = snd (hd positions) in
            case hashes of
              None \<Rightarrow> Inr (modalities, ps, None)
            | Some hs \<Rightarrow> (case map_of hs m of None \<Rightarrow> Inl KeyError | Some h \<Rightarrow> Inr (modalities, ps, Some h)))
         else
           case hashes of
             None \<Rightarrow>
               if list_ex (\<lambda>x. snd x = []) positions then Inl IndexError
               else
                 let sorted_lists = sort_key (\<lambda>x. first_offset (snd x)) positions in
                 py_bind (merge_placeholders [] sorted_lists) (\<lambda>merged. Inr (map fst sorted_lists, merged, None))
           | Some hs \<Rightarrow>
               let hash_lists = map (\<lambda>m. the (map_of hs m)) (filter (\<lambda>m. map_of hs m \<noteq> None) modalities);
                   pairs = zip positions hash_lists in
               if list_ex (\<lambda>x. snd (fst x) = []) pairs then Inl IndexError
               else if pairs = [] then Inl ValueError
               else
                 let sorted_pairs = sort_key (\<lambda>x. first_offset (snd (fst x))) pairs;
                     sorted_lists = map fst sorted_pairs in
                 py_bind (merge_placeholders [] sorted_lists) (\<lambda>merged.
                   Inr (map fst sorted_lists, merged, Some (concat (map snd sorted_pairs))))))"

section \<open>The processor\<close>

record Processor =
  pc_max_model_len :: int
  pc_is_multimodal_model :: bool
  pc_lora_enabled :: bool
  pc_use_hash :: bool
  pc_generation_eos :: "eos_entry option"
  pc_mapper :: MMInputMapperClient

text \<open>
  \<open>di_items\<close>: the items of a merged multi-modal processor, with the modalities of each; \<open>di_images\<close> are
  the images of the legacy pipeline; \<open>di_prompt_hashes\<close> is what \<open>MultiModalHasher\<close> computes.
\<close>

record 'img ProcessedInputs =
  di_is_encoder_decoder :: bool
  di_prompt :: "string option"
  di_prompt_token_ids :: "int list option"
  di_hashes :: hash_dict
  di_prompt_hashes :: "hash_dict option"
  di_items :: "(string list \<times> mm_kwargs) list option"
  di_images :: "'img list"
  di_placeholders :: placeholder_dict
  di_eos_token_id :: "int option"

definition validate_model_inputs :: "Processor \<Rightarrow> 'img ProcessedInputs \<Rightarrow> unit py" where
  "validate_model_inputs pc inp =
     (case di_prompt_token_ids inp of
        None \<Rightarrow> Inl ValueError
      | Some ids \<Rightarrow>
          if ids = [] then Inl ValueError
          else if int (length ids) \<ge> pc_max_model_len pc then Inl ValueError
          else if pc_is_multimodal_model pc \<and> int (length ids) > pc_max_model_len pc then Inl ValueError
          else Inr ())"

text \<open>Sort the inputs to match the sorted modalities; every input has one modality.\<close>

fun index_in :: "'a list \<Rightarrow> 'a \<Rightarrow> nat option" where
  "index_in [] x = None"
| "index_in (y # ys) x = (if x = y then Some 0 else map_option Suc (index_in ys x))"

definition sort_mm_inputs :: "string list \<Rightarrow> (string list \<times> mm_kwargs) list \<Rightarrow> (string list \<times> mm_kwargs) list py" where
  "sort_mm_inputs sorted_modalities items =
     py_assert (\<forall>x \<in> set items. length (fst x) = 1)
       (if list_ex (\<lambda>x. index_in sorted_modalities (hd (fst x)) = None) items then Inl KeyError
        else Inr (sort_key (\<lambda>x. the (index_in sorted_modalities (hd (fst x)))) items))"

text \<open>
  \<open>process_inputs\<close> from the preprocessed inputs on; \<open>mapper\<close> is the model's image preprocessing, \<open>lst\<close> the
  order in which a set is listed.
\<close>

definition process_inputs ::
  "('img \<Rightarrow> mm_kwargs) \<Rightarrow> (int set \<Rightarrow> int list) \<Rightarrow> Processor \<Rightarrow> string \<Rightarrow> bool \<Rightarrow> int \<Rightarrow> bool \<Rightarrow> SamplingParams \<Rightarrow>
   'img ProcessedInputs \<Rightarrow>
   (EngineCoreRequest \<times> Processor) py option" where
  "process_inputs mapper lst pc rid lora priority tracing params inp =
     (if lora \<and> \<not> pc_lora_enabled pc then Some (Inl ValueError)
      else if priority \<noteq> 0 \<or> tracing then Some (Inl AssertionError)
      else
        opy_bind (Some (validate_model_inputs pc inp)) (\<lambda>_.
        if di_is_encoder_decoder inp then Some (Inl NotImplementedError)
        else
          let sp = update_from_generation_config lst params (pc_generation_eos pc) (di_eos_token_id inp);
              hash_dict = (if pc_use_hash pc then if di_hashes inp \<noteq> [] then Some (di_hashes inp) else di_prompt_hashes inp
                           else None);
              request = (\<lambda>ins hs ps.
                \<lparr>ecr_request_id = rid, ecr_prompt = di_prompt inp, ecr_prompt_token_ids = the (di_prompt_token_ids inp),
                 ecr_mm_inputs = ins, ecr_mm_hashes = hs, ecr_mm_placeholders = ps, ecr_sampling_params = sp,
                 ecr_eos_token_id = di_eos_token_id inp\<rparr>) in
          if di_placeholders inp = [] then Some (Inr (request None None None, pc))
          else
            opy_bind (Some (merge_and_sort_multimodal_metadata (di_placeholders inp) hash_dict)) (\<lambda>(mods, ps, hs).
            opy_bind (Some (case di_items inp of
                        None \<Rightarrow> Inr None
                      | Some items \<Rightarrow>
                          if length mods > 1 \<and> items \<noteq> []
                          then py_bind (sort_mm_inputs mods items) (\<lambda>xs. Inr (Some (map snd xs)))
                          else Inr (Some (map snd items)))) (\<lambda>pre.
            opy_bind (client_process_inputs mapper (pc_mapper pc) (di_images inp) hs pre) (\<lambda>(ins, cl).
              Some (Inr (request (Some ins) hs (Some ps), pc\<lparr>pc_mapper := cl\<rparr>)))))))"

section \<open>The engine\<close>

record LLMEngine =
  le_processor :: Processor
  le_output_processor :: OutputProcessor
  le_core :: EngineCore

definition llm_get_num_unfinished_requests :: "LLMEngine \<Rightarrow> int" where
  "llm_get_num_unfinished_requests le = op_get_num_unfinished_requests (le_output_processor le)"

definition llm_has_unfinished_requests :: "LLMEngine \<Rightarrow> bool" where
  "llm_has_unfinished_requests le = op_has_unfinished_requests (le_output_processor le)"

text \<open>\<open>InprocClient.abort_requests\<close>: nothing is sent for an empty list.\<close>

definition client_abort :: "set_order \<Rightarrow> EngineCore \<Rightarrow> string list \<Rightarrow> EngineCore py" where
  "client_abort ord ec rids = (if rids \<noteq> [] then engine_abort_requests ord ec rids else Inr ec)"

definition llm_abort_request :: "set_order \<Rightarrow> LLMEngine \<Rightarrow> string list \<Rightarrow> LLMEngine py" where
  "llm_abort_request ord le rids =
     py_bind (client_abort ord (le_core le) rids) (\<lambda>ec.
       Inr (le\<lparr>le_core := ec, le_output_processor := op_abort_requests (le_output_processor le) rids\<rparr>))"

definition llm_add_request ::
  "('img \<Rightarrow> mm_kwargs) \<Rightarrow> (int set \<Rightarrow> int list) \<Rightarrow> tokenizer \<Rightarrow> LLMEngine \<Rightarrow> string \<Rightarrow> bool \<Rightarrow> int \<Rightarrow> bool \<Rightarrow>
   SamplingParams \<Rightarrow> 'img ProcessedInputs \<Rightarrow> LLMEngine py option" where
  "llm_add_request mapper lst tk le rid lora priority tracing params inp =
     opy_bind (process_inputs mapper lst (le_processor le) rid lora priority tracing params inp) (\<lambda>(e, pc).
       opy_bind (Some (op_add_request tk (le_output_processor le) e None)) (\<lambda>op.
         opy_bind (engine_add_request (le_core le) e) (\<lambda>ec.
           Some (Inr (le\<lparr>le_processor := pc, le_output_processor := op, le_core := ec\<rparr>)))))"

definition llm_step ::
  "py_hash \<Rightarrow> set_order \<Rightarrow> (SchedulerOutput \<Rightarrow> ModelRunnerOutput) \<Rightarrow> (nat \<Rightarrow> enc_message list) \<Rightarrow> char \<Rightarrow> LLMEngine \<Rightarrow>
   (RequestOutput list \<times> LLMEngine) py option" where
  "llm_step hf ord exec arr repl le =
     opy_bind (engine_step hf ord exec arr (le_core le)) (\<lambda>(outs, ec).
       opy_bind (Some (process_outputs repl (le_output_processor le) (ecos_outputs outs))) (\<lambda>(a, op).
         opy_bind (Some (client_abort ord ec (pa_abort a))) (\<lambda>ec'.
           Some (Inr (pa_outputs a, le\<lparr>le_core := ec', le_output_processor := op\<rparr>)))))"

definition llm_reset_prefix_cache :: "LLMEngine \<Rightarrow> LLMEngine" where
  "llm_reset_prefix_cache le = le\<lparr>le_core := engine_reset_prefix_cache (le_core le)\<rparr>"

end
