(* ===== verification/FrontEndProps.thy ===== *)
theory FrontEndProps
  imports FrontEnd
begin

text \<open>
  The front end and the scheduler: what the processor accepts is what the scheduler's invariant asks of a
  new request, and the output processor knows exactly the requests the scheduler knows.
\<close>

section \<open>Multi-modal metadata\<close>

text \<open>The merged placeholders are in the order of the prompt when those of each modality are.\<close>

lemma merge_placeholders_sorted:
  assumes "merge_placeholders acc ds = Inr ps" and "sorted (map pr_offset acc)"
    and "\<forall>(m, qs) \<in> set ds. qs \<noteq> [] \<and> sorted (map pr_offset qs)"
  shows "sorted (map pr_offset ps)"
  using assms
proof (induction ds arbitrary: acc)
  case (Cons d ds)
  obtain m qs where d: "d = (m, qs)" by fastforce
  have qs: "qs \<noteq> []" "sorted (map pr_offset qs)" using Cons.prems(3) d by auto
  have ok: "acc = [] \<or> pr_offset (last acc) \<le> first_offset qs" and rest: "merge_placeholders (acc @ qs) ds = Inr ps"
    using Cons.prems(1) d by (auto split: if_splits)
  have "pr_offset a \<le> pr_offset q" if "a \<in> set acc" "q \<in> set qs" for a q
  proof -
    have "pr_offset a \<le> pr_offset (last acc)"
      using Cons.prems(2) that(1) by (cases acc rule: rev_cases) (auto simp: sorted_append)
    also have "\<dots> \<le> pr_offset (hd qs)" using ok that(1) by (auto simp: first_offset_def)
    also have "\<dots> \<le> pr_offset q" using qs that(2) by (cases qs) auto
    finally show ?thesis .
  qed
  then have "sorted (map pr_offset (acc @ qs))" using Cons.prems(2) qs(2) by (auto simp: sorted_append)
  then show ?case using Cons.IH [OF rest] Cons.prems(3) by auto
qed simp

lemma merge_placeholders_set:
  "merge_placeholders acc ds = Inr ps \<Longrightarrow> ps = acc @ concat (map snd ds)"
  by (induction acc ds rule: merge_placeholders.induct) (auto split: if_splits)

lemma merged_placeholders:
  assumes "merge_and_sort_multimodal_metadata ds hs = Inr (mods, ps, hs')"
  shows "set ps \<subseteq> set (concat (map snd ds))" and "hs' = None \<longleftrightarrow> hs = None"
proof -
  note def = merge_and_sort_multimodal_metadata_def Let_def
  show "hs' = None \<longleftrightarrow> hs = None" using assms by (auto simp: def py_assert_def split: if_splits option.splits) metis
  show "set ps \<subseteq> set (concat (map snd ds))"
  proof (cases "length (map fst ds) = 1")
    case True
    then obtain m qs where "ds = [(m, qs)]" by (cases ds) auto
    then show ?thesis using assms by (auto simp: def split: option.splits)
  next
    case False
    show ?thesis
    proof (cases hs)
      case None
      then have "merge_placeholders [] (sort_key (\<lambda>x. first_offset (snd x)) ds) = Inr ps"
        using assms False by (auto simp: def py_assert_def split: if_splits)
      from merge_placeholders_set [OF this] show ?thesis by simp
    next
      case (Some h)
      define pairs where "pairs = zip ds (map (\<lambda>m. the (map_of h m)) (filter (\<lambda>m. map_of h m \<noteq> None) (map fst ds)))"
      have "merge_placeholders [] (map fst (sort_key (\<lambda>x. first_offset (snd (fst x))) pairs)) = Inr ps"
        using assms False Some by (auto simp: def py_assert_def pairs_def split: if_splits)
      from merge_placeholders_set [OF this] have "set ps \<subseteq> (\<Union>x \<in> set pairs. set (snd (fst x)))" by auto
      also have "\<dots> \<subseteq> (\<Union>x \<in> set ds. set (snd x))" unfolding pairs_def by (auto dest: set_zip_leftD)
      finally show ?thesis by simp
    qed
  qed
qed

section \<open>Requests the processor accepts\<close>

lemma process_inputs_request:
  assumes "process_inputs mapper lst pc rid lora priority tracing params inp = Some (Inr (e, pc'))"
  shows "ecr_request_id e = rid" and "di_prompt_token_ids inp = Some (ecr_prompt_token_ids e)"
    and "ecr_prompt_token_ids e \<noteq> []" and "int (length (ecr_prompt_token_ids e)) < pc_max_model_len pc"
    and "set (or_empty (ecr_mm_placeholders e)) \<subseteq> set (concat (map snd (di_placeholders inp)))"
    and "pc_use_hash pc \<Longrightarrow> di_hashes inp \<noteq> [] \<or> di_prompt_hashes inp \<noteq> None \<Longrightarrow>
      ecr_mm_placeholders e \<noteq> None \<Longrightarrow> ecr_mm_hashes e \<noteq> None"
proof -
  have v: "validate_model_inputs pc inp = Inr ()"
    using assms by (cases "validate_model_inputs pc inp") (auto simp: process_inputs_def split: if_splits)
  have g: "\<not> (lora \<and> \<not> pc_lora_enabled pc)" "\<not> (priority \<noteq> 0 \<or> tracing)" "\<not> di_is_encoder_decoder inp"
    using assms by (auto simp: process_inputs_def v split: if_splits)
  define hd' where "hd' = (if pc_use_hash pc then if di_hashes inp \<noteq> [] then Some (di_hashes inp) else di_prompt_hashes inp
                           else None)"
  have e: "ecr_request_id e = rid \<and> ecr_prompt_token_ids e = the (di_prompt_token_ids inp) \<and>
    ((ecr_mm_placeholders e = None \<and> ecr_mm_hashes e = None) \<or>
     (\<exists>mods ps hs. merge_and_sort_multimodal_metadata (di_placeholders inp) hd' = Inr (mods, ps, hs) \<and>
        ecr_mm_placeholders e = Some ps \<and> ecr_mm_hashes e = hs))"
    using assms g by (auto simp: process_inputs_def v Let_def hd'_def opy_bind_def split: if_splits option.splits sum.splits)
  show "ecr_request_id e = rid" "di_prompt_token_ids inp = Some (ecr_prompt_token_ids e)" "ecr_prompt_token_ids e \<noteq> []"
    "int (length (ecr_prompt_token_ids e)) < pc_max_model_len pc"
    using e v by (auto simp: validate_model_inputs_def split: option.splits if_splits)
  show "set (or_empty (ecr_mm_placeholders e)) \<subseteq> set (concat (map snd (di_placeholders inp)))"
    using e merged_placeholders(1) by (auto simp: or_empty_def) blast
  show "ecr_mm_hashes e \<noteq> None" if conds: "pc_use_hash pc" "di_hashes inp \<noteq> [] \<or> di_prompt_hashes inp \<noteq> None"
    "ecr_mm_placeholders e \<noteq> None"
  proof -
    obtain mods ps where "merge_and_sort_multimodal_metadata (di_placeholders inp) hd' = Inr (mods, ps, ecr_mm_hashes e)"
      using e conds(3) by auto
    from merged_placeholders(2) [OF this] show ?thesis using conds(1,2) by (auto simp: hd'_def)
  qed
qed


lemma server_loop_length:
  "server_loop sv xs hs = Some (Inr (ys, sv')) \<Longrightarrow> length xs = length hs \<Longrightarrow> length ys = length xs"
  by (induction sv xs hs arbitrary: ys sv' rule: server_loop.induct)
    (auto simp: opy_bind_def split: option.splits sum.splits)

lemma server_process_length:
  "server_process_inputs sv xs hs = Some (Inr (ys, sv')) \<Longrightarrow> length ys = length hs"
  by (auto simp: server_process_inputs_def opy_bind_def dest: server_loop_length
      split: if_splits option.splits sum.splits)

lemma received_request:
  assumes "receive_request sv e = Some (Inr (r, sv'))"
  shows "request_wf r" "status r = WAITING" "num_computed_tokens r = 0" "kv_block_hashes r = []"
    "request_id r = ecr_request_id e" "all_token_ids r = ecr_prompt_token_ids e"
    "prompt_token_ids r = ecr_prompt_token_ids e" "mm_positions r = or_empty (ecr_mm_placeholders e)"
    "ecr_mm_hashes e \<noteq> None \<Longrightarrow> mm_keys_ok r"
proof -
  obtain ins where i: "from_engine_core_request (e\<lparr>ecr_mm_inputs := ins\<rparr>) = Inr r"
    and len: "\<And>hs. ecr_mm_hashes e = Some hs \<Longrightarrow> length (or_empty ins) = length hs"
  proof (cases "ecr_mm_hashes e")
    case None
    then have "from_engine_core_request (e\<lparr>ecr_mm_inputs := ecr_mm_inputs e\<rparr>) = Inr r"
      using assms by (cases "from_engine_core_request (e\<lparr>ecr_mm_inputs := ecr_mm_inputs e\<rparr>)")
        (simp_all add: receive_request_def)
    then show thesis by (rule that) (simp add: None)
  next
    case (Some hs)
    then obtain xs ys sv1 where p: "server_process_inputs sv xs hs = Some (Inr (ys, sv1))"
        "from_engine_core_request (e\<lparr>ecr_mm_inputs := Some ys\<rparr>) = Inr r"
      using assms by (auto simp: receive_request_def opy_bind_def split: option.splits sum.splits)
    show thesis
      using Some server_process_length [OF p(1)] by (intro that [OF p(2)]) (simp add: or_empty_def)
  qed
  note init = i [unfolded from_engine_core_request_def]
  show "request_wf r" by (rule request_init_wf [OF init])
  show "status r = WAITING" "num_computed_tokens r = 0" "kv_block_hashes r = []"
    "request_id r = ecr_request_id e" "all_token_ids r = ecr_prompt_token_ids e"
    using request_init_fields [OF init] by simp_all
  show "prompt_token_ids r = ecr_prompt_token_ids e" "mm_positions r = or_empty (ecr_mm_placeholders e)"
    using init by (auto simp: request_init_def split: option.splits)
  show "mm_keys_ok r" if "ecr_mm_hashes e \<noteq> None"
    using that init len by (auto simp: request_init_def mm_keys_ok_def or_empty_def py_assert_def split: option.splits if_splits)
qed

section \<open>Which requests a step of the engine finishes\<close>





lemma take_result_simps [simp]:
  "requests (take_result s msg) = requests s" "running (take_result s msg) = running s" "waiting (take_result s msg) = waiting s"
  by (simp_all add: take_result_def)



section \<open>Properties\<close>

text \<open>C28: Whatever the processor accepts is a request the scheduler can take: after it has been received it is
  well formed, fresh, non-empty and shorter than the model length, its placeholders lie in the prompt and its
  hashes match them, so adding it keeps the scheduler consistent.\<close>

theorem accepted_request_schedulable:
  assumes acc: "process_inputs mapper lst pc rid lora priority tracing params inp = Some (Inr (e, pc'))"
    and rec: "receive_request sv e = Some (Inr (r, sv'))"
    and s: "sched_good s" "requests s rid = None" "s_max_model_len s = pc_max_model_len pc"
    and pos: "\<And>p. p \<in> set (concat (map snd (di_placeholders inp))) \<Longrightarrow>
      pr_offset p + pr_length p \<le> int (length (the (di_prompt_token_ids inp)))"
    and hash: "enable_caching (kv_cache_manager s) \<Longrightarrow>
      pc_use_hash pc \<and> (di_hashes inp \<noteq> [] \<or> di_prompt_hashes inp \<noteq> None)"
  shows "request_wf r \<and> request_id r = rid \<and> sched_good (add_request s r)"
proof -
  note e = process_inputs_request [OF acc] and r = received_request [OF rec]
  have "mm_keys_ok r" if "enable_caching (kv_cache_manager s)"
  proof (cases "ecr_mm_placeholders e")
    case None
    then show ?thesis using r(8) by (simp add: mm_keys_ok_def or_empty_def)
  next
    case (Some ps)
    then show ?thesis using r(9) e(6) hash [OF that] by auto
  qed
  moreover have "pr_offset p + pr_length p \<le> num_prompt_tokens r" if "p \<in> set (mm_positions r)" for p
    using that pos [of p] e(2,5) r(1,7,8) by (auto simp: request_wf_def)
  ultimately have "new_req_ok s r"
    using r e(1,3,4) s by (auto simp: new_req_ok_def num_tokens_def)
  then have "sched_inv (add_request s r)" using add_request_ok s(1) by (simp add: sched_good_def)
  then show ?thesis using r(1,5) e(1) s(1) by (simp add: sched_good_def add_request_def)
qed


definition demo_processor_state :: Processor where
  "demo_processor_state = \<lparr>pc_max_model_len = 12, pc_is_multimodal_model = True, pc_lora_enabled = False, pc_use_hash = True,
     pc_generation_eos = None, pc_mapper = mapper_client_init False\<rparr>"

definition demo_prompt :: "unit ProcessedInputs" where
  "demo_prompt = \<lparr>di_is_encoder_decoder = False, di_prompt = None, di_prompt_token_ids = Some [5, 9, 9, 7],
     di_hashes = [(''image'', [''h''])], di_prompt_hashes = None, di_items = Some [([''image''], 3)], di_images = [],
     di_placeholders = [(''image'', [\<lparr>pr_offset = 1, pr_length = 2\<rparr>])], di_eos_token_id = Some 2\<rparr>"

theorem accepted_request_schedulable_witness:
  "\<exists>e pc' r sv'. process_inputs (\<lambda>_. 0) (\<lambda>_. []) demo_processor_state ''n'' False 0 False default_params demo_prompt =
       Some (Inr (e, pc')) \<and>
     receive_request (mapper_server_init False) e = Some (Inr (r, sv')) \<and> sched_good (add_request demo_sched r)"
proof -
  let ?p = "process_inputs (\<lambda>_. 0) (\<lambda>_. []) demo_processor_state ''n'' False 0 False default_params demo_prompt"
  have "case ?p of
      Some (Inr (e, _)) \<Rightarrow> (case receive_request (mapper_server_init False) e of Some (Inr _) \<Rightarrow> True | _ \<Rightarrow> False)
    | _ \<Rightarrow> False" by code_simp
  then obtain e pc' where e: "?p = Some (Inr (e, pc'))"
    and q: "case receive_request (mapper_server_init False) e of Some (Inr _) \<Rightarrow> True | _ \<Rightarrow> False"
    by (cases ?p; cases "the ?p") auto
  then obtain r sv' where "receive_request (mapper_server_init False) e = Some (Inr (r, sv'))"
    by (cases "receive_request (mapper_server_init False) e"; cases "the (receive_request (mapper_server_init False) e)") auto
  note r = e this
  have "requests demo_sched ''n'' = None" "s_max_model_len demo_sched = pc_max_model_len demo_processor_state" by code_simp+
  moreover have "sched_good demo_sched" by (rule sched_reachable_good [OF demo_sched_reachable [of demo_hash]])
  ultimately have "sched_good (add_request demo_sched r)"
    using accepted_request_schedulable [OF r, of demo_sched] by (simp add: demo_prompt_def demo_processor_state_def)
  with r show ?thesis by blast
qed








end
